(* ===== verification/Prelude.thy ===== *)
theory Prelude
  imports Main "HOL-Library.Word"
begin

unbundle bit_operations_syntax

text \<open>
  Shared vocabulary of the development: the machine integers of the C sources, C's short-circuit
  conjunction over calls that change state, the memory writes of \<^verbatim>\<open>memcpy\<close> and \<^verbatim>\<open>memset\<close> on byte
  buffers, little-endian and big-endian byte packing, and the generic lemmas on lists, words and
  bounded loops that the component theories use.

  Conventions used everywhere:
  \<^item> \<^verbatim>\<open>uint8_t\<close>, \<^verbatim>\<open>uint16_t\<close>, \<^verbatim>\<open>uint32_t\<close>, \<^verbatim>\<open>uint64_t\<close> are \<open>u8\<close>, \<open>u16\<close>, \<open>u32\<close>, \<open>u64\<close>;
    the signed types of the same width share the representation and are read with \<open>sint\<close>;
  \<^item> \<^verbatim>\<open>size_t\<close> is \<open>nat\<close>; every subtraction of the sources on a \<^verbatim>\<open>size_t\<close> is guarded, and the
    well-formedness invariants of the components show that the guard holds;
  \<^item> a caller-owned buffer is the list of all its bytes;
  \<^item> a function that fails returns \<open>False\<close>, \<open>0\<close> or \<open>None\<close> exactly where the source does.
\<close>

section \<open>Machine integers\<close>

type_synonym u8 = "8 word"
type_synonym u16 = "16 word"
type_synonym u32 = "32 word"
type_synonym u64 = "64 word"
type_synonym bytes = "u8 list"

named_theorems byte_defs \<open>definitions of the byte packing functions\<close>
named_theorems buf_simps \<open>rewriting of buffer writes\<close>

section \<open>Short-circuit conjunction of calls that change state\<close>

text \<open>
  \<^verbatim>\<open>f(&s) && g(&s)\<close>: the second call runs in the state the first one left, and only when the
  first one returned true. A longer chain is \<open>all_of\<close>.
\<close>

definition and_then :: "('s \<Rightarrow> bool \<times> 's) \<Rightarrow> ('s \<Rightarrow> bool \<times> 's) \<Rightarrow> 's \<Rightarrow> bool \<times> 's" where
  "and_then f g s = (case f s of (ok, s') \<Rightarrow> if ok then g s' else (False, s'))"

fun all_of :: "('s \<Rightarrow> bool \<times> 's) list \<Rightarrow> 's \<Rightarrow> bool \<times> 's" where
  "all_of [] s = (True, s)"
| "all_of (f # fs) s = and_then f (all_of fs) s"

text \<open>
  A counted loop \<^verbatim>\<open>for (i = 0; i < n; i++) if (!body(i)) return false;\<close> over the elements a
  fixed array holds.
\<close>

definition for_each :: "('a \<Rightarrow> 's \<Rightarrow> bool \<times> 's) \<Rightarrow> 'a list \<Rightarrow> 's \<Rightarrow> bool \<times> 's" where
  "for_each f xs = all_of (map f xs)"

section \<open>Buffers\<close>

text \<open>\<^verbatim>\<open>memcpy(&buf[pos], data, len)\<close> with the \<open>len\<close> bytes of \<open>data\<close>.\<close>

definition blit :: "nat \<Rightarrow> 'a list \<Rightarrow> 'a list \<Rightarrow> 'a list" where
  "blit pos data buf = take pos buf @ data @ drop (pos + length data) buf"

text \<open>The \<open>n\<close> elements from \<open>pos\<close> on.\<close>

definition slice :: "nat \<Rightarrow> nat \<Rightarrow> 'a list \<Rightarrow> 'a list" where
  "slice pos n buf = take n (drop pos buf)"

section \<open>Byte packing\<close>

text \<open>The truncating casts \<^verbatim>\<open>(uint8_t)(v >> s)\<close> of the sources.\<close>

definition byte_at :: "nat \<Rightarrow> 'a::len word \<Rightarrow> u8" where
  [byte_defs]: "byte_at s v = ucast (drop_bit s v)"

definition le_bytes :: "nat \<Rightarrow> 'a::len word \<Rightarrow> bytes" where
  "le_bytes n v = map (\<lambda>i. byte_at (8 * i) v) [0..<n]"

definition be_bytes :: "nat \<Rightarrow> 'a::len word \<Rightarrow> bytes" where
  "be_bytes n v = map (\<lambda>i. byte_at (8 * (n - 1 - i)) v) [0..<n]"

text \<open>\<^verbatim>\<open>v |= (T)b[i] << (8 * i)\<close> over the bytes of \<open>b\<close>.\<close>

fun le_value :: "bytes \<Rightarrow> 'a::len word" where
  "le_value [] = 0"
| "le_value (b # bs) = ucast b OR push_bit 8 (le_value bs)"

definition be_value :: "bytes \<Rightarrow> 'a::len word" where
  "be_value bs = le_value (rev bs)"

section \<open>Lemmas on short-circuit chains\<close>

lemma and_then_True [simp]: "f s = (True, s') \<Longrightarrow> and_then f g s = g s'"
  by (simp add: and_then_def)

lemma and_then_False [simp]: "f s = (False, s') \<Longrightarrow> and_then f g s = (False, s')"
  by (simp add: and_then_def)

lemma and_then_eq_True:
  "and_then f g s = (True, t) \<longleftrightarrow> (\<exists>u. f s = (True, u) \<and> g u = (True, t))"
  by (auto simp: and_then_def split: prod.splits if_splits)

lemma all_of_append: "all_of (fs @ gs) s = and_then (all_of fs) (all_of gs) s"
  by (induction fs arbitrary: s) (auto simp: and_then_def split: prod.splits)

lemma all_of_single [simp]: "all_of [f] s = f s"
  by (auto simp: and_then_def split: prod.splits)

text \<open>An invariant of every step of a chain is an invariant of the chain, successful or not.\<close>

lemma and_then_invariant:
  assumes "\<And>s. I s \<Longrightarrow> I (snd (f s))" and "\<And>s. I s \<Longrightarrow> I (snd (g s))" and "I s"
  shows "I (snd (and_then f g s))"
proof (cases "f s")
  case (Pair ok t)
  with assms(1)[OF assms(3)] have "I t" by simp
  with assms(2) Pair show ?thesis by (cases ok) (auto simp: and_then_def)
qed

lemma all_of_invariant:
  assumes "\<And>f s. f \<in> set fs \<Longrightarrow> I s \<Longrightarrow> I (snd (f s))" and "I s"
  shows "I (snd (all_of fs s))"
  using assms
proof (induction fs arbitrary: s)
  case Nil
  then show ?case by simp
next
  case (Cons f fs)
  have "\<And>s. I s \<Longrightarrow> I (snd (all_of fs s))"
    using Cons.IH Cons.prems(1) by simp
  then show ?case
    using Cons.prems by (auto intro: and_then_invariant)
qed

section \<open>Lemmas on buffers\<close>

lemma length_blit [simp, buf_simps]:
  "pos + length data \<le> length buf \<Longrightarrow> length (blit pos data buf) = length buf"
  by (simp add: blit_def)

lemma blit_Nil [simp]: "blit pos [] buf = buf"
  by (simp add: blit_def)

lemma take_blit [simp]:
  "pos + length data \<le> length buf \<Longrightarrow> take (pos + length data) (blit pos data buf) = take pos buf @ data"
  by (simp add: blit_def)

lemma take_blit_below [simp]:
  "n \<le> pos \<Longrightarrow> pos \<le> length buf \<Longrightarrow> take n (blit pos data buf) = take n buf"
  by (simp add: blit_def)

lemma drop_blit_above [simp]:
  "pos + length data \<le> n \<Longrightarrow> pos + length data \<le> length buf \<Longrightarrow>
     drop n (blit pos data buf) = drop n buf"
  by (simp add: blit_def)

lemma blit_blit [buf_simps]:
  assumes "pos + length xs + length ys \<le> length buf"
  shows "blit (pos + length xs) ys (blit pos xs buf) = blit pos (xs @ ys) buf"
  using assms by (simp add: blit_def add.assoc) (simp add: ac_simps)

lemma length_slice [simp]: "pos + n \<le> length buf \<Longrightarrow> length (slice pos n buf) = n"
  by (simp add: slice_def)

lemma slice_blit [simp]:
  "pos + length data \<le> length buf \<Longrightarrow> slice pos (length data) (blit pos data buf) = data"
  by (simp add: slice_def blit_def)

lemma list_update_blit: "i < length xs \<Longrightarrow> xs[i := x] = blit i [x] xs"
  by (simp add: blit_def upd_conv_take_nth_drop)

section \<open>Lemmas on byte packing\<close>

lemma length_le_bytes [simp]: "length (le_bytes n v) = n"
  by (simp add: le_bytes_def)

lemma length_be_bytes [simp]: "length (be_bytes n v) = n"
  by (simp add: be_bytes_def)

lemma bit_byte_at: "bit (byte_at s v) i \<longleftrightarrow> i < 8 \<and> bit v (s + i)"
  for v :: "'a::len word"
  by (auto simp: byte_at_def bit_simps dest: bit_imp_le_length)

lemma byte_at_0 [simp]: "byte_at 0 v = ucast v"
  by (simp add: byte_at_def)

lemma bit_le_value:
  "bit (le_value bs :: 'a::len word) i \<longleftrightarrow>
     i < LENGTH('a) \<and> i div 8 < length bs \<and> bit (bs ! (i div 8)) (i mod 8)"
proof (induction bs arbitrary: i)
  case Nil
  then show ?case by simp
next
  case (Cons b bs)
  show ?case
  proof (cases "i < 8")
    case True
    then show ?thesis by (auto simp: bit_simps)
  next
    case False
    then have d: "i div 8 = Suc ((i - 8) div 8)" and m: "i mod 8 = (i - 8) mod 8"
      by (simp_all add: div_if mod_if)
    have nb: "\<not> bit b i"
      using False by (auto dest: bit_imp_le_length)
    show ?thesis
      using False nb by (auto simp: bit_simps Cons.IH d m)
  qed
qed

lemma nth_le_bytes [simp]: "i < n \<Longrightarrow> le_bytes n v ! i = byte_at (8 * i) v"
  by (simp add: le_bytes_def)

lemma le_value_le_bytes [simp]:
  fixes v :: "'a::len word"
  assumes "LENGTH('a) \<le> 8 * n"
  shows "le_value (le_bytes n v) = v"
proof (rule bit_word_eqI)
  fix i assume i: "i < LENGTH('a)"
  with assms have "i div 8 < n" by simp
  moreover have "8 * (i div 8) + i mod 8 = i" by simp
  ultimately show "bit (le_value (le_bytes n v) :: 'a word) i \<longleftrightarrow> bit v i"
    using i by (simp add: bit_le_value bit_byte_at)
qed

lemma le_bytes_le_value:
  assumes "8 * length bs \<le> LENGTH('a::len)"
  shows "le_bytes (length bs) (le_value bs :: 'a word) = bs"
proof (rule nth_equalityI)
  fix i assume i: "i < length (le_bytes (length bs) (le_value bs :: 'a word))"
  show "le_bytes (length bs) (le_value bs :: 'a word) ! i = bs ! i"
  proof (rule bit_word_eqI)
    fix j assume j: "j < LENGTH(8)"
    with i assms have "8 * i + j < LENGTH('a)" by simp
    with i j show "bit (le_bytes (length bs) (le_value bs :: 'a word) ! i) j \<longleftrightarrow> bit (bs ! i) j"
      by (simp add: bit_byte_at bit_le_value)
  qed
qed simp

lemma be_bytes_rev: "be_bytes n v = rev (le_bytes n v)"
  by (rule nth_equalityI) (simp_all add: be_bytes_def rev_nth)

lemma be_value_be_bytes [simp]:
  fixes v :: "'a::len word"
  shows "LENGTH('a) \<le> 8 * n \<Longrightarrow> be_value (be_bytes n v) = v"
  by (simp add: be_value_def be_bytes_rev)

end
