(* ===== verification/Task.thy ===== *)
theory Task
  imports Prelude
begin

text \<open>
  \<^verbatim>\<open>rtos/src/task.h\<close> and \<^verbatim>\<open>rtos/src/task.c\<close>: the task structure, its creation and destruction,
  the stack canary and the stack high-water mark.

  A \<^verbatim>\<open>task_t *\<close> is a 64-bit address (\<open>ptr\<close>, with \<open>0\<close> for \<^verbatim>\<open>NULL\<close>). What the C library decides
  is an argument of \<open>task_create\<close>: whether \<^verbatim>\<open>calloc\<close>, \<^verbatim>\<open>malloc\<close> and \<^verbatim>\<open>getcontext\<close> succeed, and the
  bytes of the initial frame that \<^verbatim>\<open>makecontext\<close> leaves at the high end of the stack. Of a
  \<^verbatim>\<open>ucontext_t\<close> the model keeps what the kernel relies on: the stack, the link, and the point
  at which the context resumes.
\<close>

type_synonym ptr = u64

abbreviation TASK_DEFAULT_STACK_SIZE :: nat where "TASK_DEFAULT_STACK_SIZE \<equiv> 64 * 1024"
abbreviation TASK_NAME_MAX :: nat where "TASK_NAME_MAX \<equiv> 16"
abbreviation TASK_CANARY_SIZE :: nat where "TASK_CANARY_SIZE \<equiv> 16"
abbreviation TASK_CANARY_BYTE :: u8 where "TASK_CANARY_BYTE \<equiv> 0xA5"
abbreviation TASK_HWM_POISON_BYTE :: u8 where "TASK_HWM_POISON_BYTE \<equiv> 0xA6"

section \<open>Data\<close>

datatype task_state = TASK_READY | TASK_RUNNING | TASK_BLOCKED | TASK_TERMINATED

text \<open>
  Where a context resumes when it is switched to: at the trampoline with the two halves of the
  task's address, after the \<^verbatim>\<open>swapcontext\<close> of \<^verbatim>\<open>task_yield\<close>, or after the one of
  \<^verbatim>\<open>preempt_handler\<close>.
\<close>

datatype resume_point =
    At_trampoline u32 u32
  | In_task_yield
  | In_preempt_handler

record ucontext =
  ss_size :: nat
  uc_link :: ptr
  resume :: resume_point

record task =
  tid :: int
  tname :: string
  tcontext :: ucontext
  stack :: bytes
  stack_size :: nat
  tstate :: task_state
  priority :: int
  tentry :: ptr
  targ :: ptr
  wake_tick :: u64
  ticks_run :: u64
  ticks_ready :: u64
  pending_preemptions :: int

record alloc_env =
  calloc_result :: ptr
  malloc_ok :: bool
  getcontext_ok :: bool
  initial_frame :: bytes

section \<open>Operations\<close>

text \<open>The task's address travels through \<^verbatim>\<open>makecontext\<close> as two \<^verbatim>\<open>unsigned int\<close>s.\<close>

definition pack_hi :: "ptr \<Rightarrow> u32" where
  "pack_hi packed = ucast (drop_bit 32 packed)"

definition pack_lo :: "ptr \<Rightarrow> u32" where
  "pack_lo packed = ucast (packed AND 0xffffffff)"

definition trampoline_task :: "u32 \<Rightarrow> u32 \<Rightarrow> ptr" where
  "trampoline_task hi lo = (push_bit 32 (ucast hi) OR ucast lo)"

text \<open>
  \<^verbatim>\<open>strncpy(task->name, name, TASK_NAME_MAX - 1)\<close> into zeroed memory, and
  \<^verbatim>\<open>snprintf(task->name, TASK_NAME_MAX, "task%d", id)\<close>.
\<close>

definition name_buf :: "string \<Rightarrow> string" where
  "name_buf s = (let s' = take (TASK_NAME_MAX - 1) s
                 in s' @ replicate (TASK_NAME_MAX - length s') (CHR 0x00))"

fun dec_digits :: "nat \<Rightarrow> string" where
  "dec_digits n = (if n < 10 then [char_of (48 + n)]
                   else dec_digits (n div 10) @ [char_of (48 + n mod 10)])"

declare dec_digits.simps [simp del]

definition dec_string :: "int \<Rightarrow> string" where
  "dec_string i = (if i < 0 then CHR ''-'' # dec_digits (nat (- i)) else dec_digits (nat i))"

text \<open>Poison over the whole stack, then the canary over its low end.\<close>

definition paint_stack :: "nat \<Rightarrow> bytes" where
  "paint_stack sz =
     (let poisoned = replicate sz TASK_HWM_POISON_BYTE
      in if sz \<ge> 2 * TASK_CANARY_SIZE
         then blit 0 (replicate TASK_CANARY_SIZE TASK_CANARY_BYTE) poisoned
         else poisoned)"

text \<open>\<^verbatim>\<open>makecontext\<close> builds the initial frame at the high end of the stack.\<close>

definition push_frame :: "bytes \<Rightarrow> bytes \<Rightarrow> bytes" where
  "push_frame frame stk = blit (length stk - length frame) frame stk"

text \<open>
  The result is the new task with its address, or \<open>None\<close> for \<^verbatim>\<open>NULL\<close>, and the next value of
  \<^verbatim>\<open>g_next_task_id\<close>: an identifier is used up also when \<^verbatim>\<open>getcontext\<close> fails.
\<close>

definition task_create ::
  "string option \<Rightarrow> ptr \<Rightarrow> ptr \<Rightarrow> int \<Rightarrow> nat \<Rightarrow> ptr \<Rightarrow> alloc_env \<Rightarrow> int \<Rightarrow> (ptr \<times> task) option \<times> int"
where
  "task_create nm entry arg prio sz return_ctx env next_id =
     (let sz = (if sz = 0 then TASK_DEFAULT_STACK_SIZE else sz) in
      if calloc_result env = 0 then (None, next_id)
      else if \<not> malloc_ok env then (None, next_id)
      else
        (let i = next_id; next_id = next_id + 1;
             n = (case nm of Some s \<Rightarrow> name_buf s | None \<Rightarrow> name_buf (''task'' @ dec_string i)) in
         if \<not> getcontext_ok env then (None, next_id)
         else
           (let packed = calloc_result env;
                ctx = \<lparr>ss_size = sz, uc_link = return_ctx,
                       resume = At_trampoline (pack_hi packed) (pack_lo packed)\<rparr>
            in (Some (packed,
                  \<lparr>tid = i, tname = n, tcontext = ctx,
                   stack = push_frame (initial_frame env) (paint_stack sz),
                   stack_size = sz, tstate = TASK_READY, priority = prio,
                   tentry = entry, targ = arg, wake_tick = 0, ticks_run = 0, ticks_ready = 0,
                   pending_preemptions = 0\<rparr>), next_id))))"

text \<open>What \<^verbatim>\<open>task_trampoline\<close> does once the entry function has returned.\<close>

definition trampoline_exit :: "task \<Rightarrow> task" where
  "trampoline_exit t = t\<lparr>tstate := TASK_TERMINATED\<rparr>"

definition task_destroy :: "ptr \<Rightarrow> (ptr \<rightharpoonup> task) \<Rightarrow> (ptr \<rightharpoonup> task)" where
  "task_destroy p heap = (if p = 0 then heap else heap(p := None))"

definition task_canary_ok :: "task \<Rightarrow> bool" where
  "task_canary_ok t =
     (if stack_size t < 2 * TASK_CANARY_SIZE then True
      else list_all (\<lambda>i. stack t ! i = TASK_CANARY_BYTE) [0..<TASK_CANARY_SIZE])"

fun hwm_scan :: "task \<Rightarrow> nat list \<Rightarrow> nat" where
  "hwm_scan t [] = 0"
| "hwm_scan t (i # is) =
     (if stack t ! i \<noteq> TASK_HWM_POISON_BYTE then stack_size t - i else hwm_scan t is)"

definition task_stack_high_water_mark :: "task \<Rightarrow> nat" where
  "task_stack_high_water_mark t =
     (if stack_size t < 2 * TASK_CANARY_SIZE then stack_size t
      else hwm_scan t [TASK_CANARY_SIZE..<stack_size t])"

text \<open>\<open>Inl\<close> carries what the fatal message reports before \<^verbatim>\<open>abort\<close>.\<close>

definition task_check_canary_or_abort :: "task \<Rightarrow> (string \<times> int) + unit" where
  "task_check_canary_or_abort t =
     (if \<not> task_canary_ok t then Inl (tname t, tid t) else Inr ())"

section \<open>Lemmas\<close>

lemma length_name_buf [simp]: "length (name_buf s) = TASK_NAME_MAX"
  by (simp add: name_buf_def Let_def)

lemma name_buf_terminated: "name_buf s ! (TASK_NAME_MAX - 1) = CHR 0x00"
  by (simp add: name_buf_def Let_def nth_append)

lemma length_paint_stack [simp]: "length (paint_stack n) = n"
  by (simp add: paint_stack_def Let_def blit_def)

lemma paint_stack_canary:
  "2 * TASK_CANARY_SIZE \<le> n \<Longrightarrow> i < TASK_CANARY_SIZE \<Longrightarrow> paint_stack n ! i = TASK_CANARY_BYTE"
  by (simp add: paint_stack_def Let_def blit_def nth_append)

lemma paint_stack_poison:
  "TASK_CANARY_SIZE \<le> i \<Longrightarrow> i < n \<Longrightarrow> paint_stack n ! i = TASK_HWM_POISON_BYTE"
  by (simp add: paint_stack_def Let_def blit_def nth_append)

lemma length_push_frame [simp]: "length f \<le> length s \<Longrightarrow> length (push_frame f s) = length s"
  by (simp add: push_frame_def)

lemma push_frame_below:
  "length f \<le> length s \<Longrightarrow> i < length s - length f \<Longrightarrow> push_frame f s ! i = s ! i"
  by (simp add: push_frame_def blit_def nth_append)

lemma push_frame_hd:
  "f \<noteq> [] \<Longrightarrow> length f \<le> length s \<Longrightarrow> push_frame f s ! (length s - length f) = hd f"
  by (simp add: push_frame_def blit_def nth_append hd_conv_nth)

text \<open>
  The scan over \<open>[a..<b]\<close> finds the lowest index whose byte is not poison; the mark is the
  distance from there to the top of the stack.
\<close>

lemma hwm_scan_upt_found:
  assumes "a \<le> j" "j < b" "stack t ! j \<noteq> TASK_HWM_POISON_BYTE"
    and "\<And>i. a \<le> i \<Longrightarrow> i < j \<Longrightarrow> stack t ! i = TASK_HWM_POISON_BYTE"
  shows "hwm_scan t [a..<b] = stack_size t - j"
  using assms
proof (induction "j - a" arbitrary: a)
  case 0
  then show ?case by (simp add: upt_conv_Cons)
next
  case (Suc d)
  from Suc.hyps(2) have lt: "a < j" by simp
  with Suc.prems(4) have "stack t ! a = TASK_HWM_POISON_BYTE" by simp
  moreover have "hwm_scan t [Suc a..<b] = stack_size t - j"
    using Suc.hyps(2) Suc.prems lt by (intro Suc.hyps(1)) auto
  ultimately show ?case
    using lt Suc.prems(2) by (simp add: upt_conv_Cons)
qed

lemma hwm_scan_untouched:
  "(\<And>i. i \<in> set is \<Longrightarrow> stack t ! i = TASK_HWM_POISON_BYTE) \<Longrightarrow> hwm_scan t is = 0"
  by (induction "is") auto

lemma hwm_scan_bound: "hwm_scan t [a..<b] \<le> stack_size t - a"
proof (induction "b - a" arbitrary: a)
  case 0
  then show ?case by simp
next
  case (Suc d)
  have "hwm_scan t [Suc a..<b] \<le> stack_size t - Suc a"
    using Suc.hyps(2) by (intro Suc.hyps(1)) simp
  then show ?case
    using Suc.hyps(2) by (simp add: upt_conv_Cons) linarith
qed

lemma pack_unpack:
  "trampoline_task (pack_hi p) (pack_lo p) = p"
proof (rule bit_word_eqI)
  fix i assume "i < LENGTH(64)"
  have "(0xffffffff :: u64) = mask 32"
    by (simp add: mask_eq_exp_minus_1)
  then have m: "bit (0xffffffff :: u64) i \<longleftrightarrow> i < 32"
    using \<open>i < LENGTH(64)\<close> by (simp only: bit_mask_iff) simp
  show "bit (trampoline_task (pack_hi p) (pack_lo p)) i \<longleftrightarrow> bit p i"
    using \<open>i < LENGTH(64)\<close> m
    by (auto simp: trampoline_task_def pack_hi_def pack_lo_def bit_simps)
qed

lemma task_create_stack:
  assumes "fst (task_create nm entry arg prio sz ctx env i) = Some (p, t)"
    and "z = (if sz = 0 then TASK_DEFAULT_STACK_SIZE else sz)"
  shows "stack t = push_frame (initial_frame env) (paint_stack z)" "stack_size t = z"
    "tcontext t = \<lparr>ss_size = z, uc_link = ctx, resume = At_trampoline (pack_hi p) (pack_lo p)\<rparr>"
  using assms by (auto simp: task_create_def Let_def split: if_splits)

lemma fresh_canary_ok:
  assumes "fst (task_create nm entry arg prio sz ctx env i) = Some (p, t)"
    and "length (initial_frame env) + TASK_CANARY_SIZE \<le> stack_size t"
  shows "task_canary_ok t"
proof (cases "stack_size t < 2 * TASK_CANARY_SIZE")
  case True
  then show ?thesis by (simp add: task_canary_ok_def)
next
  case False
  define z where "z = (if sz = 0 then TASK_DEFAULT_STACK_SIZE else sz)"
  note st = task_create_stack[OF assms(1) z_def]
  have "stack t ! j = TASK_CANARY_BYTE" if "j < TASK_CANARY_SIZE" for j
    unfolding st(1) using that False assms(2)
    by (subst push_frame_below) (auto simp: st(2) paint_stack_canary)
  then show ?thesis by (simp add: task_canary_ok_def list_all_iff)
qed

lemma fresh_high_water_mark:
  assumes "fst (task_create nm entry arg prio sz ctx env i) = Some (p, t)"
    and big: "2 * TASK_CANARY_SIZE \<le> stack_size t"
    and fit: "length (initial_frame env) + TASK_CANARY_SIZE \<le> stack_size t"
    and mark: "initial_frame env \<noteq> []" "hd (initial_frame env) \<noteq> TASK_HWM_POISON_BYTE"
  shows "task_stack_high_water_mark t = length (initial_frame env)"
proof -
  define z where "z = (if sz = 0 then TASK_DEFAULT_STACK_SIZE else sz)"
  note st = task_create_stack[OF assms(1) z_def]
  let ?f = "initial_frame env"
  have "hwm_scan t [TASK_CANARY_SIZE..<stack_size t] = stack_size t - (z - length ?f)"
  proof (rule hwm_scan_upt_found)
    show "stack t ! (z - length ?f) \<noteq> TASK_HWM_POISON_BYTE"
      unfolding st(1) using mark fit push_frame_hd[of ?f "paint_stack z"] by (simp add: st(2))
    show "stack t ! j = TASK_HWM_POISON_BYTE" if "TASK_CANARY_SIZE \<le> j" "j < z - length ?f" for j
      unfolding st(1) using that fit
      by (subst push_frame_below) (auto simp: st(2) intro!: paint_stack_poison)
  qed (use fit mark(1) in \<open>auto simp: st(2)\<close>)
  with big fit show ?thesis by (simp add: task_stack_high_water_mark_def st(2))
qed

section \<open>Properties\<close>

text \<open>
  A task that \<^verbatim>\<open>task_create\<close> returns is ready to run, carries the identifier that was next,
  has an intact canary, reports exactly the initial frame as its stack usage, and its trampoline
  recovers the task's own address from the two 32-bit halves passed through \<^verbatim>\<open>makecontext\<close>. The
  frame is whatever \<^verbatim>\<open>makecontext\<close> writes at the high end of a stack it fits in, provided its
  lowest byte differs from the poison byte.
\<close>

theorem task_create_fresh_task:
  assumes "task_create nm entry arg prio sz ctx env i = (Some (p, t), i')"
    and "initial_frame env \<noteq> []" and "hd (initial_frame env) \<noteq> TASK_HWM_POISON_BYTE"
    and "2 * TASK_CANARY_SIZE \<le> stack_size t"
    and "length (initial_frame env) + TASK_CANARY_SIZE \<le> stack_size t"
  shows "tstate t = TASK_READY \<and> tid t = i \<and> i' = i + 1 \<and> priority t = prio \<and> uc_link (tcontext t) = ctx \<and>
     task_canary_ok t \<and> task_stack_high_water_mark t = length (initial_frame env) \<and>
     (\<exists>hi lo. resume (tcontext t) = At_trampoline hi lo \<and> trampoline_task hi lo = p)"
proof -
  have f: "fst (task_create nm entry arg prio sz ctx env i) = Some (p, t)"
    using assms(1) by simp
  have "tstate t = TASK_READY \<and> tid t = i \<and> i' = i + 1 \<and> priority t = prio \<and> uc_link (tcontext t) = ctx"
    using assms(1) by (auto simp: task_create_def Let_def split: if_splits)
  moreover have "resume (tcontext t) = At_trampoline (pack_hi p) (pack_lo p)"
    using task_create_stack(3)[OF f refl] by simp
  ultimately show ?thesis
    using fresh_canary_ok[OF f assms(5)] fresh_high_water_mark[OF f assms(4,5,2,3)] pack_unpack by blast
qed

definition witness_env :: alloc_env where
  "witness_env = \<lparr>calloc_result = 0x5500001000, malloc_ok = True, getcontext_ok = True,
     initial_frame = [0, 7, 7, 7]\<rparr>"

definition witness_task :: task where
  "witness_task = snd (the (fst (task_create None 1 2 5 48 3 witness_env 7)))"

theorem task_create_fresh_task_witness:
  "task_canary_ok witness_task \<and> task_stack_high_water_mark witness_task = 4 \<and> tid witness_task = 7"
proof -
  have c: "task_create None 1 2 5 48 3 witness_env 7 = (Some (0x5500001000, witness_task), 8)"
    by (simp add: witness_task_def task_create_def witness_env_def Let_def)
  have "stack_size witness_task = 48"
    by (simp add: witness_task_def task_create_def witness_env_def Let_def)
  then show ?thesis
    using task_create_fresh_task[OF c] by (simp add: witness_env_def)
qed

text \<open>
  The high-water mark is exact. When the deepest byte the task has changed lies \<open>d\<close> bytes
  below the top of a stack of at least two canary sizes, and above the canary, the mark is \<open>d\<close>;
  when nothing above the canary has been changed it is 0.
\<close>

theorem high_water_mark_exact:
  assumes "2 * TASK_CANARY_SIZE \<le> stack_size t" and "d + TASK_CANARY_SIZE \<le> stack_size t"
    and "\<And>i. TASK_CANARY_SIZE \<le> i \<Longrightarrow> i < stack_size t - d \<Longrightarrow> stack t ! i = TASK_HWM_POISON_BYTE"
    and "0 < d \<Longrightarrow> stack t ! (stack_size t - d) \<noteq> TASK_HWM_POISON_BYTE"
  shows "task_stack_high_water_mark t = d"
proof (cases "d = 0")
  case True
  with assms show ?thesis
    by (auto simp: task_stack_high_water_mark_def intro!: hwm_scan_untouched)
next
  case False
  with assms have "hwm_scan t [TASK_CANARY_SIZE..<stack_size t] = stack_size t - (stack_size t - d)"
    by (intro hwm_scan_upt_found) auto
  with assms(1,2) show ?thesis by (simp add: task_stack_high_water_mark_def)
qed

theorem high_water_mark_exact_witness:
  "task_stack_high_water_mark (witness_task\<lparr>stack := (stack witness_task)[40 := 1]\<rparr>) = 8"
proof -
  let ?t = "witness_task\<lparr>stack := (stack witness_task)[40 := 1]\<rparr>"
  have st: "stack witness_task = replicate 16 0xA5 @ replicate 28 0xA6 @ [0, 7, 7, 7]"
    "stack_size witness_task = 48"
    by (simp_all add: witness_task_def task_create_def witness_env_def push_frame_def paint_stack_def
        blit_def Let_def)
  have "stack ?t ! i = TASK_HWM_POISON_BYTE" if "16 \<le> i" "i < 40" for i
    using that by (auto simp: st(1) nth_append)
  moreover have "stack ?t ! 40 = 1" by (simp add: st(1))
  ultimately show ?thesis
    using high_water_mark_exact[of ?t 8] st(2) by simp
qed

text \<open>
  The canary check looks at the low end of the stack only. Whatever is written above the
  first 16 bytes, at the high end included, leaves its verdict unchanged.
\<close>

theorem canary_guards_low_end_only:
  assumes "TASK_CANARY_SIZE \<le> length (stack t)" and "length s = length (stack t)"
    and "take TASK_CANARY_SIZE s = take TASK_CANARY_SIZE (stack t)"
  shows "task_canary_ok (t\<lparr>stack := s\<rparr>) = task_canary_ok t"
proof -
  have "s ! i = stack t ! i" if "i < TASK_CANARY_SIZE" for i
    using assms that by (metis nth_take)
  then show ?thesis by (simp add: task_canary_ok_def list_all_iff)
qed

theorem canary_guards_low_end_only_witness:
  "task_canary_ok (witness_task\<lparr>stack := replicate 16 0xA5 @ replicate 32 0\<rparr>)"
proof -
  have st: "stack witness_task = replicate 16 0xA5 @ replicate 28 0xA6 @ [0, 7, 7, 7]"
    by (simp add: witness_task_def task_create_def witness_env_def push_frame_def paint_stack_def
        blit_def Let_def)
  have "task_canary_ok witness_task"
    unfolding task_canary_ok_def list_all_iff by (auto simp: st nth_append)
  then show ?thesis
    using canary_guards_low_end_only[of witness_task "replicate 16 0xA5 @ replicate 32 0"]
    by (simp add: st)
qed

end
