(* ===== verification/Scheduler.thy ===== *)
theory Scheduler
  imports Task
begin

text \<open>
  \<^verbatim>\<open>rtos/src/scheduler.h\<close> and \<^verbatim>\<open>rtos/src/scheduler.c\<close>: the ready queue, the selection of the
  next task, the tick handler, sleeping, and the arming of preemption.

  The statics of \<^verbatim>\<open>scheduler.c\<close> are the fields of \<open>kernel\<close>. \<open>heap\<close> holds the \<^verbatim>\<open>task_t\<close> objects by
  address, because the ready queue, the waiter lists and the owner of a mutex all point at the
  same objects; \<open>g_tasks\<close> is the filled part of the array, so its length is \<^verbatim>\<open>g_num_tasks\<close>. A
  \<^verbatim>\<open>swapcontext\<close> ends the operation that calls it: each operation is modelled up to its switch,
  with the resume point it leaves behind, and what runs after the switch is an operation of its
  own (\<open>preempt_resume\<close>, \<open>sched_resume\<close>). The signal disposition and the interval timer of the
  process are the fields \<open>sigalrm\<close> and \<open>itimer\<close>; \<^verbatim>\<open>block_alarm\<close> and \<^verbatim>\<open>restore_mask\<close> are the field
  \<open>alarm_blocked\<close>.
\<close>

abbreviation SCHED_MAX_TASKS :: nat where "SCHED_MAX_TASKS \<equiv> 32"

section \<open>Data\<close>

datatype sighandler = SIG_DFL | Preempt_handler | Other_handler nat

record kernel =
  heap :: "ptr \<rightharpoonup> task"
  g_tasks :: "ptr list"
  g_current_idx :: int
  g_switch_count :: u64
  g_preempt_enabled :: bool
  g_tick_count :: u64
  g_tick_ms :: int
  g_ticks_per_slice :: int
  g_ticks_since_switch :: int
  g_prev_sigaction :: sighandler
  g_next_task_id :: int
  sigalrm :: sighandler
  itimer :: "int \<times> int"
  alarm_blocked :: bool

definition kernel_boot :: kernel where
  "kernel_boot = \<lparr>heap = Map.empty, g_tasks = [], g_current_idx = -1, g_switch_count = 0,
     g_preempt_enabled = False, g_tick_count = 0, g_tick_ms = 1, g_ticks_per_slice = 1,
     g_ticks_since_switch = 0, g_prev_sigaction = SIG_DFL, g_next_task_id = 0,
     sigalrm = SIG_DFL, itimer = (0, 0), alarm_blocked = False\<rparr>"

text \<open>\<^verbatim>\<open>*p\<close>, \<^verbatim>\<open>g_tasks[i]\<close> and an update of the object at \<open>p\<close>.\<close>

definition deref :: "kernel \<Rightarrow> ptr \<Rightarrow> task" where
  "deref k p = the (heap k p)"

definition task_at :: "kernel \<Rightarrow> nat \<Rightarrow> task" where
  "task_at k i = deref k (g_tasks k ! i)"

definition upd_task :: "ptr \<Rightarrow> (task \<Rightarrow> task) \<Rightarrow> kernel \<Rightarrow> kernel" where
  "upd_task p f k = k\<lparr>heap := (heap k)(p := Some (f (deref k p)))\<rparr>"

definition set_state :: "ptr \<Rightarrow> task_state \<Rightarrow> kernel \<Rightarrow> kernel" where
  "set_state p st = upd_task p (\<lambda>t. t\<lparr>tstate := st\<rparr>)"

definition set_resume :: "ptr \<Rightarrow> resume_point \<Rightarrow> kernel \<Rightarrow> kernel" where
  "set_resume p r = upd_task p (\<lambda>t. t\<lparr>tcontext := (tcontext t)\<lparr>resume := r\<rparr>\<rparr>)"

text \<open>The pointer \<^verbatim>\<open>g_tasks[g_current_idx]\<close>.\<close>

definition cur_ptr :: "kernel \<Rightarrow> ptr" where
  "cur_ptr k = g_tasks k ! nat (g_current_idx k)"

section \<open>Operations\<close>

definition scheduler_add_task :: "ptr \<Rightarrow> kernel \<Rightarrow> kernel" where
  "scheduler_add_task p k =
     (if length (g_tasks k) \<ge> SCHED_MAX_TASKS then k else k\<lparr>g_tasks := g_tasks k @ [p]\<rparr>)"

definition scheduler_current_task :: "kernel \<Rightarrow> ptr" where
  "scheduler_current_task k = (if g_current_idx k < 0 then 0 else cur_ptr k)"

text \<open>The first loop of \<^verbatim>\<open>pick_next_ready\<close>: \<open>None\<close> is \<^verbatim>\<open>have_candidate == 0\<close>.\<close>

fun best_ready :: "kernel \<Rightarrow> nat list \<Rightarrow> int option \<Rightarrow> int option" where
  "best_ready k [] best = best"
| "best_ready k (i # is) best =
     (if tstate (task_at k i) = TASK_READY \<and>
         (case best of None \<Rightarrow> True | Some b \<Rightarrow> priority (task_at k i) > b)
      then best_ready k is (Some (priority (task_at k i)))
      else best_ready k is best)"

text \<open>The second loop: the first matching index in cyclic order from \<open>start\<close>.\<close>

fun cyclic_scan :: "kernel \<Rightarrow> int \<Rightarrow> nat \<Rightarrow> nat list \<Rightarrow> int" where
  "cyclic_scan k best start [] = -1"
| "cyclic_scan k best start (i # is) =
     (let idx = (start + i) mod length (g_tasks k) in
      if tstate (task_at k idx) = TASK_READY \<and> priority (task_at k idx) = best
      then int idx else cyclic_scan k best start is)"

definition rr_start :: "kernel \<Rightarrow> nat" where
  "rr_start k = (if g_current_idx k < 0 then 0
                 else nat (g_current_idx k + 1) mod length (g_tasks k))"

definition pick_next_ready :: "kernel \<Rightarrow> int" where
  "pick_next_ready k =
     (if length (g_tasks k) = 0 then -1
      else case best_ready k [0..<length (g_tasks k)] None of
        None \<Rightarrow> -1
      | Some best \<Rightarrow> cyclic_scan k best (rr_start k) [0..<length (g_tasks k)])"

definition any_task_active :: "kernel \<Rightarrow> bool" where
  "any_task_active k \<longleftrightarrow>
     list_ex (\<lambda>i. tstate (task_at k i) \<noteq> TASK_TERMINATED) [0..<length (g_tasks k)]"

definition block_alarm :: "kernel \<Rightarrow> kernel" where
  "block_alarm k = k\<lparr>alarm_blocked := True\<rparr>"

definition restore_mask :: "bool \<Rightarrow> kernel \<Rightarrow> kernel" where
  "restore_mask old_mask k = k\<lparr>alarm_blocked := old_mask\<rparr>"

text \<open>
  One iteration of the loop of \<^verbatim>\<open>scheduler_run\<close>, up to its switch. \<open>Finished\<close>: no task is active,
  the loop is left and \<^verbatim>\<open>g_current_idx\<close> is reset. \<open>Idle\<close>: every remaining task is blocked and the
  loop turns. \<open>Dispatched next\<close>: control passes to the task with index \<open>next\<close>.
\<close>

datatype sched_outcome = Finished | Idle | Dispatched nat

definition sched_iteration :: "kernel \<Rightarrow> sched_outcome \<times> kernel" where
  "sched_iteration k =
     (if \<not> any_task_active k then (Finished, k\<lparr>g_current_idx := -1\<rparr>)
      else
        (let next = pick_next_ready k in
         if next < 0 then (Idle, k)
         else
           (let k = k\<lparr>g_current_idx := next\<rparr>;
                k = set_state (g_tasks k ! nat next) TASK_RUNNING k;
                k = block_alarm k;
                k = k\<lparr>g_switch_count := g_switch_count k + 1\<rparr>
            in (Dispatched (nat next), k))))"

text \<open>
  What \<^verbatim>\<open>scheduler_run\<close> does when control comes back to it: the mask is restored and the canary
  of the task \<open>next\<close> it had dispatched is checked; \<open>Inl\<close> is the abort.
\<close>

definition sched_resume :: "nat \<Rightarrow> bool \<Rightarrow> kernel \<Rightarrow> (string \<times> int) + kernel" where
  "sched_resume next old_mask k =
     (let k = restore_mask old_mask k in
      case task_check_canary_or_abort (task_at k next) of
        Inl e \<Rightarrow> Inl e
      | Inr _ \<Rightarrow> Inr k)"

text \<open>\<^verbatim>\<open>task_yield\<close> up to its switch; the result tells whether control left the task.\<close>

definition task_yield :: "kernel \<Rightarrow> bool \<times> kernel" where
  "task_yield k =
     (if g_current_idx k < 0 then (False, k)
      else
        (let cur = cur_ptr k;
             k = (if tstate (deref k cur) = TASK_RUNNING then set_state cur TASK_READY k else k);
             k = block_alarm k
         in (True, set_resume cur In_task_yield k)))"

text \<open>One task of the loop of \<^verbatim>\<open>update_tick_bookkeeping\<close>.\<close>

definition tick_task :: "u64 \<Rightarrow> task \<Rightarrow> task" where
  "tick_task now t =
     (if tstate t = TASK_RUNNING then t\<lparr>ticks_run := ticks_run t + 1\<rparr>
      else if tstate t = TASK_READY then t\<lparr>ticks_ready := ticks_ready t + 1\<rparr>
      else if tstate t = TASK_BLOCKED \<and> wake_tick t \<noteq> 0 \<and> now \<ge> wake_tick t
      then t\<lparr>wake_tick := 0, tstate := TASK_READY\<rparr>
      else t)"

fun tick_tasks :: "ptr list \<Rightarrow> kernel \<Rightarrow> kernel" where
  "tick_tasks [] k = k"
| "tick_tasks (p # ps) k = tick_tasks ps (upd_task p (tick_task (g_tick_count k)) k)"

definition update_tick_bookkeeping :: "kernel \<Rightarrow> kernel" where
  "update_tick_bookkeeping k = tick_tasks (g_tasks k) k"

text \<open>
  \<^verbatim>\<open>preempt_handler\<close>, up to its switch: \<open>Returned\<close> for every path that returns to the interrupted
  code, \<open>Switched next\<close> when it forces a switch to the task with index \<open>next\<close>.
\<close>

datatype handler_outcome = Returned | Switched nat

definition preempt_handler :: "kernel \<Rightarrow> handler_outcome \<times> kernel" where
  "preempt_handler k0 =
     (let k = update_tick_bookkeeping (k0\<lparr>g_tick_count := g_tick_count k0 + 1\<rparr>) in
      if \<not> g_preempt_enabled k \<or> g_current_idx k < 0 then (Returned, k)
      else
        (let cur = cur_ptr k in
         if tstate (deref k cur) \<noteq> TASK_RUNNING then (Returned, k)
         else if pending_preemptions (deref k cur) > 0 then (Returned, k)
         else
           (let k = k\<lparr>g_ticks_since_switch := g_ticks_since_switch k + 1\<rparr> in
            if g_ticks_since_switch k < g_ticks_per_slice k then (Returned, k)
            else
              (let k = k\<lparr>g_ticks_since_switch := 0\<rparr>;
                   k = set_state cur TASK_READY k;
                   next_idx = pick_next_ready k in
               if next_idx < 0 then (Returned, set_state cur TASK_RUNNING k)
               else
                 (let k = k\<lparr>g_current_idx := next_idx\<rparr>;
                      k = set_state (g_tasks k ! nat next_idx) TASK_RUNNING k;
                      k = upd_task cur (\<lambda>t. t\<lparr>pending_preemptions := pending_preemptions t + 1\<rparr>) k;
                      k = k\<lparr>g_switch_count := g_switch_count k + 1\<rparr>
                  in (Switched (nat next_idx), set_resume cur In_preempt_handler k))))))"

text \<open>The end of the handler, when the task it had switched away from runs again.\<close>

definition preempt_resume :: "ptr \<Rightarrow> kernel \<Rightarrow> kernel" where
  "preempt_resume cur =
     upd_task cur (\<lambda>t. t\<lparr>pending_preemptions := pending_preemptions t - 1\<rparr>)"

text \<open>
  \<^verbatim>\<open>setitimer\<close> keeps the old setting when a component of the value is out of range. The division
  and the remainder are C's, which truncate.
\<close>

definition c_div :: "int \<Rightarrow> int \<Rightarrow> int" where
  "c_div a b = sgn a * sgn b * (\<bar>a\<bar> div \<bar>b\<bar>)"

definition c_mod :: "int \<Rightarrow> int \<Rightarrow> int" where
  "c_mod a b = a - b * c_div a b"

definition setitimer :: "int \<times> int \<Rightarrow> kernel \<Rightarrow> kernel" where
  "setitimer v k = (if fst v < 0 \<or> snd v < 0 \<or> snd v \<ge> 1000000 then k else k\<lparr>itimer := v\<rparr>)"

definition scheduler_enable_preemption :: "int \<Rightarrow> int \<Rightarrow> kernel \<Rightarrow> kernel" where
  "scheduler_enable_preemption tick_ms ticks_per_slice k =
     (let k = k\<lparr>g_tick_ms := if tick_ms > 0 then tick_ms else 1\<rparr>;
          k = k\<lparr>g_ticks_per_slice := if ticks_per_slice > 0 then ticks_per_slice else 1\<rparr>;
          k = k\<lparr>g_ticks_since_switch := 0\<rparr>;
          k = k\<lparr>g_prev_sigaction := sigalrm k, sigalrm := Preempt_handler\<rparr>;
          k = setitimer (c_div tick_ms 1000, c_mod tick_ms 1000 * 1000) k
      in k\<lparr>g_preempt_enabled := True\<rparr>)"

definition scheduler_disable_preemption :: "kernel \<Rightarrow> kernel" where
  "scheduler_disable_preemption k =
     (let k = k\<lparr>g_preempt_enabled := False\<rparr>;
          k = setitimer (0, 0) k
      in k\<lparr>sigalrm := g_prev_sigaction k\<rparr>)"

definition scheduler_tick_count :: "kernel \<Rightarrow> u64" where
  "scheduler_tick_count k = g_tick_count k"

definition scheduler_switch_count :: "kernel \<Rightarrow> u64" where
  "scheduler_switch_count k = g_switch_count k"

text \<open>The number of ticks \<^verbatim>\<open>task_sleep\<close> waits, and \<^verbatim>\<open>task_sleep\<close> up to the switch of its yield.\<close>

definition ticks_to_wait :: "int \<Rightarrow> kernel \<Rightarrow> int" where
  "ticks_to_wait ms k = (let n = c_div ms (g_tick_ms k) in if n \<le> 0 then 1 else n)"

definition task_sleep :: "int \<Rightarrow> kernel \<Rightarrow> bool \<times> kernel" where
  "task_sleep ms k =
     (if g_current_idx k < 0 \<or> ms \<le> 0 then (False, k)
      else
        (let cur = cur_ptr k;
             wt = g_tick_count k + word_of_int (ticks_to_wait ms k);
             k = upd_task cur (\<lambda>t. t\<lparr>wake_tick := wt, tstate := TASK_BLOCKED\<rparr>) k
         in task_yield k))"

definition scheduler_reset :: "kernel \<Rightarrow> kernel" where
  "scheduler_reset k =
     (scheduler_disable_preemption k)\<lparr>g_tasks := [], g_current_idx := -1, g_tick_count := 0,
        g_ticks_since_switch := 0, g_switch_count := 0\<rparr>"

section \<open>Lemmas: the object store\<close>

lemma deref_upd_task [simp]:
  "deref (upd_task p f k) q = (if q = p then f (deref k p) else deref k q)"
  by (simp add: upd_task_def deref_def)

lemma upd_task_frame [simp]:
  "g_tasks (upd_task p f k) = g_tasks k"
  "g_current_idx (upd_task p f k) = g_current_idx k"
  "g_tick_count (upd_task p f k) = g_tick_count k"
  "g_switch_count (upd_task p f k) = g_switch_count k"
  "g_preempt_enabled (upd_task p f k) = g_preempt_enabled k"
  "g_tick_ms (upd_task p f k) = g_tick_ms k"
  "g_ticks_per_slice (upd_task p f k) = g_ticks_per_slice k"
  "g_ticks_since_switch (upd_task p f k) = g_ticks_since_switch k"
  by (simp_all add: upd_task_def)

lemma deref_frame [simp]:
  "deref (k\<lparr>g_current_idx := i\<rparr>) q = deref k q"
  "deref (k\<lparr>g_switch_count := c\<rparr>) q = deref k q"
  "deref (k\<lparr>g_tick_count := c\<rparr>) q = deref k q"
  "deref (k\<lparr>g_ticks_since_switch := i\<rparr>) q = deref k q"
  "deref (k\<lparr>alarm_blocked := b\<rparr>) q = deref k q"
  "deref (k\<lparr>g_tasks := ts\<rparr>) q = deref k q"
  by (simp_all add: deref_def)

lemma block_alarm_frame [simp]:
  "deref (block_alarm k) q = deref k q" "g_tasks (block_alarm k) = g_tasks k"
  "g_current_idx (block_alarm k) = g_current_idx k"
  "g_switch_count (block_alarm k) = g_switch_count k"
  "g_tick_count (block_alarm k) = g_tick_count k"
  "g_tick_ms (block_alarm k) = g_tick_ms k"
  by (simp_all add: block_alarm_def)

lemma set_state_frame [simp]:
  "g_tasks (set_state p st k) = g_tasks k"
  "g_current_idx (set_state p st k) = g_current_idx k"
  "g_tick_count (set_state p st k) = g_tick_count k"
  "g_switch_count (set_state p st k) = g_switch_count k"
  "deref (set_state p st k) q = (if q = p then (deref k p)\<lparr>tstate := st\<rparr> else deref k q)"
  by (simp_all add: set_state_def)

lemma set_resume_frame [simp]:
  "g_tasks (set_resume p r k) = g_tasks k"
  "g_current_idx (set_resume p r k) = g_current_idx k"
  "g_tick_count (set_resume p r k) = g_tick_count k"
  "g_switch_count (set_resume p r k) = g_switch_count k"
  "deref (set_resume p r k) q =
     (if q = p then (deref k p)\<lparr>tcontext := (tcontext (deref k p))\<lparr>resume := r\<rparr>\<rparr> else deref k q)"
  by (simp_all add: set_resume_def)

lemma cur_ptr_frame [simp]:
  "cur_ptr (upd_task p f k) = cur_ptr k" "cur_ptr (set_state p st k) = cur_ptr k"
  "cur_ptr (block_alarm k) = cur_ptr k" "cur_ptr (set_resume p r k) = cur_ptr k"
  "cur_ptr (k\<lparr>g_tick_count := c\<rparr>) = cur_ptr k"
  "cur_ptr (k\<lparr>g_ticks_since_switch := i\<rparr>) = cur_ptr k"
  by (simp_all add: cur_ptr_def)

section \<open>Lemmas: selecting the next task\<close>

definition ready_at :: "kernel \<Rightarrow> nat \<Rightarrow> bool" where
  "ready_at k i \<longleftrightarrow> tstate (task_at k i) = TASK_READY"

definition cyclic_distance :: "kernel \<Rightarrow> nat \<Rightarrow> nat" where
  "cyclic_distance k i = (i + length (g_tasks k) - rr_start k) mod length (g_tasks k)"

lemma best_ready_None:
  "best_ready k is b = None \<longleftrightarrow> b = None \<and> (\<forall>i\<in>set is. \<not> ready_at k i)"
  by (induction "is" arbitrary: b) (auto simp: ready_at_def split: option.splits)

lemma best_ready_attained:
  "best_ready k is b = Some m \<Longrightarrow> b = Some m \<or> (\<exists>i\<in>set is. ready_at k i \<and> priority (task_at k i) = m)"
  by (induction "is" arbitrary: b) (auto simp: ready_at_def split: if_splits)

lemma best_ready_upper:
  "best_ready k is b = Some m \<Longrightarrow>
     (\<forall>i\<in>set is. ready_at k i \<longrightarrow> priority (task_at k i) \<le> m) \<and> (\<forall>c. b = Some c \<longrightarrow> c \<le> m)"
proof (induction "is" arbitrary: b)
  case Nil
  then show ?case by simp
next
  case (Cons i "is")
  show ?case
  proof (cases "ready_at k i \<and> (case b of None \<Rightarrow> True | Some c \<Rightarrow> priority (task_at k i) > c)")
    case True
    with Cons.prems have "best_ready k is (Some (priority (task_at k i))) = Some m"
      by (simp add: ready_at_def)
    from Cons.IH[OF this] True show ?thesis
      by (auto split: option.splits)
  next
    case False
    with Cons.prems have rec: "best_ready k is b = Some m"
      by (auto simp: ready_at_def)
    from Cons.IH[OF rec] False show ?thesis
      by (auto split: option.splits)
  qed
qed

lemma cyclic_scan_find:
  "cyclic_scan k best start is =
     (case List.find (\<lambda>i. ready_at k ((start + i) mod length (g_tasks k)) \<and>
                         priority (task_at k ((start + i) mod length (g_tasks k))) = best) is of
        None \<Rightarrow> -1 | Some i \<Rightarrow> int ((start + i) mod length (g_tasks k)))"
  by (induction "is") (auto simp: Let_def ready_at_def)

lemma cyclic_index:
  fixes s j n :: nat
  assumes "j < n" "s < n"
  shows "(s + (j + n - s) mod n) mod n = j"
proof -
  have "(s + (j + n - s) mod n) mod n = (s + (j + n - s)) mod n"
    by (simp add: mod_add_right_eq)
  also have "\<dots> = j" using assms by simp
  finally show ?thesis .
qed

lemma cyclic_offset:
  fixes s i n :: nat
  assumes "i < n" "s < n"
  shows "((s + i) mod n + n - s) mod n = i"
proof (cases "s + i < n")
  case True
  with assms show ?thesis by simp
next
  case False
  with assms have "(s + i) mod n = s + i - n" by (simp add: mod_if)
  with assms False show ?thesis by simp
qed

lemma rr_start_less: "0 < length (g_tasks k) \<Longrightarrow> rr_start k < length (g_tasks k)"
  by (simp add: rr_start_def)

lemma pick_next_ready_none:
  "pick_next_ready k < 0 \<longleftrightarrow> (\<forall>i<length (g_tasks k). \<not> ready_at k i)"
proof (cases "length (g_tasks k) = 0")
  case True
  then show ?thesis by (simp add: pick_next_ready_def)
next
  case False
  let ?n = "length (g_tasks k)"
  show ?thesis
  proof (cases "best_ready k [0..<?n] None")
    case None
    then have "\<forall>i<?n. \<not> ready_at k i" by (simp add: best_ready_None)
    with None False show ?thesis by (simp add: pick_next_ready_def)
  next
    case (Some m)
    from best_ready_attained[OF Some]
    obtain j where j: "j < ?n" "ready_at k j" "priority (task_at k j) = m" by auto
    let ?i = "(j + ?n - rr_start k) mod ?n"
    have i: "?i < ?n" "(rr_start k + ?i) mod ?n = j"
      using j(1) False rr_start_less by (simp_all add: cyclic_index)
    let ?P = "\<lambda>i. ready_at k ((rr_start k + i) mod ?n) \<and>
      priority (task_at k ((rr_start k + i) mod ?n)) = m"
    have "?P ?i" using i j by simp
    then have "List.find ?P [0..<?n] \<noteq> None"
      using i(1) unfolding find_None_iff by auto
    then obtain x where "List.find ?P [0..<?n] = Some x" by auto
    then have "0 \<le> pick_next_ready k"
      using False Some by (simp add: pick_next_ready_def cyclic_scan_find)
    with j show ?thesis by auto
  qed
qed

lemma pick_next_ready_Some:
  assumes "0 \<le> pick_next_ready k"
  obtains i where "pick_next_ready k = int i" "i < length (g_tasks k)" "ready_at k i"
    "\<And>j. j < length (g_tasks k) \<Longrightarrow> ready_at k j \<Longrightarrow> priority (task_at k j) \<le> priority (task_at k i)"
    "\<And>j. j < length (g_tasks k) \<Longrightarrow> ready_at k j \<Longrightarrow> priority (task_at k j) = priority (task_at k i) \<Longrightarrow>
       cyclic_distance k i \<le> cyclic_distance k j"
proof -
  let ?n = "length (g_tasks k)" and ?s = "rr_start k"
  from assms obtain m where n: "?n \<noteq> 0" and m: "best_ready k [0..<?n] None = Some m"
    by (auto simp: pick_next_ready_def split: if_splits option.splits)
  let ?P = "\<lambda>i. ready_at k ((?s + i) mod ?n) \<and> priority (task_at k ((?s + i) mod ?n)) = m"
  from assms n m obtain x where x: "List.find ?P [0..<?n] = Some x"
    and pick: "pick_next_ready k = int ((?s + x) mod ?n)"
    by (auto simp: pick_next_ready_def cyclic_scan_find split: option.splits)
  from x have xn: "x < ?n" and Px: "?P x" and least: "\<And>y. y < x \<Longrightarrow> \<not> ?P y"
    by (auto simp: find_Some_iff)
  have up: "\<And>j. j < ?n \<Longrightarrow> ready_at k j \<Longrightarrow> priority (task_at k j) \<le> m"
    using best_ready_upper[OF m] by auto
  show thesis
  proof (rule that[OF pick])
    show "(?s + x) mod ?n < ?n" using n by simp
    show "ready_at k ((?s + x) mod ?n)" using Px by simp
    show "priority (task_at k j) \<le> priority (task_at k ((?s + x) mod ?n))"
      if "j < ?n" "ready_at k j" for j using up[OF that] Px by simp
    show "cyclic_distance k ((?s + x) mod ?n) \<le> cyclic_distance k j"
      if j: "j < ?n" "ready_at k j" "priority (task_at k j) = priority (task_at k ((?s + x) mod ?n))" for j
    proof -
      have "cyclic_distance k ((?s + x) mod ?n) = x"
        using xn n rr_start_less by (simp add: cyclic_distance_def cyclic_offset)
      moreover have "?P (cyclic_distance k j)"
        using j Px n rr_start_less by (simp add: cyclic_distance_def cyclic_index)
      then have "x \<le> cyclic_distance k j"
        using least[of "cyclic_distance k j"] by (cases "cyclic_distance k j < x") simp_all
      ultimately show ?thesis by simp
    qed
  qed
qed

section \<open>Lemmas: ticks\<close>

lemma tick_tasks_frame [simp]:
  "g_tasks (tick_tasks ps k) = g_tasks k" "g_current_idx (tick_tasks ps k) = g_current_idx k"
  "g_tick_count (tick_tasks ps k) = g_tick_count k" "g_switch_count (tick_tasks ps k) = g_switch_count k"
  "g_preempt_enabled (tick_tasks ps k) = g_preempt_enabled k"
  "g_ticks_since_switch (tick_tasks ps k) = g_ticks_since_switch k"
  "g_ticks_per_slice (tick_tasks ps k) = g_ticks_per_slice k"
  by (induction ps arbitrary: k) simp_all

lemma deref_tick_tasks_other: "p \<notin> set ps \<Longrightarrow> deref (tick_tasks ps k) p = deref k p"
  by (induction ps arbitrary: k) auto

lemma deref_tick_tasks:
  "distinct ps \<Longrightarrow> p \<in> set ps \<Longrightarrow> deref (tick_tasks ps k) p = tick_task (g_tick_count k) (deref k p)"
  by (induction ps arbitrary: k) (auto simp: deref_tick_tasks_other)

lemma pick_next_ready_minus_one: "pick_next_ready k < 0 \<Longrightarrow> pick_next_ready k = -1"
  by (auto simp: pick_next_ready_def cyclic_scan_find split: if_splits option.splits)

lemma c_div_pos: "0 < b \<Longrightarrow> 0 \<le> a \<Longrightarrow> c_div a b = a div b"
  by (cases "a = 0") (simp_all add: c_div_def)

section \<open>Sample states for the witnesses\<close>

definition sample_task :: "int \<Rightarrow> task_state \<Rightarrow> task" where
  "sample_task prio st = \<lparr>tid = 0, tname = [], tcontext = \<lparr>ss_size = 0, uc_link = 0, resume = In_task_yield\<rparr>,
     stack = [], stack_size = 0, tstate = st, priority = prio, tentry = 0, targ = 0, wake_tick = 0,
     ticks_run = 0, ticks_ready = 0, pending_preemptions = 0\<rparr>"

definition sample_kernel :: "task \<Rightarrow> task \<Rightarrow> task \<Rightarrow> int \<Rightarrow> kernel" where
  "sample_kernel a b c i = kernel_boot\<lparr>heap := [1 \<mapsto> a, 2 \<mapsto> b, 3 \<mapsto> c], g_tasks := [1, 2, 3],
     g_current_idx := i\<rparr>"

lemma sample_kernel_simps:
  "g_tasks (sample_kernel a b c i) = [1, 2, 3]" "g_current_idx (sample_kernel a b c i) = i"
  "deref (sample_kernel a b c i) 1 = a" "deref (sample_kernel a b c i) 2 = b"
  "deref (sample_kernel a b c i) 3 = c"
  by (simp_all add: sample_kernel_def deref_def)

lemma sample_task_simps [simp]:
  "tstate (sample_task v st) = st" "priority (sample_task v st) = v"
  "pending_preemptions (sample_task v st) = 0" "resume (tcontext (sample_task v st)) = In_task_yield"
  "stack_size (sample_task v st) = 0" "wake_tick (sample_task v st) = 0"
  by (simp_all add: sample_task_def)

section \<open>Properties\<close>

text \<open>
  C2: \<^verbatim>\<open>pick_next_ready\<close> returns -1 exactly when no registered task is ready, and otherwise the
  index of a ready task of the highest priority among the ready ones; among those it is the
  first one in cyclic order after the current task.
\<close>

theorem pick_next_ready_correct:
  "if \<exists>i<length (g_tasks k). ready_at k i
   then \<exists>i. pick_next_ready k = int i \<and> i < length (g_tasks k) \<and> ready_at k i \<and>
     (\<forall>j<length (g_tasks k). ready_at k j \<longrightarrow>
        priority (task_at k j) < priority (task_at k i) \<or>
        priority (task_at k j) = priority (task_at k i) \<and> cyclic_distance k i \<le> cyclic_distance k j)
   else pick_next_ready k = -1"
proof (cases "pick_next_ready k < 0")
  case True
  then show ?thesis using pick_next_ready_none pick_next_ready_minus_one by auto
next
  case False
  then have ex: "\<exists>i<length (g_tasks k). ready_at k i" using pick_next_ready_none[of k] by blast
  from False have "0 \<le> pick_next_ready k" by simp
  then obtain i where "pick_next_ready k = int i" "i < length (g_tasks k)" "ready_at k i"
    "\<And>j. j < length (g_tasks k) \<Longrightarrow> ready_at k j \<Longrightarrow> priority (task_at k j) \<le> priority (task_at k i)"
    "\<And>j. j < length (g_tasks k) \<Longrightarrow> ready_at k j \<Longrightarrow> priority (task_at k j) = priority (task_at k i) \<Longrightarrow>
       cyclic_distance k i \<le> cyclic_distance k j"
    using pick_next_ready_Some by blast
  with ex show ?thesis by (auto simp: order.order_iff_strict)
qed

theorem pick_next_ready_correct_witness:
  "pick_next_ready (sample_kernel (sample_task 5 TASK_READY) (sample_task 9 TASK_BLOCKED)
     (sample_task 5 TASK_READY) 0) = 2"
proof -
  let ?k = "sample_kernel (sample_task 5 TASK_READY) (sample_task 9 TASK_BLOCKED)
     (sample_task 5 TASK_READY) 0"
  have l: "length (g_tasks ?k) = 3" by (simp add: sample_kernel_simps)
  have r: "ready_at ?k 0" "\<not> ready_at ?k 1" "ready_at ?k 2"
    by (simp_all add: ready_at_def task_at_def sample_kernel_simps)
  have d: "cyclic_distance ?k 0 = 2" "cyclic_distance ?k 2 = 1"
    by (simp_all add: cyclic_distance_def rr_start_def sample_kernel_simps)
  have "\<exists>i<length (g_tasks ?k). ready_at ?k i"
    unfolding l using r(1) by (intro exI[of _ 0]) simp
  with pick_next_ready_correct[of ?k] obtain i where i: "pick_next_ready ?k = int i" "i < 3" "ready_at ?k i"
    "\<forall>j<3. ready_at ?k j \<longrightarrow> priority (task_at ?k j) < priority (task_at ?k i) \<or>
        priority (task_at ?k j) = priority (task_at ?k i) \<and> cyclic_distance ?k i \<le> cyclic_distance ?k j"
    unfolding l by auto
  have "i \<noteq> 0"
    using i(4)[rule_format, of 2] r(3) d by (cases "i = 0") (simp_all add: task_at_def sample_kernel_simps)
  moreover have "i \<noteq> 1" using i(3) r(2) by auto
  ultimately show ?thesis using i(1,2) by simp
qed

text \<open>
  \<^verbatim>\<open>task_sleep\<close> waits for the number of whole ticks that fit into the requested time, and for
  one tick when none fits. For a request of at least one tick the time slept is therefore never
  more than the request, and it is less than the request unless the tick divides it.
\<close>

theorem sleep_ticks_round_down:
  assumes "0 < g_tick_ms k" and "0 < ms"
  shows "ticks_to_wait ms k = max 1 (ms div g_tick_ms k) \<and>
     (g_tick_ms k \<le> ms \<longrightarrow> ticks_to_wait ms k * g_tick_ms k \<le> ms \<and>
        (ticks_to_wait ms k * g_tick_ms k = ms \<longleftrightarrow> g_tick_ms k dvd ms))"
proof -
  have d: "c_div ms (g_tick_ms k) = ms div g_tick_ms k" using assms by (simp add: c_div_pos)
  then have t: "ticks_to_wait ms k = max 1 (ms div g_tick_ms k)"
    by (auto simp: ticks_to_wait_def Let_def)
  have "ticks_to_wait ms k * g_tick_ms k = ms - ms mod g_tick_ms k" if "g_tick_ms k \<le> ms"
    using that assms t pos_imp_zdiv_pos_iff[of "g_tick_ms k" ms]
    by (simp add: max_def minus_mod_eq_div_mult)
  then show ?thesis
    using t assms by (auto simp: dvd_eq_mod_eq_0)
qed

theorem sleep_ticks_round_down_witness:
  "ticks_to_wait 7 (kernel_boot\<lparr>g_tick_ms := 5\<rparr>) * 5 = (5 :: int)"
  using sleep_ticks_round_down[of "kernel_boot\<lparr>g_tick_ms := 5\<rparr>" 7] by simp

text \<open>
  \<^verbatim>\<open>scheduler_enable_preemption\<close> replaces a tick length that is not positive by 1 in
  \<^verbatim>\<open>g_tick_ms\<close>, but arms the timer with the length it was given: the timer is switched off for 0
  and keeps its old setting for a negative length, while preemption counts as enabled.
\<close>

theorem enable_preemption_bad_tick:
  assumes "tick_ms \<le> 0"
  shows "g_tick_ms (scheduler_enable_preemption tick_ms tps k) = 1 \<and>
     g_preempt_enabled (scheduler_enable_preemption tick_ms tps k) \<and>
     itimer (scheduler_enable_preemption tick_ms tps k) = (if tick_ms = 0 then (0, 0) else itimer k)"
proof (cases "tick_ms = 0")
  case True
  then show ?thesis
    by (simp add: scheduler_enable_preemption_def setitimer_def Let_def c_div_def c_mod_def)
next
  case False
  let ?q = "- tick_ms div 1000"
  have q: "c_div tick_ms 1000 = - ?q" using False assms by (simp add: c_div_def sgn_if)
  have "0 < ?q \<or> ?q = 0 \<and> c_mod tick_ms 1000 = tick_ms"
    using False assms q by (auto simp: c_mod_def pos_imp_zdiv_nonneg_iff less_le)
  then have bad: "c_div tick_ms 1000 < 0 \<or> c_mod tick_ms 1000 * 1000 < 0"
    using q False assms by auto
  then show ?thesis
    using False assms
    by (auto simp: scheduler_enable_preemption_def setitimer_def Let_def)
qed

theorem enable_preemption_bad_tick_witness:
  "itimer (scheduler_enable_preemption 0 1 (kernel_boot\<lparr>itimer := (0, 5000)\<rparr>)) = (0, 0)"
  using enable_preemption_bad_tick[of 0 1 "kernel_boot\<lparr>itimer := (0, 5000)\<rparr>"] by simp

end
