(* ===== verification/Kernel.thy ===== *)
theory Kernel
  imports Scheduler
begin

text \<open>
  \<^verbatim>\<open>rtos/src/kernel.c\<close> and the control flow that ties the operations of \<^verbatim>\<open>scheduler.c\<close> together
  over \<^verbatim>\<open>swapcontext\<close>: who executes (the loop of \<^verbatim>\<open>scheduler_run\<close> or the current task), where a
  switch lands, and the step relation of the whole kernel, in which user code and timer signals
  act in any order.

  Timer signals are steps of their own. A signal is delivered only while it is not blocked;
  \<^verbatim>\<open>preempt_handler\<close> itself runs with the signal blocked (its \<^verbatim>\<open>sigaction\<close> has no \<^verbatim>\<open>SA_NODEFER\<close>), so
  the handler and the decrement after its switch are each one step.
\<close>

section \<open>Data\<close>

datatype cpu = In_scheduler | In_task | Halted | Aborted

text \<open>\<open>sched_next\<close> is the local \<^verbatim>\<open>next\<close> of the suspended \<^verbatim>\<open>scheduler_run\<close>.\<close>

record machine =
  kern :: kernel
  cpu :: cpu
  sched_next :: nat

section \<open>Operations\<close>

text \<open>
  \<^verbatim>\<open>scheduler_return_context\<close> is a fixed address, given as \<open>sched_ctx\<close>. The task lands in the
  store, and in the ready queue when there is room; a failed \<^verbatim>\<open>task_create\<close> registers nothing.
\<close>

definition task_spawn ::
  "string option \<Rightarrow> ptr \<Rightarrow> ptr \<Rightarrow> int \<Rightarrow> ptr \<Rightarrow> alloc_env \<Rightarrow> kernel \<Rightarrow> ptr \<times> kernel"
where
  "task_spawn nm entry arg prio sched_ctx env k =
     (case task_create nm entry arg prio 0 sched_ctx env (g_next_task_id k) of
        (None, i) \<Rightarrow> (0, k\<lparr>g_next_task_id := i\<rparr>)
      | (Some (p, t), i) \<Rightarrow>
          (p, scheduler_add_task p (k\<lparr>g_next_task_id := i, heap := (heap k)(p \<mapsto> t)\<rparr>)))"

text \<open>
  Control arrives in the context of the task at \<open>p\<close>: a task that was suspended in the handler
  first finishes it; the signal is unblocked as the context's own mask says.
\<close>

definition switch_in :: "ptr \<Rightarrow> kernel \<Rightarrow> kernel" where
  "switch_in p k =
     (let k = (case resume (tcontext (deref k p)) of
                 In_preempt_handler \<Rightarrow> preempt_resume p k
               | _ \<Rightarrow> k)
      in k\<lparr>alarm_blocked := False\<rparr>)"

text \<open>Control returns to \<^verbatim>\<open>scheduler_run\<close> after its \<^verbatim>\<open>swapcontext\<close>.\<close>

definition back_to_scheduler :: "kernel \<Rightarrow> machine \<Rightarrow> machine" where
  "back_to_scheduler k m =
     (case sched_resume (sched_next m) False k of
        Inl _ \<Rightarrow> m\<lparr>kern := k, cpu := Aborted\<rparr>
      | Inr k' \<Rightarrow> m\<lparr>kern := k', cpu := In_scheduler\<rparr>)"

text \<open>One turn of the loop of \<^verbatim>\<open>scheduler_run\<close>.\<close>

definition machine_dispatch :: "machine \<Rightarrow> machine" where
  "machine_dispatch m =
     (case sched_iteration (kern m) of
        (Finished, k) \<Rightarrow> m\<lparr>kern := k, cpu := Halted\<rparr>
      | (Idle, k) \<Rightarrow> m\<lparr>kern := k\<rparr>
      | (Dispatched n, k) \<Rightarrow>
          m\<lparr>kern := switch_in (g_tasks k ! n) k, cpu := In_task, sched_next := n\<rparr>)"

text \<open>What the current task can do: yield, sleep, block in a synchronisation primitive, return.\<close>

definition machine_yield :: "machine \<Rightarrow> machine" where
  "machine_yield m =
     (case task_yield (kern m) of
        (True, k) \<Rightarrow> back_to_scheduler k m
      | (False, k) \<Rightarrow> m\<lparr>kern := k\<rparr>)"

definition machine_sleep :: "int \<Rightarrow> machine \<Rightarrow> machine" where
  "machine_sleep ms m =
     (case task_sleep ms (kern m) of
        (True, k) \<Rightarrow> back_to_scheduler k m
      | (False, k) \<Rightarrow> m\<lparr>kern := k\<rparr>)"

definition machine_block :: "machine \<Rightarrow> machine" where
  "machine_block m = machine_yield (m\<lparr>kern := set_state (cur_ptr (kern m)) TASK_BLOCKED (kern m)\<rparr>)"

definition machine_exit :: "machine \<Rightarrow> machine" where
  "machine_exit m =
     back_to_scheduler (upd_task (cur_ptr (kern m)) trampoline_exit (kern m)) m"

text \<open>Delivery of the timer signal.\<close>

definition machine_tick :: "machine \<Rightarrow> machine" where
  "machine_tick m =
     (case preempt_handler (kern m) of
        (Returned, k) \<Rightarrow> m\<lparr>kern := k\<rparr>
      | (Switched n, k) \<Rightarrow> m\<lparr>kern := switch_in (g_tasks k ! n) k\<rparr>)"

definition machine_boot :: machine where
  "machine_boot = \<lparr>kern = kernel_boot, cpu = In_scheduler, sched_next = 0\<rparr>"

text \<open>
  The step relation. \<open>use_stack\<close> is user code writing its own stack, \<open>wake\<close> and \<open>set_priority\<close>
  are what an unlock, a post and priority inheritance do to another task, \<open>spawn\<close> may happen
  before, between and after runs of \<^verbatim>\<open>scheduler_run\<close> or from a task, and a program may reset the
  kernel and run the scheduler again once it has returned. The allocator hands out an address that is not in use.
\<close>

inductive machine_step :: "machine \<Rightarrow> machine \<Rightarrow> bool" where
  dispatch: "cpu m = In_scheduler \<Longrightarrow> machine_step m (machine_dispatch m)"
| yield: "cpu m = In_task \<Longrightarrow> machine_step m (machine_yield m)"
| sleep: "cpu m = In_task \<Longrightarrow> machine_step m (machine_sleep ms m)"
| block: "cpu m = In_task \<Longrightarrow> machine_step m (machine_block m)"
| finish: "cpu m = In_task \<Longrightarrow> machine_step m (machine_exit m)"
| tick: "cpu m \<in> {In_scheduler, In_task} \<Longrightarrow> \<not> alarm_blocked (kern m) \<Longrightarrow>
     sigalrm (kern m) = Preempt_handler \<Longrightarrow> machine_step m (machine_tick m)"
| wake: "cpu m = In_task \<Longrightarrow> p \<in> set (g_tasks (kern m)) \<Longrightarrow> tstate (deref (kern m) p) = TASK_BLOCKED \<Longrightarrow>
     machine_step m (m\<lparr>kern := set_state p TASK_READY (kern m)\<rparr>)"
| set_priority: "cpu m = In_task \<Longrightarrow> p \<in> set (g_tasks (kern m)) \<Longrightarrow>
     machine_step m (m\<lparr>kern := upd_task p (\<lambda>t. t\<lparr>priority := v\<rparr>) (kern m)\<rparr>)"
| use_stack: "cpu m = In_task \<Longrightarrow> length s = stack_size (deref (kern m) (cur_ptr (kern m))) \<Longrightarrow>
     machine_step m (m\<lparr>kern := upd_task (cur_ptr (kern m)) (\<lambda>t. t\<lparr>stack := s\<rparr>) (kern m)\<rparr>)"
| spawn: "cpu m \<noteq> Aborted \<Longrightarrow> calloc_result env \<notin> set (g_tasks (kern m)) \<Longrightarrow>
     machine_step m (m\<lparr>kern := snd (task_spawn nm entry arg prio sched_ctx env (kern m))\<rparr>)"
| enable: "cpu m \<noteq> Aborted \<Longrightarrow>
     machine_step m (m\<lparr>kern := scheduler_enable_preemption tick_ms tps (kern m)\<rparr>)"
| disable: "cpu m \<noteq> Aborted \<Longrightarrow>
     machine_step m (m\<lparr>kern := scheduler_disable_preemption (kern m)\<rparr>)"
| reset: "cpu m = Halted \<Longrightarrow> machine_step m (m\<lparr>kern := scheduler_reset (kern m)\<rparr>)"
| rerun: "cpu m = Halted \<Longrightarrow> machine_step m (m\<lparr>cpu := In_scheduler\<rparr>)"

inductive reachable :: "machine \<Rightarrow> bool" where
  boot: "reachable machine_boot"
| step: "reachable m \<Longrightarrow> machine_step m m' \<Longrightarrow> reachable m'"

section \<open>The invariant of the running kernel\<close>

text \<open>
  The registered tasks are distinct objects and at most 32; \<^verbatim>\<open>g_current_idx\<close> is in range while a
  task runs; the running task, and only it, is \<^verbatim>\<open>TASK_RUNNING\<close>; no task has more than one
  unfinished handler invocation, the running task and a terminated task none, and any other task
  has one exactly when it is suspended in the handler.
\<close>

definition queue_ok :: "kernel \<Rightarrow> bool" where
  "queue_ok k \<longleftrightarrow> distinct (g_tasks k) \<and> length (g_tasks k) \<le> SCHED_MAX_TASKS \<and>
     -1 \<le> g_current_idx k \<and> g_current_idx k < int (length (g_tasks k))"

definition frames_ok :: "task \<Rightarrow> bool" where
  "frames_ok t \<longleftrightarrow>
     pending_preemptions t =
       (if tstate t \<noteq> TASK_TERMINATED \<and> resume (tcontext t) = In_preempt_handler then 1 else 0)"

definition no_running :: "kernel \<Rightarrow> bool" where
  "no_running k \<longleftrightarrow> (\<forall>p\<in>set (g_tasks k). tstate (deref k p) \<noteq> TASK_RUNNING \<and> frames_ok (deref k p))"

definition one_running :: "kernel \<Rightarrow> bool" where
  "one_running k \<longleftrightarrow> 0 \<le> g_current_idx k \<and> tstate (deref k (cur_ptr k)) = TASK_RUNNING \<and>
     pending_preemptions (deref k (cur_ptr k)) = 0 \<and>
     (\<forall>p\<in>set (g_tasks k). p \<noteq> cur_ptr k \<longrightarrow> tstate (deref k p) \<noteq> TASK_RUNNING \<and> frames_ok (deref k p))"

definition machine_inv :: "machine \<Rightarrow> bool" where
  "machine_inv m \<longleftrightarrow> queue_ok (kern m) \<and>
     (case cpu m of In_task \<Rightarrow> one_running (kern m)
      | _ \<Rightarrow> no_running (kern m))"

section \<open>Lemmas: the invariant\<close>

lemma cur_ptr_mem:
  "queue_ok k \<Longrightarrow> 0 \<le> g_current_idx k \<Longrightarrow> cur_ptr k \<in> set (g_tasks k)"
  by (auto simp: queue_ok_def cur_ptr_def)

lemma queue_ok_cong:
  "g_tasks k' = g_tasks k \<Longrightarrow> g_current_idx k' = g_current_idx k \<Longrightarrow> queue_ok k' = queue_ok k"
  by (simp add: queue_ok_def)

lemma pick_in_range:
  assumes "0 \<le> pick_next_ready k"
  shows "nat (pick_next_ready k) < length (g_tasks k)"
    and "tstate (deref k (g_tasks k ! nat (pick_next_ready k))) = TASK_READY"
    and "pick_next_ready k < int (length (g_tasks k))"
proof -
  obtain i where "pick_next_ready k = int i" "i < length (g_tasks k)" "ready_at k i"
    using assms by (rule pick_next_ready_Some)
  then show "nat (pick_next_ready k) < length (g_tasks k)"
    and "tstate (deref k (g_tasks k ! nat (pick_next_ready k))) = TASK_READY"
    and "pick_next_ready k < int (length (g_tasks k))"
    by (simp_all add: ready_at_def task_at_def)
qed

lemma switch_in_frame [simp]:
  "g_tasks (switch_in p k) = g_tasks k" "g_current_idx (switch_in p k) = g_current_idx k"
  "cur_ptr (switch_in p k) = cur_ptr k"
  by (auto simp: switch_in_def Let_def preempt_resume_def cur_ptr_def split: resume_point.splits)

lemma deref_switch_in:
  "deref (switch_in p k) q =
     (if q = p \<and> resume (tcontext (deref k p)) = In_preempt_handler
      then (deref k p)\<lparr>pending_preemptions := pending_preemptions (deref k p) - 1\<rparr>
      else deref k q)"
  by (auto simp: switch_in_def Let_def preempt_resume_def split: resume_point.splits)

lemma dispatch_one_running:
  assumes "queue_ok k" "no_running k" "sched_iteration k = (Dispatched n, k')"
  shows "queue_ok (switch_in (g_tasks k' ! n) k') \<and> one_running (switch_in (g_tasks k' ! n) k')"
proof -
  let ?i = "pick_next_ready k"
  from assms(3) have i: "0 \<le> ?i" and n: "n = nat ?i"
    and k': "k' = (block_alarm (set_state (g_tasks k ! nat ?i) TASK_RUNNING
                    (k\<lparr>g_current_idx := ?i\<rparr>)))\<lparr>g_switch_count := g_switch_count k + 1\<rparr>"
    by (auto simp: sched_iteration_def Let_def split: if_splits)
  note r = pick_in_range[OF i]
  have q: "queue_ok (switch_in (g_tasks k' ! n) k')"
    using assms(1) i r by (simp add: queue_ok_def k')
  have c: "cur_ptr k' = g_tasks k ! nat ?i" by (simp add: k' cur_ptr_def)
  have "one_running (switch_in (g_tasks k' ! n) k')"
    using assms(2) r i c
    by (auto simp: one_running_def no_running_def deref_switch_in frames_ok_def n k' split: if_splits)
  with q show ?thesis by simp
qed

lemma yield_no_running:
  assumes "queue_ok k" "0 \<le> g_current_idx k" "pending_preemptions (deref k (cur_ptr k)) = 0"
    and "\<And>p. p \<in> set (g_tasks k) \<Longrightarrow> p \<noteq> cur_ptr k \<Longrightarrow> tstate (deref k p) \<noteq> TASK_RUNNING \<and> frames_ok (deref k p)"
  shows "\<exists>k'. task_yield k = (True, k') \<and> queue_ok k' \<and> no_running k'"
  using assms
  by (auto simp: task_yield_def Let_def no_running_def frames_ok_def intro: queue_ok_cong[THEN iffD2])

lemma back_to_scheduler_inv:
  assumes "queue_ok k" "no_running k"
  shows "machine_inv (back_to_scheduler k m)"
  using assms
  by (auto simp: back_to_scheduler_def machine_inv_def sched_resume_def restore_mask_def Let_def
      queue_ok_def no_running_def split: sum.splits)

lemma tick_task_props [simp]:
  "tstate (tick_task now t) = TASK_RUNNING \<longleftrightarrow> tstate t = TASK_RUNNING"
  "pending_preemptions (tick_task now t) = pending_preemptions t"
  "tcontext (tick_task now t) = tcontext t"
  "priority (tick_task now t) = priority t"
  "frames_ok (tick_task now t) = frames_ok t"
  by (simp_all add: tick_task_def frames_ok_def)

text \<open>The state in which \<^verbatim>\<open>preempt_handler\<close> takes its decisions.\<close>

definition after_tick :: "kernel \<Rightarrow> kernel" where
  "after_tick k = update_tick_bookkeeping (k\<lparr>g_tick_count := g_tick_count k + 1\<rparr>)"

lemma after_tick_frame [simp]:
  "g_tasks (after_tick k) = g_tasks k" "g_current_idx (after_tick k) = g_current_idx k"
  "cur_ptr (after_tick k) = cur_ptr k" "g_tick_count (after_tick k) = g_tick_count k + 1"
  "g_preempt_enabled (after_tick k) = g_preempt_enabled k"
  by (simp_all add: after_tick_def update_tick_bookkeeping_def cur_ptr_def)

lemma deref_after_tick:
  "distinct (g_tasks k) \<Longrightarrow> p \<in> set (g_tasks k) \<Longrightarrow>
     deref (after_tick k) p = tick_task (g_tick_count k + 1) (deref k p)"
  by (simp add: after_tick_def update_tick_bookkeeping_def deref_tick_tasks)

lemma after_tick_inv:
  assumes "queue_ok k"
  shows "queue_ok (after_tick k)"
    and "no_running k \<Longrightarrow> no_running (after_tick k)"
    and "one_running k \<Longrightarrow> one_running (after_tick k)"
proof -
  have d: "distinct (g_tasks k)" using assms by (simp add: queue_ok_def)
  show "queue_ok (after_tick k)" using assms by (simp add: queue_ok_def)
  show "no_running k \<Longrightarrow> no_running (after_tick k)"
    using d by (simp add: no_running_def deref_after_tick)
  assume o: "one_running k"
  then have "cur_ptr k \<in> set (g_tasks k)"
    using assms by (intro cur_ptr_mem) (simp_all add: one_running_def)
  with o d show "one_running (after_tick k)"
    by (simp add: one_running_def deref_after_tick)
qed

text \<open>
  The forced switch: the current task has just been made ready, so a task is always found and
  the handler's branch for "no other ready task" is never taken.
\<close>

definition forced_switch :: "kernel \<Rightarrow> handler_outcome \<times> kernel" where
  "forced_switch k =
     (let cur = cur_ptr k;
          k = set_state cur TASK_READY (k\<lparr>g_ticks_since_switch := 0\<rparr>);
          next_idx = pick_next_ready k;
          k = set_state (g_tasks k ! nat next_idx) TASK_RUNNING (k\<lparr>g_current_idx := next_idx\<rparr>);
          k = upd_task cur (\<lambda>t. t\<lparr>pending_preemptions := pending_preemptions t + 1\<rparr>) k;
          k = k\<lparr>g_switch_count := g_switch_count k + 1\<rparr>
      in (Switched (nat next_idx), set_resume cur In_preempt_handler k))"

lemma ready_candidate:
  assumes "queue_ok k" "0 \<le> g_current_idx k"
  shows "0 \<le> pick_next_ready (set_state (cur_ptr k) TASK_READY k)"
proof -
  let ?k = "set_state (cur_ptr k) TASK_READY k"
  have "nat (g_current_idx k) < length (g_tasks ?k)"
    using assms by (simp add: queue_ok_def nat_less_iff)
  moreover have "ready_at ?k (nat (g_current_idx k))"
    by (simp add: ready_at_def task_at_def cur_ptr_def)
  ultimately show ?thesis
    using pick_next_ready_none[of ?k] by (metis not_le_imp_less)
qed

lemma preempt_handler_cases:
  assumes q: "queue_ok k" and c: "0 \<le> g_current_idx k"
  shows "preempt_handler k = (Returned, after_tick k) \<or>
     preempt_handler k = (Returned, (after_tick k)\<lparr>g_ticks_since_switch := g_ticks_since_switch (after_tick k) + 1\<rparr>) \<or>
     (preempt_handler k = forced_switch (after_tick k) \<and>
      g_preempt_enabled k \<and> pending_preemptions (deref (after_tick k) (cur_ptr k)) \<le> 0 \<and>
      tstate (deref (after_tick k) (cur_ptr k)) = TASK_RUNNING)"
proof -
  let ?a = "after_tick k"
  have "0 \<le> pick_next_ready (set_state (cur_ptr k) TASK_READY (?a\<lparr>g_ticks_since_switch := 0\<rparr>))"
    using ready_candidate[of "?a\<lparr>g_ticks_since_switch := 0\<rparr>"] after_tick_inv(1)[OF q] c
    by (simp add: queue_ok_def)
  then show ?thesis
    using c unfolding preempt_handler_def forced_switch_def
    by (simp add: after_tick_def[symmetric] Let_def)
qed

lemma preempt_handler_no_running:
  assumes q: "queue_ok k" and n: "no_running k"
  shows "preempt_handler k = (Returned, after_tick k)"
proof (cases "g_current_idx k < 0")
  case True
  then show ?thesis by (simp add: preempt_handler_def after_tick_def[symmetric] Let_def)
next
  case False
  then have "cur_ptr k \<in> set (g_tasks k)" using q by (simp add: cur_ptr_mem)
  then have "tstate (deref (after_tick k) (cur_ptr k)) \<noteq> TASK_RUNNING"
    using after_tick_inv(2)[OF q n] by (simp add: no_running_def)
  then show ?thesis
    by (simp add: preempt_handler_def after_tick_def[symmetric] Let_def)
qed

lemma forced_switch_inv:
  assumes q: "queue_ok k" and o: "one_running k" and f: "forced_switch k = (Switched n, k')"
  shows "queue_ok (switch_in (g_tasks k' ! n) k') \<and> one_running (switch_in (g_tasks k' ! n) k')"
proof -
  let ?cur = "cur_ptr k"
  define kr where "kr = set_state ?cur TASK_READY (k\<lparr>g_ticks_since_switch := 0\<rparr>)"
  let ?i = "pick_next_ready kr"
  have i: "0 \<le> ?i"
    using ready_candidate[of "k\<lparr>g_ticks_since_switch := 0\<rparr>"] q o
    by (simp add: kr_def queue_ok_def one_running_def)
  note r = pick_in_range[OF i]
  have g: "g_tasks kr = g_tasks k" by (simp add: kr_def)
  let ?p = "g_tasks k ! nat ?i"
  from f have n: "n = nat ?i" and k': "k' = set_resume ?cur In_preempt_handler
      ((upd_task ?cur (\<lambda>t. t\<lparr>pending_preemptions := pending_preemptions t + 1\<rparr>)
         (set_state ?p TASK_RUNNING (kr\<lparr>g_current_idx := ?i\<rparr>)))
       \<lparr>g_switch_count := g_switch_count k + 1\<rparr>)"
    by (auto simp: forced_switch_def Let_def kr_def)
  have c: "cur_ptr k' = ?p" by (simp add: k' g cur_ptr_def)
  have q': "queue_ok (switch_in (g_tasks k' ! n) k')"
    using q i r by (simp add: queue_ok_def k' g)
  have "\<And>p. p \<in> set (g_tasks k) \<Longrightarrow> tstate (deref kr p) \<noteq> TASK_RUNNING"
    using o by (simp add: kr_def one_running_def)
  moreover have "\<And>p. p \<in> set (g_tasks k) \<Longrightarrow> p \<noteq> ?cur \<Longrightarrow> frames_ok (deref kr p)"
    using o by (simp add: kr_def one_running_def)
  moreover have "pending_preemptions (deref kr ?cur) = 0"
    using o by (simp add: kr_def one_running_def)
  moreover have "tstate (deref kr ?cur) = TASK_READY" by (simp add: kr_def)
  moreover have "tstate (deref kr ?p) = TASK_READY" using r(2) g by simp
  moreover have "?p \<in> set (g_tasks k)" using r g by simp
  ultimately have "one_running (switch_in (g_tasks k' ! n) k')"
    using i c by (auto simp: one_running_def deref_switch_in frames_ok_def n k' g split: if_splits)
  with q' show ?thesis by simp
qed

lemma machine_tick_inv:
  assumes "machine_inv m" "cpu m \<in> {In_scheduler, In_task}"
  shows "machine_inv (machine_tick m)"
proof (cases "cpu m = In_task")
  case True
  let ?k = "kern m"
  from True assms(1) have q: "queue_ok ?k" and o: "one_running ?k"
    by (simp_all add: machine_inv_def)
  then have c: "0 \<le> g_current_idx ?k" by (simp add: one_running_def)
  note a = after_tick_inv(1)[OF q] after_tick_inv(3)[OF q o]
  consider "preempt_handler ?k = (Returned, after_tick ?k)"
    | "preempt_handler ?k = (Returned, (after_tick ?k)\<lparr>g_ticks_since_switch := g_ticks_since_switch (after_tick ?k) + 1\<rparr>)"
    | "preempt_handler ?k = forced_switch (after_tick ?k)"
    using preempt_handler_cases[OF q c] by blast
  then show ?thesis
  proof cases
    case 1
    with a True show ?thesis by (simp add: machine_tick_def machine_inv_def)
  next
    case 2
    with a True show ?thesis
      by (simp add: machine_tick_def machine_inv_def queue_ok_def one_running_def)
  next
    case 3
    obtain n k' where f: "forced_switch (after_tick ?k) = (Switched n, k')"
      by (simp add: forced_switch_def Let_def)
    from forced_switch_inv[OF a f] 3 f True show ?thesis
      by (simp add: machine_tick_def machine_inv_def)
  qed
next
  case False
  with assms have q: "queue_ok (kern m)" and n: "no_running (kern m)" and s: "cpu m = In_scheduler"
    by (auto simp: machine_inv_def)
  show ?thesis
    using after_tick_inv(1,2)[OF q] n s preempt_handler_no_running[OF q n]
    by (simp add: machine_tick_def machine_inv_def)
qed

lemma machine_dispatch_inv:
  assumes "machine_inv m" "cpu m = In_scheduler"
  shows "machine_inv (machine_dispatch m)"
proof -
  from assms have q: "queue_ok (kern m)" and n: "no_running (kern m)"
    by (simp_all add: machine_inv_def)
  obtain r k where s: "sched_iteration (kern m) = (r, k)" by (cases "sched_iteration (kern m)")
  show ?thesis
  proof (cases r)
    case (Dispatched i)
    with dispatch_one_running[OF q n] s show ?thesis
      by (simp add: machine_dispatch_def machine_inv_def)
  next
    case Finished
    with s have "k = (kern m)\<lparr>g_current_idx := -1\<rparr>"
      by (auto simp: sched_iteration_def Let_def split: if_splits)
    with Finished s q n show ?thesis
      by (simp add: machine_dispatch_def machine_inv_def queue_ok_def no_running_def)
  next
    case Idle
    with s have "k = kern m"
      by (auto simp: sched_iteration_def Let_def split: if_splits)
    with Idle s q n assms show ?thesis
      by (simp add: machine_dispatch_def machine_inv_def)
  qed
qed

text \<open>Every way for the current task to give up the processor ends in \<^verbatim>\<open>task_yield\<close>.\<close>

lemma machine_leave_inv:
  assumes "queue_ok k" "one_running k"
    and keeps: "\<And>t. pending_preemptions (f t) = pending_preemptions t"
    and live: "\<And>t. tstate (f t) \<noteq> TASK_TERMINATED"
  shows "\<exists>k'. task_yield (upd_task (cur_ptr k) f k) = (True, k') \<and> machine_inv (back_to_scheduler k' m)"
proof -
  have "queue_ok (upd_task (cur_ptr k) f k)"
    using assms(1) by (simp add: queue_ok_def)
  then obtain k' where "task_yield (upd_task (cur_ptr k) f k) = (True, k')" "queue_ok k'" "no_running k'"
    using yield_no_running[of "upd_task (cur_ptr k) f k"] assms(2) keeps live
    by (auto simp: one_running_def)
  then show ?thesis using back_to_scheduler_inv by blast
qed

lemma machine_task_ops_inv:
  assumes "machine_inv m" "cpu m = In_task"
  shows "machine_inv (machine_yield m)" "machine_inv (machine_sleep ms m)"
    "machine_inv (machine_block m)" "machine_inv (machine_exit m)"
proof -
  let ?k = "kern m" and ?c = "cur_ptr (kern m)"
  from assms have q: "queue_ok ?k" and o: "one_running ?k" by (simp_all add: machine_inv_def)
  have id: "upd_task ?c (\<lambda>t. t) ?k = ?k" if "heap ?k ?c \<noteq> None"
    using that by (auto simp: upd_task_def deref_def)
  obtain k1 where "task_yield ?k = (True, k1)" "queue_ok k1" "no_running k1"
    using yield_no_running[OF q] o by (auto simp: one_running_def)
  then show "machine_inv (machine_yield m)"
    using back_to_scheduler_inv by (simp add: machine_yield_def)
  obtain k2 where "task_yield (upd_task ?c (\<lambda>t. t\<lparr>tstate := TASK_BLOCKED\<rparr>) ?k) = (True, k2)"
      "machine_inv (back_to_scheduler k2 m)"
    using machine_leave_inv[OF q o, of "\<lambda>t. t\<lparr>tstate := TASK_BLOCKED\<rparr>"] by auto
  then show "machine_inv (machine_block m)"
    by (simp add: machine_block_def machine_yield_def set_state_def back_to_scheduler_def
        split: sum.splits)
  show "machine_inv (machine_sleep ms m)"
  proof (cases "ms \<le> 0")
    case True
    with assms show ?thesis by (simp add: machine_sleep_def task_sleep_def)
  next
    case False
    let ?w = "g_tick_count ?k + word_of_int (ticks_to_wait ms ?k)"
    obtain k3 where "task_yield (upd_task ?c (\<lambda>t. t\<lparr>wake_tick := ?w, tstate := TASK_BLOCKED\<rparr>) ?k) = (True, k3)"
        "machine_inv (back_to_scheduler k3 m)"
      using machine_leave_inv[OF q o, of "\<lambda>t. t\<lparr>wake_tick := ?w, tstate := TASK_BLOCKED\<rparr>"] by auto
    then show ?thesis
      using False o by (simp add: machine_sleep_def task_sleep_def Let_def one_running_def)
  qed
  show "machine_inv (machine_exit m)"
    unfolding machine_exit_def using q o
    by (intro back_to_scheduler_inv)
       (auto simp: queue_ok_def one_running_def no_running_def trampoline_exit_def frames_ok_def)
qed

lemma task_create_state:
  "fst (task_create nm entry arg prio sz ctx env i) = Some (p, t) \<Longrightarrow>
     p = calloc_result env \<and> p \<noteq> 0 \<and> tstate t = TASK_READY \<and> pending_preemptions t = 0 \<and> wake_tick t = 0 \<and>
     priority t = prio \<and> resume (tcontext t) = At_trampoline (pack_hi p) (pack_lo p)"
  by (auto simp: task_create_def Let_def split: if_splits)

lemma task_spawn_cases:
  "(\<exists>i. task_spawn nm entry arg prio ctx env k = (0, k\<lparr>g_next_task_id := i\<rparr>)) \<or>
   (\<exists>t i. fst (task_create nm entry arg prio 0 ctx env (g_next_task_id k)) = Some (calloc_result env, t) \<and>
      task_spawn nm entry arg prio ctx env k =
        (calloc_result env, scheduler_add_task (calloc_result env)
           (k\<lparr>g_next_task_id := i, heap := (heap k)(calloc_result env \<mapsto> t)\<rparr>)))"
proof (cases "task_create nm entry arg prio 0 ctx env (g_next_task_id k)")
  case (Pair r i)
  show ?thesis
  proof (cases r)
    case None
    with Pair show ?thesis by (auto simp: task_spawn_def)
  next
    case (Some pt)
    obtain p t where "pt = (p, t)" by (cases pt)
    with Some Pair task_create_state[of nm entry arg prio 0 ctx env "g_next_task_id k" p t]
    show ?thesis by (auto simp: task_spawn_def)
  qed
qed

lemma spawn_inv:
  assumes "machine_inv m" "calloc_result env \<notin> set (g_tasks (kern m))"
  shows "machine_inv (m\<lparr>kern := snd (task_spawn nm entry arg prio ctx env (kern m))\<rparr>)"
proof -
  let ?k = "kern m" and ?p = "calloc_result env"
  consider i where "task_spawn nm entry arg prio ctx env ?k = (0, ?k\<lparr>g_next_task_id := i\<rparr>)"
    | t i where "fst (task_create nm entry arg prio 0 ctx env (g_next_task_id ?k)) = Some (?p, t)"
      "task_spawn nm entry arg prio ctx env ?k =
        (?p, scheduler_add_task ?p (?k\<lparr>g_next_task_id := i, heap := (heap ?k)(?p \<mapsto> t)\<rparr>))"
    using task_spawn_cases[of nm entry arg prio ctx env ?k] by blast
  then show ?thesis
  proof cases
    case 1
    with assms show ?thesis
      by (simp add: machine_inv_def queue_ok_def one_running_def no_running_def cur_ptr_def deref_def
          split: cpu.splits)
  next
    case 2
    let ?k' = "?k\<lparr>g_next_task_id := i, heap := (heap ?k)(?p \<mapsto> t)\<rparr>"
    from assms(1) have q: "queue_ok ?k" by (simp add: machine_inv_def)
    note st = task_create_state[OF 2(1)]
    have d: "deref ?k' p = (if p = ?p then t else deref ?k p)" for p by (simp add: deref_def)
    have "queue_ok (scheduler_add_task ?p ?k')"
      using q assms(2) by (auto simp: queue_ok_def scheduler_add_task_def)
    moreover have "no_running ?k \<Longrightarrow> no_running (scheduler_add_task ?p ?k')"
      using st by (auto simp: no_running_def scheduler_add_task_def d frames_ok_def)
    moreover have "one_running (scheduler_add_task ?p ?k')" if o: "one_running ?k"
    proof -
      have c: "cur_ptr (scheduler_add_task ?p ?k') = cur_ptr ?k"
        using q o by (auto simp: cur_ptr_def scheduler_add_task_def nth_append queue_ok_def one_running_def)
      have "cur_ptr ?k \<noteq> ?p"
        using cur_ptr_mem[OF q] o assms(2) by (auto simp: one_running_def)
      then show ?thesis
        using o st c by (auto simp: one_running_def scheduler_add_task_def d frames_ok_def split: if_splits)
    qed
    ultimately show ?thesis
      using 2(2) assms(1) by (simp add: machine_inv_def split: cpu.splits)
  qed
qed

lemma kernel_ops_frame:
  "g_tasks (scheduler_enable_preemption a b k) = g_tasks k"
  "g_current_idx (scheduler_enable_preemption a b k) = g_current_idx k"
  "heap (scheduler_enable_preemption a b k) = heap k"
  "g_tasks (scheduler_disable_preemption k) = g_tasks k"
  "g_current_idx (scheduler_disable_preemption k) = g_current_idx k"
  "heap (scheduler_disable_preemption k) = heap k"
  by (simp_all add: scheduler_enable_preemption_def scheduler_disable_preemption_def setitimer_def Let_def)

lemma machine_inv_frame:
  assumes "machine_inv m" "g_tasks k = g_tasks (kern m)" "g_current_idx k = g_current_idx (kern m)"
    "heap k = heap (kern m)"
  shows "machine_inv (m\<lparr>kern := k\<rparr>)"
proof -
  have "deref k = deref (kern m)" using assms(4) by (auto simp: deref_def)
  with assms show ?thesis
    by (simp add: machine_inv_def queue_ok_def one_running_def no_running_def cur_ptr_def split: cpu.splits)
qed

lemma machine_inv_upd:
  assumes "machine_inv m" "cpu m = In_task"
    and "\<And>t. t = deref (kern m) p \<Longrightarrow> pending_preemptions (f t) = pending_preemptions t \<and> tcontext (f t) = tcontext t \<and>
       (tstate (f t) = tstate t \<or> tstate t = TASK_BLOCKED \<and> tstate (f t) = TASK_READY)"
  shows "machine_inv (m\<lparr>kern := upd_task p f (kern m)\<rparr>)"
  using assms by (auto simp: machine_inv_def queue_ok_def one_running_def frames_ok_def)

lemma machine_step_inv: "machine_step m m' \<Longrightarrow> machine_inv m \<Longrightarrow> machine_inv m'"
proof (induction rule: machine_step.induct)
  case (use_stack m s)
  then show ?case by (intro machine_inv_upd) auto
next
  case (set_priority m p v)
  then show ?case by (intro machine_inv_upd) auto
next
  case (wake m p)
  then show ?case unfolding set_state_def by (intro machine_inv_upd) auto
next
  case (reset m)
  then show ?case
    by (simp add: machine_inv_def scheduler_reset_def queue_ok_def no_running_def)
next
  case (rerun m)
  then show ?case by (simp add: machine_inv_def)
qed (auto intro: machine_dispatch_inv machine_task_ops_inv machine_tick_inv spawn_inv
       machine_inv_frame simp: kernel_ops_frame)

lemma reachable_inv: "reachable m \<Longrightarrow> machine_inv m"
proof (induction rule: reachable.induct)
  case boot
  show ?case
    by (simp add: machine_boot_def kernel_boot_def machine_inv_def queue_ok_def no_running_def)
next
  case (step m m')
  then show ?case by (blast intro: machine_step_inv)
qed

section \<open>Lemmas: cooperative round robin\<close>

lemma pick_all_equal:
  assumes n: "0 < length (g_tasks k)"
    and r: "\<And>i. i < length (g_tasks k) \<Longrightarrow> ready_at k i \<and> priority (task_at k i) = v"
  shows "pick_next_ready k = int (rr_start k)"
proof -
  let ?n = "length (g_tasks k)" and ?s = "rr_start k"
  have s: "?s < ?n" using n by (rule rr_start_less)
  have "\<not> pick_next_ready k < 0" using pick_next_ready_none[of k] n r by blast
  then obtain i where i: "pick_next_ready k = int i" "i < ?n"
    and least: "\<And>j. j < ?n \<Longrightarrow> ready_at k j \<Longrightarrow> priority (task_at k j) = priority (task_at k i) \<Longrightarrow>
       cyclic_distance k i \<le> cyclic_distance k j"
    by (meson not_le_imp_less pick_next_ready_Some)
  have "cyclic_distance k i \<le> cyclic_distance k ?s" using least[OF s] r s i by simp
  then have "cyclic_distance k i = 0" using s by (simp add: cyclic_distance_def)
  then have "i = ?s" using cyclic_index[OF i(2) s] s by (simp add: cyclic_distance_def)
  with i show ?thesis by simp
qed

text \<open>
  Every registered task is runnable at the same priority and has an intact canary; one of them
  is running.
\<close>

definition round_robin :: "int \<Rightarrow> machine \<Rightarrow> bool" where
  "round_robin v m \<longleftrightarrow> cpu m = In_task \<and> queue_ok (kern m) \<and> one_running (kern m) \<and>
     sched_next m < length (g_tasks (kern m)) \<and>
     (\<forall>p\<in>set (g_tasks (kern m)). priority (deref (kern m) p) = v \<and> task_canary_ok (deref (kern m) p) \<and>
        tstate (deref (kern m) p) \<in> {TASK_READY, TASK_RUNNING})"

lemma task_canary_ok_cong [simp]:
  "task_canary_ok (t\<lparr>tstate := st\<rparr>) = task_canary_ok t"
  "task_canary_ok (t\<lparr>tcontext := c\<rparr>) = task_canary_ok t"
  "task_canary_ok (t\<lparr>pending_preemptions := n\<rparr>) = task_canary_ok t"
  "task_canary_ok (t\<lparr>wake_tick := w\<rparr>) = task_canary_ok t"
  "task_canary_ok (t\<lparr>ticks_run := w\<rparr>) = task_canary_ok t"
  "task_canary_ok (t\<lparr>ticks_ready := w\<rparr>) = task_canary_ok t"
  by (simp_all add: task_canary_ok_def)

lemma round_robin_yield:
  assumes "round_robin v m"
  shows "cpu (machine_yield m) = In_scheduler \<and> g_tasks (kern (machine_yield m)) = g_tasks (kern m) \<and>
     g_current_idx (kern (machine_yield m)) = g_current_idx (kern m) \<and>
     (\<forall>p\<in>set (g_tasks (kern m)). priority (deref (kern (machine_yield m)) p) = v \<and>
        task_canary_ok (deref (kern (machine_yield m)) p) \<and>
        tstate (deref (kern (machine_yield m)) p) = TASK_READY)"
proof -
  let ?k = "kern m"
  from assms have q: "queue_ok ?k" and o: "one_running ?k"
    and nx: "sched_next m < length (g_tasks ?k)"
    and all: "\<And>p. p \<in> set (g_tasks ?k) \<Longrightarrow> priority (deref ?k p) = v \<and> task_canary_ok (deref ?k p) \<and>
        tstate (deref ?k p) \<in> {TASK_READY, TASK_RUNNING}"
    by (auto simp: round_robin_def)
  from o have cur: "0 \<le> g_current_idx ?k" "tstate (deref ?k (cur_ptr ?k)) = TASK_RUNNING"
    by (simp_all add: one_running_def)
  define k' where "k' = set_resume (cur_ptr ?k) In_task_yield
    (block_alarm (set_state (cur_ptr ?k) TASK_READY ?k))"
  have y: "task_yield ?k = (True, k')" using cur by (simp add: task_yield_def k'_def Let_def)
  have k'_props: "priority (deref k' p) = v \<and> task_canary_ok (deref k' p) \<and> tstate (deref k' p) = TASK_READY"
    if "p \<in> set (g_tasks ?k)" for p
    using all[OF that] o that cur_ptr_mem[OF q cur(1)] all[of "cur_ptr ?k"]
    by (auto simp: k'_def one_running_def)
  have "task_canary_ok (task_at (k'\<lparr>alarm_blocked := False\<rparr>) (sched_next m))"
    using k'_props[of "g_tasks ?k ! sched_next m"] nx by (simp add: task_at_def k'_def)
  then have "machine_yield m = m\<lparr>kern := k'\<lparr>alarm_blocked := False\<rparr>, cpu := In_scheduler\<rparr>"
    using y by (simp add: machine_yield_def back_to_scheduler_def sched_resume_def restore_mask_def
        task_check_canary_or_abort_def Let_def)
  with k'_props show ?thesis by (simp add: k'_def)
qed

lemma round_robin_step:
  assumes "round_robin v m"
  shows "round_robin v (machine_dispatch (machine_yield m)) \<and>
     g_tasks (kern (machine_dispatch (machine_yield m))) = g_tasks (kern m) \<and>
     g_current_idx (kern (machine_dispatch (machine_yield m))) =
       (g_current_idx (kern m) + 1) mod int (length (g_tasks (kern m)))"
proof -
  let ?y = "machine_yield m"
  let ?k = "kern ?y" and ?n = "length (g_tasks (kern m))"
  note yy = round_robin_yield[OF assms]
  from assms have q: "queue_ok (kern m)" and o: "one_running (kern m)" and inv: "machine_inv m"
    by (simp_all add: round_robin_def machine_inv_def)
  from assms have "cpu m = In_task" by (simp add: round_robin_def)
  from machine_task_ops_inv(1)[OF inv this] yy have inv': "machine_inv ?y" by simp
  have c: "0 \<le> g_current_idx (kern m)" "g_current_idx (kern m) < int ?n"
    using q o by (simp_all add: queue_ok_def one_running_def)
  then have n: "0 < ?n" by linarith
  have "pick_next_ready ?k = int (rr_start ?k)"
    using yy n by (intro pick_all_equal[of _ v]) (simp_all add: ready_at_def task_at_def)
  moreover have "int (rr_start ?k) = (g_current_idx (kern m) + 1) mod int ?n"
    using yy c by (simp add: rr_start_def zmod_int nat_mod_distrib)
  ultimately have p: "pick_next_ready ?k = (g_current_idx (kern m) + 1) mod int ?n" by simp
  have act: "any_task_active ?k"
    using yy n by (auto simp: any_task_active_def list_ex_iff task_at_def intro!: bexI[of _ 0])
  define i where "i = nat (pick_next_ready ?k)"
  have i: "i < ?n" "pick_next_ready ?k = int i" using p n by (simp_all add: i_def nat_less_iff)
  define k' where "k' = (block_alarm (set_state (g_tasks ?k ! i) TASK_RUNNING
      (?k\<lparr>g_current_idx := int i\<rparr>)))\<lparr>g_switch_count := g_switch_count ?k + 1\<rparr>"
  have it: "sched_iteration ?k = (Dispatched i, k')"
    using act i(2) by (simp add: sched_iteration_def k'_def Let_def)
  have m': "machine_dispatch ?y =
      ?y\<lparr>kern := switch_in (g_tasks k' ! i) k', cpu := In_task, sched_next := i\<rparr>"
    by (simp add: machine_dispatch_def it)
  from machine_dispatch_inv[OF inv'] yy have "machine_inv (machine_dispatch ?y)" by simp
  then have "round_robin v (machine_dispatch ?y)"
    using yy i by (auto simp: round_robin_def machine_inv_def m' k'_def deref_switch_in)
  then show ?thesis using yy i p by (simp add: m' k'_def)
qed

text \<open>The current task yields and the scheduler dispatches the next one.\<close>

definition coop_round :: "machine \<Rightarrow> machine" where
  "coop_round m = machine_dispatch (machine_yield m)"

lemma round_robin_rounds:
  assumes "round_robin v m"
  shows "round_robin v ((coop_round ^^ i) m) \<and>
     g_tasks (kern ((coop_round ^^ i) m)) = g_tasks (kern m) \<and>
     g_current_idx (kern ((coop_round ^^ i) m)) =
       (g_current_idx (kern m) + int i) mod int (length (g_tasks (kern m)))"
proof (induction i)
  case 0
  from assms show ?case by (simp add: round_robin_def queue_ok_def one_running_def)
next
  case (Suc i)
  let ?n = "int (length (g_tasks (kern m)))"
  have "((g_current_idx (kern m) + int i) mod ?n + 1) mod ?n = (g_current_idx (kern m) + int (Suc i)) mod ?n"
    by (simp add: mod_add_left_eq add.assoc add.commute[of 1])
  with Suc round_robin_step[of v "(coop_round ^^ i) m", folded coop_round_def] show ?case
    by simp
qed

section \<open>Lemmas: sleeping\<close>

lemma machine_tick_in_scheduler:
  assumes "machine_inv m" "cpu m = In_scheduler"
  shows "machine_tick m = m\<lparr>kern := after_tick (kern m)\<rparr>"
  using assms preempt_handler_no_running[of "kern m"]
  by (simp add: machine_tick_def machine_inv_def)

lemma word_add_less_of_nat:
  fixes a :: u64
  assumes "unat a + n < 2 ^ 64" "j \<le> n"
  shows "a + of_nat n \<le> a + of_nat j \<longleftrightarrow> n \<le> j" and "0 < n \<Longrightarrow> a + of_nat n \<noteq> 0"
proof -
  have u: "unat (a + of_nat i) = unat a + i" if "i \<le> n" for i
    using assms(1) that by (simp add: unat_word_ariths unat_of_nat take_bit_nat_eq_self)
  show "a + of_nat n \<le> a + of_nat j \<longleftrightarrow> n \<le> j"
    using u[of n] u[of j] assms(2) by (simp add: word_le_nat_alt)
  show "a + of_nat n \<noteq> 0" if "0 < n"
    using u[of n] that by (metis add_is_0 le_refl less_not_refl unat_0)
qed

lemma sleeping_ticks:
  assumes inv: "machine_inv m" "cpu m = In_scheduler" and p: "p \<in> set (g_tasks (kern m))"
    and b: "tstate (deref (kern m) p) = TASK_BLOCKED" "wake_tick (deref (kern m) p) = g_tick_count (kern m) + of_nat n"
    and n: "0 < n" "unat (g_tick_count (kern m)) + n < 2 ^ 64" and j: "j \<le> n"
  shows "machine_inv ((machine_tick ^^ j) m) \<and> cpu ((machine_tick ^^ j) m) = In_scheduler \<and>
     g_tasks (kern ((machine_tick ^^ j) m)) = g_tasks (kern m) \<and>
     g_tick_count (kern ((machine_tick ^^ j) m)) = g_tick_count (kern m) + of_nat j \<and>
     (if j < n then tstate (deref (kern ((machine_tick ^^ j) m)) p) = TASK_BLOCKED \<and>
        wake_tick (deref (kern ((machine_tick ^^ j) m)) p) = g_tick_count (kern m) + of_nat n
      else tstate (deref (kern ((machine_tick ^^ j) m)) p) = TASK_READY)"
  using j
proof (induction j)
  case 0
  with assms show ?case by simp
next
  case (Suc j)
  let ?m = "(machine_tick ^^ j) m" and ?t = "g_tick_count (kern m)"
  from Suc have jn: "j < n" and IH: "machine_inv ?m" "cpu ?m = In_scheduler"
      "g_tasks (kern ?m) = g_tasks (kern m)" "g_tick_count (kern ?m) = ?t + of_nat j"
      "tstate (deref (kern ?m) p) = TASK_BLOCKED" "wake_tick (deref (kern ?m) p) = ?t + of_nat n"
    by simp_all
  note step = machine_tick_in_scheduler[OF IH(1,2)]
  have inv': "machine_inv (?m\<lparr>kern := after_tick (kern ?m)\<rparr>)"
    using machine_tick_inv[OF IH(1)] IH(2) step by simp
  have d: "distinct (g_tasks (kern ?m))" using IH(1) by (simp add: machine_inv_def queue_ok_def)
  have t: "deref (after_tick (kern ?m)) p = tick_task (?t + of_nat (Suc j)) (deref (kern ?m) p)"
    using deref_after_tick[OF d] p IH(3,4) by (simp add: ac_simps)
  note w = word_add_less_of_nat[OF n(2) Suc.prems]
  have "tstate (deref (after_tick (kern ?m)) p) = (if Suc j < n then TASK_BLOCKED else TASK_READY)"
    "Suc j < n \<Longrightarrow> wake_tick (deref (after_tick (kern ?m)) p) = ?t + of_nat n"
    unfolding t tick_task_def using IH(5,6) w n(1) jn by auto
  with inv' IH show ?case by (simp add: step del: of_nat_Suc) (simp add: ac_simps)
qed

section \<open>Lemmas: who runs after a switch\<close>

lemma pick_max:
  assumes "0 \<le> pick_next_ready k" "p \<in> set (g_tasks k)" "tstate (deref k p) = TASK_READY"
  shows "priority (deref k p) \<le> priority (deref k (g_tasks k ! nat (pick_next_ready k)))"
proof -
  obtain i where i: "pick_next_ready k = int i"
    "\<And>j. j < length (g_tasks k) \<Longrightarrow> ready_at k j \<Longrightarrow> priority (task_at k j) \<le> priority (task_at k i)"
    using assms(1) by (rule pick_next_ready_Some) blast
  from assms(2) obtain j where "j < length (g_tasks k)" "p = g_tasks k ! j"
    by (auto simp: in_set_conv_nth)
  with i assms(3) show ?thesis by (auto simp: ready_at_def task_at_def)
qed

lemma dispatch_highest:
  assumes "sched_iteration k = (Dispatched n, k')" "p \<in> set (g_tasks k)"
    and "tstate (deref (switch_in (g_tasks k' ! n) k') p) = TASK_READY"
  shows "priority (deref (switch_in (g_tasks k' ! n) k') p) \<le>
     priority (deref (switch_in (g_tasks k' ! n) k') (cur_ptr k'))"
proof -
  let ?i = "pick_next_ready k"
  from assms(1) have i: "0 \<le> ?i" and n: "n = nat ?i"
    and k': "k' = (block_alarm (set_state (g_tasks k ! nat ?i) TASK_RUNNING
                    (k\<lparr>g_current_idx := ?i\<rparr>)))\<lparr>g_switch_count := g_switch_count k + 1\<rparr>"
    by (auto simp: sched_iteration_def Let_def split: if_splits)
  from pick_max[OF i assms(2)] assms(3) show ?thesis
    by (auto simp: deref_switch_in k' n cur_ptr_def split: if_splits)
qed

lemma forced_switch_highest:
  assumes f: "forced_switch k = (Switched n, k')" and c: "queue_ok k" "0 \<le> g_current_idx k"
    and p: "p \<in> set (g_tasks k)" "tstate (deref (switch_in (g_tasks k' ! n) k') p) = TASK_READY"
  shows "priority (deref (switch_in (g_tasks k' ! n) k') p) \<le>
     priority (deref (switch_in (g_tasks k' ! n) k') (cur_ptr k'))"
proof -
  let ?cur = "cur_ptr k"
  define kr where "kr = set_state ?cur TASK_READY (k\<lparr>g_ticks_since_switch := 0\<rparr>)"
  let ?i = "pick_next_ready kr"
  have i: "0 \<le> ?i"
    using ready_candidate[of "k\<lparr>g_ticks_since_switch := 0\<rparr>"] c by (simp add: kr_def queue_ok_def)
  have g: "g_tasks kr = g_tasks k" by (simp add: kr_def)
  let ?p = "g_tasks k ! nat ?i"
  from f have n: "n = nat ?i" and k': "k' = set_resume ?cur In_preempt_handler
      ((upd_task ?cur (\<lambda>t. t\<lparr>pending_preemptions := pending_preemptions t + 1\<rparr>)
         (set_state ?p TASK_RUNNING (kr\<lparr>g_current_idx := ?i\<rparr>)))
       \<lparr>g_switch_count := g_switch_count k + 1\<rparr>)"
    by (auto simp: forced_switch_def Let_def kr_def)
  have cp: "cur_ptr k' = ?p" by (simp add: k' g cur_ptr_def)
  have pr: "priority (deref (switch_in (g_tasks k' ! n) k') q) = priority (deref kr q)" for q
    by (simp add: deref_switch_in k' n g)
  have "tstate (deref kr p) = TASK_READY"
    using p(2) by (auto simp: deref_switch_in k' n g kr_def split: if_splits)
  from pick_max[OF i _ this] p(1) show ?thesis unfolding pr cp by (simp add: g)
qed

lemma machine_tick_cases:
  assumes "machine_inv m" "cpu m \<in> {In_scheduler, In_task}"
  obtains (stay) "g_switch_count (kern (machine_tick m)) = g_switch_count (kern m)"
  | (switch) n k' where "cpu m = In_task" "forced_switch (after_tick (kern m)) = (Switched n, k')"
      "machine_tick m = m\<lparr>kern := switch_in (g_tasks k' ! n) k'\<rparr>"
proof -
  have sc: "g_switch_count (after_tick k) = g_switch_count k" for k
    by (simp add: after_tick_def update_tick_bookkeeping_def)
  from assms consider "cpu m = In_scheduler" | "cpu m = In_task" by blast
  then show ?thesis
  proof cases
    case 1
    with assms machine_tick_in_scheduler sc show ?thesis by (intro stay) simp
  next
    case 2
    with assms(1) have q: "queue_ok (kern m)" and c: "0 \<le> g_current_idx (kern m)"
      by (simp_all add: machine_inv_def one_running_def)
    obtain n k' where f: "forced_switch (after_tick (kern m)) = (Switched n, k')"
      by (simp add: forced_switch_def Let_def)
    consider "preempt_handler (kern m) = (Returned, after_tick (kern m))"
      | "preempt_handler (kern m) =
          (Returned, (after_tick (kern m))\<lparr>g_ticks_since_switch := g_ticks_since_switch (after_tick (kern m)) + 1\<rparr>)"
      | "preempt_handler (kern m) = forced_switch (after_tick (kern m))"
      using preempt_handler_cases[OF q c] by blast
    then show ?thesis
      by cases (use 2 f sc in \<open>auto simp: machine_tick_def intro: stay switch\<close>)
  qed
qed

section \<open>Properties\<close>


definition witness_spawn :: "ptr \<Rightarrow> machine \<Rightarrow> machine" where
  "witness_spawn a m = m\<lparr>kern := snd (task_spawn None 0 0 5 0 (witness_env\<lparr>calloc_result := a\<rparr>) (kern m))\<rparr>"

definition two_tasks :: machine where
  "two_tasks = witness_spawn 0x2000 (witness_spawn 0x1000 machine_boot)"

definition fresh_task :: "ptr \<Rightarrow> int \<Rightarrow> task" where
  "fresh_task a i = snd (the (fst (task_create None 0 0 5 0 0 (witness_env\<lparr>calloc_result := a\<rparr>) i)))"

lemma two_tasks_kern:
  "kern two_tasks = kernel_boot\<lparr>heap := [0x1000 \<mapsto> fresh_task 0x1000 0, 0x2000 \<mapsto> fresh_task 0x2000 1],
     g_tasks := [0x1000, 0x2000], g_next_task_id := 2\<rparr>"
  "cpu two_tasks = In_scheduler" "sched_next two_tasks = 0"
  by (simp_all add: two_tasks_def witness_spawn_def machine_boot_def kernel_boot_def task_spawn_def
      scheduler_add_task_def fresh_task_def task_create_def witness_env_def Let_def)

lemma fresh_task_simps [simp]:
  assumes "a \<noteq> 0"
  shows "tstate (fresh_task a i) = TASK_READY" "priority (fresh_task a i) = 5"
    "pending_preemptions (fresh_task a i) = 0" "wake_tick (fresh_task a i) = 0" "stack_size (fresh_task a i) = 65536"
    "resume (tcontext (fresh_task a i)) = At_trampoline (pack_hi a) (pack_lo a)"
    "task_canary_ok (fresh_task a i)"
proof -
  let ?e = "witness_env\<lparr>calloc_result := a\<rparr>"
  have c: "fst (task_create None 0 0 5 0 0 ?e i) = Some (a, fresh_task a i)"
    using assms by (simp add: fresh_task_def task_create_def witness_env_def Let_def)
  from task_create_state[OF c] task_create_stack[OF c refl]
  show "tstate (fresh_task a i) = TASK_READY" "priority (fresh_task a i) = 5"
    "pending_preemptions (fresh_task a i) = 0" "wake_tick (fresh_task a i) = 0" and sz: "stack_size (fresh_task a i) = 65536"
    and "resume (tcontext (fresh_task a i)) = At_trampoline (pack_hi a) (pack_lo a)"
    by simp_all
  show "task_canary_ok (fresh_task a i)"
    using fresh_canary_ok[OF c] by (simp add: sz witness_env_def)
qed

lemma two_tasks_reachable: "reachable two_tasks"
proof -
  have "reachable (witness_spawn 0x1000 machine_boot)"
    unfolding witness_spawn_def
    by (rule reachable.step[OF reachable.boot machine_step.spawn])
       (simp_all add: machine_boot_def kernel_boot_def)
  moreover have "machine_step (witness_spawn 0x1000 machine_boot) two_tasks"
    unfolding two_tasks_def
    by (subst witness_spawn_def[of "0x2000" "witness_spawn 0x1000 machine_boot"], rule machine_step.spawn)
       (simp_all add: witness_spawn_def machine_boot_def kernel_boot_def task_spawn_def task_create_def
         scheduler_add_task_def witness_env_def Let_def)
  ultimately show ?thesis by (rule reachable.step)
qed


text \<open>
  C3: equal-priority tasks share the processor round robin. If every registered task is runnable
  at the same priority, then after \<open>i\<close> rounds in which the current task calls \<^verbatim>\<open>task_yield\<close> and the
  scheduler dispatches again, the running task is the one \<open>i\<close> places further in cyclic order; so
  each of the \<open>n\<close> tasks runs once in every \<open>n\<close> rounds.
\<close>

theorem round_robin_fair:
  assumes "round_robin v m"
  shows "cpu ((coop_round ^^ i) m) = In_task \<and>
     g_tasks (kern ((coop_round ^^ i) m)) = g_tasks (kern m) \<and>
     g_current_idx (kern ((coop_round ^^ i) m)) =
       (g_current_idx (kern m) + int i) mod int (length (g_tasks (kern m)))"
  using round_robin_rounds[OF assms, of i] by (simp add: round_robin_def)

definition rr_machine :: machine where
  "rr_machine = \<lparr>kern = sample_kernel (sample_task 4 TASK_RUNNING) (sample_task 4 TASK_READY)
     (sample_task 4 TASK_READY) 0, cpu = In_task, sched_next = 0\<rparr>"

theorem round_robin_fair_witness:
  "g_current_idx (kern ((coop_round ^^ 5) rr_machine)) = 2"
proof -
  have "round_robin 4 rr_machine"
    by (simp add: round_robin_def rr_machine_def queue_ok_def one_running_def cur_ptr_def frames_ok_def
        task_canary_ok_def sample_kernel_simps)
  from round_robin_fair[OF this, of 5] show ?thesis
    by (simp add: rr_machine_def sample_kernel_simps)
qed


text \<open>The two sample tasks with a 5 ms tick and one tick per slice, the first one running.\<close>

definition preemptive_pair :: machine where
  "preemptive_pair = machine_dispatch
     (two_tasks\<lparr>kern := scheduler_enable_preemption 5 1 (kern two_tasks)\<rparr>)"

lemma preemptive_pair_reachable: "reachable preemptive_pair"
  unfolding preemptive_pair_def
  by (rule reachable.step[OF reachable.step[OF two_tasks_reachable machine_step.enable] machine_step.dispatch])
     (simp_all add: two_tasks_kern)

lemma preemptive_pair_eq:
  "preemptive_pair = \<lparr>kern = kernel_boot\<lparr>heap := [0x1000 \<mapsto> (fresh_task 0x1000 0)\<lparr>tstate := TASK_RUNNING\<rparr>,
       0x2000 \<mapsto> fresh_task 0x2000 1], g_tasks := [0x1000, 0x2000], g_next_task_id := 2,
       g_current_idx := 0, g_tick_ms := 5, g_ticks_per_slice := 1, g_ticks_since_switch := 0,
       g_prev_sigaction := sigalrm kernel_boot, sigalrm := Preempt_handler, itimer := (0, 5000),
       g_preempt_enabled := True, g_switch_count := 1, alarm_blocked := False\<rparr>,
     cpu = In_task, sched_next = 0\<rparr>"
proof -
  have t: "two_tasks = \<lparr>kern = kern two_tasks, cpu = In_scheduler, sched_next = 0\<rparr>"
    using two_tasks_kern(2,3) by simp
  show ?thesis
    unfolding preemptive_pair_def
    by (subst (2) t)
       (simp add: two_tasks_kern scheduler_enable_preemption_def setitimer_def c_div_def c_mod_def
         machine_dispatch_def sched_iteration_def any_task_active_def task_at_def deref_def
         pick_next_ready_def rr_start_def upt_rec kernel_boot_def set_state_def upd_task_def
         block_alarm_def switch_in_def fun_upd_twist Let_def)
qed


text \<open>
  C5: a sleeping task is woken by the tick it asked for and by no earlier one. When the current
  task calls \<^verbatim>\<open>task_sleep(ms)\<close> and control returns to the scheduler loop, then for as long as the
  loop finds no other task to run, the task stays blocked for every tick before
  \<^verbatim>\<open>ticks_to_wait\<close> and is ready at that tick.
\<close>

theorem sleeping_task_wakes_on_time:
  assumes "reachable m" "cpu m = In_task" "0 < ms" "p = cur_ptr (kern m)"
    and "m' = machine_sleep ms m" "cpu m' = In_scheduler"
    and "n = nat (ticks_to_wait ms (kern m))" "unat (g_tick_count (kern m)) + n < 2 ^ 64" "j \<le> n"
  shows "tstate (deref (kern ((machine_tick ^^ j) m')) p) = (if j < n then TASK_BLOCKED else TASK_READY)"
proof -
  let ?k = "kern m" and ?w = "g_tick_count (kern m) + word_of_int (ticks_to_wait ms (kern m))"
  note inv = reachable_inv[OF assms(1)]
  then have c: "0 \<le> g_current_idx ?k" "queue_ok ?k"
    using assms(2) by (simp_all add: machine_inv_def one_running_def)
  define k1 where "k1 = set_resume p In_task_yield
    (block_alarm (upd_task p (\<lambda>t. t\<lparr>wake_tick := ?w, tstate := TASK_BLOCKED\<rparr>) ?k))"
  have "m' = back_to_scheduler k1 m"
    using c(1) assms(3-5) by (simp add: machine_sleep_def task_sleep_def task_yield_def k1_def Let_def)
  with assms(6) have k': "kern m' = restore_mask False k1"
    by (auto simp: back_to_scheduler_def sched_resume_def Let_def split: sum.splits)
  have n: "0 < n" "of_nat n = (word_of_int (ticks_to_wait ms ?k) :: u64)"
    using assms(7) by (auto simp: ticks_to_wait_def Let_def nat_eq_iff)
  have inv': "machine_inv m'"
    using machine_task_ops_inv(2)[OF inv assms(2)] assms(5) by simp
  have "p \<in> set (g_tasks (kern m'))" "tstate (deref (kern m') p) = TASK_BLOCKED"
    "wake_tick (deref (kern m') p) = g_tick_count (kern m') + of_nat n"
    "unat (g_tick_count (kern m')) + n < 2 ^ 64"
    using cur_ptr_mem[OF c(2,1)] assms(4,8) n(2) by (simp_all add: k' k1_def restore_mask_def)
  from sleeping_ticks[OF inv' assms(6) this(1-3) n(1) this(4) assms(9)] show ?thesis
    by (simp split: if_splits)
qed

text \<open>
  A task that overruns the low end of its stack is detected when it next gives up the
  processor. If the running task was dispatched by the scheduler loop and has damaged its canary,
  then its next yield, blocking call or return aborts the program, and so does a sleep.
\<close>

theorem overflow_aborts_at_next_switch:
  assumes "reachable m" "cpu m = In_task" "g_current_idx (kern m) = int (sched_next m)"
    and "\<not> task_canary_ok (deref (kern m) (cur_ptr (kern m)))"
    and "m' \<in> {machine_yield m, machine_block m, machine_exit m} \<or> 0 < ms \<and> m' = machine_sleep ms m"
  shows "cpu m' = Aborted"
proof -
  let ?k = "kern m" and ?c = "cur_ptr (kern m)"
  have c: "0 \<le> g_current_idx ?k" using assms(3) by simp
  have cp: "g_tasks ?k ! sched_next m = ?c" using assms(3) by (simp add: cur_ptr_def)
  have abort: "cpu (back_to_scheduler k' m0) = Aborted"
    if "g_tasks k' = g_tasks ?k" "stack (deref k' ?c) = stack (deref ?k ?c)"
      "stack_size (deref k' ?c) = stack_size (deref ?k ?c)" "sched_next m0 = sched_next m" for k' m0
    using that assms(4) cp
    by (simp add: back_to_scheduler_def sched_resume_def restore_mask_def task_at_def
        task_check_canary_or_abort_def task_canary_ok_def Let_def split: if_splits)
  show ?thesis
    using assms(5) c
    by (elim disjE insertE conjE)
       (simp_all add: machine_yield_def machine_block_def machine_exit_def machine_sleep_def task_sleep_def
         task_yield_def trampoline_exit_def abort Let_def)
qed


lemma preemptive_pair_facts:
  "cpu preemptive_pair = In_task" "sched_next preemptive_pair = 0" "g_current_idx (kern preemptive_pair) = 0"
  "cur_ptr (kern preemptive_pair) = 0x1000" "g_tick_count (kern preemptive_pair) = 0"
  "g_tick_ms (kern preemptive_pair) = 5" "g_tasks (kern preemptive_pair) = [0x1000, 0x2000]"
  "deref (kern preemptive_pair) 0x1000 = (fresh_task 0x1000 0)\<lparr>tstate := TASK_RUNNING\<rparr>"
  "deref (kern preemptive_pair) 0x2000 = fresh_task 0x2000 1"
  by (simp_all add: preemptive_pair_eq cur_ptr_def kernel_boot_def deref_def)

theorem sleeping_task_wakes_on_time_witness:
  "tstate (deref (kern ((machine_tick ^^ 1) (machine_sleep 10 preemptive_pair))) 0x1000) = TASK_BLOCKED"
proof -
  note f = preemptive_pair_facts
  have w: "ticks_to_wait 10 (kern preemptive_pair) = 2" by (simp add: ticks_to_wait_def f c_div_def)
  have "cpu (machine_sleep 10 preemptive_pair) = In_scheduler"
    by (simp add: machine_sleep_def task_sleep_def task_yield_def f back_to_scheduler_def sched_resume_def
        restore_mask_def task_at_def task_check_canary_or_abort_def Let_def)
  from sleeping_task_wakes_on_time[OF preemptive_pair_reachable f(1) _ refl refl this refl, of 1]
  show ?thesis by (simp add: f w)
qed

text \<open>The running sample task has overwritten its whole stack.\<close>

definition overrun :: "machine \<Rightarrow> machine" where
  "overrun m = m\<lparr>kern := upd_task (cur_ptr (kern m)) (\<lambda>t. t\<lparr>stack := replicate (stack_size t) 0\<rparr>) (kern m)\<rparr>"

lemma overrun_canary: "n = stack_size t \<Longrightarrow> 32 \<le> n \<Longrightarrow> \<not> task_canary_ok (t\<lparr>stack := replicate n 0\<rparr>)"
  by (auto simp: task_canary_ok_def list_all_iff intro: exI[of _ 0])

lemma overrun_reachable:
  assumes "reachable m" "cpu m = In_task"
  shows "reachable (overrun m)"
proof -
  let ?p = "cur_ptr (kern m)"
  let ?s = "replicate (stack_size (deref (kern m) ?p)) 0"
  have "overrun m = m\<lparr>kern := upd_task ?p (\<lambda>t. t\<lparr>stack := ?s\<rparr>) (kern m)\<rparr>"
    by (simp add: overrun_def upd_task_def)
  with reachable.step[OF assms(1) machine_step.use_stack[OF assms(2), of ?s]] show ?thesis by simp
qed

theorem overflow_aborts_at_next_switch_witness:
  "cpu (machine_yield (overrun preemptive_pair)) = Aborted"
proof -
  note f = preemptive_pair_facts
  have "reachable (overrun preemptive_pair)"
    by (rule overrun_reachable[OF preemptive_pair_reachable f(1)])
  from overflow_aborts_at_next_switch[OF this, of "machine_yield (overrun preemptive_pair)"]
  show ?thesis by (simp add: overrun_def f overrun_canary)
qed

text \<open>
  C33: after a forced switch the scheduler loop checks the wrong canary. The loop keeps the index of
  the task it dispatched, not of the task that returns to it, so a task that was switched in by
  the timer, has overrun its stack and yields, goes on unnoticed: control returns to the loop in
  a reachable state in which the canary of the current task is damaged.
\<close>

theorem preempted_overflow_goes_unnoticed:
  "\<exists>m. reachable m \<and> cpu m = In_task \<and> \<not> task_canary_ok (deref (kern m) (cur_ptr (kern m))) \<and>
     cpu (machine_yield m) = In_scheduler"
proof -
  note f = preemptive_pair_facts
  let ?m = "overrun (machine_tick preemptive_pair)"
  have t: "cpu (machine_tick preemptive_pair) = In_task" "sched_next (machine_tick preemptive_pair) = 0"
    "g_tasks (kern (machine_tick preemptive_pair)) = [0x1000, 0x2000]"
    "g_current_idx (kern (machine_tick preemptive_pair)) = 1"
    "task_canary_ok (deref (kern (machine_tick preemptive_pair)) 0x1000)"
    "tstate (deref (kern (machine_tick preemptive_pair)) 0x2000) = TASK_RUNNING"
    "stack_size (deref (kern (machine_tick preemptive_pair)) 0x2000) = 65536"
    by (simp_all add: preemptive_pair_eq machine_tick_def preempt_handler_def update_tick_bookkeeping_def
        kernel_boot_def upd_task_def deref_def tick_task_def cur_ptr_def set_state_def set_resume_def
        pick_next_ready_def task_at_def rr_start_def upt_rec switch_in_def Let_def)
  have "machine_step preemptive_pair (machine_tick preemptive_pair)"
    by (rule machine_step.tick) (simp_all add: preemptive_pair_eq)
  then have r: "reachable ?m"
    using overrun_reachable reachable.step[OF preemptive_pair_reachable] t(1) by blast
  have c: "cur_ptr (kern (machine_tick preemptive_pair)) = 0x2000"
    using t(3,4) by (simp add: cur_ptr_def)
  have "\<not> task_canary_ok (deref (kern ?m) (cur_ptr (kern ?m)))"
    using t(7) by (simp add: overrun_def c overrun_canary)
  moreover have "cpu (machine_yield ?m) = In_scheduler"
    using t by (simp add: machine_yield_def task_yield_def overrun_def c back_to_scheduler_def sched_resume_def
        restore_mask_def task_at_def task_check_canary_or_abort_def Let_def)
  moreover have "cpu ?m = In_task" using t(1) by (simp add: overrun_def)
  ultimately show ?thesis using r by blast
qed

end
