(* ===== verification/Sync.thy ===== *)
theory Sync
  imports Kernel
begin

text \<open>
  \<^verbatim>\<open>rtos/src/sync.c\<close> and \<^verbatim>\<open>sync.h\<close>: mutexes with priority inheritance, counting semaphores and the
  blocking bounded queue built on them.

  A blocking call is a loop around \<^verbatim>\<open>task_yield\<close>. It is modelled by one turn of the loop: the turn
  either acquires (\<open>True\<close>) or registers the caller as a waiter, marks it \<^verbatim>\<open>TASK_BLOCKED\<close> and leaves the
  processor (\<open>False\<close>); the next turn starts when the scheduler runs the task again. The array
  \<^verbatim>\<open>waiters\<close> with its counter \<^verbatim>\<open>num_waiters\<close> is the list of the entries in use.

  Two step relations put the calls into context. In \<open>lock_step\<close> every statement of \<^verbatim>\<open>mutex_lock\<close> is a
  step of its own, over the kernel of theory \<open>Kernel\<close>, with or without timer signals between the
  statements. In \<open>queue_step\<close> the statements of \<^verbatim>\<open>queue_send\<close> and \<^verbatim>\<open>queue_receive\<close> of any number of tasks
  interleave in any order.
\<close>

section \<open>Data\<close>

record mutex =
  locked :: bool
  owner :: ptr
  owner_saved_priority :: int
  inheritance_enabled :: bool
  mutex_waiters :: "ptr list"

record semaphore =
  sem_count :: int
  sem_waiters :: "ptr list"

record queue =
  qbuffer :: "ptr list"
  qcapacity :: int
  qhead :: int
  qtail :: int
  qlock :: mutex
  slots_empty :: semaphore
  slots_filled :: semaphore

section \<open>Mutexes\<close>

definition mutex_init :: "bool \<Rightarrow> mutex" where
  "mutex_init enable_priority_inheritance =
     \<lparr>locked = False, owner = 0, owner_saved_priority = 0,
      inheritance_enabled = enable_priority_inheritance, mutex_waiters = []\<rparr>"

definition add_waiter :: "mutex \<Rightarrow> ptr \<Rightarrow> mutex" where
  "add_waiter m task =
     (if list_ex (\<lambda>w. w = task) (mutex_waiters m) then m
      else if length (mutex_waiters m) < SCHED_MAX_TASKS
      then m\<lparr>mutex_waiters := mutex_waiters m @ [task]\<rparr>
      else m)"

text \<open>The statements of \<^verbatim>\<open>mutex_lock\<close>: the boost of the holder, the way to sleep, the taking.\<close>

definition mutex_boost :: "mutex \<Rightarrow> ptr \<Rightarrow> kernel \<Rightarrow> kernel" where
  "mutex_boost m cur k =
     (if inheritance_enabled m \<and> owner m \<noteq> 0 \<and> priority (deref k cur) > priority (deref k (owner m))
      then upd_task (owner m) (\<lambda>t. t\<lparr>priority := priority (deref k cur)\<rparr>) k
      else k)"

definition mutex_take :: "mutex \<Rightarrow> ptr \<Rightarrow> kernel \<Rightarrow> mutex" where
  "mutex_take m cur k =
     m\<lparr>locked := True, owner := cur, owner_saved_priority := priority (deref k cur)\<rparr>"

definition mutex_lock :: "mutex \<Rightarrow> kernel \<Rightarrow> bool \<times> mutex \<times> kernel" where
  "mutex_lock m k =
     (let cur = scheduler_current_task k in
      if locked m
      then (let k = mutex_boost m cur k;
                m = add_waiter m cur;
                k = set_state cur TASK_BLOCKED k
            in (False, m, snd (task_yield k)))
      else (True, mutex_take m cur k, k))"

text \<open>The loop that wakes every registered waiter.\<close>

fun wake_all :: "ptr list \<Rightarrow> kernel \<Rightarrow> kernel" where
  "wake_all [] k = k"
| "wake_all (w # ws) k = wake_all ws (set_state w TASK_READY k)"

definition mutex_unlock :: "mutex \<Rightarrow> kernel \<Rightarrow> mutex \<times> kernel" where
  "mutex_unlock m k =
     (let cur = scheduler_current_task k;
          k = upd_task cur (\<lambda>t. t\<lparr>priority := owner_saved_priority m\<rparr>) k;
          m = m\<lparr>locked := False, owner := 0\<rparr>;
          k = wake_all (mutex_waiters m) k
      in (m\<lparr>mutex_waiters := []\<rparr>, k))"

section \<open>Semaphores\<close>

definition sem_init :: "int \<Rightarrow> semaphore" where
  "sem_init initial_count = \<lparr>sem_count = initial_count, sem_waiters = []\<rparr>"

definition sem_add_waiter :: "semaphore \<Rightarrow> ptr \<Rightarrow> semaphore" where
  "sem_add_waiter s task =
     (if list_ex (\<lambda>w. w = task) (sem_waiters s) then s
      else if length (sem_waiters s) < SCHED_MAX_TASKS
      then s\<lparr>sem_waiters := sem_waiters s @ [task]\<rparr>
      else s)"

definition sem_wait :: "semaphore \<Rightarrow> kernel \<Rightarrow> bool \<times> semaphore \<times> kernel" where
  "sem_wait s k =
     (let cur = scheduler_current_task k in
      if sem_count s \<le> 0
      then (let s = sem_add_waiter s cur;
                k = set_state cur TASK_BLOCKED k
            in (False, s, snd (task_yield k)))
      else (True, s\<lparr>sem_count := sem_count s - 1\<rparr>, k))"

definition sem_post :: "semaphore \<Rightarrow> kernel \<Rightarrow> semaphore \<times> kernel" where
  "sem_post s k =
     (let s = s\<lparr>sem_count := sem_count s + 1\<rparr>;
          k = wake_all (sem_waiters s) k
      in (s\<lparr>sem_waiters := []\<rparr>, k))"

section \<open>The bounded queue\<close>

definition queue_init :: "ptr list \<Rightarrow> int \<Rightarrow> queue" where
  "queue_init buffer capacity =
     \<lparr>qbuffer = buffer, qcapacity = capacity, qhead = 0, qtail = 0, qlock = mutex_init True,
      slots_empty = sem_init capacity, slots_filled = sem_init 0\<rparr>"

text \<open>
  \<^verbatim>\<open>queue_send\<close> and \<^verbatim>\<open>queue_receive\<close> by their program points; a task stays at a blocking call until
  the call has acquired. \<open>Outside\<close> is a task that is in neither.
\<close>

datatype queue_pc =
    Outside
  | Send_wait ptr | Send_lock ptr | Send_store ptr | Send_advance | Send_unlock | Send_post
  | Recv_wait | Recv_lock | Recv_load | Recv_advance ptr | Recv_unlock ptr | Recv_post ptr
  | Received ptr

definition queue_send :: "queue_pc \<Rightarrow> queue \<Rightarrow> kernel \<Rightarrow> queue_pc \<times> queue \<times> kernel" where
  "queue_send pc q k =
     (case pc of
        Send_wait item \<Rightarrow>
          (case sem_wait (slots_empty q) k of
             (ok, s, k) \<Rightarrow> (if ok then Send_lock item else Send_wait item, q\<lparr>slots_empty := s\<rparr>, k))
      | Send_lock item \<Rightarrow>
          (case mutex_lock (qlock q) k of
             (ok, m, k) \<Rightarrow> (if ok then Send_store item else Send_lock item, q\<lparr>qlock := m\<rparr>, k))
      | Send_store item \<Rightarrow>
          (Send_advance, q\<lparr>qbuffer := (qbuffer q)[nat (qtail q) := item]\<rparr>, k)
      | Send_advance \<Rightarrow>
          (Send_unlock, q\<lparr>qtail := c_mod (qtail q + 1) (qcapacity q)\<rparr>, k)
      | Send_unlock \<Rightarrow>
          (case mutex_unlock (qlock q) k of (m, k) \<Rightarrow> (Send_post, q\<lparr>qlock := m\<rparr>, k))
      | Send_post \<Rightarrow>
          (case sem_post (slots_filled q) k of (s, k) \<Rightarrow> (Outside, q\<lparr>slots_filled := s\<rparr>, k))
      | _ \<Rightarrow> (pc, q, k))"

definition queue_receive :: "queue_pc \<Rightarrow> queue \<Rightarrow> kernel \<Rightarrow> queue_pc \<times> queue \<times> kernel" where
  "queue_receive pc q k =
     (case pc of
        Recv_wait \<Rightarrow>
          (case sem_wait (slots_filled q) k of
             (ok, s, k) \<Rightarrow> (if ok then Recv_lock else Recv_wait, q\<lparr>slots_filled := s\<rparr>, k))
      | Recv_lock \<Rightarrow>
          (case mutex_lock (qlock q) k of
             (ok, m, k) \<Rightarrow> (if ok then Recv_load else Recv_lock, q\<lparr>qlock := m\<rparr>, k))
      | Recv_load \<Rightarrow> (Recv_advance (qbuffer q ! nat (qhead q)), q, k)
      | Recv_advance item \<Rightarrow>
          (Recv_unlock item, q\<lparr>qhead := c_mod (qhead q + 1) (qcapacity q)\<rparr>, k)
      | Recv_unlock item \<Rightarrow>
          (case mutex_unlock (qlock q) k of (m, k) \<Rightarrow> (Recv_post item, q\<lparr>qlock := m\<rparr>, k))
      | Recv_post item \<Rightarrow>
          (case sem_post (slots_empty q) k of (s, k) \<Rightarrow> (Received item, q\<lparr>slots_empty := s\<rparr>, k))
      | _ \<Rightarrow> (pc, q, k))"

section \<open>The system of one mutex: every statement is a step\<close>

text \<open>
  Program points of a task with respect to one mutex. \<open>Critical\<close> is between the return of
  \<^verbatim>\<open>mutex_lock\<close> and the call of \<^verbatim>\<open>mutex_unlock\<close>; there, and outside, the task may do whatever else a
  task can do.
\<close>

datatype lock_pc = Out | At_test | At_boost | At_add_waiter | At_block | At_yield | At_take | Critical

record lock_sys =
  mach :: machine
  mtx :: mutex
  lpc :: "ptr \<Rightarrow> lock_pc"

abbreviation cur_of :: "lock_sys \<Rightarrow> ptr" where
  "cur_of s \<equiv> scheduler_current_task (kern (mach s))"

text \<open>The next statement of the current task.\<close>

definition lock_stmt :: "lock_sys \<Rightarrow> lock_sys" where
  "lock_stmt s =
     (let m = mach s; k = kern m; cur = cur_of s;
          goto = (\<lambda>pc s. s\<lparr>lpc := (lpc s)(cur := pc)\<rparr>) in
      case lpc s cur of
        Out \<Rightarrow> goto At_test s
      | At_test \<Rightarrow> goto (if locked (mtx s) then At_boost else At_take) s
      | At_boost \<Rightarrow> goto At_add_waiter (s\<lparr>mach := m\<lparr>kern := mutex_boost (mtx s) cur k\<rparr>\<rparr>)
      | At_add_waiter \<Rightarrow> goto At_block (s\<lparr>mtx := add_waiter (mtx s) cur\<rparr>)
      | At_block \<Rightarrow> goto At_yield (s\<lparr>mach := m\<lparr>kern := set_state cur TASK_BLOCKED k\<rparr>\<rparr>)
      | At_yield \<Rightarrow> goto At_test (s\<lparr>mach := machine_yield m\<rparr>)
      | At_take \<Rightarrow> goto Critical (s\<lparr>mtx := mutex_take (mtx s) cur k\<rparr>)
      | Critical \<Rightarrow>
          (case mutex_unlock (mtx s) k of
             (x, k) \<Rightarrow> goto Out (s\<lparr>mtx := x, mach := m\<lparr>kern := k\<rparr>\<rparr>)))"

text \<open>
  \<open>lock_step preempt\<close>: the current task executes a statement, or yields or sleeps in code of its
  own, the scheduler dispatches, and, if \<open>preempt\<close> holds, the timer signal arrives.
\<close>

inductive lock_step :: "bool \<Rightarrow> lock_sys \<Rightarrow> lock_sys \<Rightarrow> bool" for preempt where
  stmt: "cpu (mach s) = In_task \<Longrightarrow> lock_step preempt s (lock_stmt s)"
| own_yield: "cpu (mach s) = In_task \<Longrightarrow> lpc s (cur_of s) \<in> {Out, Critical} \<Longrightarrow>
     lock_step preempt s (s\<lparr>mach := machine_yield (mach s)\<rparr>)"
| own_sleep: "cpu (mach s) = In_task \<Longrightarrow> lpc s (cur_of s) \<in> {Out, Critical} \<Longrightarrow>
     lock_step preempt s (s\<lparr>mach := machine_sleep ms (mach s)\<rparr>)"
| dispatch: "cpu (mach s) = In_scheduler \<Longrightarrow>
     lock_step preempt s (s\<lparr>mach := machine_dispatch (mach s)\<rparr>)"
| timer: "preempt \<Longrightarrow> cpu (mach s) \<in> {In_scheduler, In_task} \<Longrightarrow> \<not> alarm_blocked (kern (mach s)) \<Longrightarrow>
     sigalrm (kern (mach s)) = Preempt_handler \<Longrightarrow>
     lock_step preempt s (s\<lparr>mach := machine_tick (mach s)\<rparr>)"

text \<open>The start: any state the kernel can reach, a fresh mutex, and nobody near it.\<close>

definition lock_start :: "machine \<Rightarrow> bool \<Rightarrow> lock_sys" where
  "lock_start m inherit = \<lparr>mach = m, mtx = mutex_init inherit, lpc = (\<lambda>_. Out)\<rparr>"

inductive lock_reach :: "bool \<Rightarrow> lock_sys \<Rightarrow> bool" for preempt where
  start: "reachable m \<Longrightarrow> lock_reach preempt (lock_start m inherit)"
| step: "lock_reach preempt s \<Longrightarrow> lock_step preempt s s' \<Longrightarrow> lock_reach preempt s'"

section \<open>The interface of a waiter list\<close>

text \<open>
  The mutex and the semaphore each keep a list of waiting tasks and share its contract: a task is
  registered at most once, registration fails only when 32 others are registered, and no other
  task is lost.
\<close>

locale waiter_list =
  fixes add :: "'a \<Rightarrow> ptr \<Rightarrow> 'a" and waiters :: "'a \<Rightarrow> ptr list"
  assumes add_law: "waiters (add x p) =
    (if p \<in> set (waiters x) \<or> SCHED_MAX_TASKS \<le> length (waiters x) then waiters x else waiters x @ [p])"
begin

lemma add_distinct: "distinct (waiters x) \<Longrightarrow> distinct (waiters (add x p))"
  by (simp add: add_law)

lemma add_bounded: "length (waiters x) \<le> SCHED_MAX_TASKS \<Longrightarrow> length (waiters (add x p)) \<le> SCHED_MAX_TASKS"
  by (simp add: add_law)

lemma add_keeps: "set (waiters x) \<subseteq> set (waiters (add x p))"
  by (auto simp: add_law)

lemma add_only: "set (waiters (add x p)) \<subseteq> insert p (set (waiters x))"
  by (auto simp: add_law)

text \<open>The array of 32 entries is large enough: only 32 tasks can be registered with the scheduler.\<close>

lemma add_registers:
  assumes "distinct (waiters x)" "set (waiters x) \<subseteq> set ps" "p \<in> set ps" "length ps \<le> SCHED_MAX_TASKS"
  shows "p \<in> set (waiters (add x p))"
proof (rule ccontr)
  assume "p \<notin> set (waiters (add x p))"
  then have p: "p \<notin> set (waiters x)" and l: "SCHED_MAX_TASKS \<le> length (waiters x)"
    by (auto simp: add_law split: if_splits)
  have "card (insert p (set (waiters x))) \<le> card (set ps)"
    using assms by (intro card_mono) auto
  also have "\<dots> \<le> length ps" by (rule card_length)
  finally show False
    using p l assms(1,4) by (simp add: distinct_card)
qed

end

interpretation mw: waiter_list add_waiter mutex_waiters
  by unfold_locales (auto simp: add_waiter_def list_ex_iff)

interpretation sw: waiter_list sem_add_waiter sem_waiters
  by unfold_locales (auto simp: sem_add_waiter_def list_ex_iff)

section \<open>Lemmas: the primitives\<close>

lemma wake_all_frame [simp]:
  "g_tasks (wake_all ws k) = g_tasks k" "g_current_idx (wake_all ws k) = g_current_idx k"
  by (induction ws arbitrary: k) simp_all

lemma deref_wake_all:
  "deref (wake_all ws k) p = (if p \<in> set ws then (deref k p)\<lparr>tstate := TASK_READY\<rparr> else deref k p)"
  by (induction ws arbitrary: k) auto

lemma add_waiter_frame [simp]:
  "locked (add_waiter m p) = locked m" "owner (add_waiter m p) = owner m"
  "owner_saved_priority (add_waiter m p) = owner_saved_priority m"
  "inheritance_enabled (add_waiter m p) = inheritance_enabled m"
  by (simp_all add: add_waiter_def)

lemma sem_add_waiter_frame [simp]: "sem_count (sem_add_waiter s p) = sem_count s"
  by (simp add: sem_add_waiter_def)

lemma mutex_boost_frame [simp]:
  "g_tasks (mutex_boost m c k) = g_tasks k" "g_current_idx (mutex_boost m c k) = g_current_idx k"
  "tstate (deref (mutex_boost m c k) p) = tstate (deref k p)"
  "cur_ptr (mutex_boost m c k) = cur_ptr k"
  "scheduler_current_task (mutex_boost m c k) = scheduler_current_task k"
  by (simp_all add: mutex_boost_def scheduler_current_task_def)

lemma current_task_frame [simp]:
  "scheduler_current_task (set_state p st k) = scheduler_current_task k"
  "scheduler_current_task (upd_task p f k) = scheduler_current_task k"
  "scheduler_current_task (wake_all ws k) = scheduler_current_task k"
  by (simp_all add: scheduler_current_task_def cur_ptr_def)

lemma task_yield_frame [simp]:
  "g_tasks (snd (task_yield k)) = g_tasks k" "g_current_idx (snd (task_yield k)) = g_current_idx k"
  "priority (deref (snd (task_yield k)) p) = priority (deref k p)"
  by (simp_all add: task_yield_def Let_def)

lemma task_yield_blocked:
  "tstate (deref k (cur_ptr k)) = TASK_BLOCKED \<Longrightarrow> tstate (deref (snd (task_yield k)) p) = tstate (deref k p)"
  by (simp add: task_yield_def Let_def)

section \<open>Lemmas: the kernel steps, as a mutex sees them\<close>

lemma back_to_scheduler_effect:
  "cpu (back_to_scheduler k m) \<noteq> In_task" "g_tasks (kern (back_to_scheduler k m)) = g_tasks k"
  "g_current_idx (kern (back_to_scheduler k m)) = g_current_idx k"
  "deref (kern (back_to_scheduler k m)) p = deref k p"
  by (auto simp: back_to_scheduler_def sched_resume_def restore_mask_def Let_def split: sum.splits)

lemma machine_yield_effect:
  assumes "0 \<le> g_current_idx (kern m)"
  shows "cpu (machine_yield m) \<noteq> In_task" "g_tasks (kern (machine_yield m)) = g_tasks (kern m)"
    "g_current_idx (kern (machine_yield m)) = g_current_idx (kern m)"
    "tstate (deref (kern (machine_yield m)) p) =
       (if p = cur_ptr (kern m) \<and> tstate (deref (kern m) p) = TASK_RUNNING then TASK_READY
        else tstate (deref (kern m) p))"
  using assms by (simp_all add: machine_yield_def task_yield_def Let_def back_to_scheduler_effect)

lemma machine_sleep_effect:
  assumes "0 \<le> g_current_idx (kern m)"
  shows "machine_sleep ms m = m \<or>
     cpu (machine_sleep ms m) \<noteq> In_task \<and> g_tasks (kern (machine_sleep ms m)) = g_tasks (kern m) \<and>
     g_current_idx (kern (machine_sleep ms m)) = g_current_idx (kern m) \<and>
     (\<forall>p. tstate (deref (kern (machine_sleep ms m)) p) =
        (if p = cur_ptr (kern m) then TASK_BLOCKED else tstate (deref (kern m) p)))"
  using assms
  by (auto simp: machine_sleep_def task_sleep_def task_yield_def Let_def back_to_scheduler_effect)

lemma machine_dispatch_effect:
  obtains (idle) "cpu m \<noteq> In_task \<Longrightarrow> cpu (machine_dispatch m) \<noteq> In_task"
      "g_tasks (kern (machine_dispatch m)) = g_tasks (kern m)"
      "g_current_idx (kern (machine_dispatch m)) \<in> {-1, g_current_idx (kern m)}"
      "\<And>p. tstate (deref (kern (machine_dispatch m)) p) = tstate (deref (kern m) p)"
  | (run) i where "i < length (g_tasks (kern m))" "cpu (machine_dispatch m) = In_task"
      "g_tasks (kern (machine_dispatch m)) = g_tasks (kern m)"
      "g_current_idx (kern (machine_dispatch m)) = int i"
      "tstate (deref (kern m) (g_tasks (kern m) ! i)) = TASK_READY"
      "\<And>p. tstate (deref (kern (machine_dispatch m)) p) =
        (if p = g_tasks (kern m) ! i then TASK_RUNNING else tstate (deref (kern m) p))"
proof (cases "any_task_active (kern m) \<and> 0 \<le> pick_next_ready (kern m)")
  case True
  let ?k = "kern m"
  note r = pick_in_range[of ?k]
  define k' where "k' = (block_alarm (set_state (g_tasks ?k ! nat (pick_next_ready ?k)) TASK_RUNNING
      (?k\<lparr>g_current_idx := pick_next_ready ?k\<rparr>)))\<lparr>g_switch_count := g_switch_count ?k + 1\<rparr>"
  have "sched_iteration ?k = (Dispatched (nat (pick_next_ready ?k)), k')"
    using True by (simp add: sched_iteration_def k'_def Let_def)
  then have d: "machine_dispatch m = m\<lparr>kern := switch_in (g_tasks k' ! nat (pick_next_ready ?k)) k',
      cpu := In_task, sched_next := nat (pick_next_ready ?k)\<rparr>"
    by (simp add: machine_dispatch_def)
  show ?thesis
    using True r by (intro run[of "nat (pick_next_ready ?k)"]) (simp_all add: d k'_def deref_switch_in)
next
  case False
  then show ?thesis
    by (intro idle) (auto simp: machine_dispatch_def sched_iteration_def Let_def)
qed

section \<open>Lemmas: the mutex without preemption\<close>

text \<open>
  Only the current task is inside \<^verbatim>\<open>mutex_lock\<close>, except at the head of its loop; the lock is held
  exactly by the task in the critical section; the waiters are the tasks blocked at the head of
  the loop, and the task on its way there.
\<close>

definition owner_inv :: "lock_sys \<Rightarrow> bool" where
  "owner_inv s \<longleftrightarrow>
     (\<forall>p. lpc s p = Critical \<longleftrightarrow> locked (mtx s) \<and> owner (mtx s) = p) \<and>
     (\<forall>p. cpu (mach s) \<noteq> In_task \<or> p \<noteq> cur_of s \<longrightarrow> lpc s p \<in> {Out, At_test, Critical}) \<and>
     (lpc s (cur_of s) = At_take \<longrightarrow> \<not> locked (mtx s)) \<and>
     (lpc s (cur_of s) \<in> {At_boost, At_add_waiter, At_block, At_yield} \<longrightarrow> locked (mtx s))"

definition waiter_inv :: "lock_sys \<Rightarrow> bool" where
  "waiter_inv s \<longleftrightarrow> (let k = kern (mach s); ws = mutex_waiters (mtx s); c = cur_of s; run = (cpu (mach s) = In_task) in
     queue_ok k \<and> (run \<longrightarrow> 0 \<le> g_current_idx k) \<and>
     distinct ws \<and> set ws \<subseteq> set (g_tasks k) \<and> (ws \<noteq> [] \<longrightarrow> locked (mtx s)) \<and>
     (\<forall>p\<in>set ws. lpc s p = At_test \<and> tstate (deref k p) = TASK_BLOCKED \<or>
        run \<and> p = c \<and> lpc s p \<in> {At_block, At_yield}) \<and>
     (\<forall>p\<in>set (g_tasks k). lpc s p = At_test \<and> tstate (deref k p) = TASK_BLOCKED \<longrightarrow> p \<in> set ws) \<and>
     (run \<longrightarrow> lpc s c \<in> {At_block, At_yield} \<longrightarrow> c \<in> set ws) \<and>
     (run \<longrightarrow> tstate (deref k c) = (if lpc s c = At_yield then TASK_BLOCKED else TASK_RUNNING)))"

lemma owner_invD: "owner_inv s \<Longrightarrow> lpc s p = Critical \<longleftrightarrow> locked (mtx s) \<and> owner (mtx s) = p"
  by (simp add: owner_inv_def)

lemma owner_invD2:
  "owner_inv s \<Longrightarrow> cpu (mach s) \<noteq> In_task \<or> p \<noteq> cur_of s \<Longrightarrow> lpc s p \<in> {Out, At_test, Critical}"
  unfolding owner_inv_def by blast

lemma cur_of_mem:
  assumes "waiter_inv s" "cpu (mach s) = In_task"
  shows "cur_of s \<in> set (g_tasks (kern (mach s)))" "cur_ptr (kern (mach s)) = cur_of s"
    "0 \<le> g_current_idx (kern (mach s))"
  using cur_ptr_mem[of "kern (mach s)"] assms
  by (simp_all add: waiter_inv_def Let_def scheduler_current_task_def)

lemma lock_sys_mach:
  "mach (s\<lparr>mach := m\<rparr>) = m" "mtx (s\<lparr>mach := m\<rparr>) = mtx s" "lpc (s\<lparr>mach := m\<rparr>) = lpc s"
  by simp_all

text \<open>The invariant when no task is on its way to sleep.\<close>

definition blocked_are_waiters :: "lock_sys \<Rightarrow> bool" where
  "blocked_are_waiters s \<longleftrightarrow> (let k = kern (mach s); ws = mutex_waiters (mtx s) in
     distinct ws \<and> set ws \<subseteq> set (g_tasks k) \<and> (ws \<noteq> [] \<longrightarrow> locked (mtx s)) \<and>
     (\<forall>p\<in>set (g_tasks k). p \<in> set ws \<longleftrightarrow> lpc s p = At_test \<and> tstate (deref k p) = TASK_BLOCKED))"

lemma waiter_inv_calm:
  assumes "\<And>p. lpc s p \<in> {Out, At_test, Critical}"
  shows "waiter_inv s \<longleftrightarrow> queue_ok (kern (mach s)) \<and>
     (cpu (mach s) = In_task \<longrightarrow> 0 \<le> g_current_idx (kern (mach s)) \<and>
        tstate (deref (kern (mach s)) (cur_of s)) = TASK_RUNNING) \<and> blocked_are_waiters s"
proof -
  have "lpc s p \<noteq> At_block" "lpc s p \<noteq> At_yield" for p using assms[of p] by auto
  then show ?thesis unfolding waiter_inv_def blocked_are_waiters_def Let_def by simp blast
qed

lemma lock_stmt_simps:
  "lpc s (cur_of s) = Out \<Longrightarrow> lock_stmt s = s\<lparr>lpc := (lpc s)(cur_of s := At_test)\<rparr>"
  "lpc s (cur_of s) = At_test \<Longrightarrow>
     lock_stmt s = s\<lparr>lpc := (lpc s)(cur_of s := if locked (mtx s) then At_boost else At_take)\<rparr>"
  "lpc s (cur_of s) = At_boost \<Longrightarrow>
     lock_stmt s = s\<lparr>mach := (mach s)\<lparr>kern := mutex_boost (mtx s) (cur_of s) (kern (mach s))\<rparr>,
       lpc := (lpc s)(cur_of s := At_add_waiter)\<rparr>"
  "lpc s (cur_of s) = At_add_waiter \<Longrightarrow>
     lock_stmt s = s\<lparr>mtx := add_waiter (mtx s) (cur_of s), lpc := (lpc s)(cur_of s := At_block)\<rparr>"
  "lpc s (cur_of s) = At_block \<Longrightarrow>
     lock_stmt s = s\<lparr>mach := (mach s)\<lparr>kern := set_state (cur_of s) TASK_BLOCKED (kern (mach s))\<rparr>,
       lpc := (lpc s)(cur_of s := At_yield)\<rparr>"
  "lpc s (cur_of s) = At_yield \<Longrightarrow>
     lock_stmt s = s\<lparr>mach := machine_yield (mach s), lpc := (lpc s)(cur_of s := At_test)\<rparr>"
  "lpc s (cur_of s) = At_take \<Longrightarrow>
     lock_stmt s = s\<lparr>mtx := mutex_take (mtx s) (cur_of s) (kern (mach s)), lpc := (lpc s)(cur_of s := Critical)\<rparr>"
  "lpc s (cur_of s) = Critical \<Longrightarrow>
     lock_stmt s = s\<lparr>mtx := fst (mutex_unlock (mtx s) (kern (mach s))),
       mach := (mach s)\<lparr>kern := snd (mutex_unlock (mtx s) (kern (mach s)))\<rparr>, lpc := (lpc s)(cur_of s := Out)\<rparr>"
  by (simp_all add: lock_stmt_def Let_def split: prod.splits)

lemma lock_stmt_owner_inv:
  assumes "owner_inv s" "cpu (mach s) = In_task" "0 \<le> g_current_idx (kern (mach s))"
  shows "owner_inv (lock_stmt s)"
proof -
  let ?c = "cur_of s"
  note crit = owner_invD[OF assms(1)]
  have others: "p \<noteq> ?c \<Longrightarrow> lpc s p \<in> {Out, At_test, Critical}" for p
    using assms(1) by (blast dest: owner_invD2)
  have here: "lpc s ?c = At_take \<Longrightarrow> \<not> locked (mtx s)"
    "lpc s ?c \<in> {At_boost, At_add_waiter, At_block, At_yield} \<Longrightarrow> locked (mtx s)"
    using assms(1) by (simp_all add: owner_inv_def)
  have y: "scheduler_current_task (kern (machine_yield (mach s))) = ?c"
    using machine_yield_effect(2,3)[OF assms(3)] by (simp add: scheduler_current_task_def cur_ptr_def)
  show ?thesis
    unfolding owner_inv_def
    using assms(2,3) crit[of ?c] others here y
    by (cases "lpc s ?c")
       (auto simp: lock_stmt_simps crit mutex_take_def mutex_unlock_def Let_def)
qed

lemma lock_stmt_waiter_inv:
  assumes w: "waiter_inv s" and o: "owner_inv s" and c: "cpu (mach s) = In_task"
  shows "waiter_inv (lock_stmt s)"
proof (cases "lpc s (cur_of s)")
  case At_add_waiter
  note m = cur_of_mem[OF w c]
  have "cur_of s \<in> set (mutex_waiters (add_waiter (mtx s) (cur_of s)))"
    using w m by (intro mw.add_registers[of _ "g_tasks (kern (mach s))"])
      (simp_all add: waiter_inv_def queue_ok_def Let_def)
  moreover have "distinct (mutex_waiters (add_waiter (mtx s) (cur_of s)))"
    using w by (intro mw.add_distinct) (simp add: waiter_inv_def Let_def)
  ultimately show ?thesis
    using At_add_waiter w o c m mw.add_only[of "mtx s" "cur_of s"] mw.add_keeps[of "mtx s" "cur_of s"]
    by (auto simp: lock_stmt_simps waiter_inv_def owner_inv_def Let_def)
next
  case At_yield
  note m = cur_of_mem[OF w c]
  note y = machine_yield_effect[of "mach s"]
  have "lock_stmt s = s\<lparr>mach := machine_yield (mach s), lpc := (lpc s)(cur_of s := At_test)\<rparr>"
    using At_yield by (simp add: lock_stmt_def Let_def)
  with w m y c At_yield show ?thesis
    by (auto simp: waiter_inv_def queue_ok_def Let_def)
next
  case Critical
  note m = cur_of_mem[OF w c]
  from w Critical have "cur_of s \<notin> set (mutex_waiters (mtx s))"
    by (auto simp: waiter_inv_def Let_def)
  with Critical w m c show ?thesis
    by (auto simp: lock_stmt_simps waiter_inv_def mutex_unlock_def deref_wake_all queue_ok_def Let_def)
qed (use assms cur_of_mem[OF w c] in
      \<open>auto simp: lock_stmt_simps waiter_inv_def owner_inv_def mutex_take_def queue_ok_def Let_def\<close>)


lemma lock_calm:
  assumes "owner_inv s" "\<And>p. lpc s p \<in> {Out, At_test, Critical}"
  shows "owner_inv (s\<lparr>mach := m\<rparr>)"
proof -
  have "lpc s p \<notin> {At_take, At_boost, At_add_waiter, At_block, At_yield}" for p
    using assms(2)[of p] by auto
  with assms show ?thesis by (simp add: owner_inv_def)
qed

lemma lock_step_inv:
  assumes "lock_step False s s'" "owner_inv s \<and> waiter_inv s"
  shows "owner_inv s' \<and> waiter_inv s'"
  using assms
proof (induction rule: lock_step.induct)
  case (stmt s)
  then show ?case
    using lock_stmt_owner_inv lock_stmt_waiter_inv cur_of_mem(3) by blast
next
  case (own_yield s)
  then have w: "waiter_inv s" and c: "cpu (mach s) = In_task" by simp_all
  note m = cur_of_mem[OF w c]
  have "lpc s p \<in> {Out, At_test, Critical}" for p
    using own_yield owner_invD2[of s p] by (cases "p = cur_of s") auto
  with own_yield have "owner_inv (s\<lparr>mach := machine_yield (mach s)\<rparr>)" by (blast intro: lock_calm)
  moreover have "waiter_inv (s\<lparr>mach := machine_yield (mach s)\<rparr>)"
    using w m c own_yield(2) machine_yield_effect[OF m(3)]
    by (auto simp: waiter_inv_def queue_ok_def Let_def)
  ultimately show ?case by simp
next
  case (own_sleep s ms)
  then have w: "waiter_inv s" and c: "cpu (mach s) = In_task" by simp_all
  note m = cur_of_mem[OF w c]
  have "lpc s p \<in> {Out, At_test, Critical}" for p
    using own_sleep owner_invD2[of s p] by (cases "p = cur_of s") auto
  with own_sleep have "owner_inv (s\<lparr>mach := machine_sleep ms (mach s)\<rparr>)" by (blast intro: lock_calm)
  moreover have "waiter_inv (s\<lparr>mach := machine_sleep ms (mach s)\<rparr>)"
    using machine_sleep_effect[OF m(3), of ms]
  proof (elim disjE conjE)
    assume "machine_sleep ms (mach s) = mach s"
    with w show ?thesis by simp
  qed (use w m c own_sleep(2) in \<open>auto simp: waiter_inv_def queue_ok_def Let_def\<close>)
  ultimately show ?case by simp
next
  case (dispatch s)
  then have w: "waiter_inv s" and o: "owner_inv s" and c: "cpu (mach s) \<noteq> In_task" by simp_all
  then have p: "lpc s p \<in> {Out, At_test, Critical}" for p by (blast dest: owner_invD2)
  have p': "lpc (s\<lparr>mach := m\<rparr>) q \<in> {Out, At_test, Critical}" for m q using p[of q] by simp
  from w[unfolded waiter_inv_calm[OF p]] have q: "queue_ok (kern (mach s))" and b: "blocked_are_waiters s"
    by simp_all
  have "waiter_inv (s\<lparr>mach := machine_dispatch (mach s)\<rparr>)"
  proof (cases rule: machine_dispatch_effect[of "mach s"])
    case idle
    from idle q have "queue_ok (kern (machine_dispatch (mach s)))" by (auto simp: queue_ok_def)
    with idle c b show ?thesis
      unfolding waiter_inv_calm[OF p'] by (simp add: blocked_are_waiters_def Let_def)
  next
    case (run i)
    have "scheduler_current_task (kern (machine_dispatch (mach s))) = g_tasks (kern (mach s)) ! i"
      using run by (simp add: scheduler_current_task_def cur_ptr_def)
    moreover have "blocked_are_waiters (s\<lparr>mach := machine_dispatch (mach s)\<rparr>)"
      using b run by (auto simp: blocked_are_waiters_def Let_def)
    ultimately show ?thesis
      unfolding waiter_inv_calm[OF p'] using run q by (auto simp: queue_ok_def)
  qed
  with lock_calm[OF o p] show ?case by simp
qed simp

lemma lock_reach_inv:
  assumes "lock_reach False s"
  shows "owner_inv s \<and> waiter_inv s"
  using assms
proof (induction rule: lock_reach.induct)
  case (start m inherit)
  then have "machine_inv m" by (rule reachable_inv)
  then show ?case
    by (auto simp: lock_start_def owner_inv_def waiter_inv_def mutex_init_def machine_inv_def
        one_running_def scheduler_current_task_def Let_def split: cpu.splits)
next
  case (step s s')
  show ?case by (rule lock_step_inv[OF step.hyps(2) step.IH])
qed

section \<open>Properties: mutexes\<close>

text \<open>
  C6: without timer signals the mutex gives mutual exclusion. Whatever tasks do and in whatever
  order the scheduler runs them, a task is between \<^verbatim>\<open>mutex_lock\<close> and \<^verbatim>\<open>mutex_unlock\<close> exactly when
  the mutex is locked and names it as its owner; so there is never more than one.
\<close>

theorem cooperative_mutual_exclusion:
  assumes "lock_reach False s"
  shows "(lpc s p = Critical \<longleftrightarrow> locked (mtx s) \<and> owner (mtx s) = p) \<and>
     (lpc s p = Critical \<and> lpc s q = Critical \<longrightarrow> p = q)"
proof -
  from lock_reach_inv[OF assms] have "owner_inv s" by simp
  then show ?thesis using owner_invD[of s p] owner_invD[of s q] by blast
qed

text \<open>The sample tasks without preemption: the first one runs and takes the mutex.\<close>

definition coop_pair :: lock_sys where
  "coop_pair = lock_stmt (lock_stmt (lock_stmt (lock_start preemptive_pair True)))"

lemma preemptive_pair_cur: "scheduler_current_task (kern preemptive_pair) = 0x1000"
  using preemptive_pair_facts by (simp add: scheduler_current_task_def)

lemma coop_pair_eq:
  "coop_pair = \<lparr>mach = preemptive_pair, mtx = mutex_take (mutex_init True) 0x1000 (kern preemptive_pair),
     lpc = (\<lambda>_. Out)(0x1000 := Critical)\<rparr>"
  using preemptive_pair_cur by (simp add: coop_pair_def lock_start_def lock_stmt_simps mutex_init_def)

lemma coop_pair_reach: "lock_reach False coop_pair"
proof -
  let ?s = "lock_start preemptive_pair True"
  have "cpu (mach ?s) = In_task" "cpu (mach (lock_stmt ?s)) = In_task" "cpu (mach (lock_stmt (lock_stmt ?s))) = In_task"
    using preemptive_pair_cur preemptive_pair_facts(1)
    by (simp_all add: lock_start_def lock_stmt_simps mutex_init_def)
  then show ?thesis
    unfolding coop_pair_def
    by (blast intro: lock_reach.step lock_step.stmt lock_reach.start preemptive_pair_reachable)
qed

theorem cooperative_mutual_exclusion_witness:
  "lpc coop_pair 0x1000 = Critical \<and> lpc coop_pair 0x2000 \<noteq> Critical"
  using cooperative_mutual_exclusion[OF coop_pair_reach, of "0x1000" "0x2000"]
  by (simp add: coop_pair_eq mutex_take_def)

text \<open>
  C7: without timer signals no wake-up is lost. A task that is blocked in \<^verbatim>\<open>mutex_lock\<close> is
  registered as a waiter and the mutex is still locked, so that its holder's \<^verbatim>\<open>mutex_unlock\<close> makes
  it ready.
\<close>

theorem cooperative_no_lost_wakeup:
  assumes "lock_reach False s" "p \<in> set (g_tasks (kern (mach s)))" "lpc s p = At_test"
    and "tstate (deref (kern (mach s)) p) = TASK_BLOCKED"
  shows "locked (mtx s) \<and> p \<in> set (mutex_waiters (mtx s)) \<and>
     tstate (deref (snd (mutex_unlock (mtx s) (kern (mach s)))) p) = TASK_READY"
proof -
  from lock_reach_inv[OF assms(1)] have w: "waiter_inv s" by simp
  then have p: "p \<in> set (mutex_waiters (mtx s))"
    using assms(2-4) by (simp add: waiter_inv_def Let_def)
  with w have "locked (mtx s)" by (auto simp: waiter_inv_def Let_def)
  with p show ?thesis by (simp add: mutex_unlock_def deref_wake_all Let_def)
qed

text \<open>Then it yields, and the second one runs into the locked mutex.\<close>

definition coop_blocked :: lock_sys where
  "coop_blocked = lock_stmt (lock_stmt (lock_stmt (lock_stmt (lock_stmt (lock_stmt
     (coop_pair\<lparr>mach := coop_round preemptive_pair\<rparr>))))))"

lemma coop_round_pair:
  "cpu (coop_round preemptive_pair) = In_task" "g_current_idx (kern (coop_round preemptive_pair)) = 1"
  "g_tasks (kern (coop_round preemptive_pair)) = [0x1000, 0x2000]"
  "scheduler_current_task (kern (coop_round preemptive_pair)) = 0x2000"
  "priority (deref (kern (coop_round preemptive_pair)) 0x1000) = 5"
  "priority (deref (kern (coop_round preemptive_pair)) 0x2000) = 5"
proof -
  have f: "queue_ok (kern preemptive_pair)" "one_running (kern preemptive_pair)"
    using reachable_inv[OF preemptive_pair_reachable] preemptive_pair_facts(1) by (simp_all add: machine_inv_def)
  have "round_robin 5 preemptive_pair"
    using f preemptive_pair_facts by (auto simp: round_robin_def)
  note r = round_robin_step[OF this, folded coop_round_def]
  then show "cpu (coop_round preemptive_pair) = In_task" "g_tasks (kern (coop_round preemptive_pair)) = [0x1000, 0x2000]"
    and i: "g_current_idx (kern (coop_round preemptive_pair)) = 1"
    "priority (deref (kern (coop_round preemptive_pair)) 0x1000) = 5"
    "priority (deref (kern (coop_round preemptive_pair)) 0x2000) = 5"
    using preemptive_pair_facts by (simp_all add: round_robin_def)
  then show "scheduler_current_task (kern (coop_round preemptive_pair)) = 0x2000"
    by (simp add: scheduler_current_task_def cur_ptr_def)
qed

lemma coop_blocked_facts:
  shows "lock_reach False coop_blocked" "lpc coop_blocked 0x2000 = At_test"
    "g_tasks (kern (mach coop_blocked)) = [0x1000, 0x2000]"
    "tstate (deref (kern (mach coop_blocked)) 0x2000) = TASK_BLOCKED"
proof -
  let ?s = "coop_pair\<lparr>mach := coop_round preemptive_pair\<rparr>" and ?k = "kern (coop_round preemptive_pair)"
  note c = coop_round_pair
  have "lock_step False coop_pair (coop_pair\<lparr>mach := machine_yield preemptive_pair\<rparr>)"
    using lock_step.own_yield[of coop_pair] preemptive_pair_facts(1) preemptive_pair_cur
    by (simp add: coop_pair_eq)
  moreover have "cpu (machine_yield preemptive_pair) = In_scheduler"
    by (simp add: machine_yield_def task_yield_def preemptive_pair_facts back_to_scheduler_def sched_resume_def
        restore_mask_def task_at_def task_check_canary_or_abort_def Let_def)
  then have "lock_step False (coop_pair\<lparr>mach := machine_yield preemptive_pair\<rparr>) ?s"
    using lock_step.dispatch[of "coop_pair\<lparr>mach := machine_yield preemptive_pair\<rparr>"] by (simp add: coop_round_def)
  ultimately have r: "lock_reach False ?s" using coop_pair_reach by (blast intro: lock_reach.step)
  define b where "b = set_state 0x2000 TASK_BLOCKED ?k"
  have boost: "mutex_boost (mtx coop_pair) 0x2000 ?k = ?k"
    using c by (simp add: mutex_boost_def coop_pair_eq mutex_take_def)
  define at where "at = (\<lambda>m x pc. \<lparr>mach = m, mtx = x, lpc = (lpc coop_pair)(0x2000 := pc)\<rparr>)"
  let ?x = "mtx coop_pair" and ?m = "coop_round preemptive_pair"
  have l: "locked ?x" "lpc coop_pair 0x2000 = Out" by (simp_all add: coop_pair_eq mutex_take_def)
  have s: "?s = at ?m ?x Out" by (simp add: at_def coop_pair_eq fun_eq_iff)
  have e: "lock_stmt (at ?m ?x Out) = at ?m ?x At_test" "lock_stmt (at ?m ?x At_test) = at ?m ?x At_boost"
    "lock_stmt (at ?m ?x At_boost) = at ?m ?x At_add_waiter"
    "lock_stmt (at ?m ?x At_add_waiter) = at ?m (add_waiter ?x 0x2000) At_block"
    "lock_stmt (at ?m (add_waiter ?x 0x2000) At_block) = at (?m\<lparr>kern := b\<rparr>) (add_waiter ?x 0x2000) At_yield"
    "lock_stmt (at (?m\<lparr>kern := b\<rparr>) (add_waiter ?x 0x2000) At_yield) =
       at (machine_yield (?m\<lparr>kern := b\<rparr>)) (add_waiter ?x 0x2000) At_test"
    using c(4) boost l by (simp_all add: at_def lock_stmt_simps b_def)
  have e6: "coop_blocked = at (machine_yield (?m\<lparr>kern := b\<rparr>)) (add_waiter ?x 0x2000) At_test"
    by (simp add: coop_blocked_def s e)
  have step: "lock_reach False (at m x pc) \<Longrightarrow> cpu m = In_task \<Longrightarrow> lock_reach False (lock_stmt (at m x pc))" for m x pc
    by (erule lock_reach.step, rule lock_step.stmt) (simp add: at_def)
  note r = r[unfolded s]
  show "lock_reach False coop_blocked"
    unfolding e6
    using step[OF step[OF step[OF step[OF step[OF step[OF r, unfolded e], unfolded e], unfolded e], unfolded e], unfolded e], unfolded e] c(1)
    by simp
  from machine_yield_effect[of "(coop_round preemptive_pair)\<lparr>kern := b\<rparr>"] c
  show "lpc coop_blocked 0x2000 = At_test" "g_tasks (kern (mach coop_blocked)) = [0x1000, 0x2000]"
    "tstate (deref (kern (mach coop_blocked)) 0x2000) = TASK_BLOCKED"
    by (simp_all add: e6 at_def b_def)
qed

theorem cooperative_no_lost_wakeup_witness:
  "locked (mtx coop_blocked) \<and> 0x2000 \<in> set (mutex_waiters (mtx coop_blocked))"
  using cooperative_no_lost_wakeup[OF coop_blocked_facts(1), of "0x2000"] coop_blocked_facts by simp

text \<open>
  Two tasks of equal priority under a one-tick slice, the first or the second of them running:
  every timer signal switches to the other one.
\<close>

definition pair_state :: "int \<Rightarrow> machine \<Rightarrow> bool" where
  "pair_state i m \<longleftrightarrow> (let k = kern m; run = deref k (if i = 0 then 0x1000 else 0x2000);
       other = deref k (if i = 0 then 0x2000 else 0x1000) in
     cpu m = In_task \<and> g_tasks k = [0x1000, 0x2000] \<and> g_current_idx k = i \<and> g_preempt_enabled k \<and>
     sigalrm k = Preempt_handler \<and> \<not> alarm_blocked k \<and> g_ticks_per_slice k = 1 \<and>
     g_ticks_since_switch k = 0 \<and>
     tstate run = TASK_RUNNING \<and> tstate other = TASK_READY \<and>
     priority run = 5 \<and> priority other = 5 \<and> wake_tick run = 0 \<and> wake_tick other = 0 \<and>
     pending_preemptions run = 0 \<and>
     pending_preemptions other = (if resume (tcontext other) = In_preempt_handler then 1 else 0) \<and> sched_next m = 0 \<and> task_canary_ok (deref k 0x1000))"

lemma upd_task_more_frame [simp]:
  "g_ticks_per_slice (upd_task p f k) = g_ticks_per_slice k"
  "g_ticks_since_switch (upd_task p f k) = g_ticks_since_switch k"
  "sigalrm (upd_task p f k) = sigalrm k" "alarm_blocked (upd_task p f k) = alarm_blocked k"
  "g_preempt_enabled (upd_task p f k) = g_preempt_enabled k"
  by (simp_all add: upd_task_def)

lemma after_tick_more_frame [simp]:
  "g_ticks_since_switch (after_tick k) = g_ticks_since_switch k"
  "g_ticks_per_slice (after_tick k) = g_ticks_per_slice k" "sigalrm (after_tick k) = sigalrm k"
  "alarm_blocked (after_tick k) = alarm_blocked k"
proof -
  have "sigalrm (tick_tasks ps k) = sigalrm k \<and> alarm_blocked (tick_tasks ps k) = alarm_blocked k" for ps k
    by (induction ps arbitrary: k) simp_all
  then show "g_ticks_since_switch (after_tick k) = g_ticks_since_switch k"
    "g_ticks_per_slice (after_tick k) = g_ticks_per_slice k" "sigalrm (after_tick k) = sigalrm k"
    "alarm_blocked (after_tick k) = alarm_blocked k"
    by (simp_all add: after_tick_def update_tick_bookkeeping_def)
qed

lemma pair_state_tick:
  assumes "pair_state i m" "i = 0 \<or> i = 1"
  shows "pair_state (1 - i) (machine_tick m)"
proof -
  let ?k = "kern m"
  define a b :: ptr where "a = (if i = 0 then 0x1000 else 0x2000)" and "b = (if i = 0 then 0x2000 else 0x1000)"
  have ab: "a \<noteq> b" "cur_ptr ?k = a" "set (g_tasks ?k) = {a, b}" "g_tasks ?k ! nat (1 - i) = b"
    using assms by (auto simp: a_def b_def pair_state_def Let_def cur_ptr_def)
  define r where "r = set_state a TASK_READY ((after_tick ?k)\<lparr>g_ticks_since_switch := 0\<rparr>)"
  have at: "deref (after_tick ?k) p = tick_task (g_tick_count ?k + 1) (deref ?k p)" if "p \<in> {a, b}" for p
    using that ab assms(1) by (intro deref_after_tick) (auto simp: pair_state_def Let_def)
  from assms(1) have f: "tstate (deref ?k a) = TASK_RUNNING" "tstate (deref ?k b) = TASK_READY"
    "priority (deref ?k a) = 5" "priority (deref ?k b) = 5" "wake_tick (deref ?k a) = 0" "wake_tick (deref ?k b) = 0"
    "pending_preemptions (deref ?k a) = 0"
    "pending_preemptions (deref ?k b) = (if resume (tcontext (deref ?k b)) = In_preempt_handler then 1 else 0)"
    "task_canary_ok (deref ?k 0x1000)" "g_tasks ?k = [0x1000, 0x2000]" "g_current_idx ?k = i"
    by (simp_all add: pair_state_def a_def b_def Let_def)
  have ki: "g_preempt_enabled ?k" "g_ticks_per_slice ?k = 1" "g_ticks_since_switch ?k = 0"
    using assms(1) by (simp_all add: pair_state_def Let_def)
  have "tstate (deref r q) = TASK_READY \<and> priority (deref r q) = 5" if "q \<in> {a, b}" for q
    using f(1-4) that at by (auto simp: r_def tick_task_def)
  note ready = this
  have gr: "g_tasks r = g_tasks ?k" by (simp add: r_def)
  have "pick_next_ready r = int (rr_start r)"
  proof (rule pick_all_equal[of _ 5])
    show "0 < length (g_tasks r)" using f(10) gr by simp
    fix j assume "j < length (g_tasks r)"
    then have "g_tasks r ! j \<in> {a, b}" using nth_mem ab(3) gr by metis
    with ready show "ready_at r j \<and> priority (task_at r j) = 5"
      by (simp add: ready_at_def task_at_def)
  qed
  also have "\<dots> = 1 - i" using assms(2) f(10,11) by (auto simp: rr_start_def r_def numeral_2_eq_2)
  finally have p: "pick_next_ready r = 1 - i" .
  define k' where "k' = set_resume a In_preempt_handler
    ((upd_task a (\<lambda>t. t\<lparr>pending_preemptions := pending_preemptions t + 1\<rparr>)
       (set_state b TASK_RUNNING (r\<lparr>g_current_idx := 1 - i\<rparr>)))\<lparr>g_switch_count := g_switch_count r + 1\<rparr>)"
  have "preempt_handler ?k = (Switched (nat (1 - i)), k')"
    using ki at[of a] f(1,7,11) ab(2,4) p assms(2)
    by (auto simp: preempt_handler_def after_tick_def[symmetric] r_def[symmetric] gr k'_def Let_def)
  then have mt: "machine_tick m = m\<lparr>kern := switch_in b k'\<rparr>"
    using ab(4) by (simp add: machine_tick_def k'_def r_def)
  have db: "deref (switch_in b k') b = (deref ?k b)\<lparr>tstate := TASK_RUNNING, pending_preemptions := 0,
      ticks_ready := ticks_ready (deref ?k b) + 1\<rparr>"
    using ab(1) f(1-8) at by (auto simp: deref_switch_in k'_def r_def tick_task_def)
  have da: "deref (switch_in b k') a = (deref ?k a)\<lparr>tstate := TASK_READY, pending_preemptions := 1,
      ticks_run := ticks_run (deref ?k a) + 1,
      tcontext := (tcontext (deref ?k a))\<lparr>resume := In_preempt_handler\<rparr>\<rparr>"
    using ab(1) f(1-8) at by (auto simp: deref_switch_in k'_def r_def tick_task_def)
  have fr: "sigalrm (switch_in b k') = sigalrm ?k" "\<not> alarm_blocked (switch_in b k')"
    "g_preempt_enabled (switch_in b k')" "g_ticks_per_slice (switch_in b k') = 1"
    "g_ticks_since_switch (switch_in b k') = 0" "g_tasks (switch_in b k') = g_tasks ?k"
    "g_current_idx (switch_in b k') = 1 - i"
    using ki by (auto simp: switch_in_def k'_def r_def set_resume_def set_state_def preempt_resume_def Let_def
        split: resume_point.splits)
  have m: "cpu m = In_task" "sigalrm ?k = Preempt_handler" "sched_next m = 0"
    using assms(1) by (simp_all add: pair_state_def Let_def)
  from assms(2) show ?thesis
  proof
    assume i: "i = 0"
    then show ?thesis
      using f(1-10) m fr db da unfolding mt a_def b_def by (simp add: pair_state_def Let_def)
  next
    assume i: "i = 1"
    then show ?thesis
      using f(1-10) m fr db da unfolding mt a_def b_def by (simp add: pair_state_def Let_def)
  qed
qed

lemma pair_state_start: "pair_state 0 preemptive_pair"
  using preemptive_pair_facts
  by (simp add: pair_state_def Let_def) (simp add: preemptive_pair_eq kernel_boot_def)

lemma pair_state_cur:
  "pair_state i m \<Longrightarrow> i = 0 \<or> i = 1 \<Longrightarrow> cpu m = In_task \<and>
     scheduler_current_task (kern m) = (if i = 0 then 0x1000 else 0x2000)"
  by (auto simp: pair_state_def Let_def scheduler_current_task_def cur_ptr_def)

lemma lock_pair_tick:
  assumes "lock_reach True s" "pair_state i (mach s)" "i = 0 \<or> i = 1"
  shows "lock_reach True (s\<lparr>mach := machine_tick (mach s)\<rparr>)"
  by (rule lock_reach.step[OF assms(1) lock_step.timer])
     (use assms(2) in \<open>simp_all add: pair_state_def Let_def\<close>)

lemma lock_pair_stmt:
  assumes "lock_reach True s" "pair_state i (mach s)"
  shows "lock_reach True (lock_stmt s)"
  by (rule lock_reach.step[OF assms(1) lock_step.stmt])
     (use assms(2) in \<open>simp add: pair_state_def Let_def\<close>)

text \<open>
  C31: with timer signals the mutex does not give mutual exclusion. \<^verbatim>\<open>mutex_lock\<close> tests and sets
  \<^verbatim>\<open>locked\<close> in separate statements with the signal enabled; a switch between the two lets two tasks
  into the critical section.
\<close>

theorem preemption_breaks_mutual_exclusion:
  "\<exists>s p q. lock_reach True s \<and> p \<noteq> q \<and> lpc s p = Critical \<and> lpc s q = Critical"
proof -
  let ?P = preemptive_pair
  let ?T1 = "machine_tick ?P"
  let ?T2 = "machine_tick ?T1"
  note st = pair_state_start pair_state_tick[OF pair_state_start, simplified]
    pair_state_tick[OF pair_state_tick[OF pair_state_start, simplified], simplified]
  note cur = pair_state_cur[OF st(1), simplified] pair_state_cur[OF st(2), simplified]
    pair_state_cur[OF st(3), simplified]
  define s0 where "s0 = lock_start ?P True"
  define s1 where "s1 = lock_stmt (lock_stmt s0)"
  define s2 where "s2 = s1\<lparr>mach := ?T1\<rparr>"
  define s3 where "s3 = lock_stmt (lock_stmt (lock_stmt s2))"
  define s4 where "s4 = s3\<lparr>mach := ?T2\<rparr>"
  have e1: "s1 = s0\<lparr>lpc := (\<lambda>_. Out)(0x1000 := At_take)\<rparr>"
    using cur by (simp add: s1_def s0_def lock_start_def lock_stmt_simps mutex_init_def)
  have m1: "mach s1 = ?P" by (simp add: e1 s0_def lock_start_def)
  have e3: "mach s3 = ?T1 \<and> lpc s3 = (\<lambda>_. Out)(0x1000 := At_take, 0x2000 := Critical)"
    using cur by (simp add: s3_def s2_def e1 s0_def lock_start_def lock_stmt_simps mutex_init_def)
  have "lock_reach True s0"
    unfolding s0_def by (rule lock_reach.start[OF preemptive_pair_reachable])
  then have "lock_reach True s1"
    unfolding s1_def using st(1) cur
    by (intro lock_pair_stmt[where i = 0]) (simp_all add: s0_def lock_start_def lock_stmt_simps)
  from lock_pair_tick[OF this, of 0] st(1) have "lock_reach True s2" by (simp add: m1 s2_def)
  then have "lock_reach True s3"
    unfolding s3_def using st(2) cur
    by (intro lock_pair_stmt[where i = 1])
       (simp_all add: s2_def e1 s0_def lock_start_def lock_stmt_simps mutex_init_def)
  from lock_pair_tick[OF this, of 1] st(2) e3 have "lock_reach True s4" by (simp add: s4_def)
  then have "lock_reach True (lock_stmt s4)"
    using st(3) by (intro lock_pair_stmt[where i = 0]) (simp_all add: s4_def)
  moreover have "lpc (lock_stmt s4) = (\<lambda>_. Out)(0x1000 := Critical, 0x2000 := Critical)"
    using cur e3 by (simp add: s4_def lock_stmt_simps fun_upd_twist)
  ultimately show ?thesis
    by (intro exI[of _ "lock_stmt s4"] exI[of _ "0x1000"] exI[of _ "0x2000"]) simp
qed

text \<open>The first task holds the mutex, the second has registered and is about to block.\<close>

definition raced_state :: lock_sys where
  "raced_state = \<lparr>mach = machine_tick (machine_tick preemptive_pair),
     mtx = \<lparr>locked = True, owner = 0x1000, owner_saved_priority = 5, inheritance_enabled = True,
       mutex_waiters = [0x2000]\<rparr>,
     lpc = (\<lambda>_. Out)(0x1000 := Critical, 0x2000 := At_block)\<rparr>"

lemma raced_reachable: "lock_reach True raced_state"
proof -
  let ?P = preemptive_pair
  let ?T1 = "machine_tick ?P"
  let ?T2 = "machine_tick ?T1"
  note st = pair_state_start pair_state_tick[OF pair_state_start, simplified]
    pair_state_tick[OF pair_state_tick[OF pair_state_start, simplified], simplified]
  note cur = pair_state_cur[OF st(1), simplified] pair_state_cur[OF st(2), simplified]
    pair_state_cur[OF st(3), simplified]
  define s0 where "s0 = lock_start ?P True"
  define s2 where "s2 = (lock_stmt (lock_stmt (lock_stmt s0)))\<lparr>mach := ?T1\<rparr>"
  define s4 where "s4 = (lock_stmt (lock_stmt (lock_stmt (lock_stmt s2))))\<lparr>mach := ?T2\<rparr>"
  have "lock_reach True s0"
    unfolding s0_def by (rule lock_reach.start[OF preemptive_pair_reachable])
  then have "lock_reach True (lock_stmt (lock_stmt (lock_stmt s0)))"
    using st(1) cur
    by (intro lock_pair_stmt[where i = 0]) (simp_all add: s0_def lock_start_def lock_stmt_simps mutex_init_def)
  moreover have e1: "lock_stmt (lock_stmt (lock_stmt s0)) = \<lparr>mach = ?P, mtx = (mutex_take (mutex_init True) 0x1000 (kern ?P)),
      lpc = (\<lambda>_. Out)(0x1000 := Critical)\<rparr>"
    using cur by (simp add: s0_def lock_start_def lock_stmt_simps mutex_init_def)
  ultimately have r2: "lock_reach True s2"
    using lock_pair_tick[of "lock_stmt (lock_stmt (lock_stmt s0))" 0] st(1) by (simp add: s2_def)
  have boost: "mutex_boost m 0x2000 (kern ?T1) = kern ?T1" if "owner m = 0x1000" for m
    using st(2) that by (simp add: mutex_boost_def pair_state_def Let_def)
  have sv: "priority (deref (kern ?P) 0x1000) = 5" using st(1) by (simp add: pair_state_def Let_def)
  have e4: "s4 = raced_state"
    using cur boost sv
    by (simp add: raced_state_def s4_def s2_def e1 lock_stmt_simps mutex_take_def mutex_init_def add_waiter_def)
  have "lock_reach True (lock_stmt (lock_stmt (lock_stmt (lock_stmt s2))))"
    using r2 st(2) cur boost
    by (intro lock_pair_stmt[where i = 1])
       (simp_all add: s2_def e1 lock_stmt_simps mutex_take_def mutex_init_def)
  moreover have "mach (lock_stmt (lock_stmt (lock_stmt (lock_stmt s2)))) = ?T1"
    using cur boost by (simp add: s2_def e1 lock_stmt_simps mutex_take_def mutex_init_def)
  ultimately show ?thesis
    unfolding e4[symmetric] using lock_pair_tick[of "lock_stmt (lock_stmt (lock_stmt (lock_stmt s2)))" 1] st(2) by (simp add: s4_def)
qed

text \<open>
  C32: with timer signals a wake-up can be lost. A task that is switched away after it registered
  as a waiter and before it marks itself blocked is made ready by the holder's \<^verbatim>\<open>mutex_unlock\<close>, then
  blocks: the mutex is free, it has no waiters, no timeout is set, and the task stays blocked.
\<close>

theorem preemption_loses_wakeup:
  "\<exists>s p. lock_reach True s \<and> p \<in> set (g_tasks (kern (mach s))) \<and> lpc s p = At_test \<and>
     tstate (deref (kern (mach s)) p) = TASK_BLOCKED \<and> wake_tick (deref (kern (mach s)) p) = 0 \<and>
     \<not> locked (mtx s) \<and> mutex_waiters (mtx s) = []"
proof -
  let ?T2 = "machine_tick (machine_tick preemptive_pair)"
  have t2: "pair_state 0 ?T2"
    using pair_state_tick[OF pair_state_tick[OF pair_state_start]] by simp
  note cur2 = pair_state_cur[OF t2, simplified]
  define k where "k = kern (mach (lock_stmt raced_state))"
  have e5: "lock_stmt raced_state = \<lparr>mach = ?T2\<lparr>kern := k\<rparr>, mtx = (mutex_init True)\<lparr>owner_saved_priority := 5\<rparr>,
      lpc = (\<lambda>_. Out)(0x2000 := At_block)\<rparr>"
    using cur2 by (simp add: k_def raced_state_def lock_stmt_simps mutex_unlock_def mutex_init_def Let_def fun_eq_iff)
  have kd: "k = set_state 0x2000 TASK_READY (upd_task 0x1000 (\<lambda>t. t\<lparr>priority := 5\<rparr>) (kern ?T2))"
    using cur2 by (simp add: k_def raced_state_def lock_stmt_simps mutex_unlock_def Let_def)
  have "pair_state 0 (?T2\<lparr>kern := k\<rparr>)"
    using t2 by (simp add: kd set_state_def pair_state_def task_canary_ok_def Let_def)
  note t3 = this pair_state_tick[OF this, simplified]
  define m where "m = machine_tick (?T2\<lparr>kern := k\<rparr>)"
  note t4 = t3(2)[folded m_def]
  note cur4 = pair_state_cur[OF t4, simplified]
  define s6 where "s6 = \<lparr>mach = m, mtx = (mutex_init True)\<lparr>owner_saved_priority := 5\<rparr>,
      lpc = (\<lambda>_. Out)(0x2000 := At_block)\<rparr>"
  have "lock_reach True (lock_stmt raced_state)"
    using t2 by (intro lock_pair_stmt[where i = 0] raced_reachable) (simp add: raced_state_def)
  from lock_pair_tick[OF this, of 0] t3(1) have "lock_reach True s6"
    by (simp add: e5 s6_def m_def)
  then have "lock_reach True (lock_stmt s6)"
    using t4 by (intro lock_pair_stmt[where i = 1]) (simp_all add: s6_def)
  moreover have "cpu (mach (lock_stmt s6)) = In_task" using cur4 by (simp add: s6_def lock_stmt_simps)
  ultimately have r: "lock_reach True (lock_stmt (lock_stmt s6))"
    by (blast intro: lock_reach.step lock_step.stmt)
  define b where "b = set_state 0x2000 TASK_BLOCKED (kern m)"
  have e8: "lock_stmt (lock_stmt s6) = s6\<lparr>mach := machine_yield (m\<lparr>kern := b\<rparr>), lpc := (\<lambda>_. Out)(0x2000 := At_test)\<rparr>"
    using cur4 by (simp add: s6_def lock_stmt_simps b_def)
  have b: "0 \<le> g_current_idx b" "g_tasks b = [0x1000, 0x2000]" "wake_tick (deref b 0x2000) = 0"
    using t4 by (simp_all add: b_def pair_state_def Let_def)
  have "tstate (deref (kern (machine_yield (m\<lparr>kern := b\<rparr>))) 0x2000) = TASK_BLOCKED"
    using machine_yield_effect(4)[of "m\<lparr>kern := b\<rparr>"] b(1) by (simp add: b_def)
  moreover have "wake_tick (deref (kern (machine_yield (m\<lparr>kern := b\<rparr>))) 0x2000) = 0"
    using b by (simp add: machine_yield_def task_yield_def back_to_scheduler_effect Let_def)
  moreover have "0x2000 \<in> set (g_tasks (kern (machine_yield (m\<lparr>kern := b\<rparr>))))"
    using machine_yield_effect(2)[of "m\<lparr>kern := b\<rparr>"] b by simp
  moreover have "\<not> locked (mtx s6)" "mutex_waiters (mtx s6) = []" by (simp_all add: s6_def mutex_init_def)
  ultimately show ?thesis
    using r unfolding e8 by (intro exI[of _ "_ :: lock_sys"] exI[of _ "0x2000"]) (rule conjI, assumption, simp)
qed

section \<open>Properties: priority inheritance\<close>

text \<open>The tasks with the indices \<open>is\<close> call \<^verbatim>\<open>mutex_lock\<close> one after the other.\<close>

fun contend :: "int list \<Rightarrow> mutex \<times> kernel \<Rightarrow> mutex \<times> kernel" where
  "contend [] s = s"
| "contend (i # is) s = contend is (snd (mutex_lock (fst s) ((snd s)\<lparr>g_current_idx := i\<rparr>)))"

lemma contend_step:
  assumes "locked m" "0 \<le> i" "q = g_tasks k ! nat i" "mutex_lock m (k\<lparr>g_current_idx := i\<rparr>) = (ok, m', k')"
  shows "m' = add_waiter m q" "g_tasks k' = g_tasks k"
    "priority (deref k' p) = (if inheritance_enabled m \<and> owner m \<noteq> 0 \<and> p = owner m
       then max (priority (deref k p)) (priority (deref k q)) else priority (deref k p))"
  using assms
  by (auto simp: mutex_lock_def scheduler_current_task_def cur_ptr_def mutex_boost_def Let_def)

lemma contend_effect:
  assumes "locked m" "owner m = p" "p \<noteq> 0" "inheritance_enabled m"
    and "\<And>i. i \<in> set is \<Longrightarrow> 0 \<le> i \<and> g_tasks k ! nat i \<noteq> p"
    and "contend is (m, k) = (m', k')"
  shows "priority (deref k' p) = fold max (map (\<lambda>i. priority (deref k (g_tasks k ! nat i))) is) (priority (deref k p)) \<and>
     g_tasks k' = g_tasks k \<and> owner m' = p \<and> locked m' \<and> owner_saved_priority m' = owner_saved_priority m \<and>
     mutex_waiters m' = fold (\<lambda>i ws. mutex_waiters (add_waiter (m\<lparr>mutex_waiters := ws\<rparr>) (g_tasks k ! nat i))) is (mutex_waiters m)"
  using assms
proof (induction "is" arbitrary: m k)
  case Nil
  then show ?case by simp
next
  case (Cons i "is")
  obtain ok m1 k1 where l: "mutex_lock m (k\<lparr>g_current_idx := i\<rparr>) = (ok, m1, k1)"
    by (cases "mutex_lock m (k\<lparr>g_current_idx := i\<rparr>)") auto
  have i: "0 \<le> i" "g_tasks k ! nat i \<noteq> p" using Cons.prems(5) by auto
  note st = contend_step[OF Cons.prems(1) i(1) refl l]
  have keep: "map (\<lambda>j. priority (deref k1 (g_tasks k1 ! nat j))) is = map (\<lambda>j. priority (deref k (g_tasks k ! nat j))) is"
    using Cons.prems(2,5) st(2,3) by auto
  have w: "mutex_waiters (add_waiter (m1\<lparr>mutex_waiters := ws\<rparr>) q) = mutex_waiters (add_waiter (m\<lparr>mutex_waiters := ws\<rparr>) q)" for ws q
    by (simp add: mw.add_law)
  have "contend is (m1, k1) = (m', k')" using Cons.prems(6) l by simp
  from Cons.IH[OF _ _ _ _ _ this] Cons.prems(1-5) st(1,2) st(3)[of p] keep w show ?case
    by (simp add: max.commute cong: map_cong)
qed

text \<open>
  C30: priority inheritance. A task \<open>p\<close> takes a free mutex with inheritance; then other tasks call
  \<^verbatim>\<open>mutex_lock\<close> on it in turn. While they wait, \<open>p\<close> has the largest of its own priority and theirs;
  its \<^verbatim>\<open>mutex_unlock\<close> restores the priority it had when it took the mutex, leaves the mutex free and
  makes every registered waiter ready.
\<close>

theorem priority_inheritance:
  assumes "\<not> locked m" "inheritance_enabled m" "mutex_lock m k = (ok, m1, k1)"
    and "p = scheduler_current_task k" "p \<noteq> 0"
    and "\<forall>i\<in>set is. 0 \<le> i \<and> g_tasks k ! nat i \<noteq> p"
    and "contend is (m1, k1) = (m2, k2)" "mutex_unlock m2 (k2\<lparr>g_current_idx := g_current_idx k\<rparr>) = (m3, k3)"
  shows "ok \<and> priority (deref k2 p) = fold max (map (\<lambda>i. priority (deref k (g_tasks k ! nat i))) is) (priority (deref k p)) \<and>
     priority (deref k3 p) = priority (deref k p) \<and> \<not> locked m3 \<and> owner m3 = 0 \<and> mutex_waiters m3 = [] \<and>
     (\<forall>w\<in>set (mutex_waiters m2). tstate (deref k3 w) = TASK_READY)"
proof -
  have l: "ok" "k1 = k" "m1 = mutex_take m p k"
    using assms(1,3,4) by (auto simp: mutex_lock_def Let_def)
  note e = contend_effect[of m1 p "is" k1, OF _ _ assms(5) _ _ assms(7)]
  have c: "scheduler_current_task (k2\<lparr>g_current_idx := g_current_idx k\<rparr>) = p"
    using assms(2,4,6) l e by (simp add: scheduler_current_task_def cur_ptr_def mutex_take_def)
  from assms(2,6) l have "priority (deref k2 p) = fold max (map (\<lambda>i. priority (deref k (g_tasks k ! nat i))) is) (priority (deref k p))"
    "owner_saved_priority m2 = priority (deref k p)"
    using e by (simp_all add: mutex_take_def)
  with assms(8) c l(1) show ?thesis
    by (auto simp: mutex_unlock_def deref_wake_all Let_def)
qed

theorem priority_inheritance_witness:
  "let k = sample_kernel (sample_task 1 TASK_RUNNING) (sample_task 9 TASK_READY) (sample_task 4 TASK_READY) 0;
       r = contend [2, 1] (snd (mutex_lock (mutex_init True) k))
   in priority (deref (snd r) 1) = 9 \<and>
      priority (deref (snd (mutex_unlock (fst r) ((snd r)\<lparr>g_current_idx := 0\<rparr>))) 1) = 1"
proof -
  let ?k = "sample_kernel (sample_task 1 TASK_RUNNING) (sample_task 9 TASK_READY) (sample_task 4 TASK_READY) 0"
  have p: "scheduler_current_task ?k = 1" by (simp add: scheduler_current_task_def cur_ptr_def sample_kernel_simps)
  obtain ok m1 k1 m2 k2 m3 k3 where l: "mutex_lock (mutex_init True) ?k = (ok, m1, k1)"
    "contend [2, 1] (m1, k1) = (m2, k2)" "mutex_unlock m2 (k2\<lparr>g_current_idx := g_current_idx ?k\<rparr>) = (m3, k3)"
    by (metis prod.exhaust)
  have "\<not> locked (mutex_init True)" "inheritance_enabled (mutex_init True)" "(1 :: ptr) \<noteq> 0"
    by (simp_all add: mutex_init_def)
  from priority_inheritance[OF this(1,2) l(1) refl _ _ l(2,3)] p show ?thesis
    using l by (simp add: sample_kernel_simps)
qed

text \<open>
  A boost is lost when its receiver unlocks another mutex. A task of priority 1 holds two
  mutexes; a task of priority 9 waits for the first, which raises the holder to 9; unlocking the
  second mutex sets the holder back to 1 although it still holds the first and the other task
  still waits for it.
\<close>

theorem nested_unlock_drops_boost:
  "let k = sample_kernel (sample_task 1 TASK_RUNNING) (sample_task 9 TASK_READY) (sample_task 4 TASK_READY) 0;
       outer = fst (snd (mutex_lock (mutex_init True) k));
       inner = fst (snd (mutex_lock (mutex_init True) k));
       (outer, k) = contend [1] (outer, k);
       boosted = priority (deref k 1);
       (inner, k) = mutex_unlock inner (k\<lparr>g_current_idx := 0\<rparr>)
   in boosted = 9 \<and> owner outer = 1 \<and> mutex_waiters outer = [2] \<and> priority (deref k 1) = 1"
  by (simp add: mutex_lock_def mutex_init_def scheduler_current_task_def cur_ptr_def sample_kernel_simps
      mutex_take_def mutex_boost_def add_waiter_def mutex_unlock_def task_yield_def Let_def)

end
