(* ===== verification/Queue_System.thy ===== *)
theory Queue_System
  imports Sync
begin

text \<open>
  The bounded queue of \<^verbatim>\<open>sync.c\<close> under concurrent use: any number of registered tasks are inside
  \<^verbatim>\<open>queue_send\<close> and \<^verbatim>\<open>queue_receive\<close> of one queue, and the processor moves from any of them to any
  other between two statements. The calls of \<^verbatim>\<open>sem_wait\<close>, \<^verbatim>\<open>sem_post\<close>, \<^verbatim>\<open>mutex_lock\<close> and \<^verbatim>\<open>mutex_unlock\<close> are
  single steps, as they are when the timer does not interrupt them.

  The properties say that the ring buffer implements a bounded FIFO channel.
\<close>

section \<open>The system\<close>

text \<open>
  \<open>q_sent\<close> and \<open>q_rcvd\<close> record the items in the order in which they were stored in the buffer and
  loaded from it.
\<close>

record queue_sys =
  qq :: queue
  qk :: kernel
  qpc :: "ptr \<Rightarrow> queue_pc"
  q_sent :: "ptr list"
  q_rcvd :: "ptr list"

fun sending :: "queue_pc \<Rightarrow> bool" where
  "sending (Send_wait _) = True" | "sending (Send_lock _) = True" | "sending (Send_store _) = True"
| "sending Send_advance = True" | "sending Send_unlock = True" | "sending Send_post = True"
| "sending _ = False"

text \<open>The current task executes its next statement.\<close>

definition queue_stmt :: "queue_sys \<Rightarrow> queue_sys" where
  "queue_stmt s =
     (let p = scheduler_current_task (qk s); pc = qpc s p;
          r = (if sending pc then queue_send pc (qq s) (qk s) else queue_receive pc (qq s) (qk s));
          s = s\<lparr>qpc := (qpc s)(p := fst r), qq := fst (snd r), qk := snd (snd r)\<rparr>
      in case pc of
           Send_store item \<Rightarrow> s\<lparr>q_sent := q_sent s @ [item]\<rparr>
         | Recv_load \<Rightarrow> s\<lparr>q_rcvd := q_rcvd s @ [case fst r of Recv_advance item \<Rightarrow> item | _ \<Rightarrow> 0]\<rparr>
         | _ \<Rightarrow> s)"

inductive queue_step :: "queue_sys \<Rightarrow> queue_sys \<Rightarrow> bool" where
  stmt: "queue_step s (queue_stmt s)"
| call_send: "qpc s (scheduler_current_task (qk s)) \<in> {Outside, Received v} \<Longrightarrow>
     queue_step s (s\<lparr>qpc := (qpc s)(scheduler_current_task (qk s) := Send_wait item)\<rparr>)"
| call_receive: "qpc s (scheduler_current_task (qk s)) \<in> {Outside, Received v} \<Longrightarrow>
     queue_step s (s\<lparr>qpc := (qpc s)(scheduler_current_task (qk s) := Recv_wait)\<rparr>)"
| switch: "i < length (g_tasks (qk s)) \<Longrightarrow> queue_step s (s\<lparr>qk := (qk s)\<lparr>g_current_idx := int i\<rparr>\<rparr>)"

text \<open>The start: \<^verbatim>\<open>queue_init\<close> with storage for \<open>capacity\<close> items, and a registered current task.\<close>

definition queue_start :: "ptr list \<Rightarrow> int \<Rightarrow> kernel \<Rightarrow> queue_sys" where
  "queue_start buffer capacity k =
     \<lparr>qq = queue_init buffer capacity, qk = k, qpc = (\<lambda>_. Outside), q_sent = [], q_rcvd = []\<rparr>"

inductive queue_reach :: "int \<Rightarrow> queue_sys \<Rightarrow> bool" for capacity where
  start: "0 < capacity \<Longrightarrow> length buffer = nat capacity \<Longrightarrow> distinct (g_tasks k) \<Longrightarrow>
     0 \<le> g_current_idx k \<Longrightarrow> g_current_idx k < int (length (g_tasks k)) \<Longrightarrow>
     queue_reach capacity (queue_start buffer capacity k)"
| step: "queue_reach capacity s \<Longrightarrow> queue_step s s' \<Longrightarrow> queue_reach capacity s'"

section \<open>The invariant\<close>

fun in_critical :: "queue_pc \<Rightarrow> bool" where
  "in_critical (Send_store _) = True" | "in_critical Send_advance = True" | "in_critical Send_unlock = True"
| "in_critical Recv_load = True" | "in_critical (Recv_advance _) = True" | "in_critical (Recv_unlock _) = True"
| "in_critical _ = False"

text \<open>
  A task that has taken an empty slot and not yet stored; that has stored and not yet posted;
  that has taken a filled slot and not yet loaded; that has loaded and not yet posted.
\<close>

fun to_store :: "queue_pc \<Rightarrow> bool" where
  "to_store (Send_lock _) = True" | "to_store (Send_store _) = True" | "to_store _ = False"

fun stored :: "queue_pc \<Rightarrow> bool" where
  "stored Send_advance = True" | "stored Send_unlock = True" | "stored Send_post = True" | "stored _ = False"

fun to_load :: "queue_pc \<Rightarrow> bool" where
  "to_load Recv_lock = True" | "to_load Recv_load = True" | "to_load _ = False"

fun loaded :: "queue_pc \<Rightarrow> bool" where
  "loaded (Recv_advance _) = True" | "loaded (Recv_unlock _) = True" | "loaded (Recv_post _) = True"
| "loaded _ = False"

definition tasks_at :: "(queue_pc \<Rightarrow> bool) \<Rightarrow> (ptr \<Rightarrow> queue_pc) \<Rightarrow> ptr list \<Rightarrow> int" where
  "tasks_at P pcs ps = (\<Sum>p\<leftarrow>ps. of_bool (P (pcs p)))"

text \<open>
  The slot counts: the filled slots, those being posted and those being loaded are the items in
  the channel; the empty slots, those being filled, those being given back and the items in the
  channel are the capacity.
\<close>

definition slots_inv :: "int \<Rightarrow> queue_sys \<Rightarrow> bool" where
  "slots_inv n s \<longleftrightarrow> (let pcs = qpc s; ps = g_tasks (qk s); pending = int (length (q_sent s)) - int (length (q_rcvd s)) in
     0 \<le> sem_count (slots_filled (qq s)) \<and> 0 \<le> sem_count (slots_empty (qq s)) \<and>
     sem_count (slots_filled (qq s)) + tasks_at stored pcs ps + tasks_at to_load pcs ps = pending \<and>
     sem_count (slots_empty (qq s)) + tasks_at to_store pcs ps + tasks_at loaded pcs ps + pending = n)"

definition lock_inv :: "queue_sys \<Rightarrow> bool" where
  "lock_inv s \<longleftrightarrow> (\<forall>p. in_critical (qpc s p) \<longleftrightarrow> locked (qlock (qq s)) \<and> owner (qlock (qq s)) = p)"

fun advancing_tail :: "queue_pc \<Rightarrow> bool" where
  "advancing_tail Send_advance = True" | "advancing_tail _ = False"

fun advancing_head :: "queue_pc \<Rightarrow> bool" where
  "advancing_head (Recv_advance _) = True" | "advancing_head _ = False"

text \<open>The ring: where the indices are, and which items the buffer holds.\<close>

definition ring_inv :: "int \<Rightarrow> queue_sys \<Rightarrow> bool" where
  "ring_inv n s \<longleftrightarrow> 0 < n \<and> qcapacity (qq s) = n \<and> length (qbuffer (qq s)) = nat n \<and>
     qtail (qq s) = (int (length (q_sent s)) - tasks_at advancing_tail (qpc s) (g_tasks (qk s))) mod n \<and>
     qhead (qq s) = (int (length (q_rcvd s)) - tasks_at advancing_head (qpc s) (g_tasks (qk s))) mod n \<and>
     q_rcvd s = take (length (q_rcvd s)) (q_sent s) \<and>
     (\<forall>i. length (q_rcvd s) \<le> i \<and> i < length (q_sent s) \<longrightarrow> qbuffer (qq s) ! (i mod nat n) = q_sent s ! i)"

definition current_inv :: "queue_sys \<Rightarrow> bool" where
  "current_inv s \<longleftrightarrow> distinct (g_tasks (qk s)) \<and> 0 \<le> g_current_idx (qk s) \<and>
     g_current_idx (qk s) < int (length (g_tasks (qk s)))"

definition queue_inv :: "int \<Rightarrow> queue_sys \<Rightarrow> bool" where
  "queue_inv n s \<longleftrightarrow> current_inv s \<and> slots_inv n s \<and> lock_inv s \<and> ring_inv n s"

section \<open>Lemmas\<close>

lemma tasks_at_simps [simp]:
  "tasks_at P pcs [] = 0" "tasks_at P pcs (p # ps) = of_bool (P (pcs p)) + tasks_at P pcs ps"
  by (simp_all add: tasks_at_def)

lemma tasks_at_other: "p \<notin> set ps \<Longrightarrow> tasks_at P (pcs(p := v)) ps = tasks_at P pcs ps"
  by (induction ps) auto

lemma tasks_at_upd:
  "distinct ps \<Longrightarrow> p \<in> set ps \<Longrightarrow>
     tasks_at P (pcs(p := v)) ps = tasks_at P pcs ps - of_bool (P (pcs p)) + of_bool (P v)"
  by (induction ps) (auto simp: tasks_at_other)

lemma tasks_at_nonneg [simp]: "0 \<le> tasks_at P pcs ps"
  by (induction ps) auto

lemma tasks_at_pos: "p \<in> set ps \<Longrightarrow> P (pcs p) \<Longrightarrow> 0 < tasks_at P pcs ps"
proof (induction ps)
  case (Cons q ps)
  then show ?case using tasks_at_nonneg[of P pcs ps] by (auto simp del: tasks_at_nonneg)
qed simp

lemma tasks_at_none: "(\<And>p. \<not> P (pcs p)) \<Longrightarrow> tasks_at P pcs ps = 0"
  by (induction ps) auto

lemma current_mem: "current_inv s \<Longrightarrow> scheduler_current_task (qk s) \<in> set (g_tasks (qk s))"
  by (auto simp: current_inv_def scheduler_current_task_def cur_ptr_def)

lemma sem_wait_cases:
  obtains (block) s' k' where "sem_wait s k = (False, s', k')" "sem_count s' = sem_count s" "sem_count s \<le> 0"
      "g_tasks k' = g_tasks k" "g_current_idx k' = g_current_idx k"
  | (take) "sem_wait s k = (True, s\<lparr>sem_count := sem_count s - 1\<rparr>, k)" "0 < sem_count s"
  by (cases "sem_count s \<le> 0") (auto simp: sem_wait_def Let_def)

lemma mutex_lock_cases:
  obtains (block) m' k' where "mutex_lock m k = (False, m', k')" "locked m'" "locked m" "owner m' = owner m"
      "g_tasks k' = g_tasks k" "g_current_idx k' = g_current_idx k"
  | (take) m' where "mutex_lock m k = (True, m', k)" "\<not> locked m" "locked m'" "owner m' = scheduler_current_task k"
  by (cases "locked m") (auto simp: mutex_lock_def mutex_take_def Let_def)

lemma mutex_unlock_effect:
  "locked (fst (mutex_unlock m k)) = False" "g_tasks (snd (mutex_unlock m k)) = g_tasks k"
  "g_current_idx (snd (mutex_unlock m k)) = g_current_idx k"
  by (simp_all add: mutex_unlock_def Let_def)

lemma sem_post_effect:
  "sem_count (fst (sem_post s k)) = sem_count s + 1" "g_tasks (snd (sem_post s k)) = g_tasks k"
  "g_current_idx (snd (sem_post s k)) = g_current_idx k"
  by (simp_all add: sem_post_def Let_def)

lemma c_mod_pos: "0 \<le> a \<Longrightarrow> 0 < b \<Longrightarrow> c_mod a b = a mod b"
  by (simp add: c_mod_def c_div_pos minus_mult_div_eq_mod)


lemma no_advance:
  assumes "lock_inv s" "in_critical (qpc s p)" "\<not> P (qpc s p)" "\<And>pc. P pc \<Longrightarrow> in_critical pc"
  shows "tasks_at P (qpc s) ps = 0"
proof (rule tasks_at_none)
  fix q show "\<not> P (qpc s q)"
    using assms unfolding lock_inv_def by metis
qed

lemma advancing_critical: "advancing_tail pc \<Longrightarrow> in_critical pc" "advancing_head pc \<Longrightarrow> in_critical pc"
  by (cases pc; simp)+

lemma pending_bounds:
  assumes "slots_inv n s"
  shows "length (q_rcvd s) \<le> length (q_sent s)" "int (length (q_sent s)) - int (length (q_rcvd s)) \<le> n"
    "p \<in> set (g_tasks (qk s)) \<Longrightarrow> to_store (qpc s p) \<Longrightarrow> int (length (q_sent s)) - int (length (q_rcvd s)) < n"
    "p \<in> set (g_tasks (qk s)) \<Longrightarrow> to_load (qpc s p) \<Longrightarrow> length (q_rcvd s) < length (q_sent s)"
proof -
  let ?c = "\<lambda>P. tasks_at P (qpc s) (g_tasks (qk s))"
  have nn: "0 \<le> ?c stored" "0 \<le> ?c to_load" "0 \<le> ?c to_store" "0 \<le> ?c loaded" by simp_all
  have i: "0 \<le> sem_count (slots_filled (qq s))" "0 \<le> sem_count (slots_empty (qq s))"
    "sem_count (slots_filled (qq s)) + ?c stored + ?c to_load = int (length (q_sent s)) - int (length (q_rcvd s))"
    "sem_count (slots_empty (qq s)) + ?c to_store + ?c loaded + (int (length (q_sent s)) - int (length (q_rcvd s))) = n"
    using assms by (simp_all add: slots_inv_def Let_def)
  show "length (q_rcvd s) \<le> length (q_sent s)" "int (length (q_sent s)) - int (length (q_rcvd s)) \<le> n"
    using nn i by linarith+
  show "int (length (q_sent s)) - int (length (q_rcvd s)) < n"
    if "p \<in> set (g_tasks (qk s))" "to_store (qpc s p)"
    using tasks_at_pos[of p _ to_store "qpc s", OF that] nn i by linarith
  show "length (q_rcvd s) < length (q_sent s)"
    if "p \<in> set (g_tasks (qk s))" "to_load (qpc s p)"
    using tasks_at_pos[of p _ to_load "qpc s", OF that] nn i by linarith
qed

text \<open>Different positions of the window lie in different slots.\<close>

lemma window_slots:
  fixes i j n :: nat
  assumes "i < j" "j - i < n"
  shows "i mod n \<noteq> j mod n"
proof
  assume "i mod n = j mod n"
  then have "(j - i) mod n = 0" using assms(1) by (metis mod_eq_dvd_iff_nat less_imp_le mod_0_imp_dvd dvd_imp_mod_0)
  with assms show False by simp
qed

lemma store_ring:
  assumes "ring_inv n s" "slots_inv n s" "lock_inv s" "p \<in> set (g_tasks (qk s))" "qpc s p = Send_store item"
  shows "qtail (qq s) = int (length (q_sent s)) mod n"
    and "length (q_rcvd s) \<le> i \<Longrightarrow> i < Suc (length (q_sent s)) \<Longrightarrow>
      (qbuffer (qq s))[nat (qtail (qq s)) := item] ! (i mod nat n) = (q_sent s @ [item]) ! i"
proof -
  have r: "0 < n" "length (qbuffer (qq s)) = nat n"
    "\<And>i. length (q_rcvd s) \<le> i \<and> i < length (q_sent s) \<Longrightarrow> qbuffer (qq s) ! (i mod nat n) = q_sent s ! i"
    using assms(1) by (simp_all add: ring_inv_def)
  have "tasks_at advancing_tail (qpc s) (g_tasks (qk s)) = 0"
    using assms(3,5) by (intro no_advance[of _ p]) (simp_all add: advancing_critical)
  then show t: "qtail (qq s) = int (length (q_sent s)) mod n"
    using assms(1) by (simp add: ring_inv_def)
  have p: "int (length (q_sent s)) - int (length (q_rcvd s)) < n"
    using pending_bounds(3)[OF assms(2,4)] assms(5) by simp
  have nt: "nat (qtail (qq s)) = length (q_sent s) mod nat n"
    using r(1) unfolding t by (simp add: nat_mod_distrib)
  assume i: "length (q_rcvd s) \<le> i" "i < Suc (length (q_sent s))"
  show "(qbuffer (qq s))[nat (qtail (qq s)) := item] ! (i mod nat n) = (q_sent s @ [item]) ! i"
  proof (cases "i = length (q_sent s)")
    case True
    with r nt show ?thesis by simp
  next
    case False
    with i have l: "i < length (q_sent s)" by simp
    then have "i mod nat n \<noteq> nat (qtail (qq s))"
      unfolding nt using window_slots[of i "length (q_sent s)" "nat n"] i p by linarith
    with l r(3) i(1) show ?thesis by (simp add: nth_append)
  qed
qed

lemma load_ring:
  assumes "ring_inv n s" "slots_inv n s" "lock_inv s" "p \<in> set (g_tasks (qk s))" "qpc s p = Recv_load"
  shows "qhead (qq s) = int (length (q_rcvd s)) mod n"
    and "qbuffer (qq s) ! nat (qhead (qq s)) = q_sent s ! length (q_rcvd s)"
    and "length (q_rcvd s) < length (q_sent s)"
proof -
  have r: "0 < n" "\<And>i. length (q_rcvd s) \<le> i \<and> i < length (q_sent s) \<Longrightarrow> qbuffer (qq s) ! (i mod nat n) = q_sent s ! i"
    using assms(1) by (simp_all add: ring_inv_def)
  have "tasks_at advancing_head (qpc s) (g_tasks (qk s)) = 0"
    using assms(3,5) by (intro no_advance[of _ p]) (simp_all add: advancing_critical)
  then show h: "qhead (qq s) = int (length (q_rcvd s)) mod n"
    using assms(1) by (simp add: ring_inv_def)
  show l: "length (q_rcvd s) < length (q_sent s)"
    using pending_bounds(4)[OF assms(2,4)] assms(5) by simp
  have "nat (qhead (qq s)) = length (q_rcvd s) mod nat n"
    using r(1) unfolding h by (simp add: nat_mod_distrib)
  with r(2) l show "qbuffer (qq s) ! nat (qhead (qq s)) = q_sent s ! length (q_rcvd s)" by simp
qed

lemmas queue_inv_defs = queue_inv_def current_inv_def slots_inv_def lock_inv_def ring_inv_def Let_def

lemma queue_inv_move:
  assumes inv: "queue_inv n s" and p: "p = scheduler_current_task (qk s)"
    and k: "g_tasks k = g_tasks (qk s)" "g_current_idx k = g_current_idx (qk s)"
    and q: "qcapacity q = n" "qbuffer q = qbuffer (qq s)"
    and counts: "0 \<le> sem_count (slots_filled q)" "0 \<le> sem_count (slots_empty q)"
      "sem_count (slots_filled q) + of_bool (stored v) + of_bool (to_load v) =
       sem_count (slots_filled (qq s)) + of_bool (stored (qpc s p)) + of_bool (to_load (qpc s p))"
      "sem_count (slots_empty q) + of_bool (to_store v) + of_bool (loaded v) =
       sem_count (slots_empty (qq s)) + of_bool (to_store (qpc s p)) + of_bool (loaded (qpc s p))"
    and lock: "in_critical v \<longleftrightarrow> locked (qlock q) \<and> owner (qlock q) = p"
      "\<And>x. x \<noteq> p \<Longrightarrow> locked (qlock q) \<and> owner (qlock q) = x \<longleftrightarrow> locked (qlock (qq s)) \<and> owner (qlock (qq s)) = x"
    and tail: "qtail q = (qtail (qq s) + of_bool (advancing_tail (qpc s p)) - of_bool (advancing_tail v)) mod n"
    and head: "qhead q = (qhead (qq s) + of_bool (advancing_head (qpc s p)) - of_bool (advancing_head v)) mod n"
  shows "queue_inv n (s\<lparr>qpc := (qpc s)(p := v), qq := q, qk := k\<rparr>)"
proof -
  have c: "current_inv s" and sl: "slots_inv n s" and l: "lock_inv s" and r: "ring_inv n s"
    using inv by (simp_all add: queue_inv_def)
  have d: "distinct (g_tasks (qk s))" "p \<in> set (g_tasks (qk s))"
    using c current_mem[OF c] p by (simp_all add: current_inv_def)
  have "lock_inv (s\<lparr>qpc := (qpc s)(p := v), qq := q, qk := k\<rparr>)"
    using l lock unfolding lock_inv_def by auto
  moreover have "slots_inv n (s\<lparr>qpc := (qpc s)(p := v), qq := q, qk := k\<rparr>)"
    using sl counts by (simp add: slots_inv_def k tasks_at_upd[OF d] Let_def)
  moreover have "ring_inv n (s\<lparr>qpc := (qpc s)(p := v), qq := q, qk := k\<rparr>)"
    using r q tail head by (simp add: ring_inv_def k tasks_at_upd[OF d]) (simp add: mod_simps algebra_simps)
  ultimately show ?thesis using c k by (simp add: queue_inv_def current_inv_def)
qed

lemma queue_inv_ring_range:
  assumes "queue_inv n s"
  shows "0 < n" "qcapacity (qq s) = n" "qtail (qq s) mod n = qtail (qq s)" "qhead (qq s) mod n = qhead (qq s)"
    "0 \<le> qtail (qq s)" "0 \<le> qhead (qq s)" "0 \<le> sem_count (slots_filled (qq s))" "0 \<le> sem_count (slots_empty (qq s))"
  using assms by (simp_all add: queue_inv_def ring_inv_def slots_inv_def Let_def)

lemma queue_inv_lockD:
  "queue_inv n s \<Longrightarrow> in_critical (qpc s p) \<longleftrightarrow> locked (qlock (qq s)) \<and> owner (qlock (qq s)) = p"
  by (simp add: queue_inv_def lock_inv_def)

lemma store_inv:
  assumes inv: "queue_inv n s" and p: "p = scheduler_current_task (qk s)" and pc: "qpc s p = Send_store item"
  shows "queue_inv n (s\<lparr>qpc := (qpc s)(p := Send_advance),
     qq := (qq s)\<lparr>qbuffer := (qbuffer (qq s))[nat (qtail (qq s)) := item]\<rparr>, q_sent := q_sent s @ [item]\<rparr>)"
    (is "queue_inv n ?s")
proof -
  have c: "current_inv s" and sl: "slots_inv n s" and l: "lock_inv s" and r: "ring_inv n s"
    using inv by (simp_all add: queue_inv_def)
  have d: "distinct (g_tasks (qk s))" "p \<in> set (g_tasks (qk s))"
    using c current_mem[OF c] p by (simp_all add: current_inv_def)
  have "lock_inv ?s"
    using l pc unfolding lock_inv_def by (auto simp: fun_upd_def dest: spec[of _ p])
  moreover have "slots_inv n ?s"
    using sl pc by (simp add: slots_inv_def tasks_at_upd[OF d] Let_def)
  moreover have "ring_inv n ?s"
    using r pc store_ring[OF r sl l d(2) pc] pending_bounds(1)[OF sl]
    by (simp add: ring_inv_def tasks_at_upd[OF d])
  ultimately show ?thesis using c by (simp add: queue_inv_def current_inv_def)
qed

lemma load_inv:
  assumes inv: "queue_inv n s" and p: "p = scheduler_current_task (qk s)" and pc: "qpc s p = Recv_load"
    and v: "v = qbuffer (qq s) ! nat (qhead (qq s))"
  shows "queue_inv n (s\<lparr>qpc := (qpc s)(p := Recv_advance v), q_rcvd := q_rcvd s @ [v]\<rparr>)"
    (is "queue_inv n ?s")
proof -
  have c: "current_inv s" and sl: "slots_inv n s" and l: "lock_inv s" and r: "ring_inv n s"
    using inv by (simp_all add: queue_inv_def)
  have d: "distinct (g_tasks (qk s))" "p \<in> set (g_tasks (qk s))"
    using c current_mem[OF c] p by (simp_all add: current_inv_def)
  note ld = load_ring[OF r sl l d(2) pc]
  have "lock_inv ?s"
    using l pc unfolding lock_inv_def by (auto simp: fun_upd_def dest: spec[of _ p])
  moreover have "slots_inv n ?s"
    using sl pc by (simp add: slots_inv_def tasks_at_upd[OF d] Let_def)
  moreover have "q_rcvd s @ [v] = take (Suc (length (q_rcvd s))) (q_sent s)"
    using r ld(2,3) v by (simp add: ring_inv_def take_Suc_conv_app_nth)
  then have "ring_inv n ?s"
    using r pc ld(3) by (simp add: ring_inv_def tasks_at_upd[OF d] min_absorb2)
  ultimately show ?thesis using c by (simp add: queue_inv_def current_inv_def)
qed

lemma send_stmt_inv:
  assumes inv: "queue_inv n s" and p: "p = scheduler_current_task (qk s)" and "sending (qpc s p)"
  shows "queue_inv n (queue_stmt s)"
proof -
  note rng = queue_inv_ring_range[OF inv]
  note cp = queue_inv_lockD[OF inv, of p]
  note eval = queue_stmt_def p[symmetric] queue_send_def Let_def
  show ?thesis
  proof (cases "qpc s p")
    case (Send_wait item)
    show ?thesis
    proof (cases rule: sem_wait_cases[of "slots_empty (qq s)" "qk s"])
      case (block s' k')
      then have e: "queue_stmt s = s\<lparr>qpc := (qpc s)(p := Send_wait item), qq := (qq s)\<lparr>slots_empty := s'\<rparr>, qk := k'\<rparr>"
        using Send_wait by (simp add: eval)
      show ?thesis
        unfolding e by (rule queue_inv_move[OF inv p]) (use rng block Send_wait cp in \<open>auto\<close>)
    next
      case take
      then have e: "queue_stmt s = s\<lparr>qpc := (qpc s)(p := Send_lock item),
          qq := (qq s)\<lparr>slots_empty := (slots_empty (qq s))\<lparr>sem_count := sem_count (slots_empty (qq s)) - 1\<rparr>\<rparr>, qk := qk s\<rparr>"
        using Send_wait by (simp add: eval)
      show ?thesis
        unfolding e by (rule queue_inv_move[OF inv p]) (use rng take Send_wait cp in \<open>auto\<close>)
    qed
  next
    case (Send_lock item)
    show ?thesis
    proof (cases rule: mutex_lock_cases[of "qlock (qq s)" "qk s"])
      case (block m' k')
      then have e: "queue_stmt s = s\<lparr>qpc := (qpc s)(p := Send_lock item), qq := (qq s)\<lparr>qlock := m'\<rparr>, qk := k'\<rparr>"
        using Send_lock by (simp add: eval)
      show ?thesis
        unfolding e by (rule queue_inv_move[OF inv p]) (use rng block Send_lock cp in \<open>auto\<close>)
    next
      case (take m')
      then have e: "queue_stmt s = s\<lparr>qpc := (qpc s)(p := Send_store item), qq := (qq s)\<lparr>qlock := m'\<rparr>, qk := qk s\<rparr>"
        using Send_lock by (simp add: eval)
      show ?thesis
        unfolding e by (rule queue_inv_move[OF inv p]) (use rng take Send_lock p in \<open>auto\<close>)
    qed
  next
    case (Send_store item)
    have e: "queue_stmt s = s\<lparr>qpc := (qpc s)(p := Send_advance),
        qq := (qq s)\<lparr>qbuffer := (qbuffer (qq s))[nat (qtail (qq s)) := item]\<rparr>, q_sent := q_sent s @ [item]\<rparr>"
      using Send_store by (simp add: eval)
    show ?thesis
      unfolding e using inv p Send_store by (rule store_inv)
  next
    case Send_advance
    then have e: "queue_stmt s = s\<lparr>qpc := (qpc s)(p := Send_unlock),
        qq := (qq s)\<lparr>qtail := (qtail (qq s) + 1) mod n\<rparr>, qk := qk s\<rparr>"
      using rng by (simp add: eval c_mod_pos)
    show ?thesis
      unfolding e by (rule queue_inv_move[OF inv p]) (use rng Send_advance cp in \<open>auto\<close>)
  next
    case Send_unlock
    then have e: "queue_stmt s = s\<lparr>qpc := (qpc s)(p := Send_post),
        qq := (qq s)\<lparr>qlock := fst (mutex_unlock (qlock (qq s)) (qk s))\<rparr>, qk := snd (mutex_unlock (qlock (qq s)) (qk s))\<rparr>"
      by (simp add: eval split: prod.splits)
    show ?thesis
      unfolding e by (rule queue_inv_move[OF inv p]) (use rng Send_unlock cp in \<open>auto simp: mutex_unlock_effect\<close>)
  next
    case Send_post
    then have e: "queue_stmt s = s\<lparr>qpc := (qpc s)(p := Outside),
        qq := (qq s)\<lparr>slots_filled := fst (sem_post (slots_filled (qq s)) (qk s))\<rparr>, qk := snd (sem_post (slots_filled (qq s)) (qk s))\<rparr>"
      by (simp add: eval split: prod.splits)
    show ?thesis
      unfolding e by (rule queue_inv_move[OF inv p]) (use rng Send_post cp in \<open>auto simp: sem_post_effect\<close>)
  qed (use assms(3) in simp_all)
qed

lemma receive_stmt_inv:
  assumes inv: "queue_inv n s" and p: "p = scheduler_current_task (qk s)" and ns: "\<not> sending (qpc s p)"
  shows "queue_inv n (queue_stmt s)"
proof -
  note rng = queue_inv_ring_range[OF inv]
  note cp = queue_inv_lockD[OF inv, of p]
  note eval = queue_stmt_def p[symmetric] queue_receive_def Let_def
  show ?thesis
  proof (cases "qpc s p")
    case Recv_wait
    show ?thesis
    proof (cases rule: sem_wait_cases[of "slots_filled (qq s)" "qk s"])
      case (block s' k')
      then have e: "queue_stmt s = s\<lparr>qpc := (qpc s)(p := Recv_wait), qq := (qq s)\<lparr>slots_filled := s'\<rparr>, qk := k'\<rparr>"
        using Recv_wait by (simp add: eval)
      show ?thesis
        unfolding e by (rule queue_inv_move[OF inv p]) (use rng block Recv_wait cp in auto)
    next
      case take
      then have e: "queue_stmt s = s\<lparr>qpc := (qpc s)(p := Recv_lock),
          qq := (qq s)\<lparr>slots_filled := (slots_filled (qq s))\<lparr>sem_count := sem_count (slots_filled (qq s)) - 1\<rparr>\<rparr>, qk := qk s\<rparr>"
        using Recv_wait by (simp add: eval)
      show ?thesis
        unfolding e by (rule queue_inv_move[OF inv p]) (use rng take Recv_wait cp in auto)
    qed
  next
    case Recv_lock
    show ?thesis
    proof (cases rule: mutex_lock_cases[of "qlock (qq s)" "qk s"])
      case (block m' k')
      then have e: "queue_stmt s = s\<lparr>qpc := (qpc s)(p := Recv_lock), qq := (qq s)\<lparr>qlock := m'\<rparr>, qk := k'\<rparr>"
        using Recv_lock by (simp add: eval)
      show ?thesis
        unfolding e by (rule queue_inv_move[OF inv p]) (use rng block Recv_lock cp in auto)
    next
      case (take m')
      then have e: "queue_stmt s = s\<lparr>qpc := (qpc s)(p := Recv_load), qq := (qq s)\<lparr>qlock := m'\<rparr>, qk := qk s\<rparr>"
        using Recv_lock by (simp add: eval)
      show ?thesis
        unfolding e by (rule queue_inv_move[OF inv p]) (use rng take Recv_lock p in auto)
    qed
  next
    case Recv_load
    have e: "queue_stmt s = s\<lparr>qpc := (qpc s)(p := Recv_advance (qbuffer (qq s) ! nat (qhead (qq s)))),
        q_rcvd := q_rcvd s @ [qbuffer (qq s) ! nat (qhead (qq s))]\<rparr>"
      using Recv_load by (simp add: eval)
    show ?thesis
      unfolding e by (rule load_inv[OF inv p Recv_load refl])
  next
    case (Recv_advance item)
    then have e: "queue_stmt s = s\<lparr>qpc := (qpc s)(p := Recv_unlock item),
        qq := (qq s)\<lparr>qhead := (qhead (qq s) + 1) mod n\<rparr>, qk := qk s\<rparr>"
      using rng by (simp add: eval c_mod_pos)
    show ?thesis
      unfolding e by (rule queue_inv_move[OF inv p]) (use rng Recv_advance cp in auto)
  next
    case (Recv_unlock item)
    then have e: "queue_stmt s = s\<lparr>qpc := (qpc s)(p := Recv_post item),
        qq := (qq s)\<lparr>qlock := fst (mutex_unlock (qlock (qq s)) (qk s))\<rparr>, qk := snd (mutex_unlock (qlock (qq s)) (qk s))\<rparr>"
      by (simp add: eval split: prod.splits)
    show ?thesis
      unfolding e by (rule queue_inv_move[OF inv p]) (use rng Recv_unlock cp in \<open>auto simp: mutex_unlock_effect\<close>)
  next
    case (Recv_post item)
    then have e: "queue_stmt s = s\<lparr>qpc := (qpc s)(p := Received item),
        qq := (qq s)\<lparr>slots_empty := fst (sem_post (slots_empty (qq s)) (qk s))\<rparr>, qk := snd (sem_post (slots_empty (qq s)) (qk s))\<rparr>"
      by (simp add: eval split: prod.splits)
    show ?thesis
      unfolding e by (rule queue_inv_move[OF inv p]) (use rng Recv_post cp in \<open>auto simp: sem_post_effect\<close>)
  next
    case Outside
    then have "queue_stmt s = s" by (simp add: eval fun_upd_idem)
    with inv show ?thesis by simp
  next
    case (Received item)
    then have "queue_stmt s = s" by (simp add: eval fun_upd_idem)
    with inv show ?thesis by simp
  qed (use ns in simp_all)
qed

lemma queue_call_inv:
  assumes inv: "queue_inv n s" and p: "p = scheduler_current_task (qk s)"
    and "qpc s p \<in> {Outside, Received v}" "pc \<in> {Send_wait item, Recv_wait}"
  shows "queue_inv n (s\<lparr>qpc := (qpc s)(p := pc)\<rparr>)"
proof -
  have "queue_inv n (s\<lparr>qpc := (qpc s)(p := pc), qq := qq s, qk := qk s\<rparr>)"
    by (rule queue_inv_move[OF inv p])
       (use queue_inv_ring_range[OF inv] queue_inv_lockD[OF inv, of p] assms(3,4) in auto)
  then show ?thesis by simp
qed

lemma queue_reach_inv: "queue_reach n s \<Longrightarrow> queue_inv n s"
proof (induction rule: queue_reach.induct)
  case (start buffer k)
  then show ?case
    by (simp add: queue_start_def queue_inv_defs queue_init_def sem_init_def mutex_init_def tasks_at_none)
next
  case (step s s')
  from step.hyps(2) step.IH show ?case
  proof (induction rule: queue_step.induct)
    case (stmt s)
    then show ?case
      using send_stmt_inv[OF _ refl, of n s] receive_stmt_inv[OF _ refl, of n s] by blast
  next
    case (call_send s v item)
    then show ?case by (intro queue_call_inv) auto
  next
    case (call_receive s v)
    then show ?case by (intro queue_call_inv) auto
  next
    case (switch i s)
    then show ?case by (simp add: queue_inv_defs)
  qed
qed

section \<open>Properties\<close>


text \<open>A queue of two slots; the first sample task has sent the item 42.\<close>

definition two_slots :: queue_sys where
  "two_slots = queue_start [0, 0] 2 (sample_kernel (sample_task 1 TASK_RUNNING) (sample_task 1 TASK_READY)
     (sample_task 1 TASK_READY) 0)"

definition sent_once :: queue_sys where
  "sent_once = queue_stmt (queue_stmt (queue_stmt (queue_stmt (queue_stmt (queue_stmt
     (two_slots\<lparr>qpc := (qpc two_slots)(1 := Send_wait 42)\<rparr>))))))"

lemma sample_current: "scheduler_current_task (sample_kernel a b c 0) = 1"
  by (simp add: scheduler_current_task_def cur_ptr_def sample_kernel_simps)

lemmas stmt_eval = queue_stmt_def queue_send_def sem_wait_def mutex_lock_def mutex_take_def mutex_unlock_def
  sem_post_def Let_def

lemma sent_once_facts:
  "q_sent sent_once = [42]" "q_rcvd sent_once = []" "qbuffer (qq sent_once) = [42, 0]"
  "g_tasks (qk sent_once) = [1, 2, 3]" "qtail (qq sent_once) = 1" "qpc sent_once p = Outside"
proof -
  define k where "k = qk two_slots"
  define at where "at = (\<lambda>pc b e f t l k sent. \<lparr>qq = \<lparr>qbuffer = b, qcapacity = 2, qhead = 0, qtail = t,
      qlock = \<lparr>locked = l, owner = if l then 1 else 0, owner_saved_priority = if pc = Send_wait 42 \<or> pc = Send_lock 42 then 0 else 1,
        inheritance_enabled = True, mutex_waiters = []\<rparr>,
      slots_empty = \<lparr>sem_count = e, sem_waiters = []\<rparr>, slots_filled = \<lparr>sem_count = f, sem_waiters = []\<rparr>\<rparr>,
    qk = k, qpc = (\<lambda>_. Outside)(1 := pc), q_sent = sent, q_rcvd = []\<rparr> :: queue_sys)"
  have k: "scheduler_current_task k = 1" "priority (deref k 1) = 1" "g_tasks k = [1, 2, 3]"
    by (simp_all add: k_def two_slots_def queue_start_def sample_current sample_kernel_simps)
  define k' where "k' = upd_task 1 (\<lambda>t. t\<lparr>priority := 1\<rparr>) k"
  have k': "scheduler_current_task k' = 1" "g_tasks k' = [1, 2, 3]" using k by (simp_all add: k'_def)
  have s: "two_slots\<lparr>qpc := (qpc two_slots)(1 := Send_wait 42)\<rparr> = at (Send_wait 42) [0, 0] 2 0 0 False k []"
    by (simp add: at_def k_def two_slots_def queue_start_def queue_init_def sem_init_def mutex_init_def)
  have e: "queue_stmt (at (Send_wait 42) [0, 0] 2 0 0 False k []) = at (Send_lock 42) [0, 0] 1 0 0 False k []"
    "queue_stmt (at (Send_lock 42) [0, 0] 1 0 0 False k []) = at (Send_store 42) [0, 0] 1 0 0 True k []"
    "queue_stmt (at (Send_store 42) [0, 0] 1 0 0 True k []) = at Send_advance [42, 0] 1 0 0 True k [42]"
    "queue_stmt (at Send_advance [42, 0] 1 0 0 True k [42]) = at Send_unlock [42, 0] 1 0 1 True k [42]"
    "queue_stmt (at Send_unlock [42, 0] 1 0 1 True k [42]) = at Send_post [42, 0] 1 0 1 False k' [42]"
    "queue_stmt (at Send_post [42, 0] 1 0 1 False k' [42]) = at Outside [42, 0] 1 1 1 False k' [42]"
    using k k' by (simp_all add: at_def stmt_eval c_mod_def c_div_def k'_def)
  have so: "sent_once = at Outside [42, 0] 1 1 1 False k' [42]" by (simp add: sent_once_def s e)
  show "q_sent sent_once = [42]" "q_rcvd sent_once = []" "qbuffer (qq sent_once) = [42, 0]"
    "g_tasks (qk sent_once) = [1, 2, 3]" "qtail (qq sent_once) = 1" "qpc sent_once p = Outside"
    unfolding so by (simp_all add: at_def k')
qed

lemma sent_once_reach: "queue_reach 2 sent_once"
proof -
  have "queue_reach 2 two_slots"
    unfolding two_slots_def by (rule queue_reach.start) (simp_all add: sample_kernel_simps)
  moreover have "queue_step two_slots (two_slots\<lparr>qpc := (qpc two_slots)(1 := Send_wait 42)\<rparr>)"
    using queue_step.call_send[of two_slots 0 42] by (simp add: two_slots_def queue_start_def sample_current)
  ultimately have "queue_reach 2 (two_slots\<lparr>qpc := (qpc two_slots)(1 := Send_wait 42)\<rparr>)"
    by (rule queue_reach.step)
  moreover have "queue_reach 2 s \<Longrightarrow> queue_reach 2 (queue_stmt s)" for s
    by (erule queue_reach.step) (rule queue_step.stmt)
  ultimately show ?thesis unfolding sent_once_def by simp
qed


text \<open>
  Inside \<^verbatim>\<open>queue_send\<close> and \<^verbatim>\<open>queue_receive\<close> the ring indices are protected: at most one task is
  between the locking and the unlocking of the queue's mutex; a task about to store finds room in
  the buffer and a task about to load finds an item; the indices and the semaphore counts stay in
  their ranges.
\<close>

theorem queue_critical_section_safe:
  assumes "queue_reach n s" and "p \<in> set (g_tasks (qk s))"
  shows "(in_critical (qpc s p) \<and> in_critical (qpc s p') \<longrightarrow> p = p') \<and>
     (\<forall>item. qpc s p = Send_store item \<longrightarrow> int (length (q_sent s)) - int (length (q_rcvd s)) < n) \<and>
     (qpc s p = Recv_load \<longrightarrow> length (q_rcvd s) < length (q_sent s)) \<and>
     0 \<le> qhead (qq s) \<and> qhead (qq s) < n \<and> 0 \<le> qtail (qq s) \<and> qtail (qq s) < n \<and>
     0 \<le> sem_count (slots_empty (qq s)) \<and> sem_count (slots_empty (qq s)) \<le> n \<and>
     0 \<le> sem_count (slots_filled (qq s)) \<and> sem_count (slots_filled (qq s)) \<le> n"
proof -
  note inv = queue_reach_inv[OF assms(1)]
  then have sl: "slots_inv n s" and r: "ring_inv n s" by (simp_all add: queue_inv_def)
  let ?c = "\<lambda>P. tasks_at P (qpc s) (g_tasks (qk s))"
  have nn: "0 \<le> ?c stored" "0 \<le> ?c to_load" "0 \<le> ?c to_store" "0 \<le> ?c loaded" by simp_all
  have "sem_count (slots_empty (qq s)) \<le> n" "sem_count (slots_filled (qq s)) \<le> n"
    using sl nn unfolding slots_inv_def Let_def by linarith+
  moreover have "qhead (qq s) < n" "qtail (qq s) < n" using r by (simp_all add: ring_inv_def)
  moreover have "in_critical (qpc s p) \<and> in_critical (qpc s p') \<longrightarrow> p = p'"
    using queue_inv_lockD[OF inv, of p] queue_inv_lockD[OF inv, of p'] by blast
  ultimately show ?thesis
    using queue_inv_ring_range[OF inv] pending_bounds(3,4)[OF sl assms(2)] by auto
qed

theorem queue_critical_section_safe_witness:
  "0 \<le> qtail (qq sent_once) \<and> qtail (qq sent_once) < 2 \<and> sem_count (slots_empty (qq sent_once)) \<le> 2"
  using queue_critical_section_safe[OF sent_once_reach, of 1] by (simp add: sent_once_facts)

end
