(* ===== verification/Cdr.thy ===== *)
theory Cdr
  imports Prelude "HOL-Library.Sublist"
begin

text \<open>
  \<^verbatim>\<open>xrce/src/cdr.c\<close> and \<^verbatim>\<open>cdr.h\<close>: the CDR little-endian writer and reader.

  A writer call takes the writer and returns its C result with the writer it leaves. A reader call
  takes the reader together with the object its out-pointer points to, and returns the result with
  both as it leaves them, so that a call that fails half way shows what it has written. A \<^verbatim>\<open>double\<close>
  is its bit pattern, a C string is the array it is stored in.

  The contract of the component is the wire format: the bytes of a value as a function of the
  offset at which it starts, from which its padding follows. \<open>writes\<close> says that a writer call puts
  exactly those bytes at the current position if they fit and fails otherwise; \<open>parses\<close> says that a
  reader call recovers the value from those bytes and fails on any proper prefix of them. Both
  compose along \<^verbatim>\<open>&&\<close> chains, which gives the theorems on messages.
\<close>

section \<open>Data\<close>

record writer =
  wbuf :: bytes
  wcap :: nat
  wpos :: nat
  walign_base :: nat

record reader =
  rbuf :: bytes
  rlen :: nat
  rpos :: nat
  ralign_base :: nat

type_synonym writer_op = "writer \<Rightarrow> bool \<times> writer"
type_synonym 'o reader_op = "reader \<times> 'o \<Rightarrow> bool \<times> reader \<times> 'o"

section \<open>Operations\<close>

definition ensure :: "nat \<Rightarrow> nat \<Rightarrow> nat \<Rightarrow> bool" where
  "ensure cap pos n \<longleftrightarrow> n \<le> cap - pos"

text \<open>\<^verbatim>\<open>w->buf[w->pos++] = b\<close>\<close>

definition put_byte :: "u8 \<Rightarrow> writer \<Rightarrow> writer" where
  "put_byte b w = w\<lparr>wbuf := (wbuf w)[wpos w := b], wpos := wpos w + 1\<rparr>"

fun pad_loop :: "nat \<Rightarrow> writer \<Rightarrow> writer" where
  "pad_loop 0 w = w"
| "pad_loop (Suc pad) w = (if wpos w < wcap w then pad_loop pad (put_byte 0 w) else w)"

definition align_writer :: "writer \<Rightarrow> nat \<Rightarrow> writer" where
  "align_writer w n =
     (let rem = (wpos w - walign_base w) mod n in
      if rem \<noteq> 0 then pad_loop (n - rem) w else w)"

definition align_reader :: "reader \<Rightarrow> nat \<Rightarrow> bool \<times> reader" where
  "align_reader r n =
     (let rem = (rpos r - ralign_base r) mod n in
      if rem = 0 then (True, r)
      else
        (let pad = n - rem in
         if \<not> ensure (rlen r) (rpos r) pad then (False, r)
         else (True, r\<lparr>rpos := rpos r + pad\<rparr>)))"

definition xrce_cdr_writer_init :: "bytes \<Rightarrow> nat \<Rightarrow> writer" where
  "xrce_cdr_writer_init buf cap = \<lparr>wbuf = buf, wcap = cap, wpos = 0, walign_base = 0\<rparr>"

definition xrce_cdr_write_header :: writer_op where
  "xrce_cdr_write_header w =
     (if \<not> ensure (wcap w) (wpos w) 4 then (False, w)
      else
        (let w = put_byte 0 (put_byte 0 (put_byte 1 (put_byte 0 w)))
         in (True, w\<lparr>walign_base := wpos w\<rparr>)))"

definition xrce_cdr_write_u8 :: "u8 \<Rightarrow> writer_op" where
  "xrce_cdr_write_u8 v w =
     (if \<not> ensure (wcap w) (wpos w) 1 then (False, w) else (True, put_byte v w))"

definition xrce_cdr_write_bool :: "bool \<Rightarrow> writer_op" where
  "xrce_cdr_write_bool v = xrce_cdr_write_u8 (if v then 1 else 0)"

definition xrce_cdr_write_i16 :: "u16 \<Rightarrow> writer_op" where
  "xrce_cdr_write_i16 v w =
     (let w = align_writer w 2 in
      if \<not> ensure (wcap w) (wpos w) 2 then (False, w)
      else (True, put_byte (ucast (drop_bit 8 v AND 0xFF)) (put_byte (ucast (v AND 0xFF)) w)))"

definition xrce_cdr_write_bytes :: "bytes \<Rightarrow> nat \<Rightarrow> writer_op" where
  "xrce_cdr_write_bytes data len w =
     (if \<not> ensure (wcap w) (wpos w) len then (False, w)
      else (True, w\<lparr>wbuf := blit (wpos w) (take len data) (wbuf w), wpos := wpos w + len\<rparr>))"

definition xrce_cdr_write_u32 :: "u32 \<Rightarrow> writer_op" where
  "xrce_cdr_write_u32 v w =
     (let w = align_writer w 4 in
      if \<not> ensure (wcap w) (wpos w) 4 then (False, w)
      else (True, fold (\<lambda>i. put_byte (byte_at (8 * i) v)) [0..<4] w))"

definition xrce_cdr_write_i32 :: "u32 \<Rightarrow> writer_op" where
  "xrce_cdr_write_i32 v = xrce_cdr_write_u32 v"

definition xrce_cdr_write_f64 :: "u64 \<Rightarrow> writer_op" where
  "xrce_cdr_write_f64 bits w =
     (let w = align_writer w 8 in
      if \<not> ensure (wcap w) (wpos w) 8 then (False, w)
      else (True, fold (\<lambda>i. put_byte (byte_at (8 * i) bits)) [0..<8] w))"

definition strlen :: "bytes \<Rightarrow> nat" where
  "strlen s = length (takeWhile (\<lambda>c. c \<noteq> 0) s)"

definition xrce_cdr_write_string :: "bytes \<Rightarrow> writer_op" where
  "xrce_cdr_write_string s w =
     (let slen = strlen s + 1 in
      if slen > 4294967295 then (False, w)
      else
        (case xrce_cdr_write_u32 (of_nat slen) w of
           (ok, w) \<Rightarrow>
             if \<not> ok then (False, w)
             else if \<not> ensure (wcap w) (wpos w) slen then (False, w)
             else (True, w\<lparr>wbuf := blit (wpos w) (take slen s) (wbuf w), wpos := wpos w + slen\<rparr>)))"

definition xrce_cdr_write_seq_i32 :: "u32 list \<Rightarrow> u32 \<Rightarrow> writer_op" where
  "xrce_cdr_write_seq_i32 elems count =
     and_then (xrce_cdr_write_u32 count)
       (for_each (\<lambda>i. xrce_cdr_write_i32 (elems ! i)) [0..<unat count])"

definition xrce_cdr_reader_init :: "bytes \<Rightarrow> nat \<Rightarrow> reader" where
  "xrce_cdr_reader_init buf len = \<lparr>rbuf = buf, rlen = len, rpos = 0, ralign_base = 0\<rparr>"

definition xrce_cdr_read_header :: "'o reader_op" where
  "xrce_cdr_read_header = (\<lambda>(r, out).
     if \<not> ensure (rlen r) (rpos r) 4 then (False, r, out)
     else
       (let is_cdr_le = (rbuf r ! rpos r = 0x00 \<and> rbuf r ! (rpos r + 1) = 0x01);
            r = r\<lparr>rpos := rpos r + 4\<rparr>;
            r = r\<lparr>ralign_base := rpos r\<rparr>
        in (is_cdr_le, r, out)))"

definition xrce_cdr_read_u8 :: "u8 reader_op" where
  "xrce_cdr_read_u8 = (\<lambda>(r, out).
     if \<not> ensure (rlen r) (rpos r) 1 then (False, r, out)
     else (True, r\<lparr>rpos := rpos r + 1\<rparr>, rbuf r ! rpos r))"

definition xrce_cdr_read_bool :: "bool reader_op" where
  "xrce_cdr_read_bool = (\<lambda>(r, out).
     case xrce_cdr_read_u8 (r, 0) of
       (ok, r, v) \<Rightarrow> if \<not> ok then (False, r, out) else (True, r, v \<noteq> 0))"

definition xrce_cdr_read_i16 :: "u16 reader_op" where
  "xrce_cdr_read_i16 = (\<lambda>(r, out).
     case align_reader r 2 of
       (ok, r) \<Rightarrow>
         if \<not> ok \<or> \<not> ensure (rlen r) (rpos r) 2 then (False, r, out)
         else
           (let v = ucast (rbuf r ! rpos r) OR push_bit 8 (ucast (rbuf r ! (rpos r + 1)))
            in (True, r\<lparr>rpos := rpos r + 2\<rparr>, v)))"

definition xrce_cdr_read_bytes :: "nat \<Rightarrow> bytes reader_op" where
  "xrce_cdr_read_bytes len = (\<lambda>(r, out).
     if \<not> ensure (rlen r) (rpos r) len then (False, r, out)
     else (True, r\<lparr>rpos := rpos r + len\<rparr>, blit 0 (slice (rpos r) len (rbuf r)) out))"

text \<open>\<^verbatim>\<open>v |= (T)r->buf[r->pos + i] << (8 * i)\<close> for \<open>i < n\<close>\<close>

definition gather :: "reader \<Rightarrow> nat \<Rightarrow> 'a::len word" where
  "gather r n = fold (\<lambda>i v. v OR push_bit (8 * i) (ucast (rbuf r ! (rpos r + i)))) [0..<n] 0"

definition xrce_cdr_read_u32 :: "u32 reader_op" where
  "xrce_cdr_read_u32 = (\<lambda>(r, out).
     case align_reader r 4 of
       (ok, r) \<Rightarrow>
         if \<not> ok \<or> \<not> ensure (rlen r) (rpos r) 4 then (False, r, out)
         else (True, r\<lparr>rpos := rpos r + 4\<rparr>, gather r 4))"

definition xrce_cdr_read_i32 :: "u32 reader_op" where
  "xrce_cdr_read_i32 = (\<lambda>(r, out).
     case xrce_cdr_read_u32 (r, 0) of
       (ok, r, u) \<Rightarrow> if \<not> ok then (False, r, out) else (True, r, u))"

definition xrce_cdr_read_f64 :: "u64 reader_op" where
  "xrce_cdr_read_f64 = (\<lambda>(r, out).
     case align_reader r 8 of
       (ok, r) \<Rightarrow>
         if \<not> ok \<or> \<not> ensure (rlen r) (rpos r) 8 then (False, r, out)
         else (True, r\<lparr>rpos := rpos r + 8\<rparr>, gather r 8))"

definition xrce_cdr_read_string :: "nat \<Rightarrow> bytes reader_op" where
  "xrce_cdr_read_string out_cap = (\<lambda>(r, out).
     case xrce_cdr_read_u32 (r, 0) of
       (ok, r, slen) \<Rightarrow>
         if \<not> ok then (False, r, out)
         else if slen = 0 \<or> unat slen > out_cap \<or> \<not> ensure (rlen r) (rpos r) (unat slen)
         then (False, r, out)
         else
           (let out = blit 0 (slice (rpos r) (unat slen) (rbuf r)) out;
                r = r\<lparr>rpos := rpos r + unat slen\<rparr>
            in (out ! (unat slen - 1) = 0, r, out)))"

text \<open>The loop that reads the elements with the given indices into an array.\<close>

fun read_into :: "'e reader_op \<Rightarrow> nat list \<Rightarrow> ('e list) reader_op" where
  "read_into rd [] s = (True, s)"
| "read_into rd (i # is) s =
     (case rd (fst s, snd s ! i) of
        (ok, r, x) \<Rightarrow>
          if ok then read_into rd is (r, (snd s)[i := x]) else (False, r, (snd s)[i := x]))"

definition xrce_cdr_read_seq_i32 :: "nat \<Rightarrow> (u32 list \<times> u32) reader_op" where
  "xrce_cdr_read_seq_i32 out_cap = (\<lambda>(r, out, out_count).
     case xrce_cdr_read_u32 (r, 0) of
       (ok, r, count) \<Rightarrow>
         if \<not> ok \<or> unat count > out_cap then (False, r, out, out_count)
         else
           (case read_into xrce_cdr_read_i32 [0..<unat count] (r, out) of
              (ok, r, out) \<Rightarrow> if \<not> ok then (False, r, out, out_count) else (True, r, out, count)))"

text \<open>Reading into a field of a structure, and into a local variable that later code uses.\<close>

definition into_field :: "('o \<Rightarrow> 'f) \<Rightarrow> ('f \<Rightarrow> 'o \<Rightarrow> 'o) \<Rightarrow> 'f reader_op \<Rightarrow> 'o reader_op" where
  "into_field get put rd = (\<lambda>(r, out).
     case rd (r, get out) of (ok, r, v) \<Rightarrow> (ok, r, put v out))"

definition into_local :: "'v \<Rightarrow> 'v reader_op \<Rightarrow> ('v \<Rightarrow> 'o reader_op) \<Rightarrow> 'o reader_op" where
  "into_local init rd cont = (\<lambda>(r, out).
     case rd (r, init) of (ok, r, v) \<Rightarrow> if ok then cont v (r, out) else (False, r, out))"

section \<open>The wire format\<close>

text \<open>The bytes of a value, as a function of its offset from the alignment base.\<close>

type_synonym wire = "nat \<Rightarrow> bytes"

definition padded :: "nat \<Rightarrow> bytes \<Rightarrow> wire" where
  "padded n bs off = replicate ((n - off mod n) mod n) 0 @ bs"

definition wire_seq :: "wire \<Rightarrow> wire \<Rightarrow> wire" where
  "wire_seq f g off = f off @ g (off + length (f off))"

fun wire_all :: "wire list \<Rightarrow> wire" where
  "wire_all [] off = []"
| "wire_all (f # fs) off = wire_seq f (wire_all fs) off"

definition wire_u8 :: "u8 \<Rightarrow> wire" where "wire_u8 v off = [v]"
definition wire_bool :: "bool \<Rightarrow> wire" where "wire_bool v off = [if v then 1 else 0]"
definition wire_i16 :: "u16 \<Rightarrow> wire" where "wire_i16 v = padded 2 (le_bytes 2 v)"
definition wire_u32 :: "u32 \<Rightarrow> wire" where "wire_u32 v = padded 4 (le_bytes 4 v)"
definition wire_f64 :: "u64 \<Rightarrow> wire" where "wire_f64 v = padded 8 (le_bytes 8 v)"
definition wire_bytes :: "bytes \<Rightarrow> wire" where "wire_bytes bs off = bs"

text \<open>A C string with its terminator.\<close>

definition cstr :: "bytes \<Rightarrow> bytes" where
  "cstr s = takeWhile (\<lambda>c. c \<noteq> 0) s @ [0]"

definition wire_string :: "bytes \<Rightarrow> wire" where
  "wire_string s = wire_seq (wire_u32 (of_nat (length (cstr s)))) (wire_bytes (cstr s))"

definition wire_array :: "('a \<Rightarrow> wire) \<Rightarrow> 'a list \<Rightarrow> wire" where
  "wire_array f xs = wire_seq (wire_u32 (of_nat (length xs))) (wire_all (map f xs))"

text \<open>The encapsulation header.\<close>

definition cdr_header :: bytes where "cdr_header = [0, 1, 0, 0]"

section \<open>The contracts\<close>

definition wf_writer :: "writer \<Rightarrow> bool" where
  "wf_writer w \<longleftrightarrow> walign_base w \<le> wpos w \<and> wpos w \<le> wcap w \<and> wcap w \<le> length (wbuf w)"

text \<open>What even a failing call respects: the bytes already written and those behind the capacity.\<close>

definition writer_frame :: "writer \<Rightarrow> writer \<Rightarrow> bool" where
  "writer_frame w w' \<longleftrightarrow> wcap w' = wcap w \<and> walign_base w' = walign_base w \<and>
     wpos w \<le> wpos w' \<and> wpos w' \<le> wcap w \<and> length (wbuf w') = length (wbuf w) \<and>
     take (wpos w) (wbuf w') = take (wpos w) (wbuf w) \<and> drop (wcap w) (wbuf w') = drop (wcap w) (wbuf w)"

definition append_bytes :: "bytes \<Rightarrow> writer \<Rightarrow> writer" where
  "append_bytes bs w = w\<lparr>wbuf := blit (wpos w) bs (wbuf w), wpos := wpos w + length bs\<rparr>"

definition writes :: "writer_op \<Rightarrow> wire \<Rightarrow> bool" where
  "writes f wr \<longleftrightarrow> (\<forall>w. wf_writer w \<longrightarrow> (let bs = wr (wpos w - walign_base w) in
     if wpos w + length bs \<le> wcap w then f w = (True, append_bytes bs w)
     else \<not> fst (f w) \<and> writer_frame w (snd (f w))))"

definition wf_reader :: "reader \<Rightarrow> bool" where
  "wf_reader r \<longleftrightarrow> ralign_base r \<le> rpos r \<and> rpos r \<le> rlen r \<and> rlen r \<le> length (rbuf r)"

text \<open>The unread bytes.\<close>

definition unread :: "reader \<Rightarrow> bytes" where
  "unread r = drop (rpos r) (take (rlen r) (rbuf r))"

definition parses :: "('o \<Rightarrow> bool) \<Rightarrow> 'o reader_op \<Rightarrow> wire \<Rightarrow> ('o \<Rightarrow> 'o) \<Rightarrow> bool" where
  "parses P f wr u \<longleftrightarrow> (\<forall>r out. wf_reader r \<and> P out \<longrightarrow> (let bs = wr (rpos r - ralign_base r) in
     (prefix bs (unread r) \<longrightarrow> f (r, out) = (True, r\<lparr>rpos := rpos r + length bs\<rparr>, u out)) \<and>
     (strict_prefix (unread r) bs \<longrightarrow> \<not> fst (f (r, out)))))"

section \<open>Lemmas: writing\<close>

lemma append_bytes_simps [simp]:
  "wcap (append_bytes bs w) = wcap w" "walign_base (append_bytes bs w) = walign_base w"
  "wpos (append_bytes bs w) = wpos w + length bs"
  "wbuf (append_bytes bs w) = blit (wpos w) bs (wbuf w)"
  by (simp_all add: append_bytes_def)

lemma append_bytes_Nil [simp]: "append_bytes [] w = w"
  by (simp add: append_bytes_def)

lemma append_append [simp]:
  "wpos w + length xs + length ys \<le> length (wbuf w) \<Longrightarrow>
     append_bytes ys (append_bytes xs w) = append_bytes (xs @ ys) w"
  by (simp add: append_bytes_def blit_blit add.assoc)

lemma wf_append: "wf_writer w \<Longrightarrow> wpos w + length bs \<le> wcap w \<Longrightarrow> wf_writer (append_bytes bs w)"
  by (simp add: wf_writer_def)

lemma frame_append:
  "wf_writer w \<Longrightarrow> wpos w + length bs \<le> wcap w \<Longrightarrow> writer_frame w (append_bytes bs w)"
  by (simp add: writer_frame_def wf_writer_def)

lemma frame_refl: "wf_writer w \<Longrightarrow> writer_frame w w"
  by (simp add: writer_frame_def wf_writer_def)

lemma frame_trans:
  assumes "writer_frame u v" "writer_frame v w"
  shows "writer_frame u w"
proof -
  from assms have p: "wpos u \<le> wpos v" "take (wpos v) (wbuf w) = take (wpos v) (wbuf v)"
    by (simp_all add: writer_frame_def)
  have "take (wpos u) (take (wpos v) (wbuf w)) = take (wpos u) (take (wpos v) (wbuf v))"
    using p(2) by simp
  with p(1) have "take (wpos u) (wbuf w) = take (wpos u) (wbuf v)" by (simp add: min_absorb1)
  with assms show ?thesis by (simp add: writer_frame_def)
qed

lemma put_byte_append: "wpos w < length (wbuf w) \<Longrightarrow> put_byte b w = append_bytes [b] w"
  by (simp add: put_byte_def append_bytes_def list_update_blit)

lemma fold_put_byte:
  "wpos w + length is \<le> length (wbuf w) \<Longrightarrow>
     fold (\<lambda>i. put_byte (g i)) is w = append_bytes (map g is) w"
proof (induction "is" arbitrary: w)
  case Nil
  then show ?case by simp
next
  case (Cons i "is")
  then show ?case by (simp add: put_byte_append)
qed

lemma pad_loop_eq:
  "wf_writer w \<Longrightarrow> pad_loop n w = append_bytes (replicate (min n (wcap w - wpos w)) 0) w"
proof (induction n arbitrary: w)
  case 0
  then show ?case by simp
next
  case (Suc n)
  show ?case
  proof (cases "wpos w < wcap w")
    case True
    with Suc.prems have p: "put_byte 0 w = append_bytes [0] w" and wf: "wf_writer (append_bytes [0] w)"
      by (simp_all add: put_byte_append wf_writer_def)
    have m: "min (Suc n) (wcap w - wpos w) = Suc (min n (wcap w - (wpos w + 1)))" using True by simp
    have "wpos w + 1 + min n (wcap w - (wpos w + 1)) \<le> length (wbuf w)"
      using True Suc.prems by (auto simp: wf_writer_def min_def)
    then show ?thesis
      using True Suc.IH[OF wf] by (simp add: p m)
  next
    case False
    with Suc.prems show ?thesis by simp
  qed
qed

lemma mod_pad:
  fixes off n :: nat
  shows "0 < n \<Longrightarrow> (n - off mod n) mod n = (if off mod n = 0 then 0 else n - off mod n)"
  by auto

lemma pad_aligns:
  fixes x n :: nat
  assumes "0 < n"
  shows "(x + (n - x mod n) mod n) mod n = 0"
proof -
  have "(x + (n - x mod n) mod n) mod n = (x + (n - x mod n)) mod n" by (simp add: mod_add_right_eq)
  moreover have "x + (n - x mod n) = n * (x div n) + n"
    using mod_less_divisor[OF assms, of x] mult_div_mod_eq[of n x] by linarith
  ultimately show ?thesis by simp
qed

text \<open>The common shape of the aligned primitives.\<close>

lemma writes_aligned:
  assumes n: "0 < n" and len: "length bs = n"
    and f: "\<And>w. f w = (let w = align_writer w n in
      if \<not> ensure (wcap w) (wpos w) n then (False, w) else (True, g w))"
    and g: "\<And>w. wpos w + n \<le> length (wbuf w) \<Longrightarrow> g w = append_bytes bs w"
  shows "writes f (padded n bs)"
  unfolding writes_def Let_def
proof (intro allI impI)
  fix w assume wf: "wf_writer w"
  let ?off = "wpos w - walign_base w"
  define pad where "pad = (n - ?off mod n) mod n"
  define q where "q = min pad (wcap w - wpos w)"
  have a: "align_writer w n = append_bytes (replicate q 0) w"
    using n by (simp add: align_writer_def Let_def pad_loop_eq[OF wf] q_def pad_def mod_pad)
  have l: "length (padded n bs ?off) = pad + n" by (simp add: padded_def pad_def len)
  have q: "wpos w + q \<le> wcap w" "wcap w \<le> length (wbuf w)"
    using wf by (auto simp: wf_writer_def q_def min_def)
  show "if wpos w + length (padded n bs ?off) \<le> wcap w
        then f w = (True, append_bytes (padded n bs ?off) w)
        else \<not> fst (f w) \<and> writer_frame w (snd (f w))"
  proof (cases "wpos w + (pad + n) \<le> wcap w")
    case True
    then have "q = pad" by (simp add: q_def)
    with True q show ?thesis
      by (simp add: l f a ensure_def g Let_def len) (simp add: padded_def pad_def)
  next
    case False
    then have "wcap w - (wpos w + q) < n" using n by (auto simp: q_def min_def)
    with False q wf show ?thesis
      by (simp add: l f a ensure_def Let_def frame_append)
  qed
qed

lemma writesD:
  assumes "writes f wr" "wf_writer w"
  shows "wpos w + length (wr (wpos w - walign_base w)) \<le> wcap w \<Longrightarrow>
      f w = (True, append_bytes (wr (wpos w - walign_base w)) w)"
    and "\<not> wpos w + length (wr (wpos w - walign_base w)) \<le> wcap w \<Longrightarrow>
      \<not> fst (f w) \<and> writer_frame w (snd (f w))"
  using assms by (simp_all add: writes_def Let_def)

lemma writes_and_then:
  assumes f: "writes f a" and g: "writes g b"
  shows "writes (and_then f g) (wire_seq a b)"
  unfolding writes_def Let_def
proof (intro allI impI)
  fix w assume wf: "wf_writer w"
  let ?off = "wpos w - walign_base w"
  have base: "walign_base w \<le> wpos w" "wcap w \<le> length (wbuf w)" using wf by (simp_all add: wf_writer_def)
  show "if wpos w + length (wire_seq a b ?off) \<le> wcap w
        then and_then f g w = (True, append_bytes (wire_seq a b ?off) w)
        else \<not> fst (and_then f g w) \<and> writer_frame w (snd (and_then f g w))"
  proof (cases "wpos w + length (a ?off) \<le> wcap w")
    case True
    let ?w = "append_bytes (a ?off) w"
    from writesD(1)[OF f wf True] have fw: "f w = (True, ?w)" .
    have wf': "wf_writer ?w" using wf True by (rule wf_append)
    have off: "wpos ?w - walign_base ?w = ?off + length (a ?off)" using base by simp
    show ?thesis
      using writesD[OF g wf', unfolded off] base frame_trans[OF frame_append[OF wf True]] fw
      by (simp add: wire_seq_def add.assoc)
  next
    case False
    from writesD(2)[OF f wf False] obtain w' where "f w = (False, w')" "writer_frame w w'"
      by (cases "f w") auto
    with False show ?thesis by (simp add: wire_seq_def)
  qed
qed

lemma writes_nil: "writes (all_of []) (wire_all [])"
  by (simp add: writes_def wf_writer_def)

lemma writes_all_of:
  "list_all2 writes fs ws \<Longrightarrow> writes (all_of fs) (wire_all ws)"
proof (induction rule: list_all2_induct)
  case Nil
  show ?case by (rule writes_nil)
next
  case (Cons f fs w ws)
  have "all_of (f # fs) = and_then f (all_of fs)" "wire_all (w # ws) = wire_seq w (wire_all ws)"
    by auto
  with writes_and_then[OF Cons(1) Cons(3)] show ?case by simp
qed

lemma writes_for_each:
  "(\<And>x. x \<in> set xs \<Longrightarrow> writes (f x) (wr x)) \<Longrightarrow> writes (for_each f xs) (wire_all (map wr xs))"
  unfolding for_each_def by (rule writes_all_of) (simp add: list_all2_conv_all_nth)

lemma writes_u8: "writes (xrce_cdr_write_u8 v) (wire_u8 v)"
  by (auto simp: writes_def wire_u8_def xrce_cdr_write_u8_def ensure_def wf_writer_def put_byte_append
      intro: frame_refl[unfolded wf_writer_def])

lemma writes_bool: "writes (xrce_cdr_write_bool v) (wire_bool v)"
  using writes_u8[of "if v then 1 else 0"]
  by (simp add: xrce_cdr_write_bool_def wire_bool_def[abs_def] wire_u8_def[abs_def])

lemma le_bytes_2: "le_bytes 2 (v :: u16) = [ucast (v AND 0xFF), ucast (drop_bit 8 v AND 0xFF)]"
proof -
  have m8: "(0xFF :: u16) = mask 8" by (simp add: mask_numeral)
  have m: "ucast (x AND 0xFF) = (ucast x :: u8)" for x :: u16
    unfolding m8 by (rule bit_word_eqI) (auto simp: bit_simps)
  show ?thesis by (simp add: le_bytes_def byte_at_def m numeral_2_eq_2)
qed

lemma writes_i16: "writes (xrce_cdr_write_i16 v) (wire_i16 v)"
  unfolding wire_i16_def
  by (rule writes_aligned[where g = "\<lambda>w. put_byte (ucast (drop_bit 8 v AND 0xFF)) (put_byte (ucast (v AND 0xFF)) w)"])
     (simp_all add: xrce_cdr_write_i16_def le_bytes_2 put_byte_append)

lemma writes_u32: "writes (xrce_cdr_write_u32 v) (wire_u32 v)"
  unfolding wire_u32_def
  by (rule writes_aligned[where g = "fold (\<lambda>i. put_byte (byte_at (8 * i) v)) [0..<4]"])
     (simp_all add: xrce_cdr_write_u32_def le_bytes_def fold_put_byte)

lemma writes_i32: "writes (xrce_cdr_write_i32 v) (wire_u32 v)"
  by (simp add: xrce_cdr_write_i32_def writes_u32)

lemma writes_f64: "writes (xrce_cdr_write_f64 v) (wire_f64 v)"
  unfolding wire_f64_def
  by (rule writes_aligned[where g = "fold (\<lambda>i. put_byte (byte_at (8 * i) v)) [0..<8]"])
     (simp_all add: xrce_cdr_write_f64_def le_bytes_def fold_put_byte)

lemma writes_bytes: "n \<le> length bs \<Longrightarrow> writes (xrce_cdr_write_bytes bs n) (wire_bytes (take n bs))"
  by (auto simp: writes_def wire_bytes_def xrce_cdr_write_bytes_def ensure_def wf_writer_def append_bytes_def
      intro: frame_refl[unfolded wf_writer_def])

text \<open>A character array that holds a string whose length fits the length field.\<close>

definition is_cstring :: "bytes \<Rightarrow> bool" where
  "is_cstring s \<longleftrightarrow> 0 \<in> set s \<and> length s < 4294967296"

lemma cstr_take: "0 \<in> set s \<Longrightarrow> take (strlen s + 1) s = cstr s \<and> strlen s + 1 \<le> length s"
proof (induction s)
  case (Cons c s)
  then show ?case by (cases "c = 0") (auto simp: strlen_def cstr_def)
qed simp

lemma length_cstr: "length (cstr s) = strlen s + 1"
  by (simp add: cstr_def strlen_def)

lemma writes_string:
  assumes "is_cstring s"
  shows "writes (xrce_cdr_write_string s) (wire_string s)"
proof -
  have c: "take (strlen s + 1) s = cstr s" "strlen s + 1 \<le> length s"
    using cstr_take[of s] assms by (simp_all add: is_cstring_def)
  have "xrce_cdr_write_string s =
    and_then (xrce_cdr_write_u32 (of_nat (length (cstr s)))) (xrce_cdr_write_bytes s (strlen s + 1))"
    using c assms by (auto simp: fun_eq_iff xrce_cdr_write_string_def xrce_cdr_write_bytes_def length_cstr
        and_then_def is_cstring_def Let_def split: prod.splits)
  with writes_and_then[OF writes_u32 writes_bytes[OF c(2)]] show ?thesis
    unfolding wire_string_def c(1) by simp
qed

lemma writes_array:
  assumes "\<And>i. i < unat n \<Longrightarrow> writes (f (xs ! i)) (wr (xs ! i))" "unat n \<le> length xs"
  shows "writes (and_then (xrce_cdr_write_u32 n) (for_each (\<lambda>i. f (xs ! i)) [0..<unat n]))
     (wire_array wr (take (unat n) xs))"
proof -
  have "map (\<lambda>i. wr (xs ! i)) [0..<unat n] = map wr (take (unat n) xs)"
    using assms(2) by (intro nth_equalityI) auto
  moreover have "of_nat (length (take (unat n) xs)) = n" using assms(2) by simp
  ultimately show ?thesis
    unfolding wire_array_def
    using writes_and_then[OF writes_u32 writes_for_each[of "[0..<unat n]" "\<lambda>i. f (xs ! i)" "\<lambda>i. wr (xs ! i)"]] assms(1)
    by simp
qed

lemma writes_seq_i32:
  "unat count \<le> length elems \<Longrightarrow>
     writes (xrce_cdr_write_seq_i32 elems count) (wire_array wire_u32 (take (unat count) elems))"
  unfolding xrce_cdr_write_seq_i32_def by (intro writes_array writes_i32)

lemma write_header_init:
  assumes "cap \<le> length buf"
  shows "4 \<le> cap \<Longrightarrow> xrce_cdr_write_header (xrce_cdr_writer_init buf cap) =
      (True, \<lparr>wbuf = blit 0 cdr_header buf, wcap = cap, wpos = 4, walign_base = 4\<rparr>)"
    and "cap < 4 \<Longrightarrow> xrce_cdr_write_header (xrce_cdr_writer_init buf cap) = (False, xrce_cdr_writer_init buf cap)"
proof -
  assume c: "4 \<le> cap"
  let ?w = "xrce_cdr_writer_init buf cap"
  have "put_byte 0 (put_byte 0 (put_byte 1 (put_byte 0 ?w))) = append_bytes cdr_header ?w"
    using c assms fold_put_byte[of ?w cdr_header "\<lambda>b. b"]
    by (simp add: cdr_header_def xrce_cdr_writer_init_def)
  with c show "xrce_cdr_write_header ?w = (True, \<lparr>wbuf = blit 0 cdr_header buf, wcap = cap, wpos = 4, walign_base = 4\<rparr>)"
    by (simp add: xrce_cdr_write_header_def ensure_def Let_def)
       (simp add: append_bytes_def xrce_cdr_writer_init_def cdr_header_def)
qed (simp add: xrce_cdr_write_header_def ensure_def xrce_cdr_writer_init_def)

section \<open>Lemmas: reading\<close>

lemma le_value_snoc: "le_value (xs @ [b]) = (le_value xs OR push_bit (8 * length xs) (ucast b) :: 'a::len word)"
  by (induction xs) (simp_all add: push_bit_or push_bit_push_bit or.assoc add.commute)

lemma gather_le_value:
  assumes "rpos r + n \<le> length (rbuf r)"
  shows "gather r n = le_value (slice (rpos r) n (rbuf r))"
proof -
  have "fold (\<lambda>i v. v OR push_bit (8 * i) (ucast (f i))) [0..<m] 0 = (le_value (map f [0..<m]) :: 'a word)"
    for f :: "nat \<Rightarrow> u8" and m
    by (induction m) (simp_all add: le_value_snoc)
  moreover have "map (\<lambda>i. rbuf r ! (rpos r + i)) [0..<n] = slice (rpos r) n (rbuf r)"
    using assms by (intro nth_equalityI) (simp_all add: slice_def)
  ultimately show ?thesis by (simp add: gather_def)
qed

lemma unread_advance: "unread (r\<lparr>rpos := rpos r + n\<rparr>) = drop n (unread r)"
  by (simp add: unread_def add.commute)

lemma length_unread: "wf_reader r \<Longrightarrow> length (unread r) = rlen r - rpos r"
  by (simp add: unread_def wf_reader_def min_absorb2)

lemma wf_advance: "wf_reader r \<Longrightarrow> n \<le> length (unread r) \<Longrightarrow> wf_reader (r\<lparr>rpos := rpos r + n\<rparr>)"
  by (auto simp: wf_reader_def length_unread[unfolded wf_reader_def])

lemma unread_slice:
  assumes "wf_reader r" "unread r = xs @ bs @ ys"
  shows "slice (rpos r + length xs) (length bs) (rbuf r) = bs"
proof -
  have "length (unread r) = rlen r - rpos r" using assms(1) by (rule length_unread)
  with assms(2) have l: "length xs + length bs \<le> rlen r - rpos r" by simp
  have "slice (length xs) (length bs) (unread r) = bs" by (simp add: assms(2) slice_def)
  moreover have "min (length bs) (rlen r - (rpos r + length xs)) = length bs" using l by simp
  ultimately show ?thesis by (simp add: slice_def unread_def drop_take add.commute)
qed

lemma parsesI:
  assumes "\<And>r out ys. wf_reader r \<Longrightarrow> P out \<Longrightarrow> unread r = wr (rpos r - ralign_base r) @ ys \<Longrightarrow>
      f (r, out) = (True, r\<lparr>rpos := rpos r + length (wr (rpos r - ralign_base r))\<rparr>, u out)"
    and "\<And>r out. wf_reader r \<Longrightarrow> P out \<Longrightarrow> strict_prefix (unread r) (wr (rpos r - ralign_base r)) \<Longrightarrow>
      \<not> fst (f (r, out))"
  shows "parses P f wr u"
  using assms unfolding parses_def Let_def prefix_def by blast

lemma parsesD:
  assumes "parses P f wr u" "wf_reader r" "P out"
  shows "prefix (wr (rpos r - ralign_base r)) (unread r) \<Longrightarrow>
      f (r, out) = (True, r\<lparr>rpos := rpos r + length (wr (rpos r - ralign_base r))\<rparr>, u out)"
    and "strict_prefix (unread r) (wr (rpos r - ralign_base r)) \<Longrightarrow> \<not> fst (f (r, out))"
  using assms by (simp_all add: parses_def Let_def)


lemma parses_and_then:
  assumes f: "parses P f a u" and g: "parses P g b v" and P: "\<And>out. P out \<Longrightarrow> P (u out)"
  shows "parses P (and_then f g) (wire_seq a b) (\<lambda>out. v (u out))"
proof (rule parsesI)
  fix r :: reader and out ys
  let ?off = "rpos r - ralign_base r"
  let ?a = "a ?off" and ?r = "r\<lparr>rpos := rpos r + length (a ?off)\<rparr>"
  assume wf: "wf_reader r" and p: "P out" and un: "unread r = wire_seq a b ?off @ ys"
  then have fr: "f (r, out) = (True, ?r, u out)" and wf': "wf_reader ?r"
    using parsesD(1)[OF f wf p] wf_advance[OF wf] by (simp_all add: wire_seq_def)
  have off: "rpos ?r - ralign_base ?r = ?off + length ?a" using wf by (simp add: wf_reader_def)
  have "prefix (b (rpos ?r - ralign_base ?r)) (unread ?r)"
    using un by (simp add: off[simplified] unread_advance wire_seq_def)
  from parsesD(1)[OF g wf' P[OF p] this] fr off
  show "and_then f g (r, out) = (True, r\<lparr>rpos := rpos r + length (wire_seq a b ?off)\<rparr>, v (u out))"
    by (simp add: wire_seq_def add.assoc)
next
  fix r :: reader and out
  let ?off = "rpos r - ralign_base r"
  let ?a = "a ?off" and ?r = "r\<lparr>rpos := rpos r + length (a ?off)\<rparr>"
  assume wf: "wf_reader r" and p: "P out" and un: "strict_prefix (unread r) (wire_seq a b ?off)"
  show "\<not> fst (and_then f g (r, out))"
  proof (cases "prefix ?a (unread r)")
    case False
    with un have "strict_prefix (unread r) ?a"
      unfolding wire_seq_def strict_prefix_def prefix_append by auto
    from parsesD(2)[OF f wf p this] show ?thesis by (cases "f (r, out)") (auto simp: and_then_def)
  next
    case True
    then obtain zs where zs: "unread r = ?a @ zs" by (auto simp: prefix_def)
    have fr: "f (r, out) = (True, ?r, u out)" using parsesD(1)[OF f wf p True] .
    have wf': "wf_reader ?r" using wf_advance[OF wf] zs by simp
    have off: "rpos ?r - ralign_base ?r = ?off + length ?a" using wf by (simp add: wf_reader_def)
    have "strict_prefix (unread ?r) (b (rpos ?r - ralign_base ?r))"
      using un zs unfolding off unread_advance wire_seq_def by (simp add: strict_prefix_def)
    from parsesD(2)[OF g wf' P[OF p] this] fr show ?thesis by simp
  qed
qed

lemma parses_nil: "parses P (all_of []) (wire_all []) (\<lambda>out. out)"
  by (auto simp: parses_def)

lemma parses_aligned:
  assumes n: "0 < n" and len: "length bs = n"
    and f: "\<And>r out. f (r, out) = (case align_reader r n of (ok, r) \<Rightarrow>
      if \<not> ok \<or> \<not> ensure (rlen r) (rpos r) n then (False, r, out) else (True, r\<lparr>rpos := rpos r + n\<rparr>, g r))"
    and g: "\<And>r. rpos r + n \<le> length (rbuf r) \<Longrightarrow> slice (rpos r) n (rbuf r) = bs \<Longrightarrow> g r = v"
  shows "parses P f (padded n bs) (\<lambda>_. v)"
proof (rule parsesI)
  fix r :: reader and out ys
  let ?off = "rpos r - ralign_base r"
  define pad where "pad = (n - ?off mod n) mod n"
  assume wf: "wf_reader r" and un: "unread r = padded n bs ?off @ ys"
  have "length (unread r) = rlen r - rpos r" using wf by (rule length_unread)
  with un have l: "pad + n \<le> rlen r - rpos r" by (simp add: padded_def pad_def len)
  have a: "align_reader r n = (True, r\<lparr>rpos := rpos r + pad\<rparr>)"
    using n l by (auto simp: align_reader_def pad_def mod_pad ensure_def Let_def)
  have "slice (rpos r + pad) n (rbuf r) = bs"
    using unread_slice[OF wf, of "replicate pad 0" bs ys] un by (simp add: padded_def pad_def len)
  moreover have "rpos r + pad + n \<le> length (rbuf r)" using l wf n unfolding wf_reader_def by linarith
  ultimately have "g (r\<lparr>rpos := rpos r + pad\<rparr>) = v" by (intro g) simp_all
  with l show "f (r, out) = (True, r\<lparr>rpos := rpos r + length (padded n bs ?off)\<rparr>, v)"
    by (simp add: f a ensure_def padded_def pad_def[symmetric] len add.assoc)
next
  fix r :: reader and out
  let ?off = "rpos r - ralign_base r"
  assume wf: "wf_reader r" and un: "strict_prefix (unread r) (padded n bs ?off)"
  have "length (unread r) < length (padded n bs ?off)" using un by (rule prefix_length_less)
  then have "rlen r - rpos r < (n - ?off mod n) mod n + n"
    using length_unread[OF wf] by (simp add: padded_def len)
  then show "\<not> fst (f (r, out))"
    using n by (auto simp: f align_reader_def mod_pad ensure_def Let_def split: if_splits)
qed

lemma parses_u8: "parses P xrce_cdr_read_u8 (wire_u8 v) (\<lambda>_. v)"
proof (rule parsesI)
  fix r :: reader and out ys assume wf: "wf_reader r" and un: "unread r = wire_u8 v (rpos r - ralign_base r) @ ys"
  then have "slice (rpos r) 1 (rbuf r) = [v]" "length (unread r) = rlen r - rpos r"
    using unread_slice[OF wf, of "[]" "[v]" ys] length_unread[OF wf] by (simp_all add: wire_u8_def)
  moreover from this un have "1 \<le> rlen r - rpos r" by (simp add: wire_u8_def)
  moreover from this have "rpos r < length (rbuf r)" using wf unfolding wf_reader_def by linarith
  ultimately show "xrce_cdr_read_u8 (r, out) = (True, r\<lparr>rpos := rpos r + length (wire_u8 v (rpos r - ralign_base r))\<rparr>, v)"
    by (simp add: xrce_cdr_read_u8_def ensure_def wire_u8_def slice_def take_Suc_conv_app_nth)
next
  fix r :: reader and out assume wf: "wf_reader r" and un: "strict_prefix (unread r) (wire_u8 v (rpos r - ralign_base r))"
  then have "length (unread r) < 1" using prefix_length_less[OF un] by (simp add: wire_u8_def)
  then show "\<not> fst (xrce_cdr_read_u8 (r, out))"
    using length_unread[OF wf] by (simp add: xrce_cdr_read_u8_def ensure_def)
qed

lemma wire_seq_nil [simp]: "wire_seq a (wire_all []) = a" "wire_seq (wire_all []) a = a"
  by (simp_all add: fun_eq_iff wire_seq_def)

lemma wire_seq_assoc: "wire_seq (wire_seq a b) c = wire_seq a (wire_seq b c)"
  by (simp add: fun_eq_iff wire_seq_def add.assoc)

lemma wire_all_Cons: "wire_all (f # fs) = wire_seq f (wire_all fs)"
  by (simp add: fun_eq_iff)

lemma parses_cong:
  "parses P f wr u \<Longrightarrow> (\<And>out. P out \<Longrightarrow> u out = v out) \<Longrightarrow> parses P f wr v"
  unfolding parses_def Let_def by auto

lemma parses_into_local:
  assumes f: "parses (\<lambda>_. True) f a (\<lambda>_. x)" and g: "parses P (g x) b v"
  shows "parses P (into_local init f g) (wire_seq a b) v"
proof (rule parsesI)
  fix r :: reader and out ys
  let ?off = "rpos r - ralign_base r"
  let ?a = "a ?off" and ?r = "r\<lparr>rpos := rpos r + length (a ?off)\<rparr>"
  assume wf: "wf_reader r" and p: "P out" and un: "unread r = wire_seq a b ?off @ ys"
  then have fr: "f (r, init) = (True, ?r, x)" and wf': "wf_reader ?r"
    using parsesD(1)[OF f wf TrueI] wf_advance[OF wf] by (simp_all add: wire_seq_def)
  have off: "rpos ?r - ralign_base ?r = ?off + length ?a" using wf by (simp add: wf_reader_def)
  have "prefix (b (rpos ?r - ralign_base ?r)) (unread ?r)"
    using un by (simp add: off[simplified] unread_advance wire_seq_def)
  from parsesD(1)[OF g wf' p this] fr off
  show "into_local init f g (r, out) = (True, r\<lparr>rpos := rpos r + length (wire_seq a b ?off)\<rparr>, v out)"
    by (simp add: into_local_def wire_seq_def add.assoc)
next
  fix r :: reader and out
  let ?off = "rpos r - ralign_base r"
  let ?a = "a ?off" and ?r = "r\<lparr>rpos := rpos r + length (a ?off)\<rparr>"
  assume wf: "wf_reader r" and p: "P out" and un: "strict_prefix (unread r) (wire_seq a b ?off)"
  show "\<not> fst (into_local init f g (r, out))"
  proof (cases "prefix ?a (unread r)")
    case False
    with un have "strict_prefix (unread r) ?a"
      unfolding wire_seq_def strict_prefix_def prefix_append by auto
    from parsesD(2)[OF f wf TrueI this, of init] show ?thesis
      by (cases "f (r, init)") (auto simp: into_local_def)
  next
    case True
    then obtain zs where zs: "unread r = ?a @ zs" by (auto simp: prefix_def)
    have fr: "f (r, init) = (True, ?r, x)" using parsesD(1)[OF f wf TrueI True] .
    have wf': "wf_reader ?r" using wf_advance[OF wf] zs by simp
    have off: "rpos ?r - ralign_base ?r = ?off + length ?a" using wf by (simp add: wf_reader_def)
    have "strict_prefix (unread ?r) (b (rpos ?r - ralign_base ?r))"
      using un zs unfolding off unread_advance wire_seq_def by (simp add: strict_prefix_def)
    from parsesD(2)[OF g wf' p this] fr show ?thesis by (simp add: into_local_def)
  qed
qed

lemma parses_into_field:
  assumes f: "parses Q f wr u" and Q: "\<And>out. P out \<Longrightarrow> Q (get out)"
  shows "parses P (into_field get put f) wr (\<lambda>out. put (u (get out)) out)"
proof (rule parsesI)
  fix r :: reader and out ys
  assume "wf_reader r" "P out" "unread r = wr (rpos r - ralign_base r) @ ys"
  then show "into_field get put f (r, out) =
      (True, r\<lparr>rpos := rpos r + length (wr (rpos r - ralign_base r))\<rparr>, put (u (get out)) out)"
    using parsesD(1)[OF f _ Q, of r out] by (simp add: into_field_def)
next
  fix r :: reader and out
  assume "wf_reader r" "P out" "strict_prefix (unread r) (wr (rpos r - ralign_base r))"
  then show "\<not> fst (into_field get put f (r, out))"
    using parsesD(2)[OF f _ Q, of r out] by (cases "f (r, get out)") (auto simp: into_field_def)
qed

text \<open>Code after the last read of a chain that succeeds without reading.\<close>

lemma parses_done: "parses P (\<lambda>(r, out). (True, r, u out)) (wire_all []) u"
  by (auto simp: parses_def)

lemma parses_bool: "parses P xrce_cdr_read_bool (wire_bool v) (\<lambda>_. v)"
proof -
  have e: "xrce_cdr_read_bool = into_local 0 xrce_cdr_read_u8 (\<lambda>x (r, out). (True, r, x \<noteq> 0))"
    by (auto simp: fun_eq_iff xrce_cdr_read_bool_def into_local_def split: prod.splits)
  have "wire_bool v = wire_u8 (if v then 1 else 0)" by (simp add: fun_eq_iff wire_bool_def wire_u8_def)
  moreover have "parses P xrce_cdr_read_bool (wire_seq (wire_u8 w) (wire_all [])) (\<lambda>_. w \<noteq> 0)" for w
    unfolding e by (rule parses_into_local[OF parses_u8]) (rule parses_done)
  from this[of "if v then 1 else 0"] have "parses P xrce_cdr_read_bool (wire_u8 (if v then 1 else 0)) (\<lambda>_. v)"
    by (cases v) simp_all
  ultimately show ?thesis by simp
qed

lemma parses_i16: "parses P xrce_cdr_read_i16 (wire_i16 v) (\<lambda>_. v)"
proof -
  have "ucast (rbuf r ! rpos r) OR push_bit 8 (ucast (rbuf r ! (rpos r + 1))) = v"
    if "rpos r + 2 \<le> length (rbuf r)" "slice (rpos r) 2 (rbuf r) = le_bytes 2 v" for r :: reader
  proof -
    have "slice (rpos r) 2 (rbuf r) = [rbuf r ! rpos r, rbuf r ! (rpos r + 1)]"
      using that(1) by (simp add: slice_def numeral_2_eq_2 take_Suc_conv_app_nth)
    then have "le_value [rbuf r ! rpos r, rbuf r ! (rpos r + 1)] = v"
      using that(2) le_value_le_bytes[of 2 v] by simp
    then show ?thesis by simp
  qed
  then show ?thesis
    unfolding wire_i16_def
    by (intro parses_aligned[where g = "\<lambda>r. ucast (rbuf r ! rpos r) OR push_bit 8 (ucast (rbuf r ! (rpos r + 1)))"])
       (auto simp: xrce_cdr_read_i16_def Let_def split: prod.splits)
qed

lemma parses_u32: "parses P xrce_cdr_read_u32 (wire_u32 v) (\<lambda>_. v)"
  unfolding wire_u32_def
  by (rule parses_aligned[where g = "\<lambda>r. gather r 4"]) (simp_all add: xrce_cdr_read_u32_def gather_le_value)

lemma parses_f64: "parses P xrce_cdr_read_f64 (wire_f64 v) (\<lambda>_. v)"
  unfolding wire_f64_def
  by (rule parses_aligned[where g = "\<lambda>r. gather r 8"]) (simp_all add: xrce_cdr_read_f64_def gather_le_value)

lemma parses_i32: "parses P xrce_cdr_read_i32 (wire_u32 v) (\<lambda>_. v)"
proof -
  have e: "xrce_cdr_read_i32 = into_local 0 xrce_cdr_read_u32 (\<lambda>x (r, out). (True, r, x))"
    by (auto simp: fun_eq_iff xrce_cdr_read_i32_def into_local_def split: prod.splits)
  have "parses P xrce_cdr_read_i32 (wire_seq (wire_u32 v) (wire_all [])) (\<lambda>_. v)"
    unfolding e by (rule parses_into_local[OF parses_u32]) (rule parses_done)
  then show ?thesis by simp
qed

lemma parses_bytes:
  assumes "length bs = n"
  shows "parses P (xrce_cdr_read_bytes n) (wire_bytes bs) (blit 0 bs)"
proof (rule parsesI)
  fix r :: reader and out ys
  assume wf: "wf_reader r" and un: "unread r = wire_bytes bs (rpos r - ralign_base r) @ ys"
  have "slice (rpos r) n (rbuf r) = bs"
    using unread_slice[OF wf, of "[]" bs ys] un assms by (simp add: wire_bytes_def)
  moreover have "n \<le> rlen r - rpos r"
    using length_unread[OF wf] un assms by (simp add: wire_bytes_def)
  ultimately show "xrce_cdr_read_bytes n (r, out) =
      (True, r\<lparr>rpos := rpos r + length (wire_bytes bs (rpos r - ralign_base r))\<rparr>, blit 0 bs out)"
    using assms by (simp add: xrce_cdr_read_bytes_def ensure_def wire_bytes_def)
next
  fix r :: reader and out
  assume wf: "wf_reader r" and un: "strict_prefix (unread r) (wire_bytes bs (rpos r - ralign_base r))"
  then show "\<not> fst (xrce_cdr_read_bytes n (r, out))"
    using prefix_length_less[OF un] length_unread[OF wf] assms
    by (simp add: xrce_cdr_read_bytes_def ensure_def wire_bytes_def)
qed

lemma unat_length [simp]: "n < 4294967296 \<Longrightarrow> unat (of_nat n :: u32) = n"
  by (simp add: unat_of_nat take_bit_nat_eq_self)

lemma cstr_zero: "cstr s ! strlen s = 0"
  by (simp add: cstr_def strlen_def nth_append)

lemma parses_string:
  assumes "length (cstr s) \<le> n" "n < 4294967296"
  shows "parses (\<lambda>out. length out = n) (xrce_cdr_read_string n) (wire_string s) (blit 0 (cstr s))"
proof -
  let ?body = "\<lambda>slen :: u32. \<lambda>(r, out).
      if slen = 0 \<or> unat slen > n \<or> \<not> ensure (rlen r) (rpos r) (unat slen) then (False, r, out)
      else (let out = blit 0 (slice (rpos r) (unat slen) (rbuf r)) out; r = r\<lparr>rpos := rpos r + unat slen\<rparr>
            in (out ! (unat slen - 1) = 0, r, out))"
  let ?l = "length (cstr s)"
  have e: "xrce_cdr_read_string n = into_local 0 xrce_cdr_read_u32 ?body"
    by (auto simp: fun_eq_iff xrce_cdr_read_string_def into_local_def split: prod.splits)
  have l: "unat (of_nat ?l :: u32) = ?l" using assms by (intro unat_length) linarith
  have l0: "0 < ?l" by (simp add: length_cstr)
  with l have nz: "(of_nat ?l :: u32) \<noteq> 0" by (metis neq0_conv unat_0)
  have "parses (\<lambda>out. length out = n) (?body (of_nat ?l)) (wire_bytes (cstr s)) (blit 0 (cstr s))"
  proof (rule parsesI)
    fix r :: reader and out :: bytes and ys
    assume wf: "wf_reader r" and o: "length out = n"
      and un: "unread r = wire_bytes (cstr s) (rpos r - ralign_base r) @ ys"
    have "slice (rpos r) ?l (rbuf r) = cstr s"
      using unread_slice[OF wf, of "[]" "cstr s" ys] un by (simp add: wire_bytes_def)
    moreover have "?l \<le> rlen r - rpos r"
      using length_unread[OF wf] un by (simp add: wire_bytes_def)
    moreover have "blit 0 (cstr s) out ! (?l - 1) = 0"
      using o assms(1) cstr_zero[of s] by (simp add: blit_def nth_append length_cstr)
    ultimately show "?body (of_nat ?l) (r, out) =
        (True, r\<lparr>rpos := rpos r + length (wire_bytes (cstr s) (rpos r - ralign_base r))\<rparr>, blit 0 (cstr s) out)"
      using l nz assms(1) by (simp add: ensure_def wire_bytes_def Let_def)
  next
    fix r :: reader and out
    assume wf: "wf_reader r" and un: "strict_prefix (unread r) (wire_bytes (cstr s) (rpos r - ralign_base r))"
    then have "rlen r - rpos r < ?l"
      using prefix_length_less[OF un] length_unread[OF wf] by (simp add: wire_bytes_def)
    then show "\<not> fst (?body (of_nat ?l) (r, out))"
      using l by (simp add: ensure_def)
  qed
  then show ?thesis
    unfolding e wire_string_def by (rule parses_into_local[OF parses_u32])
qed

text \<open>What reading the elements of a sequence does to the array.\<close>

fun update_elems :: "nat \<Rightarrow> ('e \<Rightarrow> 'e) list \<Rightarrow> 'e list \<Rightarrow> 'e list" where
  "update_elems i [] out = out"
| "update_elems i (u # us) out = update_elems (Suc i) us (out[i := u (out ! i)])"

lemma length_update_elems [simp]: "length (update_elems i us out) = length out"
  by (induction us arbitrary: i out) simp_all

lemma update_elems_const:
  "i + length xs \<le> length out \<Longrightarrow> update_elems i (map (\<lambda>x _. x) xs) out = blit i xs out"
proof (induction xs arbitrary: i out)
  case (Cons x xs)
  then show ?case by (simp add: list_update_blit blit_blit[of i "[x]" xs, simplified])
qed simp

lemma parses_read_into:
  assumes "\<And>x. x \<in> set xs \<Longrightarrow> parses Q rd (wr x) (u x)" "\<And>x e. x \<in> set xs \<Longrightarrow> Q e \<Longrightarrow> Q (u x e)"
    and "i + length xs \<le> n"
  shows "parses (\<lambda>out. length out = n \<and> list_all Q out) (read_into rd [i..<i + length xs])
     (wire_all (map wr xs)) (update_elems i (map u xs))"
  using assms
proof (induction xs arbitrary: i)
  case Nil
  then show ?case by (auto simp: parses_def)
next
  case (Cons x xs)
  let ?P = "\<lambda>out. length out = n \<and> list_all Q out"
  have i: "i < n" "[i..<i + length (x # xs)] = i # [Suc i..<Suc i + length xs]"
    using Cons.prems(3) upt_conv_Cons[of i "i + length (x # xs)"] by simp_all
  have e: "read_into rd [i..<i + length (x # xs)] =
      and_then (into_field (\<lambda>out. out ! i) (\<lambda>v out. out[i := v]) rd) (read_into rd [Suc i..<Suc i + length xs])"
    unfolding i(2) by (auto simp: fun_eq_iff and_then_def into_field_def split: prod.splits)
  have "parses ?P (into_field (\<lambda>out. out ! i) (\<lambda>v out. out[i := v]) rd) (wr x) (\<lambda>out. out[i := u x (out ! i)])"
    using Cons.prems(1)[of x] i(1) by (intro parses_into_field[of Q]) (auto simp: list_all_length)
  moreover have "parses ?P (read_into rd [Suc i..<Suc i + length xs]) (wire_all (map wr xs)) (update_elems (Suc i) (map u xs))"
    using Cons.prems by (intro Cons.IH) auto
  moreover have "?P out \<Longrightarrow> ?P (out[i := u x (out ! i)])" for out
    using Cons.prems(2)[of x] i(1) by (auto simp: list_all_length nth_list_update)
  ultimately show ?case
    unfolding e list.map wire_all_Cons update_elems.simps by (rule parses_and_then)
qed

lemma parses_seq_i32:
  assumes "length xs \<le> n" "n < 4294967296"
  shows "parses (\<lambda>out. length (fst out) = n) (xrce_cdr_read_seq_i32 n) (wire_array wire_u32 xs)
     (\<lambda>out. (blit 0 xs (fst out), of_nat (length xs)))"
proof -
  let ?body = "\<lambda>count :: u32. \<lambda>(r, out, out_count).
      if unat count > n then (False, r, out, out_count)
      else (case read_into xrce_cdr_read_i32 [0..<unat count] (r, out) of
              (ok, r, out) \<Rightarrow> if \<not> ok then (False, r, out, out_count) else (True, r, out, count))"
  let ?l = "length xs"
  have e: "xrce_cdr_read_seq_i32 n = into_local 0 xrce_cdr_read_u32 ?body"
    by (auto simp: fun_eq_iff xrce_cdr_read_seq_i32_def into_local_def split: prod.splits)
  have l: "unat (of_nat ?l :: u32) = ?l" using assms by simp
  have b: "?body (of_nat ?l) = and_then (into_field fst (\<lambda>v out. (v, snd out)) (read_into xrce_cdr_read_i32 [0..<0 + ?l]))
      (\<lambda>(r, out). (True, r, fst out, of_nat ?l))"
    using l assms by (auto simp: fun_eq_iff and_then_def into_field_def split: prod.splits)
  have "parses (\<lambda>out. length out = n \<and> list_all (\<lambda>_. True) out) (read_into xrce_cdr_read_i32 [0..<0 + ?l])
      (wire_all (map wire_u32 xs)) (update_elems 0 (map (\<lambda>x _. x) xs))"
    using assms by (intro parses_read_into parses_i32) auto
  then have "parses (\<lambda>out. length (fst out) = n) (into_field fst (\<lambda>v out. (v, snd out)) (read_into xrce_cdr_read_i32 [0..<0 + ?l]))
      (wire_all (map wire_u32 xs)) (\<lambda>out. (update_elems 0 (map (\<lambda>x _. x) xs) (fst out), snd out))"
    by (rule parses_into_field) (simp add: list_all_iff)
  from parses_and_then[OF this parses_done[of _ "\<lambda>out. (fst out, of_nat ?l)"]]
  have "parses (\<lambda>out. length (fst out) = n) (?body (of_nat ?l)) (wire_all (map wire_u32 xs))
      (\<lambda>out. (update_elems 0 (map (\<lambda>x _. x) xs) (fst out), of_nat ?l))"
    unfolding b by simp
  then have "parses (\<lambda>out. length (fst out) = n) (?body (of_nat ?l)) (wire_all (map wire_u32 xs))
      (\<lambda>out. (blit 0 xs (fst out), of_nat ?l))"
    by (rule parses_cong) (use assms in \<open>simp add: update_elems_const\<close>)
  then show ?thesis
    unfolding e wire_array_def by (rule parses_into_local[OF parses_u32])
qed

section \<open>The interface of a codec and of a message\<close>

text \<open>
  A codec: a writer and a reader for the values of a type that agree on a wire format. \<open>encodable\<close>
  are the values the writer may be given, \<open>target\<close> the objects the reader may be given, and \<open>store\<close>
  is what reading a value does to the object.
\<close>

locale cdr_codec =
  fixes put :: "'a \<Rightarrow> writer_op" and get :: "'a reader_op" and wire :: "'a \<Rightarrow> wire"
    and encodable :: "'a \<Rightarrow> bool" and target :: "'a \<Rightarrow> bool" and store :: "'a \<Rightarrow> 'a \<Rightarrow> 'a"
  assumes write_law: "encodable x \<Longrightarrow> writes (put x) (wire x)"
    and read_law: "encodable x \<Longrightarrow> parses target get (wire x) (store x)"
begin

lemma write_then_read:
  assumes x: "encodable x" and out: "target out" and w: "wf_writer w" "put x w = (True, w')"
    and r: "wf_reader r" "rpos r = wpos w" "ralign_base r = walign_base w" "rlen r = wpos w'" "rbuf r = wbuf w'"
  shows "get (r, out) = (True, r\<lparr>rpos := wpos w'\<rparr>, store x out)"
proof -
  let ?bs = "wire x (wpos w - walign_base w)"
  have l: "wpos w + length ?bs \<le> wcap w"
    using writesD(2)[OF write_law[OF x] w(1)] w(2) by (cases "wpos w + length ?bs \<le> wcap w") auto
  then have w': "w' = append_bytes ?bs w"
    using writesD(1)[OF write_law[OF x] w(1)] w(2) by simp
  have "wpos w \<le> length (wbuf w)" using w(1) by (simp add: wf_writer_def)
  then have "unread r = ?bs"
    using r by (simp add: unread_def w' blit_def min_absorb2)
  with parsesD(1)[OF read_law[OF x] r(1) out] r(2,3) show ?thesis
    by (simp add: w')
qed

end

definition encode_with :: "writer_op list \<Rightarrow> bytes \<Rightarrow> nat \<Rightarrow> nat \<Rightarrow> bool \<times> bytes \<times> nat" where
  "encode_with fs buf cap out_len =
     (case all_of fs (xrce_cdr_writer_init buf cap) of
        (ok, w) \<Rightarrow> (ok, wbuf w, if ok then wpos w else out_len))"

definition decode_with :: "('o reader_op) list \<Rightarrow> bytes \<Rightarrow> nat \<Rightarrow> 'o \<Rightarrow> bool \<times> 'o" where
  "decode_with fs buf len out =
     (case all_of fs (xrce_cdr_reader_init buf len, out) of (ok, r, out) \<Rightarrow> (ok, out))"

lemma header_length: "length cdr_header = 4"
  by (simp add: cdr_header_def)

text \<open>
  A message: a codec whose calls are chains, behind the encapsulation header, with the entry
  points \<^verbatim>\<open>..._encode\<close> and \<^verbatim>\<open>..._decode\<close>.
\<close>

locale cdr_message =
  fixes encode :: "'a \<Rightarrow> bytes \<Rightarrow> nat \<Rightarrow> nat \<Rightarrow> bool \<times> bytes \<times> nat"
    and decode :: "bytes \<Rightarrow> nat \<Rightarrow> 'a \<Rightarrow> bool \<times> 'a"
    and fields :: "'a \<Rightarrow> writer_op list" and readers :: "('a reader_op) list" and wire :: "'a \<Rightarrow> wire"
    and encodable :: "'a \<Rightarrow> bool" and target :: "'a \<Rightarrow> bool" and store :: "'a \<Rightarrow> 'a \<Rightarrow> 'a"
  assumes encode_law: "encode x = encode_with (xrce_cdr_write_header # fields x)"
    and decode_law: "decode = decode_with (xrce_cdr_read_header # readers)"
    and fields_law: "encodable x \<Longrightarrow> writes (all_of (fields x)) (wire x)"
    and readers_law: "encodable x \<Longrightarrow> parses target (all_of readers) (wire x) (store x)"

sublocale cdr_message \<subseteq> cdr_codec "\<lambda>x. all_of (fields x)" "all_of readers" wire encodable target store
  by unfold_locales (rule fields_law readers_law, assumption)+

context cdr_message
begin

definition image :: "'a \<Rightarrow> bytes" where
  "image x = cdr_header @ wire x 0"

lemma encode_fits:
  assumes "encodable x" "cap \<le> length buf" "length (image x) \<le> cap"
  shows "encode x buf cap n = (True, blit 0 (image x) buf, length (image x))"
proof -
  have c: "4 \<le> cap" using assms(3) by (simp add: image_def cdr_header_def)
  let ?w = "\<lparr>wbuf = blit 0 cdr_header buf, wcap = cap, wpos = 4, walign_base = 4\<rparr>"
  have "wf_writer ?w" using assms(2) c by (simp add: wf_writer_def cdr_header_def)
  from writesD(1)[OF fields_law[OF assms(1)] this] assms(2,3)
  have "all_of (fields x) ?w = (True, append_bytes (wire x 0) ?w)"
    by (simp add: image_def cdr_header_def)
  moreover have "blit 4 (wire x 0) (blit 0 cdr_header buf) = blit 0 (image x) buf"
    using assms(2,3) blit_blit[of 0 cdr_header "wire x 0" buf] by (simp add: image_def header_length)
  ultimately show ?thesis
    using write_header_init(1)[OF assms(2) c]
    by (simp add: encode_law encode_with_def and_then_def image_def cdr_header_def)
qed

lemma encode_too_long:
  assumes "encodable x" "cap \<le> length buf" "cap < length (image x)"
  shows "\<exists>buf'. encode x buf cap n = (False, buf', n) \<and> length buf' = length buf \<and> drop cap buf' = drop cap buf"
proof (cases "4 \<le> cap")
  case True
  let ?w = "\<lparr>wbuf = blit 0 cdr_header buf, wcap = cap, wpos = 4, walign_base = 4\<rparr>"
  have "wf_writer ?w" using assms(2) True by (simp add: wf_writer_def cdr_header_def)
  from writesD(2)[OF fields_law[OF assms(1)] this] assms(3)
  obtain w' where "all_of (fields x) ?w = (False, w')" "writer_frame ?w w'"
    by (cases "all_of (fields x) ?w") (auto simp: image_def cdr_header_def)
  then show ?thesis
    using write_header_init(1)[OF assms(2) True] True assms(2)
    by (simp add: encode_law encode_with_def and_then_def writer_frame_def cdr_header_def)
next
  case False
  then show ?thesis
    using write_header_init(2)[OF assms(2)]
    by (simp add: encode_law encode_with_def and_then_def xrce_cdr_writer_init_def)
qed

lemma decode_image:
  assumes "encodable x" "target out" "prefix (image x) (take len buf)" "len \<le> length buf"
  shows "decode buf len out = (True, store x out)"
proof -
  from assms(3) obtain ys where ys: "take len buf = cdr_header @ wire x 0 @ ys"
    by (auto simp: image_def prefix_def)
  have "length (take len buf) = len" using assms(4) by simp
  with ys have l: "4 + length (wire x 0) \<le> len" by (simp add: cdr_header_def)
  have b: "buf ! 0 = 0" "buf ! 1 = 1"
    using arg_cong[OF ys, of "\<lambda>l. l ! 0"] arg_cong[OF ys, of "\<lambda>l. l ! 1"] l by (simp_all add: cdr_header_def)
  let ?r = "\<lparr>rbuf = buf, rlen = len, rpos = 4, ralign_base = 4\<rparr>"
  have h: "xrce_cdr_read_header (xrce_cdr_reader_init buf len, out) = (True, ?r, out)"
    using l b by (simp add: xrce_cdr_read_header_def xrce_cdr_reader_init_def ensure_def Let_def)
  have "wf_reader ?r" using l assms(4) by (simp add: wf_reader_def)
  from parsesD(1)[OF readers_law[OF assms(1)] this assms(2)] ys
  have "all_of readers (?r, out) = (True, ?r\<lparr>rpos := 4 + length (wire x 0)\<rparr>, store x out)"
    by (simp add: unread_def cdr_header_def)
  with h show ?thesis by (simp add: decode_law decode_with_def)
qed

lemma decode_truncated:
  assumes "encodable x" "target out" "strict_prefix (take len buf) (image x)" "len \<le> length buf"
  shows "\<not> fst (decode buf len out)"
proof (cases "4 \<le> len")
  case True
  have "length (take len buf) = len" using assms(4) by simp
  from assms(3) obtain zs where zs: "cdr_header @ wire x 0 = take len buf @ zs" "zs \<noteq> []"
    by (auto simp: image_def strict_prefix_def prefix_def)
  have p: "strict_prefix (drop 4 (take len buf)) (wire x 0)" and t: "take 4 (take len buf) = cdr_header"
    using arg_cong[OF zs(1), of "drop 4"] arg_cong[OF zs(1), of "take 4"] True assms(4) zs(2)
    by (simp_all add: header_length strict_prefix_def)
  have b: "buf ! 0 = 0" "buf ! 1 = 1"
    using arg_cong[OF t, of "\<lambda>l. l ! 0"] arg_cong[OF t, of "\<lambda>l. l ! 1"] True by (simp_all add: cdr_header_def)
  let ?r = "\<lparr>rbuf = buf, rlen = len, rpos = 4, ralign_base = 4\<rparr>"
  have h: "xrce_cdr_read_header (xrce_cdr_reader_init buf len, out) = (True, ?r, out)"
    using True b by (simp add: xrce_cdr_read_header_def xrce_cdr_reader_init_def ensure_def Let_def)
  have "wf_reader ?r" using True assms(4) by (simp add: wf_reader_def)
  from parsesD(2)[OF readers_law[OF assms(1)] this assms(2)] p
  have "\<not> fst (all_of readers (?r, out))" by (simp add: unread_def)
  with h show ?thesis
    by (cases "all_of readers (?r, out)") (simp add: decode_law decode_with_def)
next
  case False
  then show ?thesis
    by (simp add: decode_law decode_with_def and_then_def xrce_cdr_read_header_def xrce_cdr_reader_init_def
        ensure_def split: prod.splits)
qed

text \<open>Encoding and decoding again.\<close>

lemma roundtrip:
  assumes "encodable x" "target out" "cap \<le> length buf" "encode x buf cap n = (True, buf', n')"
  shows "n' = length (image x) \<and> n' \<le> cap \<and> length buf' = length buf \<and> decode buf' n' out = (True, store x out)"
proof (cases "length (image x) \<le> cap")
  case True
  with encode_fits[OF assms(1,3) True] assms(3,4)
  have e: "buf' = blit 0 (image x) buf" "n' = length (image x)" "length buf' = length buf" by auto
  have "take n' buf' = image x" using True assms(3) by (simp add: e blit_def)
  with e True assms(3) decode_image[OF assms(1,2), of n' buf'] show ?thesis by simp
next
  case False
  with encode_too_long[OF assms(1,3), of n] assms(4) show ?thesis by auto
qed

end

section \<open>Interpretations: the primitives\<close>

interpretation u8c: cdr_codec xrce_cdr_write_u8 xrce_cdr_read_u8 wire_u8 "\<lambda>_. True" "\<lambda>_. True" "\<lambda>x _. x"
  by unfold_locales (rule writes_u8 parses_u8)+

interpretation boolc: cdr_codec xrce_cdr_write_bool xrce_cdr_read_bool wire_bool "\<lambda>_. True" "\<lambda>_. True" "\<lambda>x _. x"
  by unfold_locales (rule writes_bool parses_bool)+

interpretation i16c: cdr_codec xrce_cdr_write_i16 xrce_cdr_read_i16 wire_i16 "\<lambda>_. True" "\<lambda>_. True" "\<lambda>x _. x"
  by unfold_locales (rule writes_i16 parses_i16)+

interpretation u32c: cdr_codec xrce_cdr_write_u32 xrce_cdr_read_u32 wire_u32 "\<lambda>_. True" "\<lambda>_. True" "\<lambda>x _. x"
  by unfold_locales (rule writes_u32 parses_u32)+

interpretation i32c: cdr_codec xrce_cdr_write_i32 xrce_cdr_read_i32 wire_u32 "\<lambda>_. True" "\<lambda>_. True" "\<lambda>x _. x"
  by unfold_locales (rule writes_i32 parses_i32)+

interpretation f64c: cdr_codec xrce_cdr_write_f64 xrce_cdr_read_f64 wire_f64 "\<lambda>_. True" "\<lambda>_. True" "\<lambda>x _. x"
  by unfold_locales (rule writes_f64 parses_f64)+

interpretation string256: cdr_codec xrce_cdr_write_string "xrce_cdr_read_string 256" wire_string
  "\<lambda>s. length s = 256 \<and> 0 \<in> set s" "\<lambda>out. length out = 256" "\<lambda>s. blit 0 (cstr s)"
proof
  fix s :: bytes assume s: "length s = 256 \<and> 0 \<in> set s"
  then show "writes (xrce_cdr_write_string s) (wire_string s)" by (simp add: writes_string is_cstring_def)
  from s cstr_take[of s] have "length (cstr s) \<le> 256" by (simp add: length_cstr)
  then show "parses (\<lambda>out. length out = 256) (xrce_cdr_read_string 256) (wire_string s) (blit 0 (cstr s))"
    by (rule parses_string) simp
qed

section \<open>Lemmas: readers on arbitrary input\<close>

text \<open>A reader call that stays inside the input, whatever the input is.\<close>

definition bounded_read :: "reader \<Rightarrow> bool \<times> reader \<times> 'o \<Rightarrow> bool" where
  "bounded_read r res \<longleftrightarrow> (let r' = fst (snd res) in
     wf_reader r' \<and> rbuf r' = rbuf r \<and> rlen r' = rlen r \<and> rpos r \<le> rpos r')"

lemma bounded_aligned:
  assumes "wf_reader r"
  shows "wf_reader (snd (align_reader r n))" "rbuf (snd (align_reader r n)) = rbuf r"
    "rlen (snd (align_reader r n)) = rlen r" "rpos r \<le> rpos (snd (align_reader r n))"
  using assms by (auto simp: align_reader_def wf_reader_def ensure_def Let_def)

lemma bounded_u32: "wf_reader r \<Longrightarrow> bounded_read r (xrce_cdr_read_u32 (r, out))"
  using bounded_aligned[of r 4]
  by (auto simp: bounded_read_def xrce_cdr_read_u32_def ensure_def wf_reader_def Let_def split: prod.splits)

lemma bounded_f64: "wf_reader r \<Longrightarrow> bounded_read r (xrce_cdr_read_f64 (r, out))"
  using bounded_aligned[of r 8]
  by (auto simp: bounded_read_def xrce_cdr_read_f64_def ensure_def wf_reader_def Let_def split: prod.splits)

lemma bounded_i16: "wf_reader r \<Longrightarrow> bounded_read r (xrce_cdr_read_i16 (r, out))"
  using bounded_aligned[of r 2]
  by (auto simp: bounded_read_def xrce_cdr_read_i16_def ensure_def wf_reader_def Let_def split: prod.splits)

lemma bounded_i32: "wf_reader r \<Longrightarrow> bounded_read r (xrce_cdr_read_i32 (r, out))"
  using bounded_u32[of r 0]
  by (auto simp: bounded_read_def xrce_cdr_read_i32_def Let_def split: prod.splits)

lemma bounded_string: "wf_reader r \<Longrightarrow> bounded_read r (xrce_cdr_read_string n (r, out))"
  using bounded_u32[of r 0]
  by (auto simp: bounded_read_def xrce_cdr_read_string_def wf_reader_def ensure_def Let_def split: prod.splits)

lemma bounded_trans:
  "bounded_read r res \<Longrightarrow> bounded_read (fst (snd res)) res' \<Longrightarrow> bounded_read r res'"
  by (auto simp: bounded_read_def Let_def)

lemma bounded_read_into:
  assumes "\<And>r e. wf_reader r \<Longrightarrow> bounded_read r (rd (r, e))" "wf_reader r"
  shows "bounded_read r (read_into rd is (r, out))"
  using assms(2)
proof (induction "is" arbitrary: r out)
  case Nil
  then show ?case by (simp add: bounded_read_def)
next
  case (Cons i "is")
  obtain ok r' x where e: "rd (r, out ! i) = (ok, r', x)" by (cases "rd (r, out ! i)") auto
  with assms(1)[OF Cons.prems, of "out ! i"] have b: "bounded_read r (ok, r', x)" by simp
  then have "wf_reader r'" by (simp add: bounded_read_def)
  from bounded_trans[OF b, unfolded prod.sel, OF Cons.IH[OF this]] b show ?case
    by (simp add: e bounded_read_def)
qed

lemma length_read_into: "length (snd (snd (read_into rd is s))) = length (snd s)"
  by (induction "is" arbitrary: s) (auto split: prod.splits)

lemma bounded_seq_i32:
  assumes "wf_reader r"
  shows "bounded_read r (xrce_cdr_read_seq_i32 n (r, out, c))"
proof -
  obtain ok r' count where e: "xrce_cdr_read_u32 (r, 0) = (ok, r', count)" by (cases "xrce_cdr_read_u32 (r, 0)") auto
  with bounded_u32[OF assms, of 0] have b: "bounded_read r (ok, r', count)" by simp
  then have "wf_reader r'" by (simp add: bounded_read_def)
  from bounded_trans[OF b, unfolded prod.sel, OF bounded_read_into[OF bounded_i32 this, of "[0..<unat count]" out]] b show ?thesis
    by (auto simp: e xrce_cdr_read_seq_i32_def bounded_read_def Let_def split: prod.splits)
qed

section \<open>Properties\<close>

text \<open>
  Writing a \<^verbatim>\<open>double\<close>. With \<open>pad\<close> the distance to the next multiple of 8 from the alignment
  base, the call succeeds exactly when \<open>pad\<close> zero bytes and the 8 bytes of the value fit; it then
  appends exactly these, in little-endian order, at an aligned position; if they do not fit, it
  changes nothing before the current position and nothing behind the capacity.
\<close>

theorem write_f64_exact:
  assumes "wf_writer w" "pad = (8 - (wpos w - walign_base w) mod 8) mod 8"
  shows "if wpos w + pad + 8 \<le> wcap w
     then xrce_cdr_write_f64 v w = (True, append_bytes (replicate pad 0 @ le_bytes 8 v) w) \<and>
       (wpos w + pad - walign_base w) mod 8 = 0
     else \<not> fst (xrce_cdr_write_f64 v w) \<and> writer_frame w (snd (xrce_cdr_write_f64 v w))"
proof -
  have "(wpos w - walign_base w + pad) mod 8 = 0"
    unfolding assms(2) by (rule pad_aligns) simp
  moreover have "wpos w + pad - walign_base w = wpos w - walign_base w + pad"
    using assms(1) by (simp add: wf_writer_def)
  ultimately show ?thesis
    using writesD[OF writes_f64 assms(1), of v]
    by (simp add: wire_f64_def padded_def assms(2)[symmetric] add.assoc)
qed

definition sample_writer :: writer where
  "sample_writer = \<lparr>wbuf = replicate 16 0xEE, wcap = 16, wpos = 5, walign_base = 4\<rparr>"

theorem write_f64_exact_witness:
  "\<not> fst (xrce_cdr_write_f64 1 sample_writer)"
  using write_f64_exact[of sample_writer 7 1] by (simp add: sample_writer_def wf_writer_def)

text \<open>
  String round trip. A string of a character array that is written at any position and read
  back from the same position into an array of \<open>n\<close> bytes, at least the string with its terminator,
  arrives there; the rest of the array keeps its contents, and reading stops where writing stopped.
\<close>

theorem string_roundtrip:
  assumes "is_cstring s" "length (cstr s) \<le> n" "n < 4294967296" "length out = n"
    and "wf_writer w" "xrce_cdr_write_string s w = (True, w')"
    and "r = \<lparr>rbuf = wbuf w', rlen = wpos w', rpos = wpos w, ralign_base = walign_base w\<rparr>"
  shows "xrce_cdr_read_string n (r, out) = (True, r\<lparr>rpos := wpos w'\<rparr>, cstr s @ drop (length (cstr s)) out)"
proof -
  let ?bs = "wire_string s (wpos w - walign_base w)"
  note wl = writes_string[OF assms(1)]
  have l: "wpos w + length ?bs \<le> wcap w"
    using writesD(2)[OF wl assms(5)] assms(6) by (cases "wpos w + length ?bs \<le> wcap w") auto
  then have w': "w' = append_bytes ?bs w"
    using writesD(1)[OF wl assms(5)] assms(6) by simp
  have p: "wpos w \<le> length (wbuf w)" using assms(5) by (simp add: wf_writer_def)
  then have "unread r = ?bs" by (simp add: assms(7) unread_def w' blit_def min_absorb2)
  moreover have "wf_reader r"
    using assms(5) l by (simp add: assms(7) w' wf_reader_def wf_writer_def)
  ultimately show ?thesis
    using parsesD(1)[OF parses_string[OF assms(2,3)], of r out] assms(4)
    by (simp add: assms(7) w' blit_def)
qed

theorem string_roundtrip_witness:
  "\<exists>w'. xrce_cdr_write_string [72, 105, 0, 9] (xrce_cdr_writer_init (replicate 16 0) 16) = (True, w') \<and>
     xrce_cdr_read_string 4 (\<lparr>rbuf = wbuf w', rlen = wpos w', rpos = 0, ralign_base = 0\<rparr>, [1, 2, 3, 4]) =
       (True, \<lparr>rbuf = wbuf w', rlen = wpos w', rpos = wpos w', ralign_base = 0\<rparr>, [72, 105, 0, 4])"
proof -
  let ?s = "[72, 105, 0, 9] :: bytes" and ?w = "xrce_cdr_writer_init (replicate 16 0) 16"
  have c: "cstr ?s = [72, 105, 0]" by (simp add: cstr_def)
  have i: "is_cstring ?s" "wf_writer ?w" by (simp_all add: is_cstring_def wf_writer_def xrce_cdr_writer_init_def)
  have "length (wire_string ?s 0) = 7"
    by (simp add: wire_string_def c wire_seq_def wire_u32_def wire_bytes_def padded_def)
  then obtain w' where w': "xrce_cdr_write_string ?s ?w = (True, w')"
    using writesD(1)[OF writes_string[OF i(1)] i(2)] by (simp add: xrce_cdr_writer_init_def)
  from string_roundtrip[OF i(1) _ _ _ i(2) w' refl, of 4 "[1, 2, 3, 4]"] w' show ?thesis
    by (simp add: c xrce_cdr_writer_init_def)
qed

text \<open>
  C37: reading strings and sequences from arbitrary input is memory safe. Whatever bytes arrive, the
  reader stays inside its input, the target array keeps its length, an accepted string has its
  terminator inside the array, and an accepted sequence has at most as many elements as the array.
\<close>

theorem untrusted_input_is_bounded:
  assumes "wf_reader r" "length out = n" "length elems = m"
  shows "bounded_read r (xrce_cdr_read_string n (r, out)) \<and>
     length (snd (snd (xrce_cdr_read_string n (r, out)))) = n \<and>
     (fst (xrce_cdr_read_string n (r, out)) \<longrightarrow> 0 \<in> set (snd (snd (xrce_cdr_read_string n (r, out))))) \<and>
     bounded_read r (xrce_cdr_read_seq_i32 m (r, elems, c)) \<and>
     length (fst (snd (snd (xrce_cdr_read_seq_i32 m (r, elems, c))))) = m \<and>
     (fst (xrce_cdr_read_seq_i32 m (r, elems, c)) \<longrightarrow> unat (snd (snd (snd (xrce_cdr_read_seq_i32 m (r, elems, c))))) \<le> m)"
proof -
  obtain ok r' sl where e: "xrce_cdr_read_u32 (r, 0) = (ok, r', sl)" by (cases "xrce_cdr_read_u32 (r, 0)") auto
  with bounded_u32[OF assms(1), of 0] have b: "wf_reader r'" by (simp add: bounded_read_def)
  have sl: "length (slice (rpos r') (unat sl) (rbuf r')) = unat sl" if "unat sl \<le> rlen r' - rpos r'"
    using that b unfolding wf_reader_def by (intro length_slice) linarith
  have z: "sl \<noteq> 0 \<Longrightarrow> 0 < unat sl" by (simp add: unat_gt_0)
  have str: "length (snd (snd (xrce_cdr_read_string n (r, out)))) = n"
    using sl assms(2) by (auto simp: xrce_cdr_read_string_def e ensure_def Let_def)
  have "0 \<in> set (snd (snd (xrce_cdr_read_string n (r, out))))" if "fst (xrce_cdr_read_string n (r, out))"
    using that sl z assms(2)
    by (auto simp: xrce_cdr_read_string_def e ensure_def Let_def in_set_conv_nth split: if_splits
        intro!: exI[of _ "unat sl - 1"])
  moreover have "length (fst (snd (snd (xrce_cdr_read_seq_i32 m (r, elems, c))))) = m"
    using assms(3) length_read_into[of xrce_cdr_read_i32 "[0..<unat sl]" "(r', elems)"]
    by (auto simp: xrce_cdr_read_seq_i32_def e split: prod.splits)
  moreover have "unat (snd (snd (snd (xrce_cdr_read_seq_i32 m (r, elems, c))))) \<le> m"
    if "fst (xrce_cdr_read_seq_i32 m (r, elems, c))"
    using that by (auto simp: xrce_cdr_read_seq_i32_def e split: if_splits prod.splits)
  ultimately show ?thesis
    using str bounded_string[OF assms(1)] bounded_seq_i32[OF assms(1)] by blast
qed

theorem untrusted_input_is_bounded_witness:
  "length (snd (snd (xrce_cdr_read_string 2 (xrce_cdr_reader_init [9, 0, 0, 0, 7] 5, [1, 2])))) = 2"
  using untrusted_input_is_bounded[of "xrce_cdr_reader_init [9, 0, 0, 0, 7] 5" "[1, 2]" 2 "[]" 0 0]
  by (simp add: wf_reader_def xrce_cdr_reader_init_def)

end
