(* ===== verification/Msgs.thy ===== *)
theory Msgs
  imports Cdr
begin

text \<open>
  \<^verbatim>\<open>xrce/src/msgs.c\<close> and \<^verbatim>\<open>msgs.h\<close>: the message structures and their CDR serializers.

  A C array member is a list of the array's length, a \<^verbatim>\<open>char\<close> array holding a string is the byte list
  of the whole array, a \<^verbatim>\<open>double\<close> is its bit pattern. An encoder returns its result, the buffer and
  \<^verbatim>\<open>*out_len\<close>; a decoder its result and \<^verbatim>\<open>*out\<close>. Every message interprets the interface
  \<open>cdr_message\<close> of theory \<open>Cdr\<close>, which gives its exact size, the round trip and the rejection of
  truncated input.
\<close>

section \<open>Data\<close>

abbreviation XRCE_MSGS_FRAME_ID_MAX :: nat where "XRCE_MSGS_FRAME_ID_MAX \<equiv> 64"
abbreviation XRCE_MSGS_STRING_MAX :: nat where "XRCE_MSGS_STRING_MAX \<equiv> 256"
abbreviation XRCE_MSGS_UUID_SIZE :: nat where "XRCE_MSGS_UUID_SIZE \<equiv> 16"
abbreviation XRCE_MSGS_SEQ_I32_MAX :: nat where "XRCE_MSGS_SEQ_I32_MAX \<equiv> 16"
abbreviation XRCE_MSGS_GOAL_STATUS_MAX :: nat where "XRCE_MSGS_GOAL_STATUS_MAX \<equiv> 8"
abbreviation XRCE_MSGS_KV_MAX :: nat where "XRCE_MSGS_KV_MAX \<equiv> 8"
abbreviation XRCE_MSGS_DIAG_STATUS_MAX :: nat where "XRCE_MSGS_DIAG_STATUS_MAX \<equiv> 16"
abbreviation XRCE_MSGS_DIAG_STR_MAX :: nat where "XRCE_MSGS_DIAG_STR_MAX \<equiv> 64"

record std_msgs_Int32 = int32_data :: u32
record std_msgs_String = string_data :: bytes
record geometry_msgs_Quaternion = qx :: u64 qy :: u64 qz :: u64 qw :: u64
record geometry_msgs_Vector3 = vx :: u64 vy :: u64 vz :: u64
record builtin_interfaces_Time = sec :: u32 nanosec :: u32
record std_msgs_Header = stamp :: builtin_interfaces_Time frame_id :: bytes

record sensor_msgs_Imu =
  header :: std_msgs_Header
  orientation :: geometry_msgs_Quaternion
  orientation_covariance :: "u64 list"
  angular_velocity :: geometry_msgs_Vector3
  angular_velocity_covariance :: "u64 list"
  linear_acceleration :: geometry_msgs_Vector3
  linear_acceleration_covariance :: "u64 list"

record geometry_msgs_Twist = linear :: geometry_msgs_Vector3 angular :: geometry_msgs_Vector3
record std_srvs_Trigger_Request = unused :: u32
record std_srvs_Trigger_Response = success :: bool trigger_message :: bytes

record example_interfaces_Fibonacci_Result = fib_sequence :: "u32 list" sequence_count :: u32
record example_interfaces_Fibonacci_SendGoal_Request = send_goal_id :: bytes order :: u32
record example_interfaces_Fibonacci_SendGoal_Response =
  accepted :: bool
  accept_stamp :: builtin_interfaces_Time
record example_interfaces_Fibonacci_GetResult_Request = result_goal_id :: bytes
record example_interfaces_Fibonacci_GetResult_Response =
  result_status :: u8
  result :: example_interfaces_Fibonacci_Result
record example_interfaces_Fibonacci_FeedbackMessage =
  feedback_goal_id :: bytes
  feedback :: example_interfaces_Fibonacci_Result

record action_msgs_GoalInfo = goal_id :: bytes goal_stamp :: builtin_interfaces_Time
record action_msgs_GoalStatus = goal_info :: action_msgs_GoalInfo status :: u8
record action_msgs_GoalStatusArray =
  status_list :: "action_msgs_GoalStatus list"
  status_list_count :: u32
record action_msgs_CancelGoal_Request = cancel_goal_info :: action_msgs_GoalInfo
record action_msgs_CancelGoal_Response =
  return_code :: u8
  goals_canceling :: "action_msgs_GoalInfo list"
  goals_canceling_count :: u32

record diagnostic_msgs_KeyValue = kv_key :: bytes kv_value :: bytes
record diagnostic_msgs_DiagnosticStatus =
  level :: u8
  diag_name :: bytes
  diag_message :: bytes
  hardware_id :: bytes
  diag_values :: "diagnostic_msgs_KeyValue list"
  values_count :: u32
record diagnostic_msgs_DiagnosticArray =
  diag_header :: std_msgs_Header
  diag_status :: "diagnostic_msgs_DiagnosticStatus list"
  status_count :: u32

section \<open>Serializers\<close>

text \<open>A counted array: \<^verbatim>\<open>write_u32(count)\<close> and a loop; the reader checks the count first.\<close>

definition write_counted :: "('e \<Rightarrow> writer_op) \<Rightarrow> 'e list \<Rightarrow> u32 \<Rightarrow> writer_op" where
  "write_counted f xs n =
     and_then (xrce_cdr_write_u32 n) (for_each (\<lambda>i. f (xs ! i)) [0..<unat n])"

definition read_counted ::
  "nat \<Rightarrow> 'e reader_op \<Rightarrow> ('o \<Rightarrow> 'e list) \<Rightarrow> ('e list \<Rightarrow> 'o \<Rightarrow> 'o) \<Rightarrow> (u32 \<Rightarrow> 'o \<Rightarrow> 'o) \<Rightarrow> 'o reader_op"
where
  "read_counted limit rd get put fin =
     into_local 0 xrce_cdr_read_u32 (\<lambda>count (r, out).
       if unat count > limit then (False, r, out)
       else all_of [into_field get put (read_into rd [0..<unat count]),
                    \<lambda>(r, out). (True, r, fin count out)] (r, out))"

definition std_msgs_Int32_encode :: "std_msgs_Int32 \<Rightarrow> bytes \<Rightarrow> nat \<Rightarrow> nat \<Rightarrow> bool \<times> bytes \<times> nat" where
  "std_msgs_Int32_encode msg =
     encode_with [xrce_cdr_write_header, xrce_cdr_write_i32 (int32_data msg)]"

definition std_msgs_Int32_decode :: "bytes \<Rightarrow> nat \<Rightarrow> std_msgs_Int32 \<Rightarrow> bool \<times> std_msgs_Int32" where
  "std_msgs_Int32_decode =
     decode_with [xrce_cdr_read_header,
       into_field int32_data (\<lambda>v out. out\<lparr>int32_data := v\<rparr>) xrce_cdr_read_i32]"

definition std_msgs_String_encode :: "std_msgs_String \<Rightarrow> bytes \<Rightarrow> nat \<Rightarrow> nat \<Rightarrow> bool \<times> bytes \<times> nat" where
  "std_msgs_String_encode msg =
     encode_with [xrce_cdr_write_header, xrce_cdr_write_string (string_data msg)]"

definition std_msgs_String_decode :: "bytes \<Rightarrow> nat \<Rightarrow> std_msgs_String \<Rightarrow> bool \<times> std_msgs_String" where
  "std_msgs_String_decode =
     decode_with [xrce_cdr_read_header,
       into_field string_data (\<lambda>v out. out\<lparr>string_data := v\<rparr>) (xrce_cdr_read_string XRCE_MSGS_STRING_MAX)]"

definition write_vec3 :: "geometry_msgs_Vector3 \<Rightarrow> writer_op" where
  "write_vec3 v = all_of [xrce_cdr_write_f64 (vx v), xrce_cdr_write_f64 (vy v), xrce_cdr_write_f64 (vz v)]"

definition read_vec3 :: "geometry_msgs_Vector3 reader_op" where
  "read_vec3 = all_of [into_field vx (\<lambda>x v. v\<lparr>vx := x\<rparr>) xrce_cdr_read_f64,
     into_field vy (\<lambda>x v. v\<lparr>vy := x\<rparr>) xrce_cdr_read_f64,
     into_field vz (\<lambda>x v. v\<lparr>vz := x\<rparr>) xrce_cdr_read_f64]"

definition write_cov :: "u64 list \<Rightarrow> writer_op" where
  "write_cov cov = for_each (\<lambda>i. xrce_cdr_write_f64 (cov ! i)) [0..<9]"

definition read_cov :: "(u64 list) reader_op" where
  "read_cov = read_into xrce_cdr_read_f64 [0..<9]"

definition imu_fields :: "sensor_msgs_Imu \<Rightarrow> writer_op list" where
  "imu_fields msg =
     [xrce_cdr_write_i32 (sec (stamp (header msg))),
      xrce_cdr_write_u32 (nanosec (stamp (header msg))),
      xrce_cdr_write_string (frame_id (header msg)),
      xrce_cdr_write_f64 (qx (orientation msg)),
      xrce_cdr_write_f64 (qy (orientation msg)),
      xrce_cdr_write_f64 (qz (orientation msg)),
      xrce_cdr_write_f64 (qw (orientation msg)),
      write_cov (orientation_covariance msg),
      write_vec3 (angular_velocity msg),
      write_cov (angular_velocity_covariance msg),
      write_vec3 (linear_acceleration msg),
      write_cov (linear_acceleration_covariance msg)]"

definition sensor_msgs_Imu_encode :: "sensor_msgs_Imu \<Rightarrow> bytes \<Rightarrow> nat \<Rightarrow> nat \<Rightarrow> bool \<times> bytes \<times> nat" where
  "sensor_msgs_Imu_encode msg = encode_with (xrce_cdr_write_header # imu_fields msg)"

text \<open>Reading into \<^verbatim>\<open>out->header.stamp.sec\<close> and the like.\<close>

definition into_stamp_sec :: "u32 reader_op \<Rightarrow> std_msgs_Header reader_op" where
  "into_stamp_sec rd =
     into_field stamp (\<lambda>v h. h\<lparr>stamp := v\<rparr>) (into_field sec (\<lambda>v t. t\<lparr>sec := v\<rparr>) rd)"

definition into_stamp_nanosec :: "u32 reader_op \<Rightarrow> std_msgs_Header reader_op" where
  "into_stamp_nanosec rd =
     into_field stamp (\<lambda>v h. h\<lparr>stamp := v\<rparr>) (into_field nanosec (\<lambda>v t. t\<lparr>nanosec := v\<rparr>) rd)"

definition into_frame_id :: "bytes reader_op \<Rightarrow> std_msgs_Header reader_op" where
  "into_frame_id rd = into_field frame_id (\<lambda>v h. h\<lparr>frame_id := v\<rparr>) rd"

definition imu_readers :: "(sensor_msgs_Imu reader_op) list" where
  "imu_readers =
     [into_field header (\<lambda>v m. m\<lparr>header := v\<rparr>) (into_stamp_sec xrce_cdr_read_i32),
      into_field header (\<lambda>v m. m\<lparr>header := v\<rparr>) (into_stamp_nanosec xrce_cdr_read_u32),
      into_field header (\<lambda>v m. m\<lparr>header := v\<rparr>) (into_frame_id (xrce_cdr_read_string XRCE_MSGS_FRAME_ID_MAX)),
      into_field orientation (\<lambda>v m. m\<lparr>orientation := v\<rparr>) (into_field qx (\<lambda>v q. q\<lparr>qx := v\<rparr>) xrce_cdr_read_f64),
      into_field orientation (\<lambda>v m. m\<lparr>orientation := v\<rparr>) (into_field qy (\<lambda>v q. q\<lparr>qy := v\<rparr>) xrce_cdr_read_f64),
      into_field orientation (\<lambda>v m. m\<lparr>orientation := v\<rparr>) (into_field qz (\<lambda>v q. q\<lparr>qz := v\<rparr>) xrce_cdr_read_f64),
      into_field orientation (\<lambda>v m. m\<lparr>orientation := v\<rparr>) (into_field qw (\<lambda>v q. q\<lparr>qw := v\<rparr>) xrce_cdr_read_f64),
      into_field orientation_covariance (\<lambda>v m. m\<lparr>orientation_covariance := v\<rparr>) read_cov,
      into_field angular_velocity (\<lambda>v m. m\<lparr>angular_velocity := v\<rparr>) read_vec3,
      into_field angular_velocity_covariance (\<lambda>v m. m\<lparr>angular_velocity_covariance := v\<rparr>) read_cov,
      into_field linear_acceleration (\<lambda>v m. m\<lparr>linear_acceleration := v\<rparr>) read_vec3,
      into_field linear_acceleration_covariance (\<lambda>v m. m\<lparr>linear_acceleration_covariance := v\<rparr>) read_cov]"

definition sensor_msgs_Imu_decode :: "bytes \<Rightarrow> nat \<Rightarrow> sensor_msgs_Imu \<Rightarrow> bool \<times> sensor_msgs_Imu" where
  "sensor_msgs_Imu_decode = decode_with (xrce_cdr_read_header # imu_readers)"

definition geometry_msgs_Twist_encode :: "geometry_msgs_Twist \<Rightarrow> bytes \<Rightarrow> nat \<Rightarrow> nat \<Rightarrow> bool \<times> bytes \<times> nat" where
  "geometry_msgs_Twist_encode msg =
     encode_with [xrce_cdr_write_header, write_vec3 (linear msg), write_vec3 (angular msg)]"

definition geometry_msgs_Twist_decode :: "bytes \<Rightarrow> nat \<Rightarrow> geometry_msgs_Twist \<Rightarrow> bool \<times> geometry_msgs_Twist" where
  "geometry_msgs_Twist_decode =
     decode_with [xrce_cdr_read_header,
       into_field linear (\<lambda>v m. m\<lparr>linear := v\<rparr>) read_vec3,
       into_field angular (\<lambda>v m. m\<lparr>angular := v\<rparr>) read_vec3]"

definition std_srvs_Trigger_Request_encode ::
  "std_srvs_Trigger_Request \<Rightarrow> bytes \<Rightarrow> nat \<Rightarrow> nat \<Rightarrow> bool \<times> bytes \<times> nat" where
  "std_srvs_Trigger_Request_encode msg = encode_with [xrce_cdr_write_header]"

definition std_srvs_Trigger_Request_decode ::
  "bytes \<Rightarrow> nat \<Rightarrow> std_srvs_Trigger_Request \<Rightarrow> bool \<times> std_srvs_Trigger_Request" where
  "std_srvs_Trigger_Request_decode = decode_with [xrce_cdr_read_header]"

definition std_srvs_Trigger_Response_encode ::
  "std_srvs_Trigger_Response \<Rightarrow> bytes \<Rightarrow> nat \<Rightarrow> nat \<Rightarrow> bool \<times> bytes \<times> nat" where
  "std_srvs_Trigger_Response_encode msg =
     encode_with [xrce_cdr_write_header, xrce_cdr_write_bool (success msg),
       xrce_cdr_write_string (trigger_message msg)]"

definition std_srvs_Trigger_Response_decode ::
  "bytes \<Rightarrow> nat \<Rightarrow> std_srvs_Trigger_Response \<Rightarrow> bool \<times> std_srvs_Trigger_Response" where
  "std_srvs_Trigger_Response_decode =
     decode_with [xrce_cdr_read_header,
       into_field success (\<lambda>v m. m\<lparr>success := v\<rparr>) xrce_cdr_read_bool,
       into_field trigger_message (\<lambda>v m. m\<lparr>trigger_message := v\<rparr>) (xrce_cdr_read_string XRCE_MSGS_STRING_MAX)]"

definition write_fibonacci_result :: "example_interfaces_Fibonacci_Result \<Rightarrow> writer_op" where
  "write_fibonacci_result v = xrce_cdr_write_seq_i32 (fib_sequence v) (sequence_count v)"

definition read_fibonacci_result :: "example_interfaces_Fibonacci_Result reader_op" where
  "read_fibonacci_result =
     into_field (\<lambda>v. (fib_sequence v, sequence_count v))
       (\<lambda>(s, c) v. v\<lparr>fib_sequence := s, sequence_count := c\<rparr>)
       (xrce_cdr_read_seq_i32 XRCE_MSGS_SEQ_I32_MAX)"

definition example_interfaces_Fibonacci_SendGoal_Request_encode ::
  "example_interfaces_Fibonacci_SendGoal_Request \<Rightarrow> bytes \<Rightarrow> nat \<Rightarrow> nat \<Rightarrow> bool \<times> bytes \<times> nat" where
  "example_interfaces_Fibonacci_SendGoal_Request_encode msg =
     encode_with [xrce_cdr_write_header, xrce_cdr_write_bytes (send_goal_id msg) XRCE_MSGS_UUID_SIZE,
       xrce_cdr_write_i32 (order msg)]"

definition example_interfaces_Fibonacci_SendGoal_Request_decode ::
  "bytes \<Rightarrow> nat \<Rightarrow> example_interfaces_Fibonacci_SendGoal_Request \<Rightarrow>
     bool \<times> example_interfaces_Fibonacci_SendGoal_Request" where
  "example_interfaces_Fibonacci_SendGoal_Request_decode =
     decode_with [xrce_cdr_read_header,
       into_field send_goal_id (\<lambda>v m. m\<lparr>send_goal_id := v\<rparr>) (xrce_cdr_read_bytes XRCE_MSGS_UUID_SIZE),
       into_field order (\<lambda>v m. m\<lparr>order := v\<rparr>) xrce_cdr_read_i32]"

definition example_interfaces_Fibonacci_SendGoal_Response_encode ::
  "example_interfaces_Fibonacci_SendGoal_Response \<Rightarrow> bytes \<Rightarrow> nat \<Rightarrow> nat \<Rightarrow> bool \<times> bytes \<times> nat" where
  "example_interfaces_Fibonacci_SendGoal_Response_encode msg =
     encode_with [xrce_cdr_write_header, xrce_cdr_write_bool (accepted msg),
       xrce_cdr_write_i32 (sec (accept_stamp msg)), xrce_cdr_write_u32 (nanosec (accept_stamp msg))]"

definition example_interfaces_Fibonacci_SendGoal_Response_decode ::
  "bytes \<Rightarrow> nat \<Rightarrow> example_interfaces_Fibonacci_SendGoal_Response \<Rightarrow>
     bool \<times> example_interfaces_Fibonacci_SendGoal_Response" where
  "example_interfaces_Fibonacci_SendGoal_Response_decode =
     decode_with [xrce_cdr_read_header,
       into_field accepted (\<lambda>v m. m\<lparr>accepted := v\<rparr>) xrce_cdr_read_bool,
       into_field accept_stamp (\<lambda>v m. m\<lparr>accept_stamp := v\<rparr>) (into_field sec (\<lambda>v t. t\<lparr>sec := v\<rparr>) xrce_cdr_read_i32),
       into_field accept_stamp (\<lambda>v m. m\<lparr>accept_stamp := v\<rparr>) (into_field nanosec (\<lambda>v t. t\<lparr>nanosec := v\<rparr>) xrce_cdr_read_u32)]"

definition example_interfaces_Fibonacci_GetResult_Request_encode ::
  "example_interfaces_Fibonacci_GetResult_Request \<Rightarrow> bytes \<Rightarrow> nat \<Rightarrow> nat \<Rightarrow> bool \<times> bytes \<times> nat" where
  "example_interfaces_Fibonacci_GetResult_Request_encode msg =
     encode_with [xrce_cdr_write_header, xrce_cdr_write_bytes (result_goal_id msg) XRCE_MSGS_UUID_SIZE]"

definition example_interfaces_Fibonacci_GetResult_Request_decode ::
  "bytes \<Rightarrow> nat \<Rightarrow> example_interfaces_Fibonacci_GetResult_Request \<Rightarrow>
     bool \<times> example_interfaces_Fibonacci_GetResult_Request" where
  "example_interfaces_Fibonacci_GetResult_Request_decode =
     decode_with [xrce_cdr_read_header,
       into_field result_goal_id (\<lambda>v m. m\<lparr>result_goal_id := v\<rparr>) (xrce_cdr_read_bytes XRCE_MSGS_UUID_SIZE)]"

definition example_interfaces_Fibonacci_GetResult_Response_encode ::
  "example_interfaces_Fibonacci_GetResult_Response \<Rightarrow> bytes \<Rightarrow> nat \<Rightarrow> nat \<Rightarrow> bool \<times> bytes \<times> nat" where
  "example_interfaces_Fibonacci_GetResult_Response_encode msg =
     encode_with [xrce_cdr_write_header, xrce_cdr_write_u8 (result_status msg),
       write_fibonacci_result (result msg)]"

definition example_interfaces_Fibonacci_GetResult_Response_decode ::
  "bytes \<Rightarrow> nat \<Rightarrow> example_interfaces_Fibonacci_GetResult_Response \<Rightarrow>
     bool \<times> example_interfaces_Fibonacci_GetResult_Response" where
  "example_interfaces_Fibonacci_GetResult_Response_decode =
     decode_with [xrce_cdr_read_header,
       into_local 0 xrce_cdr_read_u8 (\<lambda>st.
         all_of [into_field result (\<lambda>v m. m\<lparr>result := v\<rparr>) read_fibonacci_result,
                 \<lambda>(r, out). (True, r, out\<lparr>result_status := st\<rparr>)])]"

definition example_interfaces_Fibonacci_FeedbackMessage_encode ::
  "example_interfaces_Fibonacci_FeedbackMessage \<Rightarrow> bytes \<Rightarrow> nat \<Rightarrow> nat \<Rightarrow> bool \<times> bytes \<times> nat" where
  "example_interfaces_Fibonacci_FeedbackMessage_encode msg =
     encode_with [xrce_cdr_write_header, xrce_cdr_write_bytes (feedback_goal_id msg) XRCE_MSGS_UUID_SIZE,
       write_fibonacci_result (feedback msg)]"

definition example_interfaces_Fibonacci_FeedbackMessage_decode ::
  "bytes \<Rightarrow> nat \<Rightarrow> example_interfaces_Fibonacci_FeedbackMessage \<Rightarrow>
     bool \<times> example_interfaces_Fibonacci_FeedbackMessage" where
  "example_interfaces_Fibonacci_FeedbackMessage_decode =
     decode_with [xrce_cdr_read_header,
       into_field feedback_goal_id (\<lambda>v m. m\<lparr>feedback_goal_id := v\<rparr>) (xrce_cdr_read_bytes XRCE_MSGS_UUID_SIZE),
       into_field feedback (\<lambda>v m. m\<lparr>feedback := v\<rparr>) read_fibonacci_result]"

definition write_goal_info :: "action_msgs_GoalInfo \<Rightarrow> writer_op" where
  "write_goal_info v = all_of [xrce_cdr_write_bytes (goal_id v) XRCE_MSGS_UUID_SIZE,
     xrce_cdr_write_i32 (sec (goal_stamp v)), xrce_cdr_write_u32 (nanosec (goal_stamp v))]"

definition read_goal_info :: "action_msgs_GoalInfo reader_op" where
  "read_goal_info = all_of [
     into_field goal_id (\<lambda>x v. v\<lparr>goal_id := x\<rparr>) (xrce_cdr_read_bytes XRCE_MSGS_UUID_SIZE),
     into_field goal_stamp (\<lambda>x v. v\<lparr>goal_stamp := x\<rparr>) (into_field sec (\<lambda>x t. t\<lparr>sec := x\<rparr>) xrce_cdr_read_i32),
     into_field goal_stamp (\<lambda>x v. v\<lparr>goal_stamp := x\<rparr>) (into_field nanosec (\<lambda>x t. t\<lparr>nanosec := x\<rparr>) xrce_cdr_read_u32)]"

definition write_goal_status :: "action_msgs_GoalStatus \<Rightarrow> writer_op" where
  "write_goal_status v = all_of [write_goal_info (goal_info v), xrce_cdr_write_u8 (status v)]"

definition read_goal_status :: "action_msgs_GoalStatus reader_op" where
  "read_goal_status = all_of [
     into_field goal_info (\<lambda>x v. v\<lparr>goal_info := x\<rparr>) read_goal_info,
     into_local 0 xrce_cdr_read_u8 (\<lambda>st (r, v). (True, r, v\<lparr>status := st\<rparr>))]"

definition action_msgs_GoalStatus_encode ::
  "action_msgs_GoalStatus \<Rightarrow> bytes \<Rightarrow> nat \<Rightarrow> nat \<Rightarrow> bool \<times> bytes \<times> nat" where
  "action_msgs_GoalStatus_encode msg = encode_with [xrce_cdr_write_header, write_goal_status msg]"

definition action_msgs_GoalStatus_decode ::
  "bytes \<Rightarrow> nat \<Rightarrow> action_msgs_GoalStatus \<Rightarrow> bool \<times> action_msgs_GoalStatus" where
  "action_msgs_GoalStatus_decode = decode_with [xrce_cdr_read_header, read_goal_status]"

definition action_msgs_GoalStatusArray_encode ::
  "action_msgs_GoalStatusArray \<Rightarrow> bytes \<Rightarrow> nat \<Rightarrow> nat \<Rightarrow> bool \<times> bytes \<times> nat" where
  "action_msgs_GoalStatusArray_encode msg =
     encode_with [xrce_cdr_write_header,
       write_counted write_goal_status (status_list msg) (status_list_count msg)]"

definition action_msgs_GoalStatusArray_decode ::
  "bytes \<Rightarrow> nat \<Rightarrow> action_msgs_GoalStatusArray \<Rightarrow> bool \<times> action_msgs_GoalStatusArray" where
  "action_msgs_GoalStatusArray_decode =
     decode_with [xrce_cdr_read_header,
       read_counted XRCE_MSGS_GOAL_STATUS_MAX read_goal_status status_list
         (\<lambda>v m. m\<lparr>status_list := v\<rparr>) (\<lambda>n m. m\<lparr>status_list_count := n\<rparr>)]"

definition action_msgs_CancelGoal_Request_encode ::
  "action_msgs_CancelGoal_Request \<Rightarrow> bytes \<Rightarrow> nat \<Rightarrow> nat \<Rightarrow> bool \<times> bytes \<times> nat" where
  "action_msgs_CancelGoal_Request_encode msg =
     encode_with [xrce_cdr_write_header, write_goal_info (cancel_goal_info msg)]"

definition action_msgs_CancelGoal_Request_decode ::
  "bytes \<Rightarrow> nat \<Rightarrow> action_msgs_CancelGoal_Request \<Rightarrow> bool \<times> action_msgs_CancelGoal_Request" where
  "action_msgs_CancelGoal_Request_decode =
     decode_with [xrce_cdr_read_header,
       into_field cancel_goal_info (\<lambda>v m. m\<lparr>cancel_goal_info := v\<rparr>) read_goal_info]"

definition action_msgs_CancelGoal_Response_encode ::
  "action_msgs_CancelGoal_Response \<Rightarrow> bytes \<Rightarrow> nat \<Rightarrow> nat \<Rightarrow> bool \<times> bytes \<times> nat" where
  "action_msgs_CancelGoal_Response_encode msg =
     encode_with [xrce_cdr_write_header, xrce_cdr_write_u8 (return_code msg),
       write_counted write_goal_info (goals_canceling msg) (goals_canceling_count msg)]"

definition action_msgs_CancelGoal_Response_decode ::
  "bytes \<Rightarrow> nat \<Rightarrow> action_msgs_CancelGoal_Response \<Rightarrow> bool \<times> action_msgs_CancelGoal_Response" where
  "action_msgs_CancelGoal_Response_decode =
     decode_with [xrce_cdr_read_header,
       into_local 0 xrce_cdr_read_u8 (\<lambda>rc.
         read_counted XRCE_MSGS_GOAL_STATUS_MAX read_goal_info goals_canceling
           (\<lambda>v m. m\<lparr>goals_canceling := v\<rparr>)
           (\<lambda>n m. m\<lparr>return_code := rc, goals_canceling_count := n\<rparr>))]"

definition write_key_value :: "diagnostic_msgs_KeyValue \<Rightarrow> writer_op" where
  "write_key_value kv = all_of [xrce_cdr_write_string (kv_key kv), xrce_cdr_write_string (kv_value kv)]"

definition read_key_value :: "diagnostic_msgs_KeyValue reader_op" where
  "read_key_value = all_of [
     into_field kv_key (\<lambda>v kv. kv\<lparr>kv_key := v\<rparr>) (xrce_cdr_read_string XRCE_MSGS_DIAG_STR_MAX),
     into_field kv_value (\<lambda>v kv. kv\<lparr>kv_value := v\<rparr>) (xrce_cdr_read_string XRCE_MSGS_DIAG_STR_MAX)]"

definition write_diagnostic_status :: "diagnostic_msgs_DiagnosticStatus \<Rightarrow> writer_op" where
  "write_diagnostic_status s = all_of [xrce_cdr_write_u8 (level s), xrce_cdr_write_string (diag_name s),
     xrce_cdr_write_string (diag_message s), xrce_cdr_write_string (hardware_id s),
     write_counted write_key_value (diag_values s) (values_count s)]"

definition read_diagnostic_status :: "diagnostic_msgs_DiagnosticStatus reader_op" where
  "read_diagnostic_status = into_local 0 xrce_cdr_read_u8 (\<lambda>lv. all_of [
     into_field diag_name (\<lambda>v s. s\<lparr>diag_name := v\<rparr>) (xrce_cdr_read_string XRCE_MSGS_DIAG_STR_MAX),
     into_field diag_message (\<lambda>v s. s\<lparr>diag_message := v\<rparr>) (xrce_cdr_read_string XRCE_MSGS_DIAG_STR_MAX),
     into_field hardware_id (\<lambda>v s. s\<lparr>hardware_id := v\<rparr>) (xrce_cdr_read_string XRCE_MSGS_DIAG_STR_MAX),
     read_counted XRCE_MSGS_KV_MAX read_key_value diag_values (\<lambda>v s. s\<lparr>diag_values := v\<rparr>)
       (\<lambda>n s. s\<lparr>level := lv, values_count := n\<rparr>)])"

definition diagnostic_msgs_DiagnosticArray_encode ::
  "diagnostic_msgs_DiagnosticArray \<Rightarrow> bytes \<Rightarrow> nat \<Rightarrow> nat \<Rightarrow> bool \<times> bytes \<times> nat" where
  "diagnostic_msgs_DiagnosticArray_encode msg =
     encode_with [xrce_cdr_write_header, xrce_cdr_write_i32 (sec (stamp (diag_header msg))),
       xrce_cdr_write_u32 (nanosec (stamp (diag_header msg))),
       xrce_cdr_write_string (frame_id (diag_header msg)),
       write_counted write_diagnostic_status (diag_status msg) (status_count msg)]"

definition diagnostic_msgs_DiagnosticArray_decode ::
  "bytes \<Rightarrow> nat \<Rightarrow> diagnostic_msgs_DiagnosticArray \<Rightarrow> bool \<times> diagnostic_msgs_DiagnosticArray" where
  "diagnostic_msgs_DiagnosticArray_decode =
     decode_with [xrce_cdr_read_header,
       into_field diag_header (\<lambda>v m. m\<lparr>diag_header := v\<rparr>) (into_stamp_sec xrce_cdr_read_i32),
       into_field diag_header (\<lambda>v m. m\<lparr>diag_header := v\<rparr>) (into_stamp_nanosec xrce_cdr_read_u32),
       into_field diag_header (\<lambda>v m. m\<lparr>diag_header := v\<rparr>) (into_frame_id (xrce_cdr_read_string XRCE_MSGS_FRAME_ID_MAX)),
       read_counted XRCE_MSGS_DIAG_STATUS_MAX read_diagnostic_status diag_status
         (\<lambda>v m. m\<lparr>diag_status := v\<rparr>) (\<lambda>n m. m\<lparr>status_count := n\<rparr>)]"

section \<open>Lemmas: chains, arrays and nested structures\<close>

named_theorems wire_intros \<open>the contracts of the writers and readers\<close>

lemmas [wire_intros] = writes_u8 writes_bool writes_u32 writes_i32 writes_f64
  parses_u8 parses_bool parses_u32 parses_i32 parses_f64 writes_nil parses_nil

lemma all_of_one: "all_of [f] = f"
  by (rule ext) (rule all_of_single)

lemma writes_Cons [wire_intros]:
  "writes f a \<Longrightarrow> writes (all_of fs) (wire_all ws) \<Longrightarrow> writes (all_of (f # fs)) (wire_all (a # ws))"
proof -
  assume "writes f a" "writes (all_of fs) (wire_all ws)"
  moreover have "all_of (f # fs) = and_then f (all_of fs)" by auto
  ultimately show ?thesis by (simp only: wire_all_Cons writes_and_then)
qed

lemma parses_Cons [wire_intros]:
  assumes "parses P f a u" "parses P (all_of fs) (wire_all ws) v" "\<And>out. P out \<Longrightarrow> P (u out)"
  shows "parses P (all_of (f # fs)) (wire_all (a # ws)) (\<lambda>out. v (u out))"
proof -
  have "all_of (f # fs) = and_then f (all_of fs)" by auto
  then show ?thesis using parses_and_then[OF assms] by (simp only: wire_all_Cons)
qed

lemma writes_char_array [wire_intros]:
  "0 \<in> set s \<Longrightarrow> length s < 4294967296 \<Longrightarrow> writes (xrce_cdr_write_string s) (wire_string s)"
  by (simp add: writes_string is_cstring_def)

lemma parses_char_array:
  assumes "0 \<in> set s" "length s = n" "n < 4294967296"
  shows "parses (\<lambda>out. length out = n) (xrce_cdr_read_string n) (wire_string s) (blit 0 (cstr s))"
  using cstr_take[OF assms(1)] assms(2,3) by (intro parses_string) (simp_all add: length_cstr)

lemma length_blit_cstr:
  "0 \<in> set s \<Longrightarrow> length s = length out \<Longrightarrow> length (blit 0 (cstr s) out) = length out"
  using cstr_take[of s] by (simp add: length_cstr)

lemma blit_all: "length xs = length out \<Longrightarrow> blit 0 xs out = xs"
  by (simp add: blit_def)

lemma writes_byte_array [wire_intros]:
  "length bs = n \<Longrightarrow> writes (xrce_cdr_write_bytes bs n) (wire_bytes bs)"
  using writes_bytes[of n bs] by simp

lemma parses_byte_array:
  "length bs = n \<Longrightarrow> parses (\<lambda>out. length out = n) (xrce_cdr_read_bytes n) (wire_bytes bs) (\<lambda>_. bs)"
  by (rule parses_cong[OF parses_bytes]) (simp_all add: blit_all)

lemma writes_counted:
  assumes "\<And>x. x \<in> set (take (unat n) xs) \<Longrightarrow> writes (f x) (wr x)" "unat n \<le> length xs"
  shows "writes (write_counted f xs n) (wire_array wr (take (unat n) xs))"
  unfolding write_counted_def
proof (rule writes_array)
  fix i assume "i < unat n"
  with assms(2) have "xs ! i \<in> set (take (unat n) xs)" by (auto simp: in_set_conv_nth)
  then show "writes (f (xs ! i)) (wr (xs ! i))" by (rule assms(1))
qed (rule assms(2))

lemma parses_counted:
  assumes el: "\<And>x. x \<in> set xs \<Longrightarrow> parses Q rd (wr x) (u x)" "\<And>x e. x \<in> set xs \<Longrightarrow> Q e \<Longrightarrow> Q (u x e)"
    and len: "length xs \<le> limit" "limit < 4294967296"
    and P: "\<And>out. P out \<Longrightarrow> length (get out) = limit \<and> list_all Q (get out)"
    and put: "\<And>out v. P out \<Longrightarrow> length v = limit \<Longrightarrow> list_all Q v \<Longrightarrow> P (put v out)"
  shows "parses P (read_counted limit rd get put fin) (wire_array wr xs)
     (\<lambda>out. fin (of_nat (length xs)) (put (update_elems 0 (map u xs) (get out)) out))"
proof -
  let ?l = "length xs" and ?Q = "\<lambda>v. length v = limit \<and> list_all Q v"
  let ?u = "\<lambda>out. put (update_elems 0 (map u xs) (get out)) out"
  have l: "unat (of_nat ?l :: u32) = ?l" using len by simp
  have r: "parses ?Q (read_into rd [0..<0 + ?l]) (wire_all (map wr xs)) (update_elems 0 (map u xs))"
    using el len(1) by (intro parses_read_into) auto
  have q: "?Q (update_elems 0 (map u xs) v)" if "?Q v" for v
  proof -
    have "list_all Q v \<Longrightarrow> i + length ys \<le> length v \<Longrightarrow> set ys \<subseteq> set xs \<Longrightarrow> list_all Q (update_elems i (map u ys) v)" for i ys v
    proof (induction ys arbitrary: i v)
      case (Cons y ys)
      then have "list_all Q (v[i := u y (v ! i)])"
        using el(2)[of y "v ! i"] by (auto simp: list_all_length nth_list_update)
      with Cons show ?case by simp
    qed simp
    with that len(1) show ?thesis by simp
  qed
  have "parses P (into_field get put (read_into rd [0..<?l])) (wire_all (map wr xs)) ?u"
    using parses_into_field[OF r P] by simp
  moreover have "P (?u out)" if "P out" for out using P[OF that] put[OF that] q by blast
  ultimately have "parses P (and_then (into_field get put (read_into rd [0..<?l])) (\<lambda>(r, out). (True, r, fin (of_nat ?l) out)))
      (wire_seq (wire_all (map wr xs)) (wire_all [])) (\<lambda>out. fin (of_nat ?l) (?u out))"
    by (rule parses_and_then[OF _ parses_done])
  moreover have "(\<lambda>(r, out). if unat (of_nat ?l :: u32) > limit then (False, r, out)
      else all_of [into_field get put (read_into rd [0..<unat (of_nat ?l :: u32)]),
                   \<lambda>(r, out). (True, r, fin (of_nat ?l) out)] (r, out)) =
      and_then (into_field get put (read_into rd [0..<?l])) (\<lambda>(r, out). (True, r, fin (of_nat ?l) out))"
    using len(1) l by (simp add: fun_eq_iff all_of_one)
  ultimately show ?thesis
    unfolding read_counted_def wire_array_def
    by (intro parses_into_local[OF parses_u32]) simp
qed

section \<open>Wire formats of the messages\<close>

definition wire_vec3 :: "geometry_msgs_Vector3 \<Rightarrow> wire" where
  "wire_vec3 v = wire_all [wire_f64 (vx v), wire_f64 (vy v), wire_f64 (vz v)]"

definition wire_cov :: "u64 list \<Rightarrow> wire" where
  "wire_cov cov = wire_all (map wire_f64 cov)"

definition wire_header :: "std_msgs_Header \<Rightarrow> wire list" where
  "wire_header h = [wire_u32 (sec (stamp h)), wire_u32 (nanosec (stamp h)), wire_string (frame_id h)]"

definition wire_imu :: "sensor_msgs_Imu \<Rightarrow> wire" where
  "wire_imu m = wire_all (wire_header (header m) @
     [wire_f64 (qx (orientation m)), wire_f64 (qy (orientation m)), wire_f64 (qz (orientation m)),
      wire_f64 (qw (orientation m)), wire_cov (orientation_covariance m),
      wire_vec3 (angular_velocity m), wire_cov (angular_velocity_covariance m),
      wire_vec3 (linear_acceleration m), wire_cov (linear_acceleration_covariance m)])"

definition wire_result :: "example_interfaces_Fibonacci_Result \<Rightarrow> wire" where
  "wire_result v = wire_array wire_u32 (take (unat (sequence_count v)) (fib_sequence v))"

definition wire_goal_info :: "action_msgs_GoalInfo \<Rightarrow> wire" where
  "wire_goal_info v = wire_all [wire_bytes (goal_id v), wire_u32 (sec (goal_stamp v)), wire_u32 (nanosec (goal_stamp v))]"

definition wire_goal_status :: "action_msgs_GoalStatus \<Rightarrow> wire" where
  "wire_goal_status v = wire_all [wire_goal_info (goal_info v), wire_u8 (status v)]"

definition wire_key_value :: "diagnostic_msgs_KeyValue \<Rightarrow> wire" where
  "wire_key_value kv = wire_all [wire_string (kv_key kv), wire_string (kv_value kv)]"

definition wire_diagnostic_status :: "diagnostic_msgs_DiagnosticStatus \<Rightarrow> wire" where
  "wire_diagnostic_status s = wire_all [wire_u8 (level s), wire_string (diag_name s), wire_string (diag_message s),
     wire_string (hardware_id s), wire_array wire_key_value (take (unat (values_count s)) (diag_values s))]"

section \<open>Well-formed structures and what decoding stores\<close>

text \<open>
  A structure is well formed when its arrays have their C lengths; it can be encoded when moreover
  its strings are terminated inside their arrays and its counts do not exceed them. Decoding
  overwrites everything but the bytes behind a string's terminator and the unused entries of an
  array.
\<close>

definition chars :: "nat \<Rightarrow> bytes \<Rightarrow> bool" where
  "chars n s \<longleftrightarrow> length s = n \<and> 0 \<in> set s"

definition header_store :: "std_msgs_Header \<Rightarrow> std_msgs_Header \<Rightarrow> std_msgs_Header" where
  "header_store h old = h\<lparr>frame_id := blit 0 (cstr (frame_id h)) (frame_id old)\<rparr>"

definition imu_target :: "sensor_msgs_Imu \<Rightarrow> bool" where
  "imu_target m \<longleftrightarrow> length (frame_id (header m)) = 64 \<and> length (orientation_covariance m) = 9 \<and>
     length (angular_velocity_covariance m) = 9 \<and> length (linear_acceleration_covariance m) = 9"

definition imu_encodable :: "sensor_msgs_Imu \<Rightarrow> bool" where
  "imu_encodable m \<longleftrightarrow> imu_target m \<and> 0 \<in> set (frame_id (header m))"

definition imu_store :: "sensor_msgs_Imu \<Rightarrow> sensor_msgs_Imu \<Rightarrow> sensor_msgs_Imu" where
  "imu_store m old = m\<lparr>header := header_store (header m) (header old)\<rparr>"

definition result_target :: "example_interfaces_Fibonacci_Result \<Rightarrow> bool" where
  "result_target v \<longleftrightarrow> length (fib_sequence v) = 16"

definition result_encodable :: "example_interfaces_Fibonacci_Result \<Rightarrow> bool" where
  "result_encodable v \<longleftrightarrow> result_target v \<and> unat (sequence_count v) \<le> 16"

definition result_store ::
  "example_interfaces_Fibonacci_Result \<Rightarrow> example_interfaces_Fibonacci_Result \<Rightarrow> example_interfaces_Fibonacci_Result" where
  "result_store v old = v\<lparr>fib_sequence := blit 0 (take (unat (sequence_count v)) (fib_sequence v)) (fib_sequence old)\<rparr>"

definition goal_info_ok :: "action_msgs_GoalInfo \<Rightarrow> bool" where
  "goal_info_ok v \<longleftrightarrow> length (goal_id v) = 16"

definition goal_status_ok :: "action_msgs_GoalStatus \<Rightarrow> bool" where
  "goal_status_ok v \<longleftrightarrow> goal_info_ok (goal_info v)"

section \<open>Lemmas: the parts of the messages\<close>

lemma parses_mono: "parses Q f wr u \<Longrightarrow> (\<And>out. P out \<Longrightarrow> Q out) \<Longrightarrow> parses P f wr u"
  unfolding parses_def by blast

text \<open>Fields whose reader accepts any target.\<close>

lemma parses_any_field:
  "parses (\<lambda>_. True) f wr u \<Longrightarrow> parses P (into_field get put f) wr (\<lambda>out. put (u (get out)) out)"
  by (rule parses_into_field) simp_all

lemmas chain_rules = parses_Cons parses_nil parses_u8 parses_bool parses_u32 parses_i32 parses_f64 parses_any_field

lemma writes_vec3 [wire_intros]: "writes (write_vec3 v) (wire_vec3 v)"
  unfolding write_vec3_def wire_vec3_def by (intro wire_intros)

lemma parses_vec3: "parses P read_vec3 (wire_vec3 v) (\<lambda>_. v)"
proof -
  have "parses (\<lambda>_. True) read_vec3 (wire_vec3 v) (\<lambda>_. v)"
    unfolding read_vec3_def wire_vec3_def
    by (rule parses_cong, (rule chain_rules | (simp; fail))+)
  then show ?thesis by (rule parses_mono) simp
qed

lemma writes_cov [wire_intros]:
  assumes "length cov = 9"
  shows "writes (write_cov cov) (wire_cov cov)"
proof -
  have "map (\<lambda>i. wire_f64 (cov ! i)) [0..<9] = map wire_f64 cov"
    using assms by (intro nth_equalityI) auto
  then show ?thesis
    unfolding write_cov_def wire_cov_def
    using writes_for_each[of "[0..<9]" "\<lambda>i. xrce_cdr_write_f64 (cov ! i)" "\<lambda>i. wire_f64 (cov ! i)"] writes_f64 by simp
qed

lemma parses_cov:
  assumes "length cov = 9"
  shows "parses (\<lambda>out. length out = 9) read_cov (wire_cov cov) (\<lambda>_. cov)"
proof -
  have "parses (\<lambda>out. length out = 9 \<and> list_all (\<lambda>_. True) out) (read_into xrce_cdr_read_f64 [0..<0 + length cov])
      (wire_all (map wire_f64 cov)) (update_elems 0 (map (\<lambda>x _. x) cov))"
    using assms by (intro parses_read_into parses_f64) auto
  then have "parses (\<lambda>out. length out = 9) read_cov (wire_cov cov) (update_elems 0 (map (\<lambda>x _. x) cov))"
    unfolding read_cov_def wire_cov_def using assms by (auto intro: parses_mono simp: list_all_iff)
  then show ?thesis by (rule parses_cong) (simp add: update_elems_const assms blit_all)
qed

lemma writes_imu: "imu_encodable m \<Longrightarrow> writes (all_of (imu_fields m)) (wire_imu m)"
  unfolding imu_fields_def wire_imu_def wire_header_def append.simps
  by (intro wire_intros) (simp_all add: imu_encodable_def imu_target_def)

lemma parses_frame_id:
  assumes "0 \<in> set (frame_id h)" "length (frame_id h) = 64"
  shows "parses (\<lambda>x. length (frame_id x) = 64) (into_frame_id (xrce_cdr_read_string 64)) (wire_string (frame_id h))
     (\<lambda>x. x\<lparr>frame_id := blit 0 (cstr (frame_id h)) (frame_id x)\<rparr>)"
  unfolding into_frame_id_def
  by (rule parses_into_field[OF parses_char_array[OF assms]]) simp_all

lemma parses_imu:
  assumes "imu_encodable m"
  shows "parses imu_target (all_of imu_readers) (wire_imu m) (imu_store m)"
proof -
  have m: "0 \<in> set (frame_id (header m))" "length (frame_id (header m)) = 64" "length (orientation_covariance m) = 9"
    "length (angular_velocity_covariance m) = 9" "length (linear_acceleration_covariance m) = 9"
    using assms by (simp_all add: imu_encodable_def imu_target_def)
  note c = parses_into_field[OF parses_cov[OF m(3)]] parses_into_field[OF parses_cov[OF m(4)]]
    parses_into_field[OF parses_cov[OF m(5)]]
  note s = parses_into_field[OF parses_frame_id[OF m(1,2)]]
  show ?thesis
    unfolding imu_readers_def wire_imu_def wire_header_def append.simps into_stamp_sec_def into_stamp_nanosec_def
    by (rule parses_cong,
        (rule c s parses_vec3 chain_rules
          | (use m in \<open>simp add: imu_target_def length_blit_cstr imu_store_def header_store_def\<close>; fail))+)
qed

lemma writes_result [wire_intros]: "result_encodable v \<Longrightarrow> writes (write_fibonacci_result v) (wire_result v)"
  unfolding write_fibonacci_result_def wire_result_def
  by (rule writes_seq_i32) (simp add: result_encodable_def result_target_def)

lemma parses_result:
  assumes "result_encodable v"
  shows "parses result_target read_fibonacci_result (wire_result v) (result_store v)"
proof -
  let ?xs = "take (unat (sequence_count v)) (fib_sequence v)"
  have l: "length ?xs \<le> 16" "min (length (fib_sequence v)) (unat (sequence_count v)) = unat (sequence_count v)"
    using assms by (simp_all add: result_encodable_def result_target_def)
  show ?thesis
    unfolding read_fibonacci_result_def wire_result_def
    by (rule parses_cong[OF parses_into_field[OF parses_seq_i32[OF l(1)]]])
       (simp_all add: result_target_def result_store_def l(2))
qed

lemma writes_goal_info [wire_intros]: "goal_info_ok v \<Longrightarrow> writes (write_goal_info v) (wire_goal_info v)"
  unfolding write_goal_info_def wire_goal_info_def by (intro wire_intros) (simp add: goal_info_ok_def)

lemma parses_goal_info:
  assumes "goal_info_ok v"
  shows "parses goal_info_ok read_goal_info (wire_goal_info v) (\<lambda>_. v)"
proof -
  have l: "length (goal_id v) = 16" using assms by (simp add: goal_info_ok_def)
  note b = parses_into_field[OF parses_byte_array[OF l]]
  show ?thesis
    unfolding read_goal_info_def wire_goal_info_def
    by (rule parses_cong, (rule b chain_rules | (use l in \<open>simp add: goal_info_ok_def\<close>; fail))+)
qed

lemma writes_goal_status [wire_intros]: "goal_status_ok v \<Longrightarrow> writes (write_goal_status v) (wire_goal_status v)"
  unfolding write_goal_status_def wire_goal_status_def by (intro wire_intros) (simp add: goal_status_ok_def)

lemma parses_local_done:
  "parses (\<lambda>_. True) f a (\<lambda>_. x) \<Longrightarrow> parses P (into_local i f (\<lambda>v (r, out). (True, r, u v out))) a (u x)"
proof -
  assume "parses (\<lambda>_. True) f a (\<lambda>_. x)"
  then have "parses P (into_local i f (\<lambda>v (r, out). (True, r, u v out))) (wire_seq a (wire_all [])) (u x)"
    by (rule parses_into_local) (rule parses_done)
  then show ?thesis by simp
qed

lemma parses_goal_status:
  assumes "goal_status_ok v"
  shows "parses goal_status_ok read_goal_status (wire_goal_status v) (\<lambda>_. v)"
proof -
  have l: "goal_info_ok (goal_info v)" using assms by (simp add: goal_status_ok_def)
  note b = parses_into_field[OF parses_goal_info[OF l]]
  show ?thesis
    unfolding read_goal_status_def wire_goal_status_def
    by (rule parses_cong, (rule b parses_local_done chain_rules | (use l in \<open>simp add: goal_status_ok_def\<close>; fail))+)
qed

text \<open>Key-value pairs and diagnostic statuses.\<close>

definition kv_target :: "diagnostic_msgs_KeyValue \<Rightarrow> bool" where
  "kv_target kv \<longleftrightarrow> length (kv_key kv) = 64 \<and> length (kv_value kv) = 64"

definition kv_encodable :: "diagnostic_msgs_KeyValue \<Rightarrow> bool" where
  "kv_encodable kv \<longleftrightarrow> chars 64 (kv_key kv) \<and> chars 64 (kv_value kv)"

definition kv_store :: "diagnostic_msgs_KeyValue \<Rightarrow> diagnostic_msgs_KeyValue \<Rightarrow> diagnostic_msgs_KeyValue" where
  "kv_store kv old = \<lparr>kv_key = blit 0 (cstr (kv_key kv)) (kv_key old), kv_value = blit 0 (cstr (kv_value kv)) (kv_value old)\<rparr>"

definition ds_target :: "diagnostic_msgs_DiagnosticStatus \<Rightarrow> bool" where
  "ds_target s \<longleftrightarrow> length (diag_name s) = 64 \<and> length (diag_message s) = 64 \<and> length (hardware_id s) = 64 \<and>
     length (diag_values s) = 8 \<and> list_all kv_target (diag_values s)"

definition ds_encodable :: "diagnostic_msgs_DiagnosticStatus \<Rightarrow> bool" where
  "ds_encodable s \<longleftrightarrow> chars 64 (diag_name s) \<and> chars 64 (diag_message s) \<and> chars 64 (hardware_id s) \<and>
     length (diag_values s) = 8 \<and> unat (values_count s) \<le> 8 \<and>
     list_all kv_encodable (take (unat (values_count s)) (diag_values s))"

definition ds_store ::
  "diagnostic_msgs_DiagnosticStatus \<Rightarrow> diagnostic_msgs_DiagnosticStatus \<Rightarrow> diagnostic_msgs_DiagnosticStatus" where
  "ds_store s old = \<lparr>level = level s, diag_name = blit 0 (cstr (diag_name s)) (diag_name old),
     diag_message = blit 0 (cstr (diag_message s)) (diag_message old),
     hardware_id = blit 0 (cstr (hardware_id s)) (hardware_id old),
     diag_values = update_elems 0 (map kv_store (take (unat (values_count s)) (diag_values s))) (diag_values old),
     values_count = values_count s\<rparr>"

lemma writes_key_value [wire_intros]: "kv_encodable kv \<Longrightarrow> writes (write_key_value kv) (wire_key_value kv)"
  unfolding write_key_value_def wire_key_value_def
  by (intro wire_intros) (simp_all add: kv_encodable_def chars_def)

lemma parses_key_value:
  assumes "kv_encodable kv"
  shows "parses kv_target read_key_value (wire_key_value kv) (kv_store kv)"
proof -
  have k: "0 \<in> set (kv_key kv)" "length (kv_key kv) = 64" "0 \<in> set (kv_value kv)" "length (kv_value kv) = 64"
    using assms by (simp_all add: kv_encodable_def chars_def)
  note b = parses_into_field[OF parses_char_array[OF k(1,2)]] parses_into_field[OF parses_char_array[OF k(3,4)]]
  show ?thesis
    unfolding read_key_value_def wire_key_value_def
    by (rule parses_cong, (rule b chain_rules
          | (use k in \<open>simp add: kv_target_def kv_store_def length_blit_cstr\<close>; fail))+)
qed

lemma kv_store_target: "kv_encodable kv \<Longrightarrow> kv_target old \<Longrightarrow> kv_target (kv_store kv old)"
  by (simp add: kv_encodable_def kv_target_def kv_store_def chars_def length_blit_cstr)

lemma writes_diagnostic_status [wire_intros]:
  assumes "ds_encodable s"
  shows "writes (write_diagnostic_status s) (wire_diagnostic_status s)"
proof -
  have "writes (write_counted write_key_value (diag_values s) (values_count s))
      (wire_array wire_key_value (take (unat (values_count s)) (diag_values s)))"
    using assms by (intro writes_counted writes_key_value) (auto simp: ds_encodable_def list_all_iff)
  then show ?thesis
    unfolding write_diagnostic_status_def wire_diagnostic_status_def
    by (intro wire_intros) (use assms in \<open>simp_all add: ds_encodable_def chars_def\<close>)
qed

lemma list_all_update_elems:
  "list_all Q v \<Longrightarrow> i + length us \<le> length v \<Longrightarrow> (\<And>u e. u \<in> set us \<Longrightarrow> Q e \<Longrightarrow> Q (u e)) \<Longrightarrow>
     list_all Q (update_elems i us v)"
proof (induction us arbitrary: i v)
  case (Cons u us)
  then have "list_all Q (v[i := u (v ! i)])" by (auto simp: list_all_length nth_list_update)
  with Cons show ?case by simp
qed simp

lemma ds_store_target:
  assumes "ds_encodable s" "ds_target old"
  shows "ds_target (ds_store s old)"
proof -
  have "list_all kv_target (update_elems 0 (map kv_store (take (unat (values_count s)) (diag_values s))) (diag_values old))"
    by (rule list_all_update_elems)
       (use assms kv_store_target in \<open>auto simp: ds_target_def ds_encodable_def list_all_iff\<close>)
  with assms show ?thesis
    by (simp add: ds_encodable_def ds_target_def ds_store_def chars_def length_blit_cstr)
qed

lemma parses_diagnostic_status:
  assumes "ds_encodable s"
  shows "parses ds_target read_diagnostic_status (wire_diagnostic_status s) (ds_store s)"
proof -
  let ?kvs = "take (unat (values_count s)) (diag_values s)"
  have k: "0 \<in> set (diag_name s)" "length (diag_name s) = 64" "0 \<in> set (diag_message s)" "length (diag_message s) = 64"
    "0 \<in> set (hardware_id s)" "length (hardware_id s) = 64" "length ?kvs = unat (values_count s)" "length ?kvs \<le> 8"
    "\<And>kv. kv \<in> set ?kvs \<Longrightarrow> kv_encodable kv"
    using assms by (auto simp: ds_encodable_def chars_def list_all_iff)
  note b = parses_into_field[OF parses_char_array[OF k(1,2)]] parses_into_field[OF parses_char_array[OF k(3,4)]]
    parses_into_field[OF parses_char_array[OF k(5,6)]]
  have e: "wire_diagnostic_status s = wire_seq (wire_u8 (level s)) (wire_all [wire_string (diag_name s),
      wire_string (diag_message s), wire_string (hardware_id s), wire_array wire_key_value ?kvs])"
    by (simp add: wire_diagnostic_status_def wire_all_Cons)
  have cnt: "parses ds_target (read_counted 8 read_key_value diag_values (\<lambda>v s. s\<lparr>diag_values := v\<rparr>)
      (\<lambda>n x. x\<lparr>level := level s, values_count := n\<rparr>)) (wire_array wire_key_value ?kvs)
      (\<lambda>x. x\<lparr>level := level s, diag_values := update_elems 0 (map kv_store ?kvs) (diag_values x), values_count := values_count s\<rparr>)"
    by (rule parses_cong[OF parses_counted[of ?kvs kv_target _ _ kv_store]])
       (use k(7-9) parses_key_value kv_store_target in \<open>auto simp: ds_target_def\<close>)
  have up: "list_all kv_target (update_elems 0 (map kv_store ?kvs) v)"
    if "length v = 8" "list_all kv_target v" for v
    by (rule list_all_update_elems) (use that k(8,9) kv_store_target in auto)
  show ?thesis
    unfolding read_diagnostic_status_def e
    by (rule parses_into_local[OF parses_u8], rule parses_cong, (rule cnt b chain_rules
          | (use k(1-6) up in \<open>simp add: ds_target_def ds_store_def length_blit_cstr\<close>; fail))+)
qed

section \<open>Interpretations: every message\<close>

interpretation int32: cdr_message std_msgs_Int32_encode std_msgs_Int32_decode
  "\<lambda>m. [xrce_cdr_write_i32 (int32_data m)]" "[into_field int32_data (\<lambda>v out. out\<lparr>int32_data := v\<rparr>) xrce_cdr_read_i32]"
  "\<lambda>m. wire_all [wire_u32 (int32_data m)]" "\<lambda>_. True" "\<lambda>_. True" "\<lambda>x _. x"
proof
  fix x :: std_msgs_Int32
  show "writes (all_of [xrce_cdr_write_i32 (int32_data x)]) (wire_all [wire_u32 (int32_data x)])"
    by (intro wire_intros)
  show "parses (\<lambda>_. True) (all_of [into_field int32_data (\<lambda>v out. out\<lparr>int32_data := v\<rparr>) xrce_cdr_read_i32])
      (wire_all [wire_u32 (int32_data x)]) (\<lambda>_. x)"
    by (rule parses_cong, (rule chain_rules | (simp; fail))+)
qed (simp_all add: std_msgs_Int32_encode_def std_msgs_Int32_decode_def)

interpretation str: cdr_message std_msgs_String_encode std_msgs_String_decode
  "\<lambda>m. [xrce_cdr_write_string (string_data m)]"
  "[into_field string_data (\<lambda>v out. out\<lparr>string_data := v\<rparr>) (xrce_cdr_read_string 256)]"
  "\<lambda>m. wire_all [wire_string (string_data m)]" "\<lambda>m. chars 256 (string_data m)" "\<lambda>m. length (string_data m) = 256"
  "\<lambda>x old. \<lparr>string_data = blit 0 (cstr (string_data x)) (string_data old)\<rparr>"
proof
  fix x :: std_msgs_String assume x: "chars 256 (string_data x)"
  then show "writes (all_of [xrce_cdr_write_string (string_data x)]) (wire_all [wire_string (string_data x)])"
    by (intro wire_intros) (simp_all add: chars_def)
  note b = parses_into_field[OF parses_char_array[OF conjunct2[OF x[unfolded chars_def]] conjunct1[OF x[unfolded chars_def]]]]
  show "parses (\<lambda>m. length (string_data m) = 256) (all_of [into_field string_data (\<lambda>v out. out\<lparr>string_data := v\<rparr>) (xrce_cdr_read_string 256)])
      (wire_all [wire_string (string_data x)]) (\<lambda>old. \<lparr>string_data = blit 0 (cstr (string_data x)) (string_data old)\<rparr>)"
    by (rule parses_cong, (rule b chain_rules | (use x in \<open>simp add: chars_def length_blit_cstr\<close>; fail))+)
qed (simp_all add: std_msgs_String_encode_def std_msgs_String_decode_def)

interpretation imu: cdr_message sensor_msgs_Imu_encode sensor_msgs_Imu_decode imu_fields imu_readers
  wire_imu imu_encodable imu_target imu_store
  by unfold_locales (simp_all add: sensor_msgs_Imu_encode_def sensor_msgs_Imu_decode_def writes_imu parses_imu)

interpretation twist: cdr_message geometry_msgs_Twist_encode geometry_msgs_Twist_decode
  "\<lambda>m. [write_vec3 (linear m), write_vec3 (angular m)]"
  "[into_field linear (\<lambda>v m. m\<lparr>linear := v\<rparr>) read_vec3, into_field angular (\<lambda>v m. m\<lparr>angular := v\<rparr>) read_vec3]"
  "\<lambda>m. wire_all [wire_vec3 (linear m), wire_vec3 (angular m)]" "\<lambda>_. True" "\<lambda>_. True" "\<lambda>x _. x"
proof
  fix x :: geometry_msgs_Twist
  show "writes (all_of [write_vec3 (linear x), write_vec3 (angular x)]) (wire_all [wire_vec3 (linear x), wire_vec3 (angular x)])"
    by (intro wire_intros)
  show "parses (\<lambda>_. True) (all_of [into_field linear (\<lambda>v m. m\<lparr>linear := v\<rparr>) read_vec3, into_field angular (\<lambda>v m. m\<lparr>angular := v\<rparr>) read_vec3])
      (wire_all [wire_vec3 (linear x), wire_vec3 (angular x)]) (\<lambda>_. x)"
    by (rule parses_cong, (rule parses_vec3 chain_rules | (simp; fail))+)
qed (simp_all add: geometry_msgs_Twist_encode_def geometry_msgs_Twist_decode_def)

interpretation trigger_request: cdr_message std_srvs_Trigger_Request_encode std_srvs_Trigger_Request_decode
  "\<lambda>_. []" "[]" "\<lambda>_. wire_all []" "\<lambda>_. True" "\<lambda>_. True" "\<lambda>_ old. old"
  by unfold_locales
     (simp_all only: std_srvs_Trigger_Request_encode_def std_srvs_Trigger_Request_decode_def writes_nil parses_nil)

definition trigger_response_readers :: "(std_srvs_Trigger_Response reader_op) list" where
  "trigger_response_readers = [into_field success (\<lambda>v m. m\<lparr>success := v\<rparr>) xrce_cdr_read_bool,
     into_field trigger_message (\<lambda>v m. m\<lparr>trigger_message := v\<rparr>) (xrce_cdr_read_string 256)]"

interpretation trigger_response: cdr_message std_srvs_Trigger_Response_encode std_srvs_Trigger_Response_decode
  "\<lambda>m. [xrce_cdr_write_bool (success m), xrce_cdr_write_string (trigger_message m)]" trigger_response_readers
  "\<lambda>m. wire_all [wire_bool (success m), wire_string (trigger_message m)]"
  "\<lambda>m. chars 256 (trigger_message m)" "\<lambda>m. length (trigger_message m) = 256"
  "\<lambda>x old. x\<lparr>trigger_message := blit 0 (cstr (trigger_message x)) (trigger_message old)\<rparr>"
proof
  fix x :: std_srvs_Trigger_Response assume x: "chars 256 (trigger_message x)"
  then show "writes (all_of [xrce_cdr_write_bool (success x), xrce_cdr_write_string (trigger_message x)])
      (wire_all [wire_bool (success x), wire_string (trigger_message x)])"
    by (intro wire_intros) (simp_all add: chars_def)
  note b = parses_into_field[OF parses_char_array[OF conjunct2[OF x[unfolded chars_def]] conjunct1[OF x[unfolded chars_def]]]]
  show "parses (\<lambda>m. length (trigger_message m) = 256) (all_of trigger_response_readers)
      (wire_all [wire_bool (success x), wire_string (trigger_message x)])
      (\<lambda>old. x\<lparr>trigger_message := blit 0 (cstr (trigger_message x)) (trigger_message old)\<rparr>)"
    unfolding trigger_response_readers_def
    by (rule parses_cong, (rule b chain_rules | (use x in \<open>simp add: chars_def length_blit_cstr\<close>; fail))+)
qed (simp_all add: std_srvs_Trigger_Response_encode_def std_srvs_Trigger_Response_decode_def trigger_response_readers_def)

definition send_goal_request_readers :: "(example_interfaces_Fibonacci_SendGoal_Request reader_op) list" where
  "send_goal_request_readers =
     [into_field send_goal_id (\<lambda>v m. m\<lparr>send_goal_id := v\<rparr>) (xrce_cdr_read_bytes 16),
      into_field order (\<lambda>v m. m\<lparr>order := v\<rparr>) xrce_cdr_read_i32]"

interpretation send_goal_request: cdr_message
  example_interfaces_Fibonacci_SendGoal_Request_encode example_interfaces_Fibonacci_SendGoal_Request_decode
  "\<lambda>m. [xrce_cdr_write_bytes (send_goal_id m) 16, xrce_cdr_write_i32 (order m)]" send_goal_request_readers
  "\<lambda>m. wire_all [wire_bytes (send_goal_id m), wire_u32 (order m)]"
  "\<lambda>m. length (send_goal_id m) = 16" "\<lambda>m. length (send_goal_id m) = 16" "\<lambda>x _. x"
proof
  fix x :: example_interfaces_Fibonacci_SendGoal_Request assume x: "length (send_goal_id x) = 16"
  then show "writes (all_of [xrce_cdr_write_bytes (send_goal_id x) 16, xrce_cdr_write_i32 (order x)])
      (wire_all [wire_bytes (send_goal_id x), wire_u32 (order x)])"
    by (intro wire_intros)
  note b = parses_into_field[OF parses_byte_array[OF x]]
  show "parses (\<lambda>m. length (send_goal_id m) = 16) (all_of send_goal_request_readers)
      (wire_all [wire_bytes (send_goal_id x), wire_u32 (order x)]) (\<lambda>_. x)"
    unfolding send_goal_request_readers_def
    by (rule parses_cong, (rule b chain_rules | (use x in simp; fail))+)
qed (simp_all add: example_interfaces_Fibonacci_SendGoal_Request_encode_def
      example_interfaces_Fibonacci_SendGoal_Request_decode_def send_goal_request_readers_def)

definition send_goal_response_readers :: "(example_interfaces_Fibonacci_SendGoal_Response reader_op) list" where
  "send_goal_response_readers =
     [into_field accepted (\<lambda>v m. m\<lparr>accepted := v\<rparr>) xrce_cdr_read_bool,
      into_field accept_stamp (\<lambda>v m. m\<lparr>accept_stamp := v\<rparr>) (into_field sec (\<lambda>v t. t\<lparr>sec := v\<rparr>) xrce_cdr_read_i32),
      into_field accept_stamp (\<lambda>v m. m\<lparr>accept_stamp := v\<rparr>) (into_field nanosec (\<lambda>v t. t\<lparr>nanosec := v\<rparr>) xrce_cdr_read_u32)]"

interpretation send_goal_response: cdr_message
  example_interfaces_Fibonacci_SendGoal_Response_encode example_interfaces_Fibonacci_SendGoal_Response_decode
  "\<lambda>m. [xrce_cdr_write_bool (accepted m), xrce_cdr_write_i32 (sec (accept_stamp m)), xrce_cdr_write_u32 (nanosec (accept_stamp m))]"
  send_goal_response_readers
  "\<lambda>m. wire_all [wire_bool (accepted m), wire_u32 (sec (accept_stamp m)), wire_u32 (nanosec (accept_stamp m))]"
  "\<lambda>_. True" "\<lambda>_. True" "\<lambda>x _. x"
proof
  fix x :: example_interfaces_Fibonacci_SendGoal_Response
  show "writes (all_of [xrce_cdr_write_bool (accepted x), xrce_cdr_write_i32 (sec (accept_stamp x)), xrce_cdr_write_u32 (nanosec (accept_stamp x))])
      (wire_all [wire_bool (accepted x), wire_u32 (sec (accept_stamp x)), wire_u32 (nanosec (accept_stamp x))])"
    by (intro wire_intros)
  show "parses (\<lambda>_. True) (all_of send_goal_response_readers)
      (wire_all [wire_bool (accepted x), wire_u32 (sec (accept_stamp x)), wire_u32 (nanosec (accept_stamp x))]) (\<lambda>_. x)"
    unfolding send_goal_response_readers_def
    by (rule parses_cong, (rule chain_rules | (simp; fail))+)
qed (simp_all add: example_interfaces_Fibonacci_SendGoal_Response_encode_def
      example_interfaces_Fibonacci_SendGoal_Response_decode_def send_goal_response_readers_def)

interpretation get_result_request: cdr_message
  example_interfaces_Fibonacci_GetResult_Request_encode example_interfaces_Fibonacci_GetResult_Request_decode
  "\<lambda>m. [xrce_cdr_write_bytes (result_goal_id m) 16]"
  "[into_field result_goal_id (\<lambda>v m. m\<lparr>result_goal_id := v\<rparr>) (xrce_cdr_read_bytes 16)]"
  "\<lambda>m. wire_all [wire_bytes (result_goal_id m)]"
  "\<lambda>m. length (result_goal_id m) = 16" "\<lambda>m. length (result_goal_id m) = 16" "\<lambda>x _. x"
proof
  fix x :: example_interfaces_Fibonacci_GetResult_Request assume x: "length (result_goal_id x) = 16"
  then show "writes (all_of [xrce_cdr_write_bytes (result_goal_id x) 16]) (wire_all [wire_bytes (result_goal_id x)])"
    by (intro wire_intros)
  note b = parses_into_field[OF parses_byte_array[OF x]]
  show "parses (\<lambda>m. length (result_goal_id m) = 16)
      (all_of [into_field result_goal_id (\<lambda>v m. m\<lparr>result_goal_id := v\<rparr>) (xrce_cdr_read_bytes 16)])
      (wire_all [wire_bytes (result_goal_id x)]) (\<lambda>_. x)"
    by (rule parses_cong, (rule b chain_rules | (use x in simp; fail))+)
qed (simp_all add: example_interfaces_Fibonacci_GetResult_Request_encode_def
      example_interfaces_Fibonacci_GetResult_Request_decode_def)

lemma result_store_target: "result_encodable v \<Longrightarrow> result_target old \<Longrightarrow> result_target (result_store v old)"
  by (simp add: result_encodable_def result_target_def result_store_def)

definition get_result_response_readers :: "(example_interfaces_Fibonacci_GetResult_Response reader_op) list" where
  "get_result_response_readers =
     [into_local 0 xrce_cdr_read_u8 (\<lambda>st.
        all_of [into_field result (\<lambda>v m. m\<lparr>result := v\<rparr>) read_fibonacci_result,
                \<lambda>(r, out). (True, r, out\<lparr>result_status := st\<rparr>)])]"

interpretation get_result_response: cdr_message
  example_interfaces_Fibonacci_GetResult_Response_encode example_interfaces_Fibonacci_GetResult_Response_decode
  "\<lambda>m. [xrce_cdr_write_u8 (result_status m), write_fibonacci_result (result m)]" get_result_response_readers
  "\<lambda>m. wire_all [wire_u8 (result_status m), wire_result (result m)]"
  "\<lambda>m. result_encodable (result m)" "\<lambda>m. result_target (result m)"
  "\<lambda>x old. x\<lparr>result := result_store (result x) (result old)\<rparr>"
proof
  fix x :: example_interfaces_Fibonacci_GetResult_Response assume x: "result_encodable (result x)"
  then show "writes (all_of [xrce_cdr_write_u8 (result_status x), write_fibonacci_result (result x)])
      (wire_all [wire_u8 (result_status x), wire_result (result x)])"
    by (intro wire_intros)
  note b = parses_into_field[OF parses_result[OF x]]
  have "parses (\<lambda>m. result_target (result m)) (all_of [into_field result (\<lambda>v m. m\<lparr>result := v\<rparr>) read_fibonacci_result,
        \<lambda>(r, out). (True, r, out\<lparr>result_status := result_status x\<rparr>)])
      (wire_all [wire_result (result x), wire_all []]) (\<lambda>old. x\<lparr>result := result_store (result x) (result old)\<rparr>)"
    by (rule parses_cong, (rule b parses_done chain_rules | (use x in \<open>simp add: result_store_target\<close>; fail))+)
  then have "parses (\<lambda>m. result_target (result m)) (all_of get_result_response_readers)
      (wire_seq (wire_u8 (result_status x)) (wire_all [wire_result (result x), wire_all []]))
      (\<lambda>old. x\<lparr>result := result_store (result x) (result old)\<rparr>)"
    unfolding get_result_response_readers_def all_of_one by (rule parses_into_local[OF parses_u8])
  moreover have "wire_seq (wire_u8 (result_status x)) (wire_all [wire_result (result x), wire_all []]) =
      wire_all [wire_u8 (result_status x), wire_result (result x)]"
    by (simp add: wire_all_Cons)
  ultimately show "parses (\<lambda>m. result_target (result m)) (all_of get_result_response_readers)
      (wire_all [wire_u8 (result_status x), wire_result (result x)]) (\<lambda>old. x\<lparr>result := result_store (result x) (result old)\<rparr>)"
    by simp
qed (simp_all add: example_interfaces_Fibonacci_GetResult_Response_encode_def
      example_interfaces_Fibonacci_GetResult_Response_decode_def get_result_response_readers_def)

definition feedback_readers :: "(example_interfaces_Fibonacci_FeedbackMessage reader_op) list" where
  "feedback_readers =
     [into_field feedback_goal_id (\<lambda>v m. m\<lparr>feedback_goal_id := v\<rparr>) (xrce_cdr_read_bytes 16),
      into_field feedback (\<lambda>v m. m\<lparr>feedback := v\<rparr>) read_fibonacci_result]"

interpretation feedback_message: cdr_message
  example_interfaces_Fibonacci_FeedbackMessage_encode example_interfaces_Fibonacci_FeedbackMessage_decode
  "\<lambda>m. [xrce_cdr_write_bytes (feedback_goal_id m) 16, write_fibonacci_result (feedback m)]" feedback_readers
  "\<lambda>m. wire_all [wire_bytes (feedback_goal_id m), wire_result (feedback m)]"
  "\<lambda>m. length (feedback_goal_id m) = 16 \<and> result_encodable (feedback m)"
  "\<lambda>m. length (feedback_goal_id m) = 16 \<and> result_target (feedback m)"
  "\<lambda>x old. x\<lparr>feedback := result_store (feedback x) (feedback old)\<rparr>"
proof
  fix x :: example_interfaces_Fibonacci_FeedbackMessage
  assume x: "length (feedback_goal_id x) = 16 \<and> result_encodable (feedback x)"
  then show "writes (all_of [xrce_cdr_write_bytes (feedback_goal_id x) 16, write_fibonacci_result (feedback x)])
      (wire_all [wire_bytes (feedback_goal_id x), wire_result (feedback x)])"
    by (intro wire_intros) simp_all
  note b = parses_into_field[OF parses_byte_array[OF conjunct1[OF x]]] parses_into_field[OF parses_result[OF conjunct2[OF x]]]
  show "parses (\<lambda>m. length (feedback_goal_id m) = 16 \<and> result_target (feedback m)) (all_of feedback_readers)
      (wire_all [wire_bytes (feedback_goal_id x), wire_result (feedback x)])
      (\<lambda>old. x\<lparr>feedback := result_store (feedback x) (feedback old)\<rparr>)"
    unfolding feedback_readers_def
    by (rule parses_cong, (rule b chain_rules | (use x in \<open>simp add: result_store_target\<close>; fail))+)
qed (simp_all add: example_interfaces_Fibonacci_FeedbackMessage_encode_def
      example_interfaces_Fibonacci_FeedbackMessage_decode_def feedback_readers_def)

interpretation goal_status: cdr_message action_msgs_GoalStatus_encode action_msgs_GoalStatus_decode
  "\<lambda>m. [write_goal_status m]" "[read_goal_status]" wire_goal_status goal_status_ok goal_status_ok "\<lambda>x _. x"
  by unfold_locales
     (simp_all add: action_msgs_GoalStatus_encode_def action_msgs_GoalStatus_decode_def all_of_one
       writes_goal_status parses_goal_status)

text \<open>Arrays of structures that are overwritten completely.\<close>

definition array_ok :: "('e \<Rightarrow> bool) \<Rightarrow> nat \<Rightarrow> 'e list \<Rightarrow> bool" where
  "array_ok Q n xs \<longleftrightarrow> length xs = n \<and> list_all Q xs"

lemma parses_overwritten_array:
  assumes "\<And>x. Q x \<Longrightarrow> parses Q rd (wr x) (\<lambda>_. x)" "array_ok Q n xs" "unat c \<le> n" "n < 4294967296"
    and "\<And>out. P out \<Longrightarrow> array_ok Q n (get out)" "\<And>out v. P out \<Longrightarrow> array_ok Q n v \<Longrightarrow> P (put v out)"
  shows "parses P (read_counted n rd get put fin) (wire_array wr (take (unat c) xs))
     (\<lambda>out. fin c (put (blit 0 (take (unat c) xs) (get out)) out))"
proof -
  let ?xs = "take (unat c) xs"
  have l: "length ?xs = unat c" "length ?xs \<le> n" using assms(2,3) by (simp_all add: array_ok_def)
  have q: "\<And>x. x \<in> set ?xs \<Longrightarrow> Q x" using assms(2) by (auto simp: array_ok_def list_all_iff dest: in_set_takeD)
  have "parses P (read_counted n rd get put fin) (wire_array wr ?xs)
      (\<lambda>out. fin (of_nat (length ?xs)) (put (update_elems 0 (map (\<lambda>x _. x) ?xs) (get out)) out))"
    using assms q l(2) by (intro parses_counted[of _ Q]) (auto simp: array_ok_def)
  then show ?thesis
  proof (rule parses_cong)
    fix out assume "P out"
    then have "length (get out) = n" using assms(5) by (simp add: array_ok_def)
    with l update_elems_const[of 0 ?xs "get out"]
    show "fin (of_nat (length ?xs)) (put (update_elems 0 (map (\<lambda>x _. x) ?xs) (get out)) out) =
        fin c (put (blit 0 ?xs (get out)) out)"
      unfolding l(1) by simp
  qed
qed

definition gsa_encodable :: "action_msgs_GoalStatusArray \<Rightarrow> bool" where
  "gsa_encodable m \<longleftrightarrow> array_ok goal_status_ok 8 (status_list m) \<and> unat (status_list_count m) \<le> 8"

definition gsa_store :: "action_msgs_GoalStatusArray \<Rightarrow> action_msgs_GoalStatusArray \<Rightarrow> action_msgs_GoalStatusArray" where
  "gsa_store m old = m\<lparr>status_list := blit 0 (take (unat (status_list_count m)) (status_list m)) (status_list old)\<rparr>"

definition wire_goal_status_array :: "action_msgs_GoalStatusArray \<Rightarrow> wire" where
  "wire_goal_status_array m = wire_array wire_goal_status (take (unat (status_list_count m)) (status_list m))"

interpretation goal_status_array: cdr_message action_msgs_GoalStatusArray_encode action_msgs_GoalStatusArray_decode
  "\<lambda>m. [write_counted write_goal_status (status_list m) (status_list_count m)]"
  "[read_counted 8 read_goal_status status_list (\<lambda>v m. m\<lparr>status_list := v\<rparr>) (\<lambda>n m. m\<lparr>status_list_count := n\<rparr>)]"
  wire_goal_status_array gsa_encodable "\<lambda>m. array_ok goal_status_ok 8 (status_list m)" gsa_store
proof
  fix x assume x: "gsa_encodable x"
  have "writes (write_counted write_goal_status (status_list x) (status_list_count x)) (wire_goal_status_array x)"
    unfolding wire_goal_status_array_def using x
    by (intro writes_counted writes_goal_status) (auto simp: gsa_encodable_def array_ok_def list_all_iff dest: in_set_takeD)
  then show "writes (all_of [write_counted write_goal_status (status_list x) (status_list_count x)]) (wire_goal_status_array x)"
    by (simp only: all_of_one)
  have "parses (\<lambda>m. array_ok goal_status_ok 8 (status_list m))
      (read_counted 8 read_goal_status status_list (\<lambda>v m. m\<lparr>status_list := v\<rparr>) (\<lambda>n m. m\<lparr>status_list_count := n\<rparr>))
      (wire_goal_status_array x) (gsa_store x)"
    unfolding wire_goal_status_array_def
    by (rule parses_cong[OF parses_overwritten_array[OF parses_goal_status]])
       (use x in \<open>simp_all add: gsa_encodable_def gsa_store_def\<close>)
  then show "parses (\<lambda>m. array_ok goal_status_ok 8 (status_list m))
      (all_of [read_counted 8 read_goal_status status_list (\<lambda>v m. m\<lparr>status_list := v\<rparr>) (\<lambda>n m. m\<lparr>status_list_count := n\<rparr>)])
      (wire_goal_status_array x) (gsa_store x)"
    by (simp only: all_of_one)
qed (simp_all add: action_msgs_GoalStatusArray_encode_def action_msgs_GoalStatusArray_decode_def)

interpretation cancel_goal_request: cdr_message action_msgs_CancelGoal_Request_encode action_msgs_CancelGoal_Request_decode
  "\<lambda>m. [write_goal_info (cancel_goal_info m)]"
  "[into_field cancel_goal_info (\<lambda>v m. m\<lparr>cancel_goal_info := v\<rparr>) read_goal_info]"
  "\<lambda>m. wire_goal_info (cancel_goal_info m)" "\<lambda>m. goal_info_ok (cancel_goal_info m)"
  "\<lambda>m. goal_info_ok (cancel_goal_info m)" "\<lambda>x _. x"
proof
  fix x :: action_msgs_CancelGoal_Request assume x: "goal_info_ok (cancel_goal_info x)"
  then show "writes (all_of [write_goal_info (cancel_goal_info x)]) (wire_goal_info (cancel_goal_info x))"
    by (simp only: all_of_one writes_goal_info)
  show "parses (\<lambda>m. goal_info_ok (cancel_goal_info m)) (all_of [into_field cancel_goal_info (\<lambda>v m. m\<lparr>cancel_goal_info := v\<rparr>) read_goal_info])
      (wire_goal_info (cancel_goal_info x)) (\<lambda>_. x)"
    unfolding all_of_one by (rule parses_cong[OF parses_into_field[OF parses_goal_info[OF x]]]) simp_all
qed (simp_all add: action_msgs_CancelGoal_Request_encode_def action_msgs_CancelGoal_Request_decode_def)

definition cgr_encodable :: "action_msgs_CancelGoal_Response \<Rightarrow> bool" where
  "cgr_encodable m \<longleftrightarrow> array_ok goal_info_ok 8 (goals_canceling m) \<and> unat (goals_canceling_count m) \<le> 8"

definition cgr_store ::
  "action_msgs_CancelGoal_Response \<Rightarrow> action_msgs_CancelGoal_Response \<Rightarrow> action_msgs_CancelGoal_Response" where
  "cgr_store m old = m\<lparr>goals_canceling := blit 0 (take (unat (goals_canceling_count m)) (goals_canceling m)) (goals_canceling old)\<rparr>"

definition wire_cancel_goal_response :: "action_msgs_CancelGoal_Response \<Rightarrow> wire" where
  "wire_cancel_goal_response m = wire_all [wire_u8 (return_code m),
     wire_array wire_goal_info (take (unat (goals_canceling_count m)) (goals_canceling m))]"

definition cgr_readers :: "(action_msgs_CancelGoal_Response reader_op) list" where
  "cgr_readers = [into_local 0 xrce_cdr_read_u8 (\<lambda>rc.
     read_counted XRCE_MSGS_GOAL_STATUS_MAX read_goal_info goals_canceling (\<lambda>v m. m\<lparr>goals_canceling := v\<rparr>)
       (\<lambda>n m. m\<lparr>return_code := rc, goals_canceling_count := n\<rparr>))]"

interpretation cancel_goal_response: cdr_message action_msgs_CancelGoal_Response_encode action_msgs_CancelGoal_Response_decode
  "\<lambda>m. [xrce_cdr_write_u8 (return_code m), write_counted write_goal_info (goals_canceling m) (goals_canceling_count m)]"
  cgr_readers wire_cancel_goal_response cgr_encodable "\<lambda>m. array_ok goal_info_ok 8 (goals_canceling m)" cgr_store
proof
  fix x assume x: "cgr_encodable x"
  have w: "writes (write_counted write_goal_info (goals_canceling x) (goals_canceling_count x))
      (wire_array wire_goal_info (take (unat (goals_canceling_count x)) (goals_canceling x)))"
    using x by (intro writes_counted writes_goal_info) (auto simp: cgr_encodable_def array_ok_def list_all_iff dest: in_set_takeD)
  show "writes (all_of [xrce_cdr_write_u8 (return_code x), write_counted write_goal_info (goals_canceling x) (goals_canceling_count x)])
      (wire_cancel_goal_response x)"
    unfolding wire_cancel_goal_response_def by (intro wire_intros w)
  have "wire_cancel_goal_response x = wire_seq (wire_u8 (return_code x))
      (wire_array wire_goal_info (take (unat (goals_canceling_count x)) (goals_canceling x)))"
    by (simp add: wire_cancel_goal_response_def wire_all_Cons)
  moreover have "parses (\<lambda>m. array_ok goal_info_ok 8 (goals_canceling m))
      (read_counted 8 read_goal_info goals_canceling (\<lambda>v m. m\<lparr>goals_canceling := v\<rparr>)
        (\<lambda>n m. m\<lparr>return_code := return_code x, goals_canceling_count := n\<rparr>))
      (wire_array wire_goal_info (take (unat (goals_canceling_count x)) (goals_canceling x))) (cgr_store x)"
    by (rule parses_cong[OF parses_overwritten_array[OF parses_goal_info]])
       (use x in \<open>simp_all add: cgr_encodable_def cgr_store_def\<close>)
  ultimately show "parses (\<lambda>m. array_ok goal_info_ok 8 (goals_canceling m)) (all_of cgr_readers) (wire_cancel_goal_response x) (cgr_store x)"
    unfolding cgr_readers_def all_of_one by (auto intro: parses_into_local[OF parses_u8])
qed (simp_all add: action_msgs_CancelGoal_Response_encode_def action_msgs_CancelGoal_Response_decode_def cgr_readers_def)

definition da_target :: "diagnostic_msgs_DiagnosticArray \<Rightarrow> bool" where
  "da_target m \<longleftrightarrow> length (frame_id (diag_header m)) = 64 \<and> length (diag_status m) = 16 \<and> list_all ds_target (diag_status m)"

definition da_encodable :: "diagnostic_msgs_DiagnosticArray \<Rightarrow> bool" where
  "da_encodable m \<longleftrightarrow> chars 64 (frame_id (diag_header m)) \<and> length (diag_status m) = 16 \<and>
     unat (status_count m) \<le> 16 \<and> list_all ds_encodable (take (unat (status_count m)) (diag_status m))"

definition da_store ::
  "diagnostic_msgs_DiagnosticArray \<Rightarrow> diagnostic_msgs_DiagnosticArray \<Rightarrow> diagnostic_msgs_DiagnosticArray" where
  "da_store m old = \<lparr>diag_header = header_store (diag_header m) (diag_header old),
     diag_status = update_elems 0 (map ds_store (take (unat (status_count m)) (diag_status m))) (diag_status old),
     status_count = status_count m\<rparr>"

definition wire_diagnostic_array :: "diagnostic_msgs_DiagnosticArray \<Rightarrow> wire" where
  "wire_diagnostic_array m = wire_all (wire_header (diag_header m) @
     [wire_array wire_diagnostic_status (take (unat (status_count m)) (diag_status m))])"

definition da_fields :: "diagnostic_msgs_DiagnosticArray \<Rightarrow> writer_op list" where
  "da_fields m = [xrce_cdr_write_i32 (sec (stamp (diag_header m))), xrce_cdr_write_u32 (nanosec (stamp (diag_header m))),
     xrce_cdr_write_string (frame_id (diag_header m)),
     write_counted write_diagnostic_status (diag_status m) (status_count m)]"

definition da_readers :: "(diagnostic_msgs_DiagnosticArray reader_op) list" where
  "da_readers = [into_field diag_header (\<lambda>v m. m\<lparr>diag_header := v\<rparr>) (into_stamp_sec xrce_cdr_read_i32),
     into_field diag_header (\<lambda>v m. m\<lparr>diag_header := v\<rparr>) (into_stamp_nanosec xrce_cdr_read_u32),
     into_field diag_header (\<lambda>v m. m\<lparr>diag_header := v\<rparr>) (into_frame_id (xrce_cdr_read_string XRCE_MSGS_FRAME_ID_MAX)),
     read_counted XRCE_MSGS_DIAG_STATUS_MAX read_diagnostic_status diag_status
       (\<lambda>v m. m\<lparr>diag_status := v\<rparr>) (\<lambda>n m. m\<lparr>status_count := n\<rparr>)]"

lemma writes_diagnostic_array:
  assumes "da_encodable m"
  shows "writes (all_of (da_fields m)) (wire_diagnostic_array m)"
proof -
  have "writes (write_counted write_diagnostic_status (diag_status m) (status_count m))
      (wire_array wire_diagnostic_status (take (unat (status_count m)) (diag_status m)))"
    using assms by (intro writes_counted writes_diagnostic_status) (auto simp: da_encodable_def list_all_iff)
  then show ?thesis
    unfolding da_fields_def wire_diagnostic_array_def wire_header_def append.simps
    by (intro wire_intros) (use assms in \<open>simp_all add: da_encodable_def chars_def\<close>)
qed

lemma parses_diagnostic_array:
  assumes "da_encodable m"
  shows "parses da_target (all_of da_readers) (wire_diagnostic_array m) (da_store m)"
proof -
  let ?ss = "take (unat (status_count m)) (diag_status m)"
  have k: "0 \<in> set (frame_id (diag_header m))" "length (frame_id (diag_header m)) = 64"
    "length ?ss = unat (status_count m)" "length ?ss \<le> 16" "\<And>s. s \<in> set ?ss \<Longrightarrow> ds_encodable s"
    using assms by (auto simp: da_encodable_def chars_def list_all_iff)
  note b = parses_into_field[OF parses_frame_id[OF k(1,2)]]
  have cnt: "parses da_target (read_counted 16 read_diagnostic_status diag_status (\<lambda>v m. m\<lparr>diag_status := v\<rparr>)
      (\<lambda>n m. m\<lparr>status_count := n\<rparr>)) (wire_array wire_diagnostic_status ?ss)
      (\<lambda>x. x\<lparr>diag_status := update_elems 0 (map ds_store ?ss) (diag_status x), status_count := status_count m\<rparr>)"
    by (rule parses_cong[OF parses_counted[of ?ss ds_target _ _ ds_store]])
       (use k(3-5) parses_diagnostic_status ds_store_target in \<open>auto simp: da_target_def\<close>)
  have up: "list_all ds_target (update_elems 0 (map ds_store ?ss) v)"
    if "length v = 16" "list_all ds_target v" for v
    by (rule list_all_update_elems) (use that k(4,5) ds_store_target in auto)
  show ?thesis
    unfolding da_readers_def wire_diagnostic_array_def wire_header_def append.simps into_stamp_sec_def into_stamp_nanosec_def
    by (rule parses_cong, (rule cnt b chain_rules
          | (use k(1,2) up in \<open>simp add: da_target_def da_store_def header_store_def length_blit_cstr\<close>; fail))+)
qed

interpretation diagnostic_array: cdr_message diagnostic_msgs_DiagnosticArray_encode diagnostic_msgs_DiagnosticArray_decode
  da_fields da_readers wire_diagnostic_array da_encodable da_target da_store
  by unfold_locales
     (simp_all add: diagnostic_msgs_DiagnosticArray_encode_def diagnostic_msgs_DiagnosticArray_decode_def
       da_fields_def da_readers_def
       writes_diagnostic_array[unfolded da_fields_def] parses_diagnostic_array[unfolded da_readers_def])

section \<open>Properties\<close>

text \<open>
  \<^verbatim>\<open>sensor_msgs/Imu\<close> round trip. If encoding a message whose frame id is a terminated string
  succeeds, the reported length is exactly the header plus the aligned fields and within the
  capacity, and decoding that many bytes into any structure gives back the message; only the
  bytes of \<^verbatim>\<open>frame_id\<close> behind the terminator keep what the structure had there.
\<close>

theorem imu_roundtrip:
  assumes "imu_encodable m" "imu_target out" "cap \<le> length buf"
    and "sensor_msgs_Imu_encode m buf cap n = (True, buf', n')"
  shows "n' = 4 + length (wire_imu m 0) \<and> n' \<le> cap \<and> length buf' = length buf \<and>
     sensor_msgs_Imu_decode buf' n' out = (True, imu_store m out)"
  using imu.roundtrip[OF assms, unfolded imu.image_def] by (auto simp: header_length)

definition sample_time :: builtin_interfaces_Time where
  "sample_time = \<lparr>sec = 7, nanosec = 9\<rparr>"

definition sample_imu :: sensor_msgs_Imu where
  "sample_imu = \<lparr>header = \<lparr>stamp = sample_time, frame_id = replicate 64 0\<rparr>,
     orientation = \<lparr>qx = 1, qy = 2, qz = 3, qw = 4\<rparr>, orientation_covariance = [0, 1, 2, 3, 4, 5, 6, 7, 8],
     angular_velocity = \<lparr>vx = 5, vy = 6, vz = 7\<rparr>, angular_velocity_covariance = [0, 1, 2, 3, 4, 5, 6, 7, 8],
     linear_acceleration = \<lparr>vx = 8, vy = 9, vz = 10\<rparr>, linear_acceleration_covariance = [0, 1, 2, 3, 4, 5, 6, 7, 8]\<rparr>"

theorem imu_roundtrip_witness:
  "\<exists>buf'. sensor_msgs_Imu_encode sample_imu (replicate 400 0) 400 0 = (True, buf', 4 + length (wire_imu sample_imu 0)) \<and>
     sensor_msgs_Imu_decode buf' (4 + length (wire_imu sample_imu 0)) sample_imu = (True, imu_store sample_imu sample_imu)"
proof -
  have ok: "imu_encodable sample_imu" "imu_target sample_imu"
    by (simp_all add: imu_encodable_def imu_target_def sample_imu_def)
  have c: "cstr (replicate 64 0) = [0]" by (simp add: cstr_def)
  have "length (wire_imu sample_imu 0) \<le> 396"
    by (simp add: wire_imu_def sample_imu_def sample_time_def wire_header_def wire_string_def c wire_cov_def wire_vec3_def
        wire_seq_def wire_u32_def wire_f64_def wire_bytes_def padded_def)
  then have "length (imu.image sample_imu) \<le> 400" unfolding imu.image_def by (simp add: header_length)
  then obtain buf' where e: "sensor_msgs_Imu_encode sample_imu (replicate 400 0) 400 0 = (True, buf', length (imu.image sample_imu))"
    using imu.encode_fits[OF ok(1), of 400 "replicate 400 0" 0] by simp
  from imu_roundtrip[OF ok _ e] e show ?thesis by auto
qed

text \<open>
  \<^verbatim>\<open>geometry_msgs/Twist\<close> on the wire. The encoding is the 4 byte header followed directly by the
  six doubles, 52 bytes in all: encoding succeeds exactly when the capacity is at least 52.
\<close>

theorem twist_exact_layout:
  assumes "cap \<le> length buf"
  shows "if 52 \<le> cap
     then geometry_msgs_Twist_encode m buf cap n =
       (True, cdr_header @ concat (map (le_bytes 8) [vx (linear m), vy (linear m), vz (linear m),
          vx (angular m), vy (angular m), vz (angular m)]) @ drop 52 buf, 52)
     else \<not> fst (geometry_msgs_Twist_encode m buf cap n)"
proof -
  have im: "twist.image m = cdr_header @ concat (map (le_bytes 8) [vx (linear m), vy (linear m), vz (linear m),
      vx (angular m), vy (angular m), vz (angular m)])"
    unfolding twist.image_def by (simp add: wire_vec3_def wire_seq_def wire_f64_def padded_def)
  have l: "length (twist.image m) = 52" by (simp add: im cdr_header_def)
  show ?thesis
  proof (cases "52 \<le> cap")
    case True
    with twist.encode_fits[OF TrueI assms, of m n] l show ?thesis by (simp add: im blit_def cdr_header_def)
  next
    case False
    with twist.encode_too_long[OF TrueI assms, of m n] l show ?thesis by auto
  qed
qed

text \<open>
  C38: \<^verbatim>\<open>diagnostic_msgs/DiagnosticArray\<close> round trip, for every number of statuses and of key-value
  pairs the arrays can hold: each used entry arrives with its strings, and the unused entries of
  the target are left alone.
\<close>

theorem diagnostic_array_roundtrip:
  assumes "da_encodable m" "da_target out" "cap \<le> length buf"
    and "diagnostic_msgs_DiagnosticArray_encode m buf cap n = (True, buf', n')"
  shows "n' \<le> cap \<and> diagnostic_msgs_DiagnosticArray_decode buf' n' out = (True, da_store m out)"
  using diagnostic_array.roundtrip[OF assms] by blast

theorem twist_exact_layout_witness:
  "\<not> fst (geometry_msgs_Twist_encode \<lparr>linear = \<lparr>vx = 1, vy = 2, vz = 3\<rparr>, angular = \<lparr>vx = 4, vy = 5, vz = 6\<rparr>\<rparr> (replicate 60 0) 51 0)"
  using twist_exact_layout[of 51 "replicate 60 0"] by simp

definition sample_kv :: diagnostic_msgs_KeyValue where
  "sample_kv = \<lparr>kv_key = replicate 64 0, kv_value = replicate 64 0\<rparr>"

definition sample_status :: diagnostic_msgs_DiagnosticStatus where
  "sample_status = \<lparr>level = 1, diag_name = replicate 64 0, diag_message = replicate 64 0,
     hardware_id = replicate 64 0, diag_values = replicate 8 sample_kv, values_count = 1\<rparr>"

definition sample_diagnostics :: diagnostic_msgs_DiagnosticArray where
  "sample_diagnostics = \<lparr>diag_header = \<lparr>stamp = sample_time, frame_id = replicate 64 0\<rparr>,
     diag_status = replicate 16 sample_status, status_count = 1\<rparr>"

theorem diagnostic_array_roundtrip_witness:
  "\<exists>buf' n'. diagnostic_msgs_DiagnosticArray_encode sample_diagnostics (replicate 200 0) 200 0 = (True, buf', n') \<and>
     diagnostic_msgs_DiagnosticArray_decode buf' n' sample_diagnostics = (True, da_store sample_diagnostics sample_diagnostics)"
proof -
  have kv: "kv_encodable sample_kv" "kv_target sample_kv"
    by (simp_all add: kv_encodable_def kv_target_def sample_kv_def chars_def)
  then have st: "ds_encodable sample_status" "ds_target sample_status"
    by (simp_all add: ds_encodable_def ds_target_def sample_status_def chars_def list_all_iff)
  then have ok: "da_encodable sample_diagnostics" "da_target sample_diagnostics"
    by (simp_all add: da_encodable_def da_target_def sample_diagnostics_def chars_def list_all_iff)
  have c: "cstr (replicate 64 0) = [0]" by (simp add: cstr_def)
  have t: "take (Suc 0) (replicate 16 x) = [x]" "take (Suc 0) (replicate 8 x) = [x]" for x :: 'a
    by (simp_all add: numeral_eq_Suc)
  have "length (wire_diagnostic_array sample_diagnostics 0) \<le> 196"
    by (simp add: wire_diagnostic_array_def sample_diagnostics_def sample_status_def sample_kv_def sample_time_def t
        wire_header_def wire_string_def c wire_array_def wire_diagnostic_status_def wire_key_value_def
        wire_seq_def wire_u8_def wire_u32_def wire_bytes_def padded_def)
  then have "length (diagnostic_array.image sample_diagnostics) \<le> 200"
    unfolding diagnostic_array.image_def by (simp add: header_length)
  then obtain buf' n' where e: "diagnostic_msgs_DiagnosticArray_encode sample_diagnostics (replicate 200 0) 200 0 = (True, buf', n')"
    using diagnostic_array.encode_fits[OF ok(1), of 200 "replicate 200 0" 0] by simp
  from diagnostic_array_roundtrip[OF ok _ e] e show ?thesis by auto
qed

text \<open>
  A truncated \<^verbatim>\<open>action_msgs/GoalStatusArray\<close> is rejected. Decoding any proper prefix of the
  encoding of a status array fails, wherever the cut is.
\<close>

theorem goal_status_array_truncated_rejected:
  assumes "gsa_encodable m" "array_ok goal_status_ok 8 (status_list out)" "len \<le> length buf"
    and "strict_prefix (take len buf) (cdr_header @ wire_goal_status_array m 0)"
  shows "\<not> fst (action_msgs_GoalStatusArray_decode buf len out)"
  using goal_status_array.decode_truncated[OF assms(1,2) _ assms(3)] assms(4)
  by (simp add: goal_status_array.image_def)

theorem goal_status_array_truncated_rejected_witness:
  "\<not> fst (action_msgs_GoalStatusArray_decode [0, 1, 0, 0, 0, 0] 6
     \<lparr>status_list = replicate 8 \<lparr>goal_info = \<lparr>goal_id = replicate 16 0, goal_stamp = sample_time\<rparr>, status = 0\<rparr>, status_list_count = 0\<rparr>)"
proof -
  let ?m = "\<lparr>status_list = replicate 8 \<lparr>goal_info = \<lparr>goal_id = replicate 16 0, goal_stamp = sample_time\<rparr>, status = 0\<rparr>, status_list_count = 0\<rparr>"
  have ok: "gsa_encodable ?m" "array_ok goal_status_ok 8 (status_list ?m)"
    by (simp_all add: gsa_encodable_def array_ok_def goal_status_ok_def goal_info_ok_def list_all_iff)
  have "cdr_header @ wire_goal_status_array ?m 0 = [0, 1, 0, 0, 0, 0, 0, 0]"
    by (simp add: cdr_header_def wire_goal_status_array_def wire_array_def wire_seq_def wire_u32_def padded_def
        le_bytes_def byte_at_def upt_rec)
  then have "strict_prefix (take 6 [0, 1, 0, 0, 0, 0]) (cdr_header @ wire_goal_status_array ?m 0)"
    by (simp add: strict_prefix_def prefix_def)
  from goal_status_array_truncated_rejected[OF ok _ this] show ?thesis by simp
qed

end
