(* ===== verification/Serial.thy ===== *)
theory Serial
  imports Prelude "HOL-Library.Sublist"
begin

text \<open>
  \<^verbatim>\<open>xrce/src/serial_transport.c\<close> and \<^verbatim>\<open>serial_transport.h\<close>: CRC-16/ARC, byte stuffing, the frame encoder
  and the byte-fed reader state machine.

  The encoder returns its size result with the output buffer. The reader is a record; a feed
  returns the result code, the reader and the two out-parameters.
\<close>

section \<open>Data\<close>

abbreviation XRCE_SERIAL_FLAG :: u8 where "XRCE_SERIAL_FLAG \<equiv> 0x7E"
abbreviation XRCE_SERIAL_ESC :: u8 where "XRCE_SERIAL_ESC \<equiv> 0x7D"
abbreviation XRCE_SERIAL_XOR :: u8 where "XRCE_SERIAL_XOR \<equiv> 0x20"

datatype serial_state =
    XRCE_SERIAL_WAIT_FLAG | XRCE_SERIAL_READ_SRC | XRCE_SERIAL_READ_DST
  | XRCE_SERIAL_READ_LEN_LSB | XRCE_SERIAL_READ_LEN_MSB | XRCE_SERIAL_READ_PAYLOAD
  | XRCE_SERIAL_READ_CRC_LSB | XRCE_SERIAL_READ_CRC_MSB

record serial_reader =
  rstate :: serial_state
  local_addr :: u8
  src_addr :: u8
  frame_len :: u16
  frame_pos :: u16
  crc :: u16
  rx_crc :: u16
  have_escape :: bool
  payload_buf :: bytes
  payload_cap :: nat

datatype feed_result = FEED_IN_PROGRESS | FEED_FRAME_READY | FEED_ERROR

section \<open>Operations\<close>

text \<open>One turn of the bit loop.\<close>

definition crc16_bit :: "u16 \<Rightarrow> u16" where
  "crc16_bit c = (if c AND 1 \<noteq> 0 then drop_bit 1 c XOR 0xA001 else drop_bit 1 c)"

definition crc16_update :: "u16 \<Rightarrow> u8 \<Rightarrow> u16" where
  "crc16_update c byte = (crc16_bit ^^ 8) (c XOR ucast byte)"

definition xrce_serial_crc16 :: "bytes \<Rightarrow> nat \<Rightarrow> u16" where
  "xrce_serial_crc16 data len = foldl crc16_update 0 (take len data)"

definition put_stuffed :: "nat \<Rightarrow> u8 \<Rightarrow> bytes \<times> nat \<Rightarrow> bool \<times> bytes \<times> nat" where
  "put_stuffed out_cap byte = (\<lambda>(out, pos).
     if byte = XRCE_SERIAL_FLAG \<or> byte = XRCE_SERIAL_ESC
     then if pos + 2 > out_cap then (False, out, pos)
          else (True, out[pos := XRCE_SERIAL_ESC, pos + 1 := byte XOR XRCE_SERIAL_XOR], pos + 2)
     else if pos + 1 > out_cap then (False, out, pos)
          else (True, out[pos := byte], pos + 1))"

text \<open>The loop over the payload, with the running CRC.\<close>

fun put_payload :: "nat \<Rightarrow> bytes \<Rightarrow> u16 \<Rightarrow> bytes \<times> nat \<Rightarrow> bool \<times> u16 \<times> bytes \<times> nat" where
  "put_payload out_cap [] c s = (True, c, s)"
| "put_payload out_cap (b # bs) c s =
     (let c = crc16_update c b in
      case put_stuffed out_cap b s of
        (ok, s) \<Rightarrow> if \<not> ok then (False, c, s) else put_payload out_cap bs c s)"

definition xrce_serial_frame_encode ::
  "bytes \<Rightarrow> nat \<Rightarrow> u8 \<Rightarrow> u8 \<Rightarrow> bytes \<Rightarrow> nat \<Rightarrow> nat \<times> bytes" where
  "xrce_serial_frame_encode out out_cap local_a remote_a payload payload_len =
     (if out_cap < 1 then (0, out)
      else
        (case all_of [put_stuffed out_cap local_a, put_stuffed out_cap remote_a,
              put_stuffed out_cap (of_nat (payload_len mod 256)),
              put_stuffed out_cap (of_nat (payload_len div 256 mod 256))]
              (out[0 := XRCE_SERIAL_FLAG], 1) of
           (ok, s) \<Rightarrow>
             if \<not> ok then (0, fst s)
             else
               (case put_payload out_cap (take payload_len payload) 0 s of
                  (ok, c, s) \<Rightarrow>
                    if \<not> ok then (0, fst s)
                    else
                      (case all_of [put_stuffed out_cap (byte_at 0 c), put_stuffed out_cap (byte_at 8 c)] s of
                         (ok, s) \<Rightarrow> if \<not> ok then (0, fst s) else (snd s, fst s)))))"

definition xrce_serial_reader_init :: "u8 \<Rightarrow> bytes \<Rightarrow> nat \<Rightarrow> serial_reader" where
  "xrce_serial_reader_init local_a buf cap =
     \<lparr>rstate = XRCE_SERIAL_WAIT_FLAG, local_addr = local_a, src_addr = 0, frame_len = 0,
      frame_pos = 0, crc = 0, rx_crc = 0, have_escape = False, payload_buf = buf, payload_cap = cap\<rparr>"

definition reset_to_wait :: "serial_reader \<Rightarrow> serial_reader" where
  "reset_to_wait r = r\<lparr>rstate := XRCE_SERIAL_WAIT_FLAG, have_escape := False\<rparr>"

text \<open>\<open>None\<close> while in the middle of an escape.\<close>

definition unstuff :: "serial_reader \<Rightarrow> u8 \<Rightarrow> u8 option \<times> serial_reader" where
  "unstuff r raw =
     (if have_escape r then (Some (raw XOR XRCE_SERIAL_XOR), r\<lparr>have_escape := False\<rparr>)
      else if raw = XRCE_SERIAL_ESC then (None, r\<lparr>have_escape := True\<rparr>)
      else (Some raw, r))"

text \<open>The switch over the states, for a decoded byte.\<close>

definition feed_decoded ::
  "serial_reader \<Rightarrow> u8 \<Rightarrow> u8 \<Rightarrow> u16 \<Rightarrow> feed_result \<times> serial_reader \<times> u8 \<times> u16" where
  "feed_decoded r decoded out_src out_len =
     (case rstate r of
        XRCE_SERIAL_WAIT_FLAG \<Rightarrow> (FEED_IN_PROGRESS, r, out_src, out_len)
      | XRCE_SERIAL_READ_SRC \<Rightarrow>
          (FEED_IN_PROGRESS, r\<lparr>src_addr := decoded, rstate := XRCE_SERIAL_READ_DST\<rparr>, out_src, out_len)
      | XRCE_SERIAL_READ_DST \<Rightarrow>
          if decoded \<noteq> local_addr r then (FEED_ERROR, reset_to_wait r, out_src, out_len)
          else (FEED_IN_PROGRESS, r\<lparr>rstate := XRCE_SERIAL_READ_LEN_LSB\<rparr>, out_src, out_len)
      | XRCE_SERIAL_READ_LEN_LSB \<Rightarrow>
          (FEED_IN_PROGRESS, r\<lparr>frame_len := ucast decoded, rstate := XRCE_SERIAL_READ_LEN_MSB\<rparr>, out_src, out_len)
      | XRCE_SERIAL_READ_LEN_MSB \<Rightarrow>
          (let r = r\<lparr>frame_len := frame_len r OR push_bit 8 (ucast decoded), frame_pos := 0, crc := 0\<rparr> in
           if unat (frame_len r) > payload_cap r then (FEED_ERROR, reset_to_wait r, out_src, out_len)
           else (FEED_IN_PROGRESS,
                 r\<lparr>rstate := if frame_len r = 0 then XRCE_SERIAL_READ_CRC_LSB else XRCE_SERIAL_READ_PAYLOAD\<rparr>,
                 out_src, out_len))
      | XRCE_SERIAL_READ_PAYLOAD \<Rightarrow>
          (let r = r\<lparr>payload_buf := (payload_buf r)[unat (frame_pos r) := decoded],
                     frame_pos := frame_pos r + 1, crc := crc16_update (crc r) decoded\<rparr> in
           (FEED_IN_PROGRESS,
            if frame_pos r = frame_len r then r\<lparr>rstate := XRCE_SERIAL_READ_CRC_LSB\<rparr> else r,
            out_src, out_len))
      | XRCE_SERIAL_READ_CRC_LSB \<Rightarrow>
          (FEED_IN_PROGRESS, r\<lparr>rx_crc := ucast decoded, rstate := XRCE_SERIAL_READ_CRC_MSB\<rparr>, out_src, out_len)
      | XRCE_SERIAL_READ_CRC_MSB \<Rightarrow>
          (let r = reset_to_wait (r\<lparr>rx_crc := rx_crc r OR push_bit 8 (ucast decoded)\<rparr>) in
           if rx_crc r \<noteq> crc r then (FEED_ERROR, r, out_src, out_len)
           else (FEED_FRAME_READY, r, src_addr r, frame_len r)))"

definition xrce_serial_reader_feed ::
  "serial_reader \<Rightarrow> u8 \<Rightarrow> u8 \<Rightarrow> u16 \<Rightarrow> feed_result \<times> serial_reader \<times> u8 \<times> u16" where
  "xrce_serial_reader_feed r byte out_src out_len =
     (if \<not> have_escape r \<and> byte = XRCE_SERIAL_FLAG
      then (FEED_IN_PROGRESS, r\<lparr>rstate := XRCE_SERIAL_READ_SRC, have_escape := False\<rparr>, out_src, out_len)
      else if rstate r = XRCE_SERIAL_WAIT_FLAG then (FEED_IN_PROGRESS, r, out_src, out_len)
      else
        (case unstuff r byte of
           (None, r) \<Rightarrow> (FEED_IN_PROGRESS, r, out_src, out_len)
         | (Some decoded, r) \<Rightarrow> feed_decoded r decoded out_src out_len))"

text \<open>Feeding a sequence of bytes, as the receive loops do; all results and the last out-parameters.\<close>

fun feed_all ::
  "serial_reader \<Rightarrow> bytes \<Rightarrow> u8 \<Rightarrow> u16 \<Rightarrow> feed_result list \<times> serial_reader \<times> u8 \<times> u16" where
  "feed_all r [] src len = ([], r, src, len)"
| "feed_all r (b # bs) src len =
     (case xrce_serial_reader_feed r b src len of
        (res, r, src, len) \<Rightarrow>
          (case feed_all r bs src len of (ress, s) \<Rightarrow> (res # ress, s)))"

section \<open>The frame format\<close>

definition stuff :: "u8 \<Rightarrow> bytes" where
  "stuff b = (if b = XRCE_SERIAL_FLAG \<or> b = XRCE_SERIAL_ESC then [XRCE_SERIAL_ESC, b XOR XRCE_SERIAL_XOR] else [b])"

definition frame_body :: "u8 \<Rightarrow> u8 \<Rightarrow> bytes \<Rightarrow> u16 \<Rightarrow> bytes" where
  "frame_body src dst payload c =
     [src, dst, of_nat (length payload mod 256), of_nat (length payload div 256 mod 256)] @ payload @
     [byte_at 0 c, byte_at 8 c]"

definition frame_bytes :: "u8 \<Rightarrow> u8 \<Rightarrow> bytes \<Rightarrow> u16 \<Rightarrow> bytes" where
  "frame_bytes src dst payload c = XRCE_SERIAL_FLAG # concat (map stuff (frame_body src dst payload c))"

section \<open>Lemmas: the CRC\<close>

lemma crc16_bit_bit: "crc16_bit c = (if bit c 0 then drop_bit 1 c XOR 0xA001 else drop_bit 1 c)"
  by (simp add: crc16_bit_def and_one_eq bit_0 mod_2_eq_odd)

lemma inj_crc16_bit: "inj crc16_bit"
proof (rule injI)
  fix x y :: u16 assume e: "crc16_bit x = crc16_bit y"
  have top: "bit (crc16_bit z) 15 \<longleftrightarrow> bit z 0" for z :: u16
    by (auto simp: crc16_bit_bit bit_simps dest: bit_imp_le_length)
  have b0: "bit x 0 \<longleftrightarrow> bit y 0" using e top[of x] top[of y] by simp
  have "drop_bit 1 x = drop_bit 1 y"
  proof (cases "bit x 0")
    case True
    then have "drop_bit 1 x XOR 0xA001 = drop_bit 1 y XOR 0xA001"
      using e b0 by (simp add: crc16_bit_bit)
    then have "(drop_bit 1 x XOR 0xA001) XOR 0xA001 = (drop_bit 1 y XOR 0xA001) XOR 0xA001" by simp
    then show ?thesis by (simp only: xor.assoc xor_self_eq xor.right_neutral)
  next
    case False
    then show ?thesis using e b0 by (simp add: crc16_bit_bit)
  qed
  then have s: "bit x (Suc n) = bit y (Suc n)" for n
    using bit_drop_bit_eq[of 1 x] bit_drop_bit_eq[of 1 y] by (metis comp_apply plus_1_eq_Suc)
  show "x = y"
  proof (rule bit_word_eqI)
    fix n show "bit x n = bit y n" using b0 s by (cases n) auto
  qed
qed

lemma inj_crc16_bits: "inj (crc16_bit ^^ n)"
  using inj_crc16_bit by (rule inj_fn)

lemma crc16_update_inj_crc: "crc16_update c b = crc16_update d b \<longleftrightarrow> c = d"
proof
  assume "crc16_update c b = crc16_update d b"
  then have "c XOR ucast b = d XOR ucast b"
    using injD[OF inj_crc16_bits[of 8]] by (simp add: crc16_update_def)
  then have "(c XOR ucast b) XOR ucast b = (d XOR ucast b) XOR ucast b" by simp
  then show "c = d" by (simp add: xor.assoc)
qed simp

lemma crc16_update_inj_byte: "crc16_update c a = crc16_update c b \<longleftrightarrow> a = b"
proof
  assume "crc16_update c a = crc16_update c b"
  then have "c XOR ucast a = c XOR ucast b"
    using injD[OF inj_crc16_bits[of 8]] by (simp add: crc16_update_def)
  then have "c XOR (c XOR ucast a) = c XOR (c XOR ucast b)" by simp
  then have "(ucast a :: u16) = ucast b" by (simp add: xor.assoc[symmetric])
  then have u: "unat (ucast a :: u16) = unat (ucast b :: u16)" by simp
  have "unat (ucast x :: u16) = unat x" for x :: u8
    using unsigned_less[of x, where ?'a = nat] by (simp add: unsigned_ucast_eq take_bit_nat_eq_self)
  with u show "a = b" by (simp add: word_unat_eq_iff)
qed simp

lemma foldl_crc_inj: "foldl crc16_update c bs = foldl crc16_update d bs \<longleftrightarrow> c = d"
  by (induction bs arbitrary: c d) (simp_all add: crc16_update_inj_crc)

section \<open>Lemmas: the encoder\<close>

lemma length_stuff: "length (stuff b) \<in> {1, 2}"
  by (simp add: stuff_def)

lemma put_stuffed_eq:
  assumes "out_cap \<le> length out"
  shows "put_stuffed out_cap b (out, pos) =
     (if pos + length (stuff b) \<le> out_cap then (True, blit pos (stuff b) out, pos + length (stuff b)) else (False, out, pos))"
proof -
  have "out[pos := x, Suc pos := y] = blit pos [x, y] out" if "Suc pos < length out" for x y
    using that blit_blit[of pos "[x]" "[y]" out] by (simp add: list_update_blit)
  then show ?thesis
    using assms by (simp add: put_stuffed_def stuff_def list_update_blit)
qed

lemma put_chain:
  assumes "out_cap \<le> length out" "pos \<le> out_cap" "w = concat (map stuff bs)"
  shows "pos + length w \<le> out_cap \<Longrightarrow>
      all_of (map (put_stuffed out_cap) bs) (out, pos) = (True, blit pos w out, pos + length w)"
    and "\<not> pos + length w \<le> out_cap \<Longrightarrow> \<not> fst (all_of (map (put_stuffed out_cap) bs) (out, pos))"
proof -
  have "if pos + length w \<le> out_cap
        then all_of (map (put_stuffed out_cap) bs) (out, pos) = (True, blit pos w out, pos + length w)
        else \<not> fst (all_of (map (put_stuffed out_cap) bs) (out, pos))"
    using assms
  proof (induction bs arbitrary: out pos w)
    case Nil
    then show ?case by simp
  next
    case (Cons b bs)
    show ?case
    proof (cases "pos + length (stuff b) \<le> out_cap")
      case True
      let ?out = "blit pos (stuff b) out" and ?pos = "pos + length (stuff b)" and ?w = "concat (map stuff bs)"
      have l: "out_cap \<le> length ?out" using Cons.prems True by simp
      have e: "all_of (map (put_stuffed out_cap) (b # bs)) (out, pos) = all_of (map (put_stuffed out_cap) bs) (?out, ?pos)"
        using True Cons.prems by (simp add: put_stuffed_eq)
      have b: "blit ?pos ?w ?out = blit pos (stuff b @ ?w) out" if "?pos + length ?w \<le> out_cap"
        using that Cons.prems(1) by (intro blit_blit) linarith
      show ?thesis
        using Cons.IH[OF l True refl] b unfolding e Cons.prems(3) by (simp add: add.assoc split: if_splits)
    next
      case False
      with Cons.prems show ?thesis by (simp add: put_stuffed_eq and_then_def)
    qed
  qed
  then show "pos + length w \<le> out_cap \<Longrightarrow>
      all_of (map (put_stuffed out_cap) bs) (out, pos) = (True, blit pos w out, pos + length w)"
    and "\<not> pos + length w \<le> out_cap \<Longrightarrow> \<not> fst (all_of (map (put_stuffed out_cap) bs) (out, pos))"
    by simp_all
qed

lemma put_payload_eq:
  assumes "all_of (map (put_stuffed out_cap) bs) s = (ok, s')"
  obtains c' where "put_payload out_cap bs c s = (ok, c', s')" "ok \<Longrightarrow> c' = foldl crc16_update c bs"
proof -
  have "\<exists>c'. put_payload out_cap bs c s = (ok, c', s') \<and> (ok \<longrightarrow> c' = foldl crc16_update c bs)"
    using assms
  proof (induction bs arbitrary: c s)
    case (Cons b bs)
    obtain ok1 s1 where p: "put_stuffed out_cap b s = (ok1, s1)" by (cases "put_stuffed out_cap b s")
    with Cons show ?case by (cases ok1) auto
  qed simp
  then show ?thesis using that by blast
qed

lemma frame_encode_chain:
  assumes "1 \<le> out_cap" "out_cap \<le> length out" "n = length payload" "c = foldl crc16_update 0 payload"
  shows "xrce_serial_frame_encode out out_cap src dst payload n =
     (let (ok, s) = all_of (map (put_stuffed out_cap) (frame_body src dst payload c)) (out[0 := XRCE_SERIAL_FLAG], 1)
      in (if ok then snd s else 0, fst s))"
proof -
  let ?h = "map (put_stuffed out_cap) [src, dst, of_nat (n mod 256), of_nat (n div 256 mod 256)]"
  let ?p = "map (put_stuffed out_cap) payload"
  let ?t = "map (put_stuffed out_cap) [byte_at 0 c, byte_at 8 c]"
  let ?s = "(out[0 := XRCE_SERIAL_FLAG], 1)"
  have body: "map (put_stuffed out_cap) (frame_body src dst payload c) = ?h @ ?p @ ?t"
    by (simp add: frame_body_def assms(3))
  obtain ok1 s1 where h: "all_of ?h ?s = (ok1, s1)" by (cases "all_of ?h ?s")
  obtain ok2 s2 where p: "all_of ?p s1 = (ok2, s2)" by (cases "all_of ?p s1")
  obtain ok3 s3 where t: "all_of ?t s2 = (ok3, s3)" by (cases "all_of ?t s2")
  have c: "all_of (?h @ ?p @ ?t) ?s = (if ok1 then if ok2 then (ok3, s3) else (False, s2) else (False, s1))"
    by (simp only: all_of_append and_then_def h p t prod.case if_cancel)
  obtain c2 where q: "put_payload out_cap payload 0 s1 = (ok2, c2, s2)" "ok2 \<Longrightarrow> c2 = c"
    using put_payload_eq[OF p, of 0] assms(4) by blast
  have hh: "all_of [put_stuffed out_cap src, put_stuffed out_cap dst, put_stuffed out_cap (of_nat (n mod 256)),
      put_stuffed out_cap (of_nat (n div 256 mod 256))] ?s = (ok1, s1)" using h by (simp only: list.map)
  have tt: "all_of [put_stuffed out_cap (byte_at 0 c), put_stuffed out_cap (byte_at 8 c)] s2 = (ok3, s3)"
    using t by (simp only: list.map)
  show ?thesis
    unfolding xrce_serial_frame_encode_def body c
    using assms(1,3) q tt hh
    by (cases ok1; cases ok2; cases ok3) (simp_all add: Let_def)
qed


lemma frame_encode_blit:
  assumes "out_cap \<le> length out" "n = length payload"
    and "w = frame_bytes src dst payload (xrce_serial_crc16 payload n)"
  shows "length w \<le> out_cap \<Longrightarrow> xrce_serial_frame_encode out out_cap src dst payload n = (length w, blit 0 w out)"
    and "\<not> length w \<le> out_cap \<Longrightarrow> fst (xrce_serial_frame_encode out out_cap src dst payload n) = 0"
proof -
  let ?c = "foldl crc16_update 0 payload"
  let ?b = "concat (map stuff (frame_body src dst payload ?c))"
  have c: "xrce_serial_crc16 payload n = ?c" by (simp add: xrce_serial_crc16_def assms(2))
  have w: "w = XRCE_SERIAL_FLAG # ?b" using assms(3) c by (simp add: frame_bytes_def)
  have l: "out_cap \<le> length (out[0 := XRCE_SERIAL_FLAG])" using assms(1) by simp
  {
    assume le: "length w \<le> out_cap"
    then have o: "1 \<le> out_cap" and f: "1 + length ?b \<le> out_cap" using w by simp_all
    have "out[0 := XRCE_SERIAL_FLAG] = blit 0 [XRCE_SERIAL_FLAG] out"
      using o assms(1) by (intro list_update_blit) linarith
    moreover have "blit 1 ?b (blit 0 [XRCE_SERIAL_FLAG] out) = blit 0 w out"
      using blit_blit[of 0 "[XRCE_SERIAL_FLAG]" ?b out] f assms(1) w by simp
    ultimately show "xrce_serial_frame_encode out out_cap src dst payload n = (length w, blit 0 w out)"
      using put_chain(1)[OF l o refl f] frame_encode_chain[OF o assms(1,2) refl, of src dst] w by simp
  next
    assume le: "\<not> length w \<le> out_cap"
    show "fst (xrce_serial_frame_encode out out_cap src dst payload n) = 0"
    proof (cases "1 \<le> out_cap")
      case True
      have f: "\<not> 1 + length ?b \<le> out_cap" using le w by simp
      show ?thesis
        using put_chain(2)[OF l True refl f] frame_encode_chain[OF True assms(1,2) refl, of src dst]
        by (auto simp: case_prod_beta)
    next
      case False
      then show ?thesis by (simp add: xrce_serial_frame_encode_def)
    qed
  }
qed

section \<open>Lemmas: the reader\<close>

lemma feed_all_append:
  "feed_all r (xs @ ys) s l =
     (case feed_all r xs s l of (ress, r, s, l) \<Rightarrow>
        case feed_all r ys s l of (ress', t) \<Rightarrow> (ress @ ress', t))"
  by (induction xs arbitrary: r s l) (auto split: prod.splits)

lemma stuff_cases:
  obtains "b = XRCE_SERIAL_FLAG" "stuff b = [XRCE_SERIAL_ESC, 0x5E]"
  | "b = XRCE_SERIAL_ESC" "stuff b = [XRCE_SERIAL_ESC, 0x5D]"
  | "b \<noteq> XRCE_SERIAL_FLAG" "b \<noteq> XRCE_SERIAL_ESC" "stuff b = [b]"
  by (cases "b = XRCE_SERIAL_FLAG"; cases "b = XRCE_SERIAL_ESC") (auto simp: stuff_def)

text \<open>Inside a frame, a stuffed byte has the effect of the byte on the decoded stream.\<close>

lemma feed_stuff:
  assumes "\<not> have_escape r" "rstate r \<noteq> XRCE_SERIAL_WAIT_FLAG" "feed_decoded r b s l = (res, t)"
  shows "feed_all r (stuff b) s l = (replicate (length (stuff b) - 1) FEED_IN_PROGRESS @ [res], t)"
proof -
  have e: "r\<lparr>have_escape := True, have_escape := False\<rparr> = r" and f: "r\<lparr>have_escape := False\<rparr> = r"
    using assms(1) by simp_all
  show ?thesis
    by (rule stuff_cases[of b])
       (use assms in \<open>simp_all add: xrce_serial_reader_feed_def unstuff_def e f split: prod.split\<close>)
qed

text \<open>The decoded stream of a frame, byte by byte, while no frame completes.\<close>

fun quiet :: "serial_reader \<Rightarrow> bytes \<Rightarrow> u8 \<Rightarrow> u16 \<Rightarrow> serial_reader \<Rightarrow> bool" where
  "quiet r [] s l r' \<longleftrightarrow> r' = r"
| "quiet r (b # bs) s l r' \<longleftrightarrow>
     \<not> have_escape r \<and> rstate r \<noteq> XRCE_SERIAL_WAIT_FLAG \<and>
     (case feed_decoded r b s l of (res, r1, s1, l1) \<Rightarrow>
        res = FEED_IN_PROGRESS \<and> s1 = s \<and> l1 = l \<and> quiet r1 bs s l r')"

lemma quiet_feed:
  "quiet r bs s l r' \<Longrightarrow>
     feed_all r (concat (map stuff bs)) s l =
       (replicate (length (concat (map stuff bs))) FEED_IN_PROGRESS, r', s, l)"
proof (induction bs arbitrary: r)
  case (Cons b bs)
  then obtain r1 where d: "feed_decoded r b s l = (FEED_IN_PROGRESS, r1, s, l)" and q: "quiet r1 bs s l r'"
    by (auto split: prod.splits)
  have "length (stuff b) - 1 + 1 = length (stuff b)" using length_stuff[of b] by auto
  then have "replicate (length (stuff b) - 1) FEED_IN_PROGRESS @ [FEED_IN_PROGRESS]
      = replicate (length (stuff b)) FEED_IN_PROGRESS"
    by (metis replicate_Suc replicate_append_same Suc_eq_plus1)
  then have "feed_all r (stuff b) s l = (replicate (length (stuff b)) FEED_IN_PROGRESS, r1, s, l)"
    using Cons.prems feed_stuff[of r b s l] d by simp
  then show ?case
    using Cons.IH[OF q] by (simp add: feed_all_append replicate_add)
qed simp

lemma quiet_append: "quiet r xs s l r1 \<Longrightarrow> quiet r1 ys s l r2 \<Longrightarrow> quiet r (xs @ ys) s l r2"
  by (induction xs arbitrary: r) (auto split: prod.splits)

lemma quiet_payload:
  assumes "rstate r = XRCE_SERIAL_READ_PAYLOAD" "\<not> have_escape r" "bs \<noteq> []"
    and "unat (frame_pos r) + length bs = unat (frame_len r)" "unat (frame_len r) \<le> length (payload_buf r)"
  shows "\<exists>r'. quiet r bs s l r' \<and> rstate r' = XRCE_SERIAL_READ_CRC_LSB \<and> \<not> have_escape r' \<and>
     frame_len r' = frame_len r \<and> src_addr r' = src_addr r \<and> crc r' = foldl crc16_update (crc r) bs \<and>
     payload_buf r' = blit (unat (frame_pos r)) bs (payload_buf r)"
  using assms
proof (induction bs arbitrary: r)
  case (Cons b bs)
  let ?r = "r\<lparr>payload_buf := (payload_buf r)[unat (frame_pos r) := b],
      frame_pos := frame_pos r + 1, crc := crc16_update (crc r) b\<rparr>"
  have pos: "unat (frame_pos r + 1) = unat (frame_pos r) + 1"
    using Cons.prems(4) unsigned_less[of "frame_len r", where ?'a = nat] by (simp add: unat_word_ariths)
  have upd: "(payload_buf r)[unat (frame_pos r) := b] = blit (unat (frame_pos r)) [b] (payload_buf r)"
    using Cons.prems by (intro list_update_blit) simp
  show ?case
  proof (cases "bs = []")
    case True
    then have "frame_pos r + 1 = frame_len r"
      using Cons.prems(4) pos by (simp add: word_unat_eq_iff)
    then show ?thesis
      using Cons.prems True upd by (simp add: feed_decoded_def)
  next
    case False
    then have ne: "frame_pos r + 1 \<noteq> frame_len r"
      using Cons.prems(4) pos by auto
    have bl: "blit (unat (frame_pos r) + 1) bs (blit (unat (frame_pos r)) [b] (payload_buf r))
        = blit (unat (frame_pos r)) (b # bs) (payload_buf r)"
      using Cons.prems blit_blit[of "unat (frame_pos r)" "[b]" bs "payload_buf r"] by simp
    have "\<exists>r'. quiet ?r bs s l r' \<and> rstate r' = XRCE_SERIAL_READ_CRC_LSB \<and> \<not> have_escape r' \<and>
       frame_len r' = frame_len ?r \<and> src_addr r' = src_addr ?r \<and> crc r' = foldl crc16_update (crc ?r) bs \<and>
       payload_buf r' = blit (unat (frame_pos ?r)) bs (payload_buf ?r)"
      using Cons.prems False pos by (intro Cons.IH) simp_all
    then show ?thesis
      using Cons.prems ne upd pos bl by (simp add: feed_decoded_def)
  qed
qed simp


text \<open>A frame for this reader, up to its checksum, and then the verdict on the checksum.\<close>

lemma quiet_header:
  assumes "rstate r = XRCE_SERIAL_READ_SRC" "\<not> have_escape r" "n < 65536" "n \<le> payload_cap r"
  shows "quiet r [src, local_addr r, of_nat (n mod 256), of_nat (n div 256 mod 256)] s l
     (r\<lparr>src_addr := src, frame_len := of_nat n, frame_pos := 0, crc := 0,
        rstate := if n = 0 then XRCE_SERIAL_READ_CRC_LSB else XRCE_SERIAL_READ_PAYLOAD\<rparr>)"
proof -
  have w: "ucast (of_nat (n mod 256) :: u8) OR push_bit 8 (ucast (of_nat (n div 256 mod 256) :: u8)) = (of_nat n :: u16)"
    (is "?l = ?r")
  proof (rule bit_word_eqI)
    fix i assume i: "i < LENGTH(16)"
    have m: "k mod 256 = take_bit 8 k" and d: "k div 256 = drop_bit 8 k" for k :: nat
      by (simp_all add: take_bit_eq_mod drop_bit_eq_div)
    show "bit ?l i = bit ?r i"
      using i assms(3) unfolding m d
      by (auto simp: bit_simps dest: bit_imp_le_length)
  qed
  have z: "(of_nat n :: u16) = 0 \<longleftrightarrow> n = 0" and u: "unat (of_nat n :: u16) = n"
    using assms(3) by (simp_all add: word_unat_eq_iff unat_of_nat)
  show ?thesis
    using assms w z u by (simp add: feed_decoded_def)
qed


lemma quiet_frame:
  assumes "rstate r = XRCE_SERIAL_READ_SRC" "\<not> have_escape r"
    and "length p < 65536" "length p \<le> payload_cap r" "payload_cap r \<le> length (payload_buf r)"
  obtains r' where
    "quiet r ([src, local_addr r, of_nat (length p mod 256), of_nat (length p div 256 mod 256)] @ p @ [b]) s l r'"
    "rstate r' = XRCE_SERIAL_READ_CRC_MSB" "\<not> have_escape r'" "frame_len r' = of_nat (length p)"
    "src_addr r' = src" "crc r' = foldl crc16_update 0 p" "payload_buf r' = blit 0 p (payload_buf r)"
    "rx_crc r' = ucast b"
proof -
  let ?n = "length p"
  let ?r1 = "r\<lparr>src_addr := src, frame_len := of_nat ?n, frame_pos := 0, crc := 0,
        rstate := if ?n = 0 then XRCE_SERIAL_READ_CRC_LSB else XRCE_SERIAL_READ_PAYLOAD\<rparr>"
  have u: "unat (of_nat ?n :: u16) = ?n" using assms(3) by (simp add: unat_of_nat)
  obtain r2 where q2: "quiet ?r1 p s l r2" and r2: "rstate r2 = XRCE_SERIAL_READ_CRC_LSB" "\<not> have_escape r2"
      "frame_len r2 = of_nat ?n" "src_addr r2 = src" "crc r2 = foldl crc16_update 0 p"
      "payload_buf r2 = blit 0 p (payload_buf r)"
  proof (cases "p = []")
    case True
    then show thesis using that[of ?r1] assms by simp
  next
    case False
    then show thesis using quiet_payload[of ?r1 p s l] u assms that by auto
  qed
  let ?r3 = "r2\<lparr>rx_crc := ucast b, rstate := XRCE_SERIAL_READ_CRC_MSB\<rparr>"
  have q3: "quiet r2 [b] s l ?r3"
    using r2 by (simp add: feed_decoded_def)
  show thesis
    using that[of ?r3] quiet_append[OF quiet_header[OF assms(1-4)] quiet_append[OF q2 q3]] r2 by simp
qed

text \<open>
  A frame addressed to a reader that is not inside an escape sequence is consumed whatever the
  reader was doing, and its fate depends on the checksum alone.
\<close>

lemma feed_frame:
  assumes "\<not> have_escape r" "length p < 65536" "length p \<le> payload_cap r" "payload_cap r \<le> length (payload_buf r)"
    and fb: "fb = frame_bytes src (local_addr r) p c"
  shows "\<exists>r' s' l'. feed_all r fb s l =
      (replicate (length fb - 1) FEED_IN_PROGRESS @
         [if c = xrce_serial_crc16 p (length p) then FEED_FRAME_READY else FEED_ERROR], r', s', l') \<and>
    rstate r' = XRCE_SERIAL_WAIT_FLAG \<and> \<not> have_escape r' \<and> payload_buf r' = blit 0 p (payload_buf r) \<and>
    (c = xrce_serial_crc16 p (length p) \<longrightarrow> s' = src \<and> l' = of_nat (length p))"
proof -
  let ?r0 = "r\<lparr>rstate := XRCE_SERIAL_READ_SRC, have_escape := False\<rparr>"
  define q where "q = [src, local_addr r, of_nat (length p mod 256), of_nat (length p div 256 mod 256)] @ p @ [byte_at 0 c]"
  define w where "w = concat (map stuff q)"
  define e where "e = stuff (byte_at 8 c)"
  obtain r3 where q3: "quiet ?r0 q s l r3" and r3: "rstate r3 = XRCE_SERIAL_READ_CRC_MSB" "\<not> have_escape r3"
      "frame_len r3 = of_nat (length p)" "src_addr r3 = src" "crc r3 = foldl crc16_update 0 p"
      "payload_buf r3 = blit 0 p (payload_buf r)" "rx_crc r3 = ucast (byte_at 0 c)"
    using quiet_frame[of ?r0 p src "byte_at 0 c" s l] assms unfolding q_def by auto
  have f1: "feed_all ?r0 w s l = (replicate (length w) FEED_IN_PROGRESS, r3, s, l)"
    using quiet_feed[OF q3] unfolding w_def .
  have fb: "fb = XRCE_SERIAL_FLAG # w @ e"
    by (simp add: fb frame_bytes_def frame_body_def w_def q_def e_def)
  have cc: "ucast (ucast c :: u8) OR push_bit 8 (ucast (byte_at 8 c)) = c"
    by (rule bit_word_eqI) (auto simp: bit_simps bit_byte_at dest: bit_imp_le_length)
  let ?r4 = "reset_to_wait (r3\<lparr>rx_crc := c\<rparr>)"
  have eq: "xrce_serial_crc16 p (length p) = crc r3" using r3 by (simp add: xrce_serial_crc16_def)
  obtain res t where d: "feed_decoded r3 (byte_at 8 c) s l = (res, t)" by (cases "feed_decoded r3 (byte_at 8 c) s l")
  have dd: "(res, t) = (if c = crc r3 then (FEED_FRAME_READY, ?r4, src, of_nat (length p)) else (FEED_ERROR, ?r4, s, l))"
    unfolding d[symmetric] using r3 cc by (simp add: feed_decoded_def reset_to_wait_def)
  have f2: "feed_all r3 e s l = (replicate (length e - 1) FEED_IN_PROGRESS @ [res], t)"
    using r3 d unfolding e_def by (intro feed_stuff) simp_all
  have f0: "xrce_serial_reader_feed r XRCE_SERIAL_FLAG s l = (FEED_IN_PROGRESS, ?r0, s, l)"
    using assms(1) by (simp add: xrce_serial_reader_feed_def)
  have len: "length fb - 1 = Suc (length w + (length e - 1))"
    using fb length_stuff[of "byte_at 8 c"] e_def by auto
  have "feed_all r fb s l = (replicate (length fb - 1) FEED_IN_PROGRESS @ [res], t)"
    unfolding len unfolding fb by (simp add: f0 feed_all_append f1 f2 replicate_add)
  then show ?thesis
    using dd r3 eq by (auto simp: reset_to_wait_def split: if_splits)
qed

section \<open>Lemmas: the reader never leaves its buffer\<close>

text \<open>Between two bytes, the next payload write is inside the capacity the caller declared.\<close>

definition reader_ok :: "serial_reader \<Rightarrow> bool" where
  "reader_ok r \<longleftrightarrow> payload_cap r \<le> length (payload_buf r) \<and>
     (rstate r = XRCE_SERIAL_READ_PAYLOAD \<longrightarrow>
        unat (frame_pos r) < unat (frame_len r) \<and> unat (frame_len r) \<le> payload_cap r) \<and>
     (rstate r \<in> {XRCE_SERIAL_READ_CRC_LSB, XRCE_SERIAL_READ_CRC_MSB} \<longrightarrow> unat (frame_len r) \<le> payload_cap r)"

lemma reader_init_ok: "cap \<le> length buf \<Longrightarrow> reader_ok (xrce_serial_reader_init a buf cap)"
  by (simp add: reader_ok_def xrce_serial_reader_init_def)

lemma feed_decoded_ok:
  assumes "reader_ok r" "feed_decoded r b s l = (res, r', s', l')"
  shows "reader_ok r'" "payload_cap r' = payload_cap r" "length (payload_buf r') = length (payload_buf r)"
    "drop (payload_cap r) (payload_buf r') = drop (payload_cap r) (payload_buf r)"
    "res = FEED_FRAME_READY \<Longrightarrow> unat l' \<le> payload_cap r'"
proof -
  have pos: "unat (frame_pos r + 1) = unat (frame_pos r) + 1" if "unat (frame_pos r) < unat (frame_len r)"
    using that unsigned_less[of "frame_len r", where ?'a = nat] by (simp add: unat_word_ariths)
  have nz: "w \<noteq> 0 \<longleftrightarrow> 0 < unat w" for w :: u16
    by (simp add: word_unat_eq_iff)
  have lt: "a + 1 \<noteq> b \<longleftrightarrow> unat (a + 1) \<noteq> unat b" for a b :: u16
    by (simp add: word_unat_eq_iff)
  show "reader_ok r'"
    using assms pos
    by (cases "rstate r") (auto simp: feed_decoded_def reader_ok_def reset_to_wait_def Let_def nz word_unat_eq_iff split: if_splits)
  show "payload_cap r' = payload_cap r" "length (payload_buf r') = length (payload_buf r)"
    "drop (payload_cap r) (payload_buf r') = drop (payload_cap r) (payload_buf r)"
    "res = FEED_FRAME_READY \<Longrightarrow> unat l' \<le> payload_cap r'"
    using assms
    by (cases "rstate r"; auto simp: feed_decoded_def reader_ok_def reset_to_wait_def Let_def split: if_splits)+
qed

lemma feed_ok:
  assumes "reader_ok r" "xrce_serial_reader_feed r b s l = (res, r', s', l')"
  shows "reader_ok r' \<and> payload_cap r' = payload_cap r \<and> length (payload_buf r') = length (payload_buf r) \<and>
    drop (payload_cap r) (payload_buf r') = drop (payload_cap r) (payload_buf r) \<and>
    (res = FEED_FRAME_READY \<longrightarrow> unat l' \<le> payload_cap r')"
proof -
  obtain d r1 where u: "unstuff r b = (d, r1)" by (cases "unstuff r b")
  then have ok: "reader_ok r1" and same: "payload_cap r1 = payload_cap r" "payload_buf r1 = payload_buf r"
    using assms(1) by (auto simp: unstuff_def reader_ok_def split: if_splits)
  show ?thesis
  proof (cases "\<not> have_escape r \<and> b = XRCE_SERIAL_FLAG \<or> rstate r = XRCE_SERIAL_WAIT_FLAG \<or> d = None")
    case True
    then show ?thesis
      using assms ok same u
      by (auto simp: xrce_serial_reader_feed_def reader_ok_def split: if_splits)
  next
    case False
    then obtain x where x: "d = Some x" by auto
    have "feed_decoded r1 x s l = (res, r', s', l')"
      using assms(2) False u x by (auto simp: xrce_serial_reader_feed_def)
    from feed_decoded_ok[OF ok this] show ?thesis using same by simp
  qed
qed

lemma length_frame_le: "length (concat (map stuff bs)) \<le> 2 * length bs"
proof (induction bs)
  case (Cons b bs)
  then show ?case using length_stuff[of b] by auto
qed simp

section \<open>Properties\<close>

text \<open>
  The encoder produces exactly the documented frame (flag, then source, destination, 16-bit
  little-endian length, payload and CRC-16 of the payload alone, each byte after the flag stuffed),
  leaves the rest of the buffer alone and returns the frame's length, whenever the stuffed frame
  fits; otherwise it returns 0 and a buffer of the same size. The worst-case macro
  \<^verbatim>\<open>XRCE_SERIAL_MAX_ENCODED_LEN\<close> always fits.
\<close>

theorem frame_encode_exact:
  assumes "out_cap \<le> length out" "n = length payload"
    and "w = frame_bytes src dst payload (xrce_serial_crc16 payload n)"
  shows "(if length w \<le> out_cap
          then xrce_serial_frame_encode out out_cap src dst payload n = (length w, w @ drop (length w) out)
          else fst (xrce_serial_frame_encode out out_cap src dst payload n) = 0)
       \<and> length w \<le> 1 + 2 * (4 + n + 2)"
  using frame_encode_blit[OF assms] assms(2,3)
    length_frame_le[of "frame_body src dst payload (xrce_serial_crc16 payload n)"]
  by (simp add: blit_def frame_bytes_def) (simp add: frame_body_def)

theorem frame_encode_exact_witness:
  "fst (xrce_serial_frame_encode (replicate 20 0) 20 1 2 [0x7E, 5] 2) = 10
   \<and> fst (xrce_serial_frame_encode (replicate 9 0) 9 1 2 [0x7E, 5] 2) = 0"
proof -
  have l: "length (frame_bytes 1 2 [0x7E, 5] (xrce_serial_crc16 [0x7E, 5] 2)) = 10" by code_simp
  show ?thesis
    using frame_encode_exact[of 20 "replicate 20 0" 2 "[0x7E, 5]" _ 1 2, OF _ _ refl]
      frame_encode_exact[of 9 "replicate 9 0" 2 "[0x7E, 5]" _ 1 2, OF _ _ refl] l
    by simp
qed



text \<open>
  C39: Reader memory safety on untrusted input. Starting from an initialised reader, no sequence of
  bytes makes it write at or beyond the declared capacity: the buffer keeps its size, the bytes from
  \<^verbatim>\<open>payload_cap\<close> on never change, every payload write the next byte could cause is in bounds, and
  a reported frame length never exceeds the capacity.
\<close>

theorem serial_reader_memory_safe:
  assumes "cap \<le> length buf"
    and "feed_all (xrce_serial_reader_init a buf cap) input s l = (ress, r, s', l')"
    and "xrce_serial_reader_feed r b s' l' = (res, r2, s2, l2)"
  shows "length (payload_buf r) = length buf \<and> drop cap (payload_buf r) = drop cap buf \<and>
     (rstate r = XRCE_SERIAL_READ_PAYLOAD \<longrightarrow> unat (frame_pos r) < cap) \<and>
     (res = FEED_FRAME_READY \<longrightarrow> unat l2 \<le> cap)"
proof -
  have g: "reader_ok r \<and> payload_cap r = payload_cap r0 \<and> length (payload_buf r) = length (payload_buf r0) \<and>
      drop (payload_cap r0) (payload_buf r) = drop (payload_cap r0) (payload_buf r0)"
    if "reader_ok r0" "feed_all r0 input s l = (ress, r, s', l')" for r0
    using that
  proof (induction input arbitrary: r0 s l ress)
    case (Cons c input)
    obtain e r1 s1 l1 where f: "xrce_serial_reader_feed r0 c s l = (e, r1, s1, l1)" by (metis prod_cases4)
    from Cons.prems f obtain ress1 where "feed_all r1 input s1 l1 = (ress1, r, s', l')"
      by (auto split: prod.splits)
    from Cons.IH[OF _ this] feed_ok[OF Cons.prems(1) f] show ?case by auto
  qed simp
  from g[OF reader_init_ok[OF assms(1)] assms(2)] feed_ok[OF _ assms(3)] show ?thesis
    by (auto simp: xrce_serial_reader_init_def reader_ok_def)
qed

theorem serial_reader_memory_safe_witness:
  "let r0 = xrce_serial_reader_init 2 [9, 9, 9, 9] 2;
       r = fst (snd (feed_all r0 [0x7E, 1, 2, 2, 0, 7] 0 0))
   in rstate r = XRCE_SERIAL_READ_PAYLOAD \<and> unat (frame_pos r) < 2 \<and> drop 2 (payload_buf r) = [9, 9]"
proof -
  let ?f = "feed_all (xrce_serial_reader_init 2 [9, 9, 9, 9] 2) [0x7E, 1, 2, 2, 0, 7] 0 0"
  obtain ress r s l where f: "?f = (ress, r, s, l)" by (metis prod_cases4)
  obtain res r2 s2 l2 where g: "xrce_serial_reader_feed r 0 s l = (res, r2, s2, l2)" by (metis prod_cases4)
  have "rstate (fst (snd ?f)) = XRCE_SERIAL_READ_PAYLOAD" by code_simp
  then show ?thesis
    using serial_reader_memory_safe[OF _ f g] f by (simp add: Let_def)
qed



end
