(* ===== verification/Sha256.thy ===== *)
theory Sha256
  imports Prelude
begin

text \<open>
  \<^verbatim>\<open>xrce/src/sha256.c\<close> and \<^verbatim>\<open>sha256.h\<close>: the streaming SHA-256 of the security layer, and FIPS 180-4's
  own definition of the function as the reference it is compared with.

  The context is a record; \<^verbatim>\<open>data\<close> with \<^verbatim>\<open>len\<close> is the list of the bytes at \<^verbatim>\<open>data\<close> and the number of
  them the call may use. The padding loop of \<^verbatim>\<open>xrce_sha256_final\<close> is a loop whose exit the type does
  not guarantee: it is a partial function, and that it returns is a lemma.
\<close>

section \<open>Data\<close>

abbreviation XRCE_SHA256_DIGEST_LEN :: nat where "XRCE_SHA256_DIGEST_LEN \<equiv> 32"
abbreviation XRCE_SHA256_BLOCK_LEN :: nat where "XRCE_SHA256_BLOCK_LEN \<equiv> 64"

record sha256_ctx =
  hstate :: "u32 list"
  total_len :: u64
  hbuf :: bytes
  buf_len :: nat

text \<open>The 64 round constants, written in decimal; lemma \<open>K_is_fips\<close> derives every one of them from its
  definition in the standard.\<close>

definition K :: "u32 list" where
  "K = [1116352408, 1899447441, 3049323471, 3921009573, 961987163, 1508970993,
    2453635748, 2870763221, 3624381080, 310598401, 607225278, 1426881987,
    1925078388, 2162078206, 2614888103, 3248222580, 3835390401, 4022224774,
    264347078, 604807628, 770255983, 1249150122, 1555081692, 1996064986,
    2554220882, 2821834349, 2952996808, 3210313671, 3336571891, 3584528711,
    113926993, 338241895, 666307205, 773529912, 1294757372, 1396182291,
    1695183700, 1986661051, 2177026350, 2456956037, 2730485921, 2820302411,
    3259730800, 3345764771, 3516065817, 3600352804, 4094571909, 275423344,
    430227734, 506948616, 659060556, 883997877, 958139571, 1322822218,
    1537002063, 1747873779, 1955562222, 2024104815, 2227730452, 2361852424,
    2428436474, 2756734187, 3204031479, 3329325298]"

section \<open>Operations\<close>

definition rotr :: "u32 \<Rightarrow> nat \<Rightarrow> u32" where
  "rotr x n = drop_bit n x OR push_bit (32 - n) x"

text \<open>The two loops that fill \<^verbatim>\<open>w\<close>; \<open>extend_w\<close> is the body of the second for \<^verbatim>\<open>t\<close> the length so far.\<close>

definition load_w :: "bytes \<Rightarrow> u32 list" where
  "load_w block = map (\<lambda>t.
     push_bit 24 (ucast (block ! (t * 4))) OR push_bit 16 (ucast (block ! (t * 4 + 1))) OR
     push_bit 8 (ucast (block ! (t * 4 + 2))) OR ucast (block ! (t * 4 + 3))) [0..<16]"

definition extend_w :: "u32 list \<Rightarrow> u32 list" where
  "extend_w w =
     (let t = length w;
          s0 = rotr (w ! (t - 15)) 7 XOR rotr (w ! (t - 15)) 18 XOR drop_bit 3 (w ! (t - 15));
          s1 = rotr (w ! (t - 2)) 17 XOR rotr (w ! (t - 2)) 19 XOR drop_bit 10 (w ! (t - 2))
      in w @ [w ! (t - 16) + s0 + w ! (t - 7) + s1])"

text \<open>The working variables \<^verbatim>\<open>a\<close> to \<^verbatim>\<open>h\<close>.\<close>

type_synonym working = "u32 \<times> u32 \<times> u32 \<times> u32 \<times> u32 \<times> u32 \<times> u32 \<times> u32"

definition sha_round :: "u32 list \<Rightarrow> nat \<Rightarrow> working \<Rightarrow> working" where
  "sha_round w t = (\<lambda>(a, b, c, d, e, f, g, h).
     let S1 = rotr e 6 XOR rotr e 11 XOR rotr e 25;
         ch = (e AND f) XOR (NOT e AND g);
         temp1 = h + S1 + ch + K ! t + w ! t;
         S0 = rotr a 2 XOR rotr a 13 XOR rotr a 22;
         maj = (a AND b) XOR (a AND c) XOR (b AND c);
         temp2 = S0 + maj
     in (temp1 + temp2, a, b, c, d + temp1, e, f, g))"

definition process_block :: "sha256_ctx \<Rightarrow> bytes \<Rightarrow> sha256_ctx" where
  "process_block ctx block =
     (let w = (extend_w ^^ 48) (load_w block);
          s = hstate ctx;
          (a, b, c, d, e, f, g, h) =
            fold (sha_round w) [0..<64] (s ! 0, s ! 1, s ! 2, s ! 3, s ! 4, s ! 5, s ! 6, s ! 7)
      in ctx\<lparr>hstate := s[0 := s ! 0 + a, 1 := s ! 1 + b, 2 := s ! 2 + c, 3 := s ! 3 + d,
                      4 := s ! 4 + e, 5 := s ! 5 + f, 6 := s ! 6 + g, 7 := s ! 7 + h]\<rparr>)"

definition xrce_sha256_init :: "bytes \<Rightarrow> sha256_ctx" where
  "xrce_sha256_init junk =
     \<lparr>hstate = [0x6a09e667, 0xbb67ae85, 0x3c6ef372, 0xa54ff53a, 0x510e527f, 0x9b05688c, 0x1f83d9ab, 0x5be0cd19],
      total_len = 0, hbuf = junk, buf_len = 0\<rparr>"

text \<open>The loop over whole blocks; what is left of \<^verbatim>\<open>data\<close> with it.\<close>

function process_blocks :: "sha256_ctx \<Rightarrow> bytes \<Rightarrow> sha256_ctx \<times> bytes" where
  "process_blocks ctx data =
     (if length data \<ge> XRCE_SHA256_BLOCK_LEN
      then process_blocks (process_block ctx (take XRCE_SHA256_BLOCK_LEN data)) (drop XRCE_SHA256_BLOCK_LEN data)
      else (ctx, data))"
  by pat_completeness auto
termination by (relation "measure (\<lambda>(ctx, data). length data)") auto

declare process_blocks.simps [simp del]

definition xrce_sha256_update :: "sha256_ctx \<Rightarrow> bytes \<Rightarrow> nat \<Rightarrow> sha256_ctx" where
  "xrce_sha256_update ctx data0 len =
     (let ctx = ctx\<lparr>total_len := total_len ctx + of_nat len\<rparr>;
          data = take len data0;
          (ctx, data) =
            (if buf_len ctx > 0
             then (let need = XRCE_SHA256_BLOCK_LEN - buf_len ctx;
                       n = (if length data < need then length data else need);
                       ctx = ctx\<lparr>hbuf := blit (buf_len ctx) (take n data) (hbuf ctx), buf_len := buf_len ctx + n\<rparr>;
                       data = drop n data
                   in (if buf_len ctx = XRCE_SHA256_BLOCK_LEN
                       then ((process_block ctx (hbuf ctx))\<lparr>buf_len := 0\<rparr>, data)
                       else (ctx, data)))
             else (ctx, data));
          (ctx, data) = process_blocks ctx data
      in if length data > 0 then ctx\<lparr>hbuf := blit 0 data (hbuf ctx), buf_len := length data\<rparr> else ctx)"

text \<open>One byte of padding, with the correction of \<^verbatim>\<open>total_len\<close> after it, and the loop of zero bytes.\<close>

definition pad_byte :: "u8 \<Rightarrow> sha256_ctx \<Rightarrow> sha256_ctx" where
  "pad_byte b ctx =
     (let ctx = xrce_sha256_update ctx [b] 1 in ctx\<lparr>total_len := total_len ctx - 1\<rparr>)"

partial_function (option) pad_zeros :: "sha256_ctx \<Rightarrow> sha256_ctx option" where
  "pad_zeros ctx =
     (if buf_len ctx \<noteq> XRCE_SHA256_BLOCK_LEN - 8 then pad_zeros (pad_byte 0 ctx) else Some ctx)"

definition xrce_sha256_final :: "sha256_ctx \<Rightarrow> (sha256_ctx \<times> bytes) option" where
  "xrce_sha256_final ctx =
     (let bit_len = total_len ctx * 8 in
      case pad_zeros (pad_byte 0x80 ctx) of
        None \<Rightarrow> None
      | Some ctx \<Rightarrow>
          (let len_bytes = map (\<lambda>i. byte_at (56 - 8 * i) bit_len) [0..<8];
               ctx = xrce_sha256_update ctx len_bytes 8
           in Some (ctx, concat (map (\<lambda>i. [byte_at 24 (hstate ctx ! i), byte_at 16 (hstate ctx ! i),
                                            byte_at 8 (hstate ctx ! i), byte_at 0 (hstate ctx ! i)]) [0..<8]))))"

definition xrce_sha256 :: "bytes \<Rightarrow> bytes \<Rightarrow> nat \<Rightarrow> bytes option" where
  "xrce_sha256 junk data len =
     map_option snd (xrce_sha256_final (xrce_sha256_update (xrce_sha256_init junk) data len))"

section \<open>The reference: FIPS 180-4\<close>

text \<open>Section 4.1.2, with the library's rotation.\<close>

definition fips_Ch :: "u32 \<Rightarrow> u32 \<Rightarrow> u32 \<Rightarrow> u32" where
  "fips_Ch x y z = (x AND y) XOR (NOT x AND z)"
definition fips_Maj :: "u32 \<Rightarrow> u32 \<Rightarrow> u32 \<Rightarrow> u32" where
  "fips_Maj x y z = (x AND y) XOR (x AND z) XOR (y AND z)"
definition fips_Sigma0 :: "u32 \<Rightarrow> u32" where
  "fips_Sigma0 x = word_rotr 2 x XOR word_rotr 13 x XOR word_rotr 22 x"
definition fips_Sigma1 :: "u32 \<Rightarrow> u32" where
  "fips_Sigma1 x = word_rotr 6 x XOR word_rotr 11 x XOR word_rotr 25 x"
definition fips_sigma0 :: "u32 \<Rightarrow> u32" where
  "fips_sigma0 x = word_rotr 7 x XOR word_rotr 18 x XOR drop_bit 3 x"
definition fips_sigma1 :: "u32 \<Rightarrow> u32" where
  "fips_sigma1 x = word_rotr 17 x XOR word_rotr 19 x XOR drop_bit 10 x"

text \<open>Section 4.2.2: the constants are the first 32 bits of the fractional parts of the cube roots of the
  first 64 primes, so the low 32 bits of the integer cube root of the prime scaled by \<open>2 ^ 96\<close>.\<close>

definition fips_primes :: "nat list" where
  "fips_primes = [2, 3, 5, 7, 11, 13, 17, 19, 23, 29, 31, 37, 41, 43, 47, 53,
    59, 61, 67, 71, 73, 79, 83, 89, 97, 101, 103, 107, 109, 113, 127, 131,
    137, 139, 149, 151, 157, 163, 167, 173, 179, 181, 191, 193, 197, 199, 211, 223,
    227, 229, 233, 239, 241, 251, 257, 263, 269, 271, 277, 281, 283, 293, 307, 311]"

definition cube_root :: "nat \<Rightarrow> nat" where
  "cube_root n = (GREATEST r. r ^ 3 \<le> n)"

definition fips_K :: "u32 list" where
  "fips_K = map (\<lambda>p. of_nat (cube_root (p * 2 ^ 96))) fips_primes"

text \<open>Section 6.2.2: the message schedule as the standard's recursion, the rounds, one block.\<close>

function fips_W :: "bytes \<Rightarrow> nat \<Rightarrow> u32" where
  "fips_W M t =
     (if t < 16 then be_value (slice (4 * t) 4 M)
      else fips_sigma1 (fips_W M (t - 2)) + fips_W M (t - 7) + fips_sigma0 (fips_W M (t - 15)) + fips_W M (t - 16))"
  by pat_completeness auto
termination by (relation "measure snd") auto

declare fips_W.simps [simp del]

primrec fips_rounds :: "bytes \<Rightarrow> working \<Rightarrow> nat \<Rightarrow> working" where
  "fips_rounds M v 0 = v"
| "fips_rounds M v (Suc t) =
     (case fips_rounds M v t of (a, b, c, d, e, f, g, h) \<Rightarrow>
        let T1 = h + fips_Sigma1 e + fips_Ch e f g + fips_K ! t + fips_W M t;
            T2 = fips_Sigma0 a + fips_Maj a b c
        in (T1 + T2, a, b, c, d + T1, e, f, g))"

definition fips_block :: "u32 list \<Rightarrow> bytes \<Rightarrow> u32 list" where
  "fips_block H M =
     (case fips_rounds M (H ! 0, H ! 1, H ! 2, H ! 3, H ! 4, H ! 5, H ! 6, H ! 7) 64 of
        (a, b, c, d, e, f, g, h) \<Rightarrow> map2 (+) H [a, b, c, d, e, f, g, h])"

text \<open>The blocks of a message, in order; an incomplete last block is not absorbed.\<close>

function fips_absorb :: "u32 list \<Rightarrow> bytes \<Rightarrow> u32 list" where
  "fips_absorb H m = (if length m \<ge> 64 then fips_absorb (fips_block H (take 64 m)) (drop 64 m) else H)"
  by pat_completeness auto
termination by (relation "measure (\<lambda>(H, m). length m)") auto

declare fips_absorb.simps [simp del]

definition fips_H0 :: "u32 list" where
  "fips_H0 = [0x6a09e667, 0xbb67ae85, 0x3c6ef372, 0xa54ff53a, 0x510e527f, 0x9b05688c, 0x1f83d9ab, 0x5be0cd19]"

text \<open>Section 5.1.1.\<close>

definition fips_pad :: "bytes \<Rightarrow> bytes" where
  "fips_pad m = m @ 0x80 # replicate ((119 - length m mod 64) mod 64) 0 @ be_bytes 8 (of_nat (8 * length m) :: u64)"

definition fips_sha256 :: "bytes \<Rightarrow> bytes" where
  "fips_sha256 m = concat (map (be_bytes 4) (fips_absorb fips_H0 (fips_pad m)))"

section \<open>Lemmas: the round constants\<close>

text \<open>The integer part of the cube root of a prime below 343, and the test that \<open>k\<close> continues it.\<close>

definition small_root :: "nat \<Rightarrow> nat" where
  "small_root p = (if p < 8 then 1 else if p < 27 then 2 else if p < 64 then 3 else if p < 125 then 4
     else if p < 216 then 5 else 6)"

definition root_ok :: "nat \<Rightarrow> u32 \<Rightarrow> bool" where
  "root_ok p k = (let r = small_root p * 2 ^ 32 + unat k in r ^ 3 \<le> p * 2 ^ 96 \<and> p * 2 ^ 96 < (r + 1) ^ 3)"

lemma cube_root_unique: "r ^ 3 \<le> n \<Longrightarrow> n < (r + 1) ^ 3 \<Longrightarrow> cube_root n = r"
  unfolding cube_root_def
proof (rule Greatest_equality)
  fix y assume "n < (r + 1) ^ 3" "y ^ 3 \<le> n"
  then have "y ^ 3 < (r + 1) ^ 3" by simp
  then show "y \<le> r" using power_less_imp_less_base[of y 3 "r + 1"] by simp
qed simp

lemma root_ok_K: "root_ok p k \<Longrightarrow> of_nat (cube_root (p * 2 ^ 96)) = k"
proof -
  assume "root_ok p k"
  then have "cube_root (p * 2 ^ 96) = small_root p * 2 ^ 32 + unat k"
    unfolding root_ok_def Let_def by (blast intro: cube_root_unique)
  moreover have "of_nat (small_root p * 2 ^ 32 + unat k) = k"
  proof -
    have "(2 :: u32) ^ 32 = 0" by simp
    then show ?thesis by (simp only: of_nat_add of_nat_mult of_nat_power of_nat_numeral mult_zero_right add_0_left of_nat_unat ucast_id)
  qed
  ultimately show ?thesis by simp
qed

lemma K_roots: "list_all2 root_ok fips_primes K"
  unfolding fips_primes_def K_def by (simp add: root_ok_def small_root_def)

lemma K_is_fips: "K = fips_K"
proof -
  have "map (\<lambda>p. of_nat (cube_root (p * 2 ^ 96))) fips_primes = K"
    using K_roots by (induction rule: list_all2_induct) (simp_all only: list.map root_ok_K)
  then show ?thesis unfolding fips_K_def by simp
qed

section \<open>Lemmas: one block\<close>

lemma rotr_word_rotr:
  assumes "0 < n" "n < 32"
  shows "rotr x n = word_rotr n x"
proof (rule bit_word_eqI)
  fix i assume i: "i < LENGTH(32)"
  have "(i + n) mod 32 = (if i + n < 32 then i + n else i + n - 32)"
    using i assms by (simp add: mod_if)
  then show "bit (rotr x n) i = bit (word_rotr n x) i"
    using i assms by (auto simp: rotr_def bit_simps bit_word_rotr_iff add.commute dest: bit_imp_le_length)
qed

lemma rotr_fips:
  "rotr x 2 XOR rotr x 13 XOR rotr x 22 = fips_Sigma0 x"
  "rotr x 6 XOR rotr x 11 XOR rotr x 25 = fips_Sigma1 x"
  "rotr x 7 XOR rotr x 18 XOR drop_bit 3 x = fips_sigma0 x"
  "rotr x 17 XOR rotr x 19 XOR drop_bit 10 x = fips_sigma1 x"
  by (simp_all add: rotr_word_rotr fips_Sigma0_def fips_Sigma1_def fips_sigma0_def fips_sigma1_def)

lemma be_value4:
  "(be_value [a, b, c, d] :: u32) = push_bit 24 (ucast a) OR push_bit 16 (ucast b) OR push_bit 8 (ucast c) OR ucast d"
  by (simp add: be_value_def push_bit_or or.assoc or.commute or.left_commute)

lemma load_w_fips:
  assumes "length block = 64"
  shows "load_w block = map (fips_W block) [0..<16]"
proof -
  have "slice (4 * t) 4 block = [block ! (4 * t), block ! (4 * t + 1), block ! (4 * t + 2), block ! (4 * t + 3)]"
    if "t < 16" for t
    by (rule nth_equalityI) (use that assms in \<open>auto simp: slice_def nth_Cons less_Suc_eq numeral_eq_Suc split: nat.splits\<close>)
  then show ?thesis
    unfolding load_w_def by (auto simp: fips_W.simps be_value4 mult.commute)
qed

lemma schedule_fips:
  assumes "length block = 64"
  shows "(extend_w ^^ n) (load_w block) = map (fips_W block) [0..<16 + n]"
proof (induction n)
  case 0
  then show ?case by (simp add: load_w_fips[OF assms])
next
  case (Suc n)
  have "fips_W block (16 + n) = fips_W block n + fips_sigma0 (fips_W block (n + 1)) + fips_W block (n + 9) +
      fips_sigma1 (fips_W block (n + 14))"
    by (subst fips_W.simps) (simp add: add.commute add.left_commute)
  moreover have "[0..<16 + Suc n] = [0..<16 + n] @ [16 + n]"
    by (simp only: add_Suc_right upt_Suc_append le0)
  ultimately show ?case
    using Suc by (simp add: extend_w_def rotr_fips Let_def nth_append add.commute del: upt_Suc)
qed

lemma rounds_fips:
  assumes "length block = 64" "n \<le> 64"
  shows "fold (sha_round ((extend_w ^^ 48) (load_w block))) [0..<n] v = fips_rounds block v n"
  using assms(2)
proof (induction n)
  case (Suc n)
  have "((extend_w ^^ 48) (load_w block)) ! n = fips_W block n"
    using Suc.prems by (simp add: schedule_fips[OF assms(1)])
  then show ?case
    using Suc by (simp add: K_is_fips sha_round_def rotr_fips fips_Ch_def fips_Maj_def Let_def split: prod.split)
qed simp

lemma process_block_fips:
  assumes "length block = 64" "length (hstate ctx) = 8"
  shows "process_block ctx block = ctx\<lparr>hstate := fips_block (hstate ctx) block\<rparr>"
proof -
  obtain s0 s1 s2 s3 s4 s5 s6 s7 where s: "hstate ctx = [s0, s1, s2, s3, s4, s5, s6, s7]"
    using assms(2) by (auto simp: numeral_eq_Suc length_Suc_conv)
  show ?thesis
    unfolding process_block_def fips_block_def s
    by (simp add: rounds_fips[OF assms(1) order_refl] Let_def split: prod.split)
qed

lemma length_fips_block [simp]: "length (fips_block H M) = min (length H) 8"
  by (simp add: fips_block_def numeral_eq_Suc split: prod.split)

section \<open>Lemmas: streaming\<close>

lemma absorb_short [simp]: "length m < 64 \<Longrightarrow> fips_absorb H m = H"
  by (subst fips_absorb.simps) simp

lemma absorb_append:
  "64 dvd length x \<Longrightarrow> fips_absorb H (x @ y) = fips_absorb (fips_absorb H x) y"
proof (induction H x rule: fips_absorb.induct)
  case (1 H x)
  show ?case
  proof (cases "length x \<ge> 64")
    case True
    have "64 dvd length (drop 64 x)" using 1(2) True by (simp add: dvd_minus_self)
    from 1(1)[OF True this] True show ?thesis
      by (subst (1 2) fips_absorb.simps) simp
  next
    case False
    with 1(2) have "x = []" by (auto dest: dvd_imp_le)
    then show ?thesis by simp
  qed
qed

lemma absorb_block: "length b = 64 \<Longrightarrow> fips_absorb H b = fips_block H b"
  by (subst fips_absorb.simps) simp

lemma length_absorb: "length H = 8 \<Longrightarrow> length (fips_absorb H m) = 8"
proof (induction H m rule: fips_absorb.induct)
  case (1 H m)
  then show ?case by (subst fips_absorb.simps) simp
qed

text \<open>The whole blocks of a message and the bytes after them.\<close>

definition whole :: "bytes \<Rightarrow> bytes" where "whole m = take (64 * (length m div 64)) m"
definition rest :: "bytes \<Rightarrow> bytes" where "rest m = drop (64 * (length m div 64)) m"

lemma whole_rest: "whole m @ rest m = m"
  by (simp add: whole_def rest_def)

lemma length_whole: "length (whole m) = 64 * (length m div 64)"
  by (simp add: whole_def)

lemma length_rest: "length (rest m) = length m mod 64"
  by (simp add: rest_def minus_mult_div_eq_mod)

lemma dvd_whole [simp]: "64 dvd length (whole m)"
  by (simp add: length_whole)

lemma absorb_whole: "fips_absorb H m = fips_absorb H (whole m)"
  using absorb_append[of "whole m" H "rest m"] by (simp add: whole_rest length_rest)

lemma rest_append: "64 dvd length x \<Longrightarrow> rest (x @ y) = rest y"
  by (auto simp: rest_def)

lemma rest_short: "length m < 64 \<Longrightarrow> rest m = m"
  by (simp add: rest_def)

lemma process_blocks_absorb:
  "length (hstate ctx) = 8 \<Longrightarrow>
     process_blocks ctx data = (ctx\<lparr>hstate := fips_absorb (hstate ctx) data\<rparr>, rest data)"
proof (induction ctx data rule: process_blocks.induct)
  case (1 ctx data)
  show ?case
  proof (cases "length data \<ge> 64")
    case True
    have r: "rest (drop 64 data) = rest data"
      using rest_append[of "take 64 data" "drop 64 data"] True by simp
    show ?thesis
      using 1 True by (subst process_blocks.simps) (simp add: process_block_fips r fips_absorb.simps[of "hstate ctx" data])
  next
    case False
    then show ?thesis by (subst process_blocks.simps) (simp add: rest_short)
  qed
qed

text \<open>The invariant of a context that has been fed the message \<open>m\<close>.\<close>

definition absorbed :: "bytes \<Rightarrow> sha256_ctx \<Rightarrow> bool" where
  "absorbed m ctx \<longleftrightarrow> hstate ctx = fips_absorb fips_H0 m \<and> total_len ctx = of_nat (length m) \<and>
     length (hbuf ctx) = 64 \<and> buf_len ctx = length m mod 64 \<and> take (buf_len ctx) (hbuf ctx) = rest m"

lemma absorbed_init: "length junk = 64 \<Longrightarrow> absorbed [] (xrce_sha256_init junk)"
  by (simp add: absorbed_def xrce_sha256_init_def fips_H0_def rest_def)

lemma length_H0 [simp]: "length fips_H0 = 8"
  by (simp add: fips_H0_def)

text \<open>The part of \<^verbatim>\<open>xrce_sha256_update\<close> after the top-up.\<close>

definition absorb_rest :: "sha256_ctx \<Rightarrow> bytes \<Rightarrow> sha256_ctx" where
  "absorb_rest ctx data =
     (let (ctx, data) = process_blocks ctx data
      in if length data > 0 then ctx\<lparr>hbuf := blit 0 data (hbuf ctx), buf_len := length data\<rparr> else ctx)"

lemma absorbed_rest:
  assumes "absorbed m ctx" "buf_len ctx = 0"
  shows "absorbed (m @ d) (absorb_rest (ctx\<lparr>total_len := of_nat (length (m @ d))\<rparr>) d)"
proof -
  have dvd: "64 dvd length m" using assms by (simp add: absorbed_def mod_eq_0_iff_dvd)
  then have l: "length (m @ d) mod 64 = length (rest d)"
    by (simp add: length_rest mod_add_left_eq[symmetric] mod_eq_0_iff_dvd)
  have h: "hstate ctx = fips_absorb fips_H0 m" "length (hbuf ctx) = 64" using assms(1) by (simp_all add: absorbed_def)
  have a: "fips_absorb (fips_absorb fips_H0 m) d = fips_absorb fips_H0 (m @ d)" "rest (m @ d) = rest d"
    using dvd by (simp_all add: absorb_append rest_append)
  have e: "absorb_rest (ctx\<lparr>total_len := of_nat (length (m @ d))\<rparr>) d =
      (let c = ctx\<lparr>total_len := of_nat (length (m @ d)), hstate := fips_absorb fips_H0 (m @ d)\<rparr>
       in if length (rest d) > 0 then c\<lparr>hbuf := blit 0 (rest d) (hbuf ctx), buf_len := length (rest d)\<rparr> else c)"
    using h by (simp add: absorb_rest_def process_blocks_absorb length_absorb a(1))
  have le: "length (rest d) \<le> 64" by (simp add: length_rest)
  show ?thesis
  proof (cases "rest d = []")
    case True
    then show ?thesis
      unfolding e using l h assms(2) a(2) by (simp add: absorbed_def)
  next
    case False
    then show ?thesis
      unfolding e using l h le a(2) by (simp add: absorbed_def blit_def)
  qed
qed

lemma same_block:
  fixes a b :: nat
  assumes "a mod 64 + b < 64"
  shows "(a + b) mod 64 = a mod 64 + b" "(a + b) div 64 = a div 64"
proof -
  have e: "a + b = (a mod 64 + b) + 64 * (a div 64)" by simp
  show "(a + b) mod 64 = a mod 64 + b" by (subst e, subst mod_mult_self2) (use assms in simp)
  show "(a + b) div 64 = a div 64" by (subst e, subst div_mult_self2) (use assms in simp_all)
qed

lemma update_cases:
  assumes "d = take len data" "len \<le> length data" "c = ctx\<lparr>total_len := total_len ctx + of_nat len\<rparr>"
    and "length (hstate ctx) = 8" "buf_len ctx < 64"
  shows "buf_len ctx = 0 \<Longrightarrow> xrce_sha256_update ctx data len = absorb_rest c d"
    and "0 < buf_len ctx \<Longrightarrow> buf_len ctx + length d < 64 \<Longrightarrow> xrce_sha256_update ctx data len =
        c\<lparr>hbuf := blit (buf_len ctx) d (hbuf ctx), buf_len := buf_len ctx + length d\<rparr>"
    and "0 < buf_len ctx \<Longrightarrow> 64 \<le> buf_len ctx + length d \<Longrightarrow>
        blk = blit (buf_len ctx) (take (64 - buf_len ctx) d) (hbuf ctx) \<Longrightarrow>
        xrce_sha256_update ctx data len =
        absorb_rest ((process_block (c\<lparr>hbuf := blk, buf_len := 64\<rparr>) blk)\<lparr>buf_len := 0\<rparr>) (drop (64 - buf_len ctx) d)"
proof -
  show "xrce_sha256_update ctx data len = absorb_rest c d" if "buf_len ctx = 0"
    using that assms(1-3) by (simp add: xrce_sha256_update_def absorb_rest_def Let_def)
next
  assume "0 < buf_len ctx" "buf_len ctx + length d < 64"
  moreover from this have "length d < 64 - buf_len ctx" by simp
  moreover have "length d = len" using assms(1,2) by simp
  ultimately show "xrce_sha256_update ctx data len =
      c\<lparr>hbuf := blit (buf_len ctx) d (hbuf ctx), buf_len := buf_len ctx + length d\<rparr>"
    using assms(1,3,4) by (simp add: xrce_sha256_update_def process_blocks.simps)
next
  assume "0 < buf_len ctx" "64 \<le> buf_len ctx + length d"
    "blk = blit (buf_len ctx) (take (64 - buf_len ctx) d) (hbuf ctx)"
  moreover from this have "\<not> length d < 64 - buf_len ctx" by simp
  moreover have "length d = len" using assms(1,2) by simp
  ultimately show "xrce_sha256_update ctx data len =
      absorb_rest ((process_block (c\<lparr>hbuf := blk, buf_len := 64\<rparr>) blk)\<lparr>buf_len := 0\<rparr>) (drop (64 - buf_len ctx) d)"
    unfolding xrce_sha256_update_def Let_def absorb_rest_def assms(1)[symmetric] assms(3)[symmetric]
    using assms(3,5) by simp
qed

lemma absorbed_partial:
  assumes "absorbed m ctx" "buf_len ctx + length d < 64"
  shows "absorbed (m @ d) (ctx\<lparr>total_len := total_len ctx + of_nat (length d),
     hbuf := blit (buf_len ctx) d (hbuf ctx), buf_len := buf_len ctx + length d\<rparr>)"
proof -
  have b: "buf_len ctx = length m mod 64" and t: "take (buf_len ctx) (hbuf ctx) = rest m" "length (hbuf ctx) = 64"
    using assms(1) unfolding absorbed_def by blast+
  have m: "length (m @ d) mod 64 = buf_len ctx + length d" "length (m @ d) div 64 = length m div 64"
    using same_block[of "length m" "length d"] assms(2) b by simp_all
  have r: "rest (m @ d) = rest m @ d" and "whole (m @ d) = whole m"
    using m(2) by (simp_all add: rest_def whole_def)
  then have a: "fips_absorb fips_H0 (m @ d) = fips_absorb fips_H0 m"
    by (metis absorb_whole)
  have "take (buf_len ctx + length d) (blit (buf_len ctx) d (hbuf ctx)) = rest m @ d"
    using assms(2) t by simp
  with assms m(1) r a b show ?thesis by (simp add: absorbed_def)
qed

lemma absorbed_full:
  assumes "absorbed m ctx" "buf_len ctx + length x = 64" "blk = blit (buf_len ctx) x (hbuf ctx)"
  shows "absorbed (m @ x) ((process_block (ctx\<lparr>total_len := l, hbuf := blk, buf_len := 64\<rparr>) blk)
           \<lparr>buf_len := 0, total_len := of_nat (length (m @ x))\<rparr>)"
proof -
  have b: "length (rest m) = buf_len ctx" "length (hbuf ctx) = 64" using assms(1) by (simp_all add: absorbed_def length_rest)
  have t: "take (buf_len ctx) (hbuf ctx) = rest m" using assms(1) unfolding absorbed_def by blast
  have blk: "blk = rest m @ x"
    using assms(2,3) b t by (simp add: blit_def)
  have wx: "m @ x = whole m @ blk" by (simp add: blk whole_rest flip: append_assoc)
  have len: "length blk = 64" using assms(2) b blk by simp
  have dvd: "64 dvd length (m @ x)" unfolding wx using len by (simp add: length_whole)
  have "fips_absorb fips_H0 (m @ x) = fips_block (fips_absorb fips_H0 m) blk"
    unfolding wx using len by (simp add: absorb_append absorb_block absorb_whole[of _ m])
  moreover have "length (m @ x) mod 64 = 0" using dvd by (simp only: mod_eq_0_iff_dvd)
  moreover from this have "rest (m @ x) = []" using length_rest[of "m @ x"] by simp
  ultimately show ?thesis
    using assms(1) len by (simp add: absorbed_def process_block_fips length_absorb)
qed

lemma absorbed_update:
  assumes "absorbed m ctx" "len \<le> length data"
  shows "absorbed (m @ take len data) (xrce_sha256_update ctx data len)"
proof -
  define d where "d = take len data"
  have l: "length d = len" using assms(2) by (simp add: d_def)
  have t: "total_len ctx = of_nat (length m)" and h: "length (hstate ctx) = 8" and b: "buf_len ctx < 64"
    using assms(1) by (simp_all add: absorbed_def length_absorb)
  note cases = update_cases[OF d_def assms(2) refl h b]
  have tl: "total_len ctx + of_nat len = of_nat (length (m @ d))" using t l by simp
  consider "buf_len ctx = 0" | "0 < buf_len ctx" "buf_len ctx + length d < 64"
    | "0 < buf_len ctx" "64 \<le> buf_len ctx + length d" by linarith
  then have "absorbed (m @ d) (xrce_sha256_update ctx data len)"
  proof cases
    case 1
    then show ?thesis using absorbed_rest[OF assms(1), of d] cases(1) tl by simp
  next
    case 2
    then show ?thesis using absorbed_partial[OF assms(1), of d] cases(2) l by simp
  next
    case 3
    let ?x = "take (64 - buf_len ctx) d"
    have x: "buf_len ctx + length ?x = 64" using 3 b by simp
    have e: "(m @ ?x) @ drop (64 - buf_len ctx) d = m @ d" by simp
    have bl: "length (blit (buf_len ctx) ?x (hbuf ctx)) = 64" using assms(1) x by (simp add: absorbed_def)
    show ?thesis
      using absorbed_rest[OF absorbed_full[OF assms(1) x refl], of "total_len ctx + of_nat len" "drop (64 - buf_len ctx) d"]
        cases(3)[OF 3 refl] tl bl h unfolding e by (cases ctx) (simp add: process_block_fips)
  qed
  then show ?thesis by (simp add: d_def)
qed

section \<open>Lemmas: padding\<close>

text \<open>\<^verbatim>\<open>total_len\<close> has no influence on anything but itself.\<close>

lemma process_block_total: "process_block (c\<lparr>total_len := x\<rparr>) b = (process_block c b)\<lparr>total_len := x\<rparr>"
  by (cases c) (simp add: process_block_def Let_def split: prod.split)

lemma process_blocks_total:
  "process_blocks (c\<lparr>total_len := x\<rparr>) d = (case process_blocks c d of (c', d') \<Rightarrow> (c'\<lparr>total_len := x\<rparr>, d'))"
proof (induction c d rule: process_blocks.induct)
  case (1 c d)
  then show ?case
    by (subst (1 2) process_blocks.simps) (simp add: process_block_total)
qed

lemma absorb_rest_total: "absorb_rest (c\<lparr>total_len := x\<rparr>) d = (absorb_rest c d)\<lparr>total_len := x\<rparr>"
  by (simp add: absorb_rest_def process_blocks_total split: prod.split)

text \<open>A context fed the message \<open>m\<close>, whatever it believes the length to be.\<close>

definition holds :: "bytes \<Rightarrow> sha256_ctx \<Rightarrow> bool" where
  "holds m ctx \<longleftrightarrow> absorbed m (ctx\<lparr>total_len := of_nat (length m)\<rparr>)"

lemma absorbed_holds: "absorbed m ctx \<Longrightarrow> holds m ctx"
  by (auto simp: holds_def absorbed_def)

lemma holds_total: "holds m (ctx\<lparr>total_len := x\<rparr>) \<longleftrightarrow> holds m ctx"
  by (simp add: holds_def)

lemma update_total:
  assumes "len \<le> length data" "length (hstate ctx) = 8" "buf_len ctx < 64"
  shows "xrce_sha256_update (ctx\<lparr>total_len := x\<rparr>) data len =
     (xrce_sha256_update ctx data len)\<lparr>total_len := x + of_nat len\<rparr>"
proof -
  note c = update_cases[OF refl assms(1) refl assms(2,3)]
  have "length (hstate (ctx\<lparr>total_len := x\<rparr>)) = 8" "buf_len (ctx\<lparr>total_len := x\<rparr>) < 64" using assms by simp_all
  note cx = update_cases[OF refl assms(1) refl this]
  let ?d = "take len data"
  have r: "\<And>c. absorb_rest (c\<lparr>total_len := y\<rparr>) d = (absorb_rest (c\<lparr>total_len := z\<rparr>) d)\<lparr>total_len := y\<rparr>" for y z d
    by (simp add: absorb_rest_total)
  consider "buf_len ctx = 0" | "0 < buf_len ctx" "buf_len ctx + length ?d < 64"
    | "0 < buf_len ctx" "64 \<le> buf_len ctx + length ?d" by linarith
  then show ?thesis
  proof cases
    case 1
    then show ?thesis using c(1) cx(1) by (simp add: absorb_rest_total)
  next
    case 2
    then show ?thesis using c(2) cx(2) by (cases ctx) simp
  next
    case 3
    let ?blk = "blit (buf_len ctx) (take (64 - buf_len ctx) ?d) (hbuf ctx)"
    have s: "(process_block (ctx\<lparr>total_len := y, hbuf := ?blk, buf_len := 64\<rparr>) ?blk)\<lparr>buf_len := 0\<rparr> =
        (process_block (ctx\<lparr>hbuf := ?blk, buf_len := 64\<rparr>) ?blk)\<lparr>buf_len := 0, total_len := y\<rparr>" for y
    proof -
      have "ctx\<lparr>total_len := y, hbuf := ?blk, buf_len := 64\<rparr> = ctx\<lparr>hbuf := ?blk, buf_len := 64, total_len := y\<rparr>" by simp
      then show ?thesis by (simp only: process_block_total) simp
    qed
    have "xrce_sha256_update ctx data len =
        absorb_rest ((process_block (ctx\<lparr>hbuf := ?blk, buf_len := 64\<rparr>) ?blk)\<lparr>buf_len := 0, total_len := total_len ctx + of_nat len\<rparr>)
          (drop (64 - buf_len ctx) ?d)"
      using c(3)[OF 3 refl] unfolding s .
    moreover have "xrce_sha256_update (ctx\<lparr>total_len := x\<rparr>) data len =
        absorb_rest ((process_block (ctx\<lparr>hbuf := ?blk, buf_len := 64\<rparr>) ?blk)\<lparr>buf_len := 0, total_len := x + of_nat len\<rparr>)
          (drop (64 - buf_len ctx) ?d)"
      using cx(3)[OF _ _ refl] 3 s[of "x + of_nat len"] by simp
    ultimately show ?thesis by (simp add: absorb_rest_total)
  qed
qed

lemma holds_update:
  assumes "holds m ctx" "len \<le> length data"
  shows "holds (m @ take len data) (xrce_sha256_update ctx data len)"
proof -
  have "length (hstate ctx) = 8" "buf_len ctx < 64"
    using assms(1) by (simp_all add: holds_def absorbed_def length_absorb)
  from update_total[OF assms(2) this, of "of_nat (length m)"]
  show ?thesis
    using absorbed_update[OF assms(1)[unfolded holds_def] assms(2)] assms(2) by (simp add: holds_def)
qed

lemma holds_pad: "holds m ctx \<Longrightarrow> holds (m @ [b]) (pad_byte b ctx)"
  using holds_update[of m ctx 1 "[b]"] by (simp add: pad_byte_def holds_total Let_def)

lemma pad_count:
  fixes r :: nat
  assumes "r < 64"
  shows "(120 - r) mod 64 = (if r \<le> 56 then 56 - r else 120 - r)"
proof (cases "r \<le> 56")
  case True
  then have "120 - r = 56 - r + 64" by simp
  then have "(120 - r) mod 64 = (56 - r) mod 64" by (simp only: mod_add_self2)
  then show ?thesis using True by simp
next
  case False
  then show ?thesis using assms by simp
qed

text \<open>The loop of zero bytes returns, after as many bytes as the standard asks for.\<close>

lemma pad_zeros_returns:
  assumes "holds m ctx" "k = (120 - length m mod 64) mod 64"
  shows "\<exists>ctx'. pad_zeros ctx = Some ctx' \<and> holds (m @ replicate k 0) ctx'"
  using assms
proof (induction k arbitrary: m ctx)
  case 0
  have b: "buf_len ctx = length m mod 64" using 0 by (simp add: holds_def absorbed_def)
  moreover have "length m mod 64 = 56"
    using 0(2) pad_count[of "length m mod 64"] mod_less_divisor[of 64 "length m"] by (simp split: if_splits)
  ultimately show ?case using 0 by (subst pad_zeros.simps) simp
next
  case (Suc k)
  have lt: "length m mod 64 < 64" by simp
  have ne: "length m mod 64 \<noteq> 56" using Suc(3) by auto
  have "length (m @ [0]) mod 64 = (length m mod 64 + 1) mod 64" by (simp add: mod_simps)
  moreover have "(120 - (r + 1) mod 64) mod 64 = k" if "r < 64" "r \<noteq> 56" "Suc k = (120 - r) mod 64" for r :: nat
  proof (cases "r = 63")
    case True
    then show ?thesis using that pad_count[of 63] by simp
  next
    case False
    then have "(r + 1) mod 64 = r + 1" "r + 1 < 64" using that by simp_all
    then show ?thesis using that pad_count[of r] pad_count[of "r + 1"] by (simp split: if_splits)
  qed
  ultimately have "k = (120 - length (m @ [0 :: u8]) mod 64) mod 64"
    using lt ne Suc(3) by simp
  from Suc.IH[OF holds_pad[OF Suc(2)] this] have "\<exists>c. pad_zeros (pad_byte 0 ctx) = Some c \<and> holds (m @ replicate (Suc k) 0) c"
    by simp
  moreover have "buf_len ctx \<noteq> 56" using Suc(2) ne by (simp add: holds_def absorbed_def)
  ultimately show ?case by (subst pad_zeros.simps) simp
qed

section \<open>Lemmas: the digest\<close>

lemma length_fips_sha256: "length (fips_sha256 m) = 32"
proof -
  have "length (fips_absorb fips_H0 (fips_pad m)) = 8" by (simp add: length_absorb)
  then show ?thesis by (simp add: fips_sha256_def length_concat o_def sum_list_triv)
qed

lemma be_bytes_4: "be_bytes 4 w = [byte_at 24 w, byte_at 16 w, byte_at 8 w, byte_at 0 w]"
  by (simp add: be_bytes_def upt_rec numeral_eq_Suc)

lemma final_digest:
  assumes "absorbed m ctx"
  shows "\<exists>ctx'. xrce_sha256_final ctx = Some (ctx', fips_sha256 m) \<and> length (hbuf ctx') = 64"
proof -
  let ?m1 = "m @ [0x80]"
  let ?k = "(120 - length ?m1 mod 64) mod 64"
  have k: "?k = (119 - length m mod 64) mod 64"
  proof (cases "length m mod 64 = 63")
    case True
    then have "length ?m1 mod 64 = 0" by (simp add: mod_Suc)
    with True show ?thesis by simp
  next
    case False
    then show ?thesis by (simp add: mod_Suc)
  qed
  have bl: "total_len ctx * 8 = (of_nat (8 * length m) :: u64)" using assms by (simp add: absorbed_def)
  obtain c where c: "pad_zeros (pad_byte 0x80 ctx) = Some c" "holds (?m1 @ replicate ?k 0) c"
    using pad_zeros_returns[OF holds_pad[OF absorbed_holds[OF assms]] refl, of "0x80"] by blast
  let ?lb = "be_bytes 8 (of_nat (8 * length m) :: u64)"
  let ?c = "xrce_sha256_update c ?lb 8"
  have lb: "map (\<lambda>i. byte_at (56 - 8 * i) (of_nat (8 * length m) :: u64)) [0..<8] = ?lb"
    by (simp add: be_bytes_def diff_mult_distrib2)
  have "holds ((?m1 @ replicate ?k 0) @ ?lb) ?c" using holds_update[OF c(2), of 8 ?lb] by simp
  then have h: "hstate ?c = fips_absorb fips_H0 (fips_pad m)" and b: "length (hbuf ?c) = 64"
    unfolding k by (simp_all add: holds_def absorbed_def fips_pad_def)
  then have l: "length (hstate ?c) = 8" by (simp add: length_absorb)
  have "map (\<lambda>i. be_bytes 4 (hstate ?c ! i)) [0..<8] = map (be_bytes 4) (hstate ?c)"
    by (rule nth_equalityI) (simp_all add: l del: of_nat_mult)
  then show ?thesis
    unfolding xrce_sha256_final_def bl Let_def lb be_bytes_4[symmetric]
    by (simp add: c(1) fips_sha256_def h b del: of_nat_mult)
qed

section \<open>The interface of a streaming hash\<close>

text \<open>
  What a client of the hash relies on: contexts that stand for the message fed so far, and a digest
  that depends on that message alone.
\<close>

locale streaming_hash =
  fixes start :: 'c
    and feed :: "'c \<Rightarrow> bytes \<Rightarrow> nat \<Rightarrow> 'c"
    and finish :: "'c \<Rightarrow> ('c \<times> bytes) option"
    and represents :: "bytes \<Rightarrow> 'c \<Rightarrow> bool"
    and hash :: "bytes \<Rightarrow> bytes"
  assumes represents_start: "represents [] start"
    and represents_feed: "represents m c \<Longrightarrow> len \<le> length d \<Longrightarrow> represents (m @ take len d) (feed c d len)"
    and finish_hash: "represents m c \<Longrightarrow> \<exists>c'. finish c = Some (c', hash m)"
begin

lemma represents_chunks: "represents m c \<Longrightarrow> represents (m @ concat ds) (foldl (\<lambda>c d. feed c d (length d)) c ds)"
proof (induction ds arbitrary: m c)
  case (Cons d ds)
  from Cons.IH[of "m @ d" "feed c d (length d)"] represents_feed[OF Cons.prems, of "length d" d] show ?case by simp
qed simp

lemma chunks_hash: "map_option snd (finish (foldl (\<lambda>c d. feed c d (length d)) start ds)) = Some (hash (concat ds))"
  using finish_hash[OF represents_chunks[OF represents_start, of ds]] by auto

lemma prefix_hash: "len \<le> length d \<Longrightarrow> map_option snd (finish (feed start d len)) = Some (hash (take len d))"
  using finish_hash[OF represents_feed[OF represents_start, of len d]] by auto

end

text \<open>The context lives in uninitialised memory: its buffer is any 64 bytes.\<close>

lemma sha256_streaming:
  "length junk = 64 \<Longrightarrow> streaming_hash (xrce_sha256_init junk) xrce_sha256_update xrce_sha256_final absorbed fips_sha256"
  by unfold_locales (auto intro: absorbed_init absorbed_update dest: final_digest)

interpretation sha: streaming_hash "xrce_sha256_init (replicate 64 0)" xrce_sha256_update xrce_sha256_final absorbed fips_sha256
  by (rule sha256_streaming) simp

section \<open>Properties\<close>

text \<open>
  C9: Streaming equals the standard. However a message is cut into chunks, feeding the chunks one by
  one to a freshly initialised context (over whatever its buffer held) and finishing returns, and the
  digest is SHA-256 of the whole message as FIPS 180-4 defines it (message schedule, rounds, padding
  and length suffix), for every message length.
\<close>

theorem sha256_streaming_equals_fips:
  assumes "length junk = 64"
  shows "map_option snd (xrce_sha256_final
      (foldl (\<lambda>ctx d. xrce_sha256_update ctx d (length d)) (xrce_sha256_init junk) chunks))
     = Some (fips_sha256 (concat chunks))"
  by (rule streaming_hash.chunks_hash[OF sha256_streaming[OF assms]])

theorem sha256_streaming_equals_fips_witness:
  "map_option snd (xrce_sha256_final (xrce_sha256_update (xrce_sha256_update
      (xrce_sha256_init (replicate 64 7)) [0x61] 1) [0x62, 0x63] 2)) = Some (fips_sha256 [0x61, 0x62, 0x63])"
  using sha256_streaming_equals_fips[of "replicate 64 7" "[[0x61], [0x62, 0x63]]"]
  by (simp add: numeral_2_eq_2)

lemma sha256_one_shot:
  "length junk = 64 \<Longrightarrow> len \<le> length data \<Longrightarrow> xrce_sha256 junk data len = Some (fips_sha256 (take len data))"
  unfolding xrce_sha256_def by (rule streaming_hash.prefix_hash[OF sha256_streaming])

end
