(* ===== verification/Hmac.thy ===== *)
theory Hmac
  imports Sha256
begin

text \<open>
  \<^verbatim>\<open>xrce/src/hmac.c\<close>: HMAC-SHA256 over the streaming hash, compared with the definition of RFC 2104
  and FIPS 198-1. \<open>junk\<close> is what the uninitialised buffer of a hash context holds.
\<close>

section \<open>Operations\<close>

definition hmac_key_block :: "bytes \<Rightarrow> bytes \<Rightarrow> nat \<Rightarrow> bytes option" where
  "hmac_key_block junk key key_len =
     (if key_len > XRCE_SHA256_BLOCK_LEN
      then (case xrce_sha256 junk key key_len of
              None \<Rightarrow> None
            | Some hashed_key \<Rightarrow>
                Some (take XRCE_SHA256_DIGEST_LEN hashed_key @
                      replicate (XRCE_SHA256_BLOCK_LEN - XRCE_SHA256_DIGEST_LEN) 0))
      else Some (take key_len key @ replicate (XRCE_SHA256_BLOCK_LEN - key_len) 0))"

definition xrce_hmac_sha256 :: "bytes \<Rightarrow> bytes \<Rightarrow> nat \<Rightarrow> bytes \<Rightarrow> nat \<Rightarrow> bytes option" where
  "xrce_hmac_sha256 junk key key_len data data_len =
     (case hmac_key_block junk key key_len of
        None \<Rightarrow> None
      | Some key_block \<Rightarrow>
          (let ipad = map (\<lambda>i. key_block ! i XOR 0x36) [0..<XRCE_SHA256_BLOCK_LEN];
               opad = map (\<lambda>i. key_block ! i XOR 0x5c) [0..<XRCE_SHA256_BLOCK_LEN];
               ctx = xrce_sha256_init junk;
               ctx = xrce_sha256_update ctx ipad XRCE_SHA256_BLOCK_LEN;
               ctx = xrce_sha256_update ctx data data_len
           in case xrce_sha256_final ctx of
                None \<Rightarrow> None
              | Some (ctx, inner_digest) \<Rightarrow>
                  (let ctx = xrce_sha256_init (hbuf ctx);
                       ctx = xrce_sha256_update ctx opad XRCE_SHA256_BLOCK_LEN;
                       ctx = xrce_sha256_update ctx inner_digest XRCE_SHA256_DIGEST_LEN
                   in map_option snd (xrce_sha256_final ctx))))"

section \<open>The reference: RFC 2104 and FIPS 198-1\<close>

definition fips_K0 :: "bytes \<Rightarrow> bytes" where
  "fips_K0 key =
     (let k = (if length key > 64 then fips_sha256 key else key)
      in k @ replicate (64 - length k) 0)"

definition fips_hmac :: "bytes \<Rightarrow> bytes \<Rightarrow> bytes" where
  "fips_hmac key text =
     fips_sha256 (map (\<lambda>b. b XOR 0x5c) (fips_K0 key) @ fips_sha256 (map (\<lambda>b. b XOR 0x36) (fips_K0 key) @ text))"

section \<open>Lemmas\<close>

lemma length_K0: "length (fips_K0 key) = 64"
  by (simp add: fips_K0_def Let_def length_fips_sha256)

lemma length_fips_hmac: "length (fips_hmac key text) = 32"
  by (simp add: fips_hmac_def length_fips_sha256)

lemma key_block_K0:
  assumes "length junk = 64" "key_len \<le> length key"
  shows "hmac_key_block junk key key_len = Some (fips_K0 (take key_len key))"
  using assms by (simp add: hmac_key_block_def fips_K0_def Let_def sha256_one_shot length_fips_sha256)

lemma map_index: "length xs = n \<Longrightarrow> map (\<lambda>i. f (xs ! i)) [0..<n] = map f xs"
  by (rule nth_equalityI) simp_all

text \<open>Two chunks, as both passes feed them.\<close>

lemma two_chunks:
  assumes "length junk = 64" "n = length a" "len \<le> length d"
  shows "\<exists>c. xrce_sha256_final (xrce_sha256_update (xrce_sha256_update (xrce_sha256_init junk) a n) d len)
       = Some (c, fips_sha256 (a @ take len d)) \<and> length (hbuf c) = 64"
proof -
  have "absorbed a (xrce_sha256_update (xrce_sha256_init junk) a n)"
    using absorbed_update[OF absorbed_init[OF assms(1)], of n a] assms(2) by simp
  from final_digest[OF absorbed_update[OF this assms(3)]] show ?thesis .
qed

lemma hmac_total:
  assumes "length junk = 64" "key_len \<le> length key" "data_len \<le> length data"
  shows "xrce_hmac_sha256 junk key key_len data data_len = Some (fips_hmac (take key_len key) (take data_len data))"
proof -
  let ?k = "fips_K0 (take key_len key)"
  let ?i = "map (\<lambda>b. b XOR 0x36) ?k" and ?o = "map (\<lambda>b. b XOR 0x5c) ?k"
  have pads: "map (\<lambda>i. ?k ! i XOR x) [0..<64] = map (\<lambda>b. b XOR x) ?k" for x
    by (rule map_index) (rule length_K0)
  obtain c where c: "xrce_sha256_final (xrce_sha256_update (xrce_sha256_update (xrce_sha256_init junk) ?i 64) data data_len)
      = Some (c, fips_sha256 (?i @ take data_len data))" "length (hbuf c) = 64"
    using two_chunks[OF assms(1) _ assms(3), of 64 ?i] length_K0 by auto
  let ?d = "fips_sha256 (?i @ take data_len data)"
  obtain e where e: "xrce_sha256_final (xrce_sha256_update (xrce_sha256_update (xrce_sha256_init (hbuf c)) ?o 64) ?d 32)
      = Some (e, fips_sha256 (?o @ ?d))"
    using two_chunks[OF c(2), of 64 ?o 32 ?d] length_K0 length_fips_sha256 by auto
  show ?thesis
    unfolding xrce_hmac_sha256_def key_block_K0[OF assms(1,2)] option.case Let_def pads c(1) prod.case e
    by (simp add: fips_hmac_def)
qed

section \<open>Properties\<close>

text \<open>
  C29: For every key length (shorter than, equal to and longer than a block) and every message,
  \<^verbatim>\<open>xrce_hmac_sha256\<close> returns, and its result is HMAC-SHA256 as RFC 2104 and FIPS 198-1 define it over
  FIPS 180-4's SHA-256, whatever the stack held before.
\<close>

theorem hmac_equals_rfc2104:
  assumes "length junk = 64" "key_len \<le> length key" "data_len \<le> length data"
  shows "xrce_hmac_sha256 junk key key_len data data_len = Some (fips_hmac (take key_len key) (take data_len data))"
  by (rule hmac_total[OF assms])

theorem hmac_equals_rfc2104_witness:
  "xrce_hmac_sha256 (replicate 64 9) (replicate 100 3) 80 [1, 2, 3] 2 = Some (fips_hmac (replicate 80 3) [1, 2])"
  using hmac_equals_rfc2104[of "replicate 64 9" 80 "replicate 100 3" 2 "[1, 2, 3]"]
  by (simp add: numeral_2_eq_2)

end
