(* ===== verification/Secure.thy ===== *)
theory Secure
  imports Hmac "HOL-Library.Sublist"
begin

text \<open>
  \<^verbatim>\<open>xrce/src/secure_transport.c\<close> and \<^verbatim>\<open>secure_transport.h\<close>: the authenticated envelope (counter, truncated
  HMAC tag, payload) and the replay window.

  The calls are option-valued because the hash underneath is; the lemmas show that they always
  return. \<open>stack_mem\<close> is what the uninitialised local buffers hold: the hash context's and the
  scratch buffer's. \<^verbatim>\<open>out_plain\<close> points into the received bytes: it is modelled by the bytes it
  points to.
\<close>

section \<open>Data\<close>

abbreviation XRCE_SECURE_COUNTER_LEN :: nat where "XRCE_SECURE_COUNTER_LEN \<equiv> 4"
abbreviation XRCE_SECURE_TAG_LEN :: nat where "XRCE_SECURE_TAG_LEN \<equiv> 8"
abbreviation XRCE_SECURE_OVERHEAD :: nat where "XRCE_SECURE_OVERHEAD \<equiv> XRCE_SECURE_COUNTER_LEN + XRCE_SECURE_TAG_LEN"
abbreviation MAC_INPUT_SCRATCH_LEN :: nat where "MAC_INPUT_SCRATCH_LEN \<equiv> 320"

record secure_ctx =
  skey :: bytes
  skey_len :: nat
  send_counter :: u32
  last_recv_counter :: u32
  have_received :: bool

datatype secure_result = XRCE_SECURE_OK | XRCE_SECURE_TOO_SHORT | XRCE_SECURE_BAD_TAG | XRCE_SECURE_REPLAYED

record stack_mem =
  ctx_junk :: bytes
  scratch_junk :: bytes

section \<open>Operations\<close>

definition xrce_secure_init :: "bytes \<Rightarrow> nat \<Rightarrow> secure_ctx" where
  "xrce_secure_init key key_len =
     \<lparr>skey = key, skey_len = key_len, send_counter = 0, last_recv_counter = 0, have_received = False\<rparr>"

definition put_counter_be :: "bytes \<Rightarrow> u32 \<Rightarrow> bytes" where
  "put_counter_be out counter =
     out[0 := byte_at 24 counter, 1 := byte_at 16 counter, 2 := byte_at 8 counter, 3 := byte_at 0 counter]"

definition get_counter_be :: "bytes \<Rightarrow> u32" where
  "get_counter_be b =
     push_bit 24 (ucast (b ! 0)) OR push_bit 16 (ucast (b ! 1)) OR push_bit 8 (ucast (b ! 2)) OR ucast (b ! 3)"

definition compute_tag :: "stack_mem \<Rightarrow> secure_ctx \<Rightarrow> u32 \<Rightarrow> bytes \<Rightarrow> nat \<Rightarrow> bytes option" where
  "compute_tag st ctx counter payload payload_len =
     (let scratch = put_counter_be (scratch_junk st) counter;
          scratch = blit XRCE_SECURE_COUNTER_LEN (take payload_len payload) scratch
      in xrce_hmac_sha256 (ctx_junk st) (skey ctx) (skey_len ctx) scratch (XRCE_SECURE_COUNTER_LEN + payload_len))"

definition xrce_secure_wrap ::
  "stack_mem \<Rightarrow> secure_ctx \<Rightarrow> bytes \<Rightarrow> nat \<Rightarrow> bytes \<Rightarrow> nat \<Rightarrow> (nat \<times> secure_ctx \<times> bytes) option" where
  "xrce_secure_wrap st ctx payload payload_len out out_cap =
     (if payload_len > MAC_INPUT_SCRATCH_LEN - XRCE_SECURE_COUNTER_LEN \<or>
         out_cap < payload_len + XRCE_SECURE_OVERHEAD
      then Some (0, ctx, out)
      else
        (let counter = send_counter ctx in
         case compute_tag st ctx counter payload payload_len of
           None \<Rightarrow> None
         | Some full_tag \<Rightarrow>
             (let out = put_counter_be out counter;
                  out = blit XRCE_SECURE_COUNTER_LEN (take XRCE_SECURE_TAG_LEN full_tag) out;
                  out = blit XRCE_SECURE_OVERHEAD (take payload_len payload) out;
                  ctx = ctx\<lparr>send_counter := send_counter ctx + 1\<rparr>
              in Some (payload_len + XRCE_SECURE_OVERHEAD, ctx, out))))"

text \<open>The comparison loop.\<close>

definition tag_diff :: "bytes \<Rightarrow> bytes \<Rightarrow> u8" where
  "tag_diff recv_tag expected_tag =
     fold (\<lambda>i diff. diff OR (recv_tag ! i XOR expected_tag ! i)) [0..<XRCE_SECURE_TAG_LEN] 0"

definition xrce_secure_unwrap ::
  "stack_mem \<Rightarrow> secure_ctx \<Rightarrow> bytes \<Rightarrow> nat \<Rightarrow> bytes \<Rightarrow> nat \<Rightarrow> (secure_result \<times> secure_ctx \<times> bytes \<times> nat) option" where
  "xrce_secure_unwrap st ctx secure_payload secure_payload_len out_plain out_plain_len =
     (if secure_payload_len < XRCE_SECURE_OVERHEAD \<or>
         secure_payload_len - XRCE_SECURE_OVERHEAD > MAC_INPUT_SCRATCH_LEN - XRCE_SECURE_COUNTER_LEN
      then Some (XRCE_SECURE_TOO_SHORT, ctx, out_plain, out_plain_len)
      else
        (let counter = get_counter_be secure_payload;
             recv_tag = drop XRCE_SECURE_COUNTER_LEN secure_payload;
             plain = drop XRCE_SECURE_OVERHEAD secure_payload;
             plain_len = secure_payload_len - XRCE_SECURE_OVERHEAD in
         case compute_tag st ctx counter plain plain_len of
           None \<Rightarrow> None
         | Some expected_tag \<Rightarrow>
             if tag_diff recv_tag expected_tag \<noteq> 0
             then Some (XRCE_SECURE_BAD_TAG, ctx, out_plain, out_plain_len)
             else if have_received ctx \<and> counter \<le> last_recv_counter ctx
             then Some (XRCE_SECURE_REPLAYED, ctx, out_plain, out_plain_len)
             else Some (XRCE_SECURE_OK, ctx\<lparr>last_recv_counter := counter, have_received := True\<rparr>,
                        take plain_len plain, plain_len)))"

section \<open>The envelope\<close>

text \<open>The documented wire format, over the standard's HMAC.\<close>

definition tag_of :: "bytes \<Rightarrow> u32 \<Rightarrow> bytes \<Rightarrow> bytes" where
  "tag_of key counter payload = take 8 (fips_hmac key (be_bytes 4 counter @ payload))"

definition envelope :: "bytes \<Rightarrow> u32 \<Rightarrow> bytes \<Rightarrow> bytes" where
  "envelope key counter payload = be_bytes 4 counter @ tag_of key counter payload @ payload"

definition stack_ok :: "stack_mem \<Rightarrow> bool" where
  "stack_ok st \<longleftrightarrow> length (ctx_junk st) = 64 \<and> length (scratch_junk st) = MAC_INPUT_SCRATCH_LEN"

definition key_ok :: "secure_ctx \<Rightarrow> bool" where
  "key_ok ctx \<longleftrightarrow> skey_len ctx \<le> length (skey ctx)"

definition key_of :: "secure_ctx \<Rightarrow> bytes" where
  "key_of ctx = take (skey_len ctx) (skey ctx)"

section \<open>Lemmas\<close>

lemma put_counter_blit: "4 \<le> length out \<Longrightarrow> put_counter_be out counter = blit 0 (be_bytes 4 counter) out"
  unfolding put_counter_be_def be_bytes_4 blit_def
  by (cases out; cases "tl out"; cases "tl (tl out)"; cases "tl (tl (tl out))") (auto simp: numeral_eq_Suc)

lemma get_counter: "4 \<le> length b \<Longrightarrow> get_counter_be b = be_value (take 4 b)"
proof -
  assume l: "4 \<le> length b"
  have "take 4 b = [b ! 0, b ! 1, b ! 2, b ! 3]"
    by (rule nth_equalityI) (use l in \<open>auto simp: nth_Cons numeral_eq_Suc less_Suc_eq split: nat.splits\<close>)
  then show ?thesis by (simp add: get_counter_be_def be_value4)
qed

lemma compute_tag_total:
  assumes "stack_ok st" "key_ok ctx" "payload_len \<le> length payload" "payload_len \<le> 316"
  shows "compute_tag st ctx counter payload payload_len =
     Some (fips_hmac (key_of ctx) (be_bytes 4 counter @ take payload_len payload))"
proof -
  let ?s = "blit 4 (take payload_len payload) (put_counter_be (scratch_junk st) counter)"
  have s: "put_counter_be (scratch_junk st) counter = blit 0 (be_bytes 4 counter) (scratch_junk st)"
    using assms(1) by (intro put_counter_blit) (simp add: stack_ok_def)
  have "?s = blit 0 (be_bytes 4 counter @ take payload_len payload) (scratch_junk st)"
    using assms blit_blit[of 0 "be_bytes 4 counter" "take payload_len payload" "scratch_junk st"]
    by (simp add: s stack_ok_def)
  then have t: "take (4 + payload_len) ?s = be_bytes 4 counter @ take payload_len payload"
    and l: "4 + payload_len \<le> length ?s"
    using assms by (simp_all add: blit_def stack_ok_def)
  show ?thesis
    using hmac_total[of "ctx_junk st" "skey_len ctx" "skey ctx" "4 + payload_len" ?s] assms(1,2) l t
    by (simp add: compute_tag_def Let_def stack_ok_def key_ok_def key_of_def)
qed

lemma tag_diff_zero:
  assumes "8 \<le> length a" "8 \<le> length b"
  shows "tag_diff a b = 0 \<longleftrightarrow> take 8 a = take 8 b"
proof -
  have or0: "x OR y = 0 \<longleftrightarrow> x = 0 \<and> y = 0" for x y :: u8
    by (auto simp: bit_eq_iff bit_simps)
  have xor0: "x XOR y = 0 \<longleftrightarrow> x = y" for x y :: u8
    by (auto simp: bit_eq_iff bit_simps)
  have "fold (\<lambda>i d. d OR (a ! i XOR b ! i)) is d = 0 \<longleftrightarrow> d = 0 \<and> (\<forall>i \<in> set is. a ! i = b ! i)" for "is" d
    by (induction "is" arbitrary: d) (auto simp: or0 xor0)
  then show ?thesis
    using assms by (auto simp: tag_diff_def list_eq_iff_nth_eq)
qed

lemma length_envelope: "length (envelope key counter payload) = 12 + length payload"
  by (simp add: envelope_def tag_of_def length_fips_hmac)

lemma length_tag_of: "length (tag_of key counter payload) = 8"
  by (simp add: tag_of_def length_fips_hmac)

lemma wrap_envelope:
  assumes "stack_ok st" "key_ok ctx" "payload_len \<le> length payload" "payload_len \<le> 316"
    and "payload_len + 12 \<le> out_cap" "out_cap \<le> length out"
    and "w = envelope (key_of ctx) (send_counter ctx) (take payload_len payload)"
  shows "xrce_secure_wrap st ctx payload payload_len out out_cap =
     Some (length w, ctx\<lparr>send_counter := send_counter ctx + 1\<rparr>, w @ drop (length w) out)"
proof -
  let ?c = "send_counter ctx" and ?p = "take payload_len payload"
  let ?t = "tag_of (key_of ctx) ?c ?p"
  have lt: "length ?t = 8" by (rule length_tag_of)
  have lw: "length w = payload_len + 12" using assms(3,7) by (simp add: length_envelope)
  have "put_counter_be out ?c = blit 0 (be_bytes 4 ?c) out"
    using assms(5,6) by (intro put_counter_blit) simp
  moreover have "blit 4 ?t (blit 0 (be_bytes 4 ?c) out) = blit 0 (be_bytes 4 ?c @ ?t) out"
    using blit_blit[of 0 "be_bytes 4 ?c" ?t out] lt assms(5,6) by simp
  moreover have "blit 12 ?p (blit 0 (be_bytes 4 ?c @ ?t) out) = blit 0 w out"
    using blit_blit[of 0 "be_bytes 4 ?c @ ?t" ?p out] lt assms(3,5,6,7) by (simp add: envelope_def)
  ultimately show ?thesis
    using assms lw compute_tag_total[OF assms(1-4), of ?c]
    by (simp add: xrce_secure_wrap_def Let_def tag_of_def blit_def)
qed

lemma envelope_fields:
  assumes "12 \<le> n" "n \<le> length sp"
  shows "take n sp = envelope key (be_value (take 4 sp)) (slice 12 (n - 12) sp) \<longleftrightarrow>
     take 8 (drop 4 sp) = tag_of key (be_value (take 4 sp)) (slice 12 (n - 12) sp)"
proof -
  have "be_bytes 4 (be_value (take 4 sp) :: u32) = take 4 sp"
    using le_bytes_le_value[of "rev (take 4 sp)", where ?'a = 32] assms by (simp add: be_bytes_rev be_value_def min_def)
  moreover have "take n sp = take 4 sp @ take 8 (drop 4 sp) @ slice 12 (n - 12) sp"
    using assms by (simp add: slice_def take_add[symmetric] flip: append_assoc)
  ultimately show ?thesis by (simp add: envelope_def)
qed

lemma unwrap_total:
  assumes "stack_ok st" "key_ok ctx" "n \<le> length sp"
    and "counter = be_value (take 4 sp)" "plain = slice 12 (n - 12) sp"
  shows "xrce_secure_unwrap st ctx sp n op ol = Some
     (if n < 12 \<or> 328 < n then (XRCE_SECURE_TOO_SHORT, ctx, op, ol)
      else if take n sp \<noteq> envelope (key_of ctx) counter plain then (XRCE_SECURE_BAD_TAG, ctx, op, ol)
      else if have_received ctx \<and> counter \<le> last_recv_counter ctx then (XRCE_SECURE_REPLAYED, ctx, op, ol)
      else (XRCE_SECURE_OK, ctx\<lparr>last_recv_counter := counter, have_received := True\<rparr>, plain, n - 12))"
proof (cases "n < 12 \<or> 328 < n")
  case True
  then show ?thesis by (auto simp: xrce_secure_unwrap_def)
next
  case False
  have c: "get_counter_be sp = counter" using get_counter[of sp] False assms(3,4) by simp
  have p: "take (n - 12) (drop 12 sp) = plain" using assms(5) by (simp add: slice_def)
  have le: "n - 12 \<le> length sp - 12" "n - 12 \<le> 316" "8 \<le> length sp - 4" using False assms(3) by linarith+
  let ?t = "fips_hmac (key_of ctx) (be_bytes 4 counter @ plain)"
  have t: "compute_tag st ctx counter (drop 12 sp) (n - 12) = Some ?t"
    using compute_tag_total[OF assms(1,2), of "n - 12" "drop 12 sp" counter] le p by simp
  have d: "tag_diff (drop 4 sp) ?t = 0 \<longleftrightarrow> take n sp = envelope (key_of ctx) counter plain"
    using envelope_fields[of n sp "key_of ctx"] False assms(3-5)
    by (subst tag_diff_zero) (simp_all add: length_fips_hmac tag_of_def le(3))
  show ?thesis
    using False d t c p by (auto simp: xrce_secure_unwrap_def Let_def)
qed

section \<open>A link\<close>

text \<open>
  The two ends of one direction of a link: the sender wraps payloads one after the other, the
  receiver unwraps what arrives; \<open>None\<close> is a call that does not return.
\<close>

fun send_all :: "stack_mem \<Rightarrow> secure_ctx \<Rightarrow> bytes list \<Rightarrow> bytes list option" where
  "send_all st ctx [] = Some []"
| "send_all st ctx (p # ps) =
     (case xrce_secure_wrap st ctx p (length p) (replicate 328 0) 328 of
        None \<Rightarrow> None
      | Some (k, ctx, out) \<Rightarrow> map_option (\<lambda>ws. take k out # ws) (send_all st ctx ps))"

fun recv_all :: "stack_mem \<Rightarrow> secure_ctx \<Rightarrow> bytes list \<Rightarrow> (secure_result \<times> bytes) list option" where
  "recv_all st ctx [] = Some []"
| "recv_all st ctx (w # ws) =
     (case xrce_secure_unwrap st ctx w (length w) [] 0 of
        None \<Rightarrow> None
      | Some (r, ctx, p, n) \<Rightarrow> map_option (\<lambda>rs. (r, p) # rs) (recv_all st ctx ws))"

lemma key_of_update [simp]:
  "key_of (ctx\<lparr>send_counter := c\<rparr>) = key_of ctx"
  "key_of (ctx\<lparr>last_recv_counter := c, have_received := h\<rparr>) = key_of ctx"
  "key_ok (ctx\<lparr>send_counter := c\<rparr>) = key_ok ctx"
  "key_ok (ctx\<lparr>last_recv_counter := c, have_received := h\<rparr>) = key_ok ctx"
  by (simp_all add: key_of_def key_ok_def)

lemma send_all_envelopes:
  assumes "stack_ok st" "key_ok ctx" "\<forall>p \<in> set ps. length p \<le> 316"
  shows "send_all st ctx ps =
     Some (map (\<lambda>i. envelope (key_of ctx) (send_counter ctx + of_nat i) (ps ! i)) [0..<length ps])"
  using assms
proof (induction ps arbitrary: ctx)
  case (Cons p ps)
  let ?e = "\<lambda>qs i. envelope (key_of ctx) (send_counter ctx + of_nat i) (qs ! i)"
  have w: "xrce_secure_wrap st ctx p (length p) (replicate 328 0) 328 =
      Some (12 + length p, ctx\<lparr>send_counter := send_counter ctx + 1\<rparr>,
        envelope (key_of ctx) (send_counter ctx) p @ drop (12 + length p) (replicate 328 0))"
    using wrap_envelope[OF Cons.prems(1,2), of "length p" p 328 "replicate 328 0"] Cons.prems(3)
    by (simp add: length_envelope)
  have t: "take (12 + length p) (envelope (key_of ctx) (send_counter ctx) p @ z) = ?e (p # ps) 0" for z
    by (simp add: length_envelope)
  have m: "map (\<lambda>i. ?e (p # ps) i) [0..<length (p # ps)] = ?e (p # ps) 0 # map (\<lambda>i. ?e (p # ps) (Suc i)) [0..<length ps]"
    by (simp add: upt_conv_Cons o_def del: upt_Suc flip: map_Suc_upt)
  show ?case
    unfolding m using Cons.IH[of "ctx\<lparr>send_counter := send_counter ctx + 1\<rparr>"] Cons.prems w t
    by (simp add: add.assoc del: take_append)
qed simp

lemma recv_all_fresh:
  assumes "stack_ok st" "key_ok ctx" "\<forall>p \<in> set (map snd cps). length p \<le> 316"
    and "sorted_wrt (<) (map fst cps)" "have_received ctx \<longrightarrow> (\<forall>c \<in> set (map fst cps). last_recv_counter ctx < c)"
  shows "recv_all st ctx (map (\<lambda>(c, p). envelope (key_of ctx) c p) cps) = Some (map (\<lambda>(c, p). (XRCE_SECURE_OK, p)) cps)"
  using assms
proof (induction cps arbitrary: ctx)
  case (Cons cp cps)
  obtain c p where cp: "cp = (c, p)" by (cases cp)
  let ?w = "envelope (key_of ctx) c p"
  let ?ctx = "ctx\<lparr>last_recv_counter := c, have_received := True\<rparr>"
  have l: "length ?w = 12 + length p" by (rule length_envelope)
  have f: "be_value (take 4 ?w) = c" "slice 12 (length p) ?w = p"
    by (simp_all add: envelope_def slice_def length_tag_of)
  have "xrce_secure_unwrap st ctx ?w (length ?w) [] 0 = Some (XRCE_SECURE_OK, ?ctx, p, length p)"
    using Cons.prems unwrap_total[OF Cons.prems(1,2) order_refl refl refl, of ?w "[]" 0] l f
    by (auto simp: cp)
  moreover have "recv_all st ?ctx (map (\<lambda>(c, p). envelope (key_of ?ctx) c p) cps) = Some (map (\<lambda>(c, p). (XRCE_SECURE_OK, p)) cps)"
    by (rule Cons.IH) (use Cons.prems cp in auto)
  ultimately show ?case by (simp add: cp)
qed simp

section \<open>Properties\<close>

text \<open>
  What \<^verbatim>\<open>xrce_secure_unwrap\<close> accepts, on every branch. It always returns. Outside 12 to 328 bytes the
  result is \<^verbatim>\<open>XRCE_SECURE_TOO_SHORT\<close>; bytes that are not exactly the envelope of their own counter
  and payload under the receiver's key are \<^verbatim>\<open>XRCE_SECURE_BAD_TAG\<close>; a genuine envelope whose counter is
  not above the last accepted one is \<^verbatim>\<open>XRCE_SECURE_REPLAYED\<close>; in all three cases the context and the
  outputs are unchanged. Otherwise the payload is delivered and the counter remembered.
\<close>

theorem secure_unwrap_exact:
  assumes "stack_ok st" "key_ok ctx" "n \<le> length sp"
    and "counter = be_value (take 4 sp)" "plain = slice 12 (n - 12) sp"
  shows "xrce_secure_unwrap st ctx sp n op ol = Some
     (if n < 12 \<or> 328 < n then (XRCE_SECURE_TOO_SHORT, ctx, op, ol)
      else if take n sp \<noteq> envelope (key_of ctx) counter plain then (XRCE_SECURE_BAD_TAG, ctx, op, ol)
      else if have_received ctx \<and> counter \<le> last_recv_counter ctx then (XRCE_SECURE_REPLAYED, ctx, op, ol)
      else (XRCE_SECURE_OK, ctx\<lparr>last_recv_counter := counter, have_received := True\<rparr>, plain, n - 12))"
  by (rule unwrap_total[OF assms])

definition zero_stack :: stack_mem where
  "zero_stack = \<lparr>ctx_junk = replicate 64 0, scratch_junk = replicate 320 0\<rparr>"

lemma zero_stack_ok: "stack_ok zero_stack"
  by (simp add: stack_ok_def zero_stack_def)

theorem secure_unwrap_exact_witness:
  "let ctx = xrce_secure_init [1, 2, 3] 3; w = envelope [1, 2, 3] 7 [42] in
     xrce_secure_unwrap zero_stack ctx w 13 [] 0 =
       Some (XRCE_SECURE_OK, ctx\<lparr>last_recv_counter := 7, have_received := True\<rparr>, [42], 1) \<and>
     xrce_secure_unwrap zero_stack ctx w 11 [] 0 = Some (XRCE_SECURE_TOO_SHORT, ctx, [], 0)"
proof -
  let ?ctx = "xrce_secure_init [1, 2, 3] 3" and ?w = "envelope [1, 2, 3] 7 [42]"
  have k: "key_ok ?ctx" "key_of ?ctx = [1, 2, 3]" "\<not> have_received ?ctx"
    by (simp_all add: key_ok_def key_of_def xrce_secure_init_def numeral_3_eq_3)
  have f: "be_value (take 4 ?w) = (7 :: u32)" "slice 12 1 ?w = [42]" "length ?w = 13"
    by (simp_all add: envelope_def slice_def length_tag_of)
  then show ?thesis
    using secure_unwrap_exact[OF zero_stack_ok k(1), of 13 ?w 7 "[42]" "[]" 0]
      secure_unwrap_exact[OF zero_stack_ok k(1), of 11 ?w _ _ "[]" 0, OF _ refl refl] k
    by (simp add: Let_def)
qed

lemma recv_all_counters:
  assumes "stack_ok st" "key_ok ctx" "recv_all st ctx ws = Some rs" "j < length ws" "fst (rs ! j) = XRCE_SECURE_OK"
  shows "have_received ctx \<longrightarrow> last_recv_counter ctx < be_value (take 4 (ws ! j))"
  using assms
proof (induction ws arbitrary: ctx rs j)
  case (Cons w ws)
  note u = unwrap_total[OF Cons.prems(1,2) order_refl refl refl, of w "[]" 0]
  from Cons.prems(3) obtain r ctx1 p n rs1 where
    r: "xrce_secure_unwrap st ctx w (length w) [] 0 = Some (r, ctx1, p, n)" "recv_all st ctx1 ws = Some rs1" "rs = (r, p) # rs1"
    by (auto split: option.splits)
  show ?case
  proof (cases j)
    case 0
    then show ?thesis using Cons.prems(5) r u by (auto split: if_splits)
  next
    case (Suc i)
    have c1: "ctx1 = ctx \<or> have_received ctx1 \<and> key_ok ctx1 \<and> (have_received ctx \<longrightarrow> last_recv_counter ctx < last_recv_counter ctx1)"
      using r(1) u Cons.prems(2) by (auto split: if_splits)
    then have "key_ok ctx1" using Cons.prems(2) by auto
    then have "have_received ctx1 \<longrightarrow> last_recv_counter ctx1 < be_value (take 4 (ws ! i))"
      using Cons.IH[of ctx1 rs1 i] Cons.prems r Suc by simp
    with c1 Suc show ?thesis by auto
  qed
qed simp

lemma recv_all_increasing:
  assumes "stack_ok st" "key_ok ctx" "recv_all st ctx ws = Some rs" "i < j" "j < length ws"
    and "fst (rs ! i) = XRCE_SECURE_OK" "fst (rs ! j) = XRCE_SECURE_OK"
  shows "(be_value (take 4 (ws ! i)) :: u32) < be_value (take 4 (ws ! j))"
  using assms
proof (induction ws arbitrary: ctx rs i j)
  case (Cons w ws)
  note u = unwrap_total[OF Cons.prems(1,2) order_refl refl refl, of w "[]" 0]
  from Cons.prems(3) obtain r ctx1 p n rs1 where
    r: "xrce_secure_unwrap st ctx w (length w) [] 0 = Some (r, ctx1, p, n)" "recv_all st ctx1 ws = Some rs1" "rs = (r, p) # rs1"
    by (auto split: option.splits)
  have k: "key_ok ctx1" using r(1) u Cons.prems(2) by (auto split: if_splits)
  obtain j' where j: "j = Suc j'" using Cons.prems(4) by (cases j) auto
  show ?case
  proof (cases i)
    case 0
    then have "have_received ctx1 \<and> last_recv_counter ctx1 = be_value (take 4 w)"
      using Cons.prems(6) r u by (auto split: if_splits)
    then show ?thesis using recv_all_counters[OF Cons.prems(1) k r(2), of j'] Cons.prems r 0 j by simp
  next
    case (Suc i')
    then show ?thesis using Cons.IH[OF Cons.prems(1) k r(2), of i' j'] Cons.prems r j by simp
  qed
qed simp

text \<open>
  C10: Replay protection over a whole session. Whatever sequence of byte strings arrives (reordered,
  duplicated, forged), the counters of the accepted ones strictly increase, so no string is ever
  accepted twice.
\<close>

theorem secure_no_replay:
  assumes "stack_ok st" "key_ok ctx" "recv_all st ctx ws = Some rs" "i < j" "j < length ws"
    and "fst (rs ! i) = XRCE_SECURE_OK" "fst (rs ! j) = XRCE_SECURE_OK"
  shows "(be_value (take 4 (ws ! i)) :: u32) < be_value (take 4 (ws ! j)) \<and> ws ! i \<noteq> ws ! j"
  using recv_all_increasing[OF assms] by auto

theorem secure_no_replay_witness:
  "\<exists>rs. recv_all zero_stack (xrce_secure_init [1] 1) [envelope [1] 3 [], envelope [1] 5 [9]] = Some rs \<and>
     fst (rs ! 0) = XRCE_SECURE_OK \<and> fst (rs ! 1) = XRCE_SECURE_OK \<and> envelope [1] 3 [] \<noteq> envelope [1] 5 [9]"
proof -
  let ?ctx = "xrce_secure_init [1] 1"
  have k: "key_ok ?ctx" "key_of ?ctx = [1]" "\<not> have_received ?ctx"
    by (simp_all add: key_ok_def key_of_def xrce_secure_init_def)
  have r: "recv_all zero_stack ?ctx [envelope [1] 3 [], envelope [1] 5 [9]] = Some [(XRCE_SECURE_OK, []), (XRCE_SECURE_OK, [9])]"
    using recv_all_fresh[OF zero_stack_ok k(1), of "[(3, []), (5, [9])]"] k(3)
    by (simp add: k(2) del: recv_all.simps One_nat_def)
  from secure_no_replay[OF zero_stack_ok k(1) r, of 0 1] r show ?thesis by (simp del: recv_all.simps)
qed

lemma nths_map_upt: "nths (map f [0..<n]) I = map f (filter (\<lambda>i. i \<in> I) [0..<n])"
  by (induction n) (simp_all add: nths_append)

text \<open>
  The authenticated link is a lossy first-in first-out channel. When a fresh sender wraps up to
  2^32 payloads of at most 316 bytes and any subset of the envelopes arrives in order at a fresh
  receiver with the same key, every one that arrives is accepted and the receiver delivers exactly the
  corresponding payloads in order.
\<close>

theorem secure_link_is_lossy_fifo:
  assumes "stack_ok st" "stack_ok st'" "key_len \<le> length key"
    and "\<forall>p \<in> set ps. length p \<le> 316" "length ps \<le> 2 ^ 32"
  shows "\<exists>ws. send_all st (xrce_secure_init key key_len) ps = Some ws \<and>
     recv_all st' (xrce_secure_init key key_len) (nths ws I) = Some (map (Pair XRCE_SECURE_OK) (nths ps I))"
proof -
  let ?ctx = "xrce_secure_init key key_len"
  let ?js = "filter (\<lambda>i. i \<in> I) [0..<length ps]"
  let ?cps = "map (\<lambda>i. (of_nat i :: u32, ps ! i)) ?js"
  have k: "key_ok ?ctx" "\<not> have_received ?ctx" "send_counter ?ctx = 0"
    using assms(3) by (simp_all add: key_ok_def xrce_secure_init_def)
  have s: "send_all st ?ctx ps = Some (map (\<lambda>i. envelope (key_of ?ctx) (of_nat i) (ps ! i)) [0..<length ps])" (is "_ = Some ?ws")
    using send_all_envelopes[OF assms(1) k(1) assms(4)] k(3) by simp
  have w: "nths ?ws I = map (\<lambda>(c, p). envelope (key_of ?ctx) c p) ?cps"
    by (simp add: nths_map_upt o_def)
  have p: "nths ps I = map (\<lambda>i. ps ! i) ?js"
    using nths_map_upt[of "\<lambda>i. ps ! i" "length ps" I] by (simp add: map_nth)
  have lt: "(of_nat i :: u32) < of_nat j" if "i < j" "j < 2 ^ 32" for i j :: nat
    using that by (simp add: word_less_nat_alt unat_of_nat)
  have "sorted_wrt (<) ?js" by (simp add: sorted_wrt_filter)
  then have "sorted_wrt (\<lambda>i j. (of_nat i :: u32) < of_nat j) ?js"
    by (rule sorted_wrt_mono_rel[rotated]) (use assms(5) in \<open>auto intro!: lt\<close>)
  then have so: "sorted_wrt (<) (map fst ?cps)" by (simp add: sorted_wrt_map o_def)
  have le: "\<forall>p \<in> set (map snd ?cps). length p \<le> 316" using assms(4) by auto
  have "recv_all st' ?ctx (nths ?ws I) = Some (map (Pair XRCE_SECURE_OK) (nths ps I))"
    unfolding w p using recv_all_fresh[OF assms(2) k(1) le so] k(2) by (simp add: o_def)
  then show ?thesis using s by blast
qed

theorem secure_link_is_lossy_fifo_witness:
  "\<exists>ws. send_all zero_stack (xrce_secure_init [1, 2] 2) [[5], [6, 7], []] = Some ws \<and>
     recv_all zero_stack (xrce_secure_init [1, 2] 2) (nths ws {0, 2}) = Some [(XRCE_SECURE_OK, [5]), (XRCE_SECURE_OK, [])]"
  using secure_link_is_lossy_fifo[OF zero_stack_ok zero_stack_ok, of 2 "[1, 2]" "[[5], [6, 7], []]" "{0, 2}"]
  by (simp add: nths_Cons)

end
