(* ===== verification/Session.thy ===== *)
theory Session
  imports Cdr
begin

text \<open>
  \<^verbatim>\<open>xrce/src/session.c\<close> and \<^verbatim>\<open>session.h\<close>: the XRCE session layer. Builders return the size, the session
  and the buffer; parsers return whether they accept, with their out-parameters. \<^verbatim>\<open>out_sample\<close>
  points into the received message: it is modelled by the bytes from there to the end.
\<close>

section \<open>Data\<close>

abbreviation XRCE_SUBMSG_CREATE_CLIENT :: u8 where "XRCE_SUBMSG_CREATE_CLIENT \<equiv> 0"
abbreviation XRCE_SUBMSG_CREATE :: u8 where "XRCE_SUBMSG_CREATE \<equiv> 1"
abbreviation XRCE_SUBMSG_DELETE :: u8 where "XRCE_SUBMSG_DELETE \<equiv> 3"
abbreviation XRCE_SUBMSG_STATUS_AGENT :: u8 where "XRCE_SUBMSG_STATUS_AGENT \<equiv> 4"
abbreviation XRCE_SUBMSG_STATUS :: u8 where "XRCE_SUBMSG_STATUS \<equiv> 5"
abbreviation XRCE_SUBMSG_WRITE_DATA :: u8 where "XRCE_SUBMSG_WRITE_DATA \<equiv> 7"
abbreviation XRCE_SUBMSG_READ_DATA :: u8 where "XRCE_SUBMSG_READ_DATA \<equiv> 8"
abbreviation XRCE_SUBMSG_DATA :: u8 where "XRCE_SUBMSG_DATA \<equiv> 9"
abbreviation XRCE_SUBMSG_ACKNACK :: u8 where "XRCE_SUBMSG_ACKNACK \<equiv> 10"
abbreviation XRCE_SUBMSG_HEARTBEAT :: u8 where "XRCE_SUBMSG_HEARTBEAT \<equiv> 11"
abbreviation XRCE_FORMAT_DATA :: u8 where "XRCE_FORMAT_DATA \<equiv> 0"
abbreviation XRCE_FLAG_ENDIANNESS_LE :: u8 where "XRCE_FLAG_ENDIANNESS_LE \<equiv> 1"
abbreviation XRCE_REPRESENTATION_AS_XML_STRING :: u8 where "XRCE_REPRESENTATION_AS_XML_STRING \<equiv> 2"
abbreviation XRCE_STATUS_OK :: u8 where "XRCE_STATUS_OK \<equiv> 0"
abbreviation XRCE_STATUS_OK_MATCHED :: u8 where "XRCE_STATUS_OK_MATCHED \<equiv> 1"

record object_id =
  oid :: u16
  okind :: u8

record session =
  session_id :: u8
  client_key :: bytes
  mtu :: u16
  next_request_id :: u16
  out_seq_num :: u16

section \<open>Operations\<close>

definition xrce_object_id :: "u16 \<Rightarrow> u8 \<Rightarrow> object_id" where
  "xrce_object_id i kind = \<lparr>oid = i, okind = kind\<rparr>"

definition write_u16 :: "u16 \<Rightarrow> writer_op" where
  "write_u16 v = xrce_cdr_write_i16 v"

definition read_u16 :: "u16 reader_op" where
  "read_u16 = (\<lambda>(r, out).
     case xrce_cdr_read_i16 (r, 0) of (ok, r, v) \<Rightarrow> if \<not> ok then (False, r, out) else (True, r, v))"

definition write_object_id :: "object_id \<Rightarrow> writer_op" where
  "write_object_id x =
     (let raw = [ucast (drop_bit 4 (oid x)), ucast (push_bit 4 (oid x)) OR (okind x AND 0x0F)]
      in xrce_cdr_write_bytes raw 2)"

definition read_object_id :: "object_id reader_op" where
  "read_object_id = (\<lambda>(r, x).
     case xrce_cdr_read_bytes 2 (r, [0, 0]) of
       (ok, r, raw) \<Rightarrow>
         if \<not> ok then (False, r, x)
         else (True, r, x\<lparr>oid := push_bit 4 (ucast (raw ! 0)) OR ucast (drop_bit 4 (raw ! 1)),
                         okind := raw ! 1 AND 0x0F\<rparr>))"

definition write_base_object_request :: "u16 \<Rightarrow> object_id \<Rightarrow> writer_op" where
  "write_base_object_request request_id object_id =
     and_then (xrce_cdr_write_bytes [byte_at 8 request_id, byte_at 0 request_id] 2) (write_object_id object_id)"

definition write_message_header :: "u8 \<Rightarrow> u8 \<Rightarrow> u16 \<Rightarrow> bytes \<Rightarrow> writer_op" where
  "write_message_header sid stream_id seq_num key =
     all_of [xrce_cdr_write_u8 sid, xrce_cdr_write_u8 stream_id, write_u16 seq_num, xrce_cdr_write_bytes key 4]"

text \<open>The out-parameter \<^verbatim>\<open>header_pos\<close> is the position of the writer before the call.\<close>

definition submessage_header_at :: "u8 \<Rightarrow> u8 \<Rightarrow> writer_op" where
  "submessage_header_at i flags = all_of [xrce_cdr_write_u8 i, xrce_cdr_write_u8 flags, write_u16 0]"

definition backpatch_length :: "bytes \<Rightarrow> nat \<Rightarrow> nat \<Rightarrow> bytes" where
  "backpatch_length buf header_pos payload_len =
     buf[header_pos + 2 := of_nat (payload_len mod 256), header_pos + 3 := of_nat (payload_len div 256 mod 256)]"

definition xrce_session_init :: "u8 \<Rightarrow> bytes \<Rightarrow> u16 \<Rightarrow> session" where
  "xrce_session_init sid key m =
     \<lparr>session_id = sid, client_key = take 4 key, mtu = m, next_request_id = 9, out_seq_num = 0\<rparr>"

text \<open>
  The common tail of the builders: submessage header, payload, length. \<open>on_header\<close> is what the
  session becomes once the submessage header is written.
\<close>

definition finish_submessage ::
  "u8 \<Rightarrow> writer_op list \<Rightarrow> session \<Rightarrow> (session \<Rightarrow> session) \<Rightarrow> writer \<Rightarrow> nat \<times> session \<times> bytes" where
  "finish_submessage sub payload s on_header w =
     (let header_pos = wpos w in
      case submessage_header_at sub XRCE_FLAG_ENDIANNESS_LE w of
        (ok, w) \<Rightarrow>
          if \<not> ok then (0, s, wbuf w)
          else
            (let payload_start = wpos w; s = on_header s in
             case all_of payload w of
               (ok, w) \<Rightarrow>
                 if \<not> ok then (0, s, wbuf w)
                 else (wpos w, s, backpatch_length (wbuf w) header_pos (wpos w - payload_start))))"

definition xrce_session_build_create_client :: "session \<Rightarrow> bytes \<Rightarrow> nat \<Rightarrow> nat \<times> bytes" where
  "xrce_session_build_create_client s buf cap =
     (case write_message_header 0 0 0 (client_key s) (xrce_cdr_writer_init buf cap) of
        (ok, w) \<Rightarrow>
          if \<not> ok then (0, wbuf w)
          else
            (case finish_submessage XRCE_SUBMSG_CREATE_CLIENT
               [xrce_cdr_write_bytes [0x58, 0x52, 0x43, 0x45] 4, xrce_cdr_write_bytes [0x01, 0x00] 2,
                xrce_cdr_write_bytes [0x01, 0x0F] 2, xrce_cdr_write_bytes (client_key s) 4,
                xrce_cdr_write_u8 (session_id s), xrce_cdr_write_bool False, write_u16 (mtu s)] s id w of
               (n, _, buf) \<Rightarrow> (n, buf)))"

definition skip_message_header :: "reader \<Rightarrow> bool \<times> reader" where
  "skip_message_header r =
     (if rlen r < 2 then (False, r)
      else
        (let header_len = (if rbuf r ! 0 < 0x80 then 8 else 4) in
         if rlen r < header_len then (False, r) else (True, r\<lparr>rpos := header_len\<rparr>)))"

text \<open>The opening lines of every parser: the reader behind the submessage header, and its id.\<close>

definition open_submessage :: "bytes \<Rightarrow> nat \<Rightarrow> (u8 \<times> reader) option" where
  "open_submessage buf len =
     (case skip_message_header (xrce_cdr_reader_init buf len) of
        (ok, r) \<Rightarrow>
          if \<not> ok then None
          else
            (case xrce_cdr_read_u8 (r, 0) of
               (ok, r, i) \<Rightarrow>
                 if \<not> ok then None
                 else
                   (case xrce_cdr_read_u8 (r, 0) of
                      (ok, r, flags) \<Rightarrow>
                        if \<not> ok then None
                        else (case read_u16 (r, 0) of (ok, r, sub_len) \<Rightarrow> if \<not> ok then None else Some (i, r)))))"

definition xrce_session_parse_create_client_reply :: "bytes \<Rightarrow> nat \<Rightarrow> bool" where
  "xrce_session_parse_create_client_reply buf len =
     (case open_submessage buf len of
        None \<Rightarrow> False
      | Some (i, r) \<Rightarrow>
          if i \<noteq> XRCE_SUBMSG_STATUS_AGENT then False
          else (case xrce_cdr_read_u8 (r, 0) of
                  (ok, r, status) \<Rightarrow>
                    if \<not> ok then False else status = XRCE_STATUS_OK \<or> status = XRCE_STATUS_OK_MATCHED))"

text \<open>The builders of numbered requests: the header takes a sequence number, the payload a request id.\<close>

definition build_request ::
  "session \<Rightarrow> u8 \<Rightarrow> u8 \<Rightarrow> (u16 \<Rightarrow> writer_op list) \<Rightarrow> bytes \<Rightarrow> nat \<Rightarrow> nat \<times> session \<times> bytes" where
  "build_request s stream_id_raw sub payload buf cap =
     (case write_message_header (session_id s) stream_id_raw (out_seq_num s) (client_key s) (xrce_cdr_writer_init buf cap) of
        (ok, w) \<Rightarrow>
          if \<not> ok then (0, s, wbuf w)
          else
            (let s = s\<lparr>out_seq_num := out_seq_num s + 1\<rparr>;
                 request_id = next_request_id s
             in finish_submessage sub (payload request_id) s (\<lambda>s. s\<lparr>next_request_id := next_request_id s + 1\<rparr>) w))"

definition build_create ::
  "session \<Rightarrow> u8 \<Rightarrow> object_id \<Rightarrow> bytes \<Rightarrow> bool \<Rightarrow> u16 \<Rightarrow> object_id \<Rightarrow> bytes \<Rightarrow> nat \<Rightarrow> nat \<times> session \<times> bytes" where
  "build_create s stream_id_raw object_id xml is_participant domain_id parent_id =
     build_request s stream_id_raw XRCE_SUBMSG_CREATE (\<lambda>request_id.
       [write_base_object_request request_id object_id, xrce_cdr_write_u8 (okind object_id),
        xrce_cdr_write_u8 XRCE_REPRESENTATION_AS_XML_STRING, xrce_cdr_write_string xml,
        if is_participant then xrce_cdr_write_i16 domain_id else write_object_id parent_id])"

definition xrce_session_build_create_participant ::
  "session \<Rightarrow> u8 \<Rightarrow> object_id \<Rightarrow> u16 \<Rightarrow> bytes \<Rightarrow> bytes \<Rightarrow> nat \<Rightarrow> nat \<times> session \<times> bytes" where
  "xrce_session_build_create_participant s stream_id_raw object_id domain_id xml =
     build_create s stream_id_raw object_id xml True domain_id \<lparr>oid = 0, okind = 0\<rparr>"

definition xrce_session_build_create_xml ::
  "session \<Rightarrow> u8 \<Rightarrow> object_id \<Rightarrow> object_id \<Rightarrow> bytes \<Rightarrow> bytes \<Rightarrow> nat \<Rightarrow> nat \<times> session \<times> bytes" where
  "xrce_session_build_create_xml s stream_id_raw object_id parent_id xml =
     build_create s stream_id_raw object_id xml False 0 parent_id"

definition parse_status_reply :: "bytes \<Rightarrow> nat \<Rightarrow> bool" where
  "parse_status_reply buf len =
     (case open_submessage buf len of
        None \<Rightarrow> False
      | Some (i, r) \<Rightarrow>
          if i \<noteq> XRCE_SUBMSG_STATUS then False
          else
            (case xrce_cdr_read_bytes 4 (r, [0, 0, 0, 0]) of
               (ok, r, related_request) \<Rightarrow>
                 if \<not> ok then False
                 else (case xrce_cdr_read_u8 (r, 0) of
                         (ok, r, status) \<Rightarrow>
                           if \<not> ok then False else status = XRCE_STATUS_OK \<or> status = XRCE_STATUS_OK_MATCHED)))"

definition xrce_session_parse_create_reply :: "bytes \<Rightarrow> nat \<Rightarrow> bool" where
  "xrce_session_parse_create_reply buf len = parse_status_reply buf len"

definition xrce_session_build_write_data ::
  "session \<Rightarrow> u8 \<Rightarrow> object_id \<Rightarrow> bytes \<Rightarrow> nat \<Rightarrow> bytes \<Rightarrow> nat \<Rightarrow> nat \<times> session \<times> bytes" where
  "xrce_session_build_write_data s stream_id_raw datawriter_id sample sample_len =
     build_request s stream_id_raw XRCE_SUBMSG_WRITE_DATA (\<lambda>request_id.
       [write_base_object_request request_id datawriter_id, xrce_cdr_write_bytes sample sample_len])"

definition xrce_session_build_read_data ::
  "session \<Rightarrow> u8 \<Rightarrow> object_id \<Rightarrow> u8 \<Rightarrow> bytes \<Rightarrow> nat \<Rightarrow> nat \<times> session \<times> bytes" where
  "xrce_session_build_read_data s stream_id_raw datareader_id preferred_stream_id_raw =
     build_request s stream_id_raw XRCE_SUBMSG_READ_DATA (\<lambda>request_id.
       [write_base_object_request request_id datareader_id, xrce_cdr_write_u8 preferred_stream_id_raw,
        xrce_cdr_write_u8 XRCE_FORMAT_DATA, xrce_cdr_write_bool False, xrce_cdr_write_bool True,
        write_u16 0xFFFF, write_u16 0, write_u16 0, write_u16 0])"

definition xrce_session_parse_data ::
  "bytes \<Rightarrow> nat \<Rightarrow> object_id \<Rightarrow> bytes \<Rightarrow> nat \<Rightarrow> bool \<times> object_id \<times> bytes \<times> nat" where
  "xrce_session_parse_data buf len out_object_id out_sample out_sample_len =
     (case open_submessage buf len of
        None \<Rightarrow> (False, out_object_id, out_sample, out_sample_len)
      | Some (i, r) \<Rightarrow>
          if i \<noteq> XRCE_SUBMSG_DATA then (False, out_object_id, out_sample, out_sample_len)
          else
            (case xrce_cdr_read_bytes 2 (r, [0, 0]) of
               (ok, r, request_id_raw) \<Rightarrow>
                 if \<not> ok then (False, out_object_id, out_sample, out_sample_len)
                 else
                   (case read_object_id (r, out_object_id) of
                      (ok, r, out_object_id) \<Rightarrow>
                        if \<not> ok then (False, out_object_id, out_sample, out_sample_len)
                        else (True, out_object_id, drop (rpos r) (take len buf), rlen r - rpos r))))"

definition xrce_session_build_delete ::
  "session \<Rightarrow> u8 \<Rightarrow> object_id \<Rightarrow> bytes \<Rightarrow> nat \<Rightarrow> nat \<times> session \<times> bytes" where
  "xrce_session_build_delete s stream_id_raw object_id =
     build_request s stream_id_raw XRCE_SUBMSG_DELETE (\<lambda>request_id. [write_base_object_request request_id object_id])"

definition xrce_session_parse_delete_reply :: "bytes \<Rightarrow> nat \<Rightarrow> bool" where
  "xrce_session_parse_delete_reply buf len = parse_status_reply buf len"

definition xrce_reliable_stream_raw_id :: "u8 \<Rightarrow> u8" where
  "xrce_reliable_stream_raw_id index = index + 128"

definition xrce_session_build_heartbeat ::
  "session \<Rightarrow> u8 \<Rightarrow> u8 \<Rightarrow> u16 \<Rightarrow> u16 \<Rightarrow> bytes \<Rightarrow> nat \<Rightarrow> nat \<times> bytes" where
  "xrce_session_build_heartbeat s stream_id_raw target_stream_raw first_unacked last_sent buf cap =
     (case write_message_header (session_id s) 0 0 (client_key s) (xrce_cdr_writer_init buf cap) of
        (ok, w) \<Rightarrow>
          if \<not> ok then (0, wbuf w)
          else
            (case finish_submessage XRCE_SUBMSG_HEARTBEAT
               [write_u16 first_unacked, write_u16 last_sent, xrce_cdr_write_u8 target_stream_raw] s id w of
               (n, _, buf) \<Rightarrow> (n, buf)))"

definition xrce_session_parse_acknack :: "bytes \<Rightarrow> nat \<Rightarrow> u16 \<Rightarrow> u16 \<Rightarrow> bool \<times> u16 \<times> u16" where
  "xrce_session_parse_acknack buf len out_first_unacked out_bitmap =
     (case open_submessage buf len of
        None \<Rightarrow> (False, out_first_unacked, out_bitmap)
      | Some (i, r) \<Rightarrow>
          if i \<noteq> XRCE_SUBMSG_ACKNACK then (False, out_first_unacked, out_bitmap)
          else
            (case read_u16 (r, out_first_unacked) of
               (ok, r, out_first_unacked) \<Rightarrow>
                 if \<not> ok then (False, out_first_unacked, out_bitmap)
                 else
                   (case xrce_cdr_read_bytes 2 (r, [0, 0]) of
                      (ok, r, bitmap_bytes) \<Rightarrow>
                        if \<not> ok then (False, out_first_unacked, out_bitmap)
                        else
                          (case xrce_cdr_read_u8 (r, 0) of
                             (ok, r, target_stream) \<Rightarrow>
                               if \<not> ok then (False, out_first_unacked, out_bitmap)
                               else (True, out_first_unacked,
                                     ucast (bitmap_bytes ! 0) OR push_bit 8 (ucast (bitmap_bytes ! 1)))))))"

section \<open>The wire format\<close>

definition object_id_bytes :: "object_id \<Rightarrow> bytes" where
  "object_id_bytes x = [ucast (drop_bit 4 (oid x)), ucast (push_bit 4 (oid x)) OR (okind x AND 0x0F)]"

definition message_bytes :: "u8 \<Rightarrow> u8 \<Rightarrow> u16 \<Rightarrow> bytes \<Rightarrow> u8 \<Rightarrow> bytes \<Rightarrow> bytes" where
  "message_bytes sid stream seq key sub payload =
     [sid, stream] @ le_bytes 2 seq @ key @ [sub, 1] @
     [of_nat (length payload mod 256), of_nat (length payload div 256 mod 256)] @ payload"

section \<open>Lemmas: builders\<close>

lemma wire_i16_even: "even off \<Longrightarrow> wire_i16 v off = le_bytes 2 v"
  by (simp add: wire_i16_def padded_def)

lemma writes_u16: "writes (write_u16 v) (wire_i16 v)"
  by (simp add: write_u16_def writes_i16)

lemma writes_object_id: "writes (write_object_id x) (wire_bytes (object_id_bytes x))"
  using writes_bytes[of 2 "object_id_bytes x"] by (simp add: write_object_id_def object_id_bytes_def)

lemma be_bytes_2: "be_bytes 2 (v :: u16) = [byte_at 8 v, byte_at 0 v]"
  by (simp add: be_bytes_def numeral_2_eq_2)

lemma wire_seq_bytes: "wire_seq (wire_bytes a) (wire_bytes b) = wire_bytes (a @ b)"
  by (simp add: fun_eq_iff wire_seq_def wire_bytes_def)

lemma writes_base_object_request:
  "writes (write_base_object_request rid x) (wire_bytes (be_bytes 2 rid @ object_id_bytes x))"
  using writes_and_then[OF writes_bytes[of 2 "[byte_at 8 rid, byte_at 0 rid]"] writes_object_id[of x]]
  by (simp add: write_base_object_request_def be_bytes_2 wire_seq_bytes)

definition wire_header :: "u8 \<Rightarrow> u8 \<Rightarrow> u16 \<Rightarrow> bytes \<Rightarrow> wire" where
  "wire_header sid stream seq key = wire_all [wire_u8 sid, wire_u8 stream, wire_i16 seq, wire_bytes (take 4 key)]"

lemma writes_message_header:
  "4 \<le> length key \<Longrightarrow> writes (write_message_header sid stream seq key) (wire_header sid stream seq key)"
  unfolding write_message_header_def wire_header_def
  by (intro writes_all_of) (simp add: writes_u8 writes_u16 writes_bytes)

lemma header_bytes: "wire_header sid stream seq key 0 = [sid, stream] @ le_bytes 2 seq @ take 4 key"
  by (simp add: wire_header_def wire_seq_def wire_u8_def wire_bytes_def wire_i16_even)

definition wire_subheader :: "u8 \<Rightarrow> wire" where
  "wire_subheader sub = wire_all [wire_u8 sub, wire_u8 1, wire_i16 0]"

lemma writes_subheader: "writes (submessage_header_at sub 1) (wire_subheader sub)"
  unfolding submessage_header_at_def wire_subheader_def
  by (intro writes_all_of) (simp add: writes_u8 writes_u16)

lemma subheader_bytes:
  assumes "even off"
  shows "wire_subheader sub off = [sub, 1, 0, 0]"
proof -
  have "le_bytes 2 (0 :: u16) = [0, 0]" by (simp add: le_bytes_def numeral_2_eq_2 byte_at_def)
  then have "wire_i16 0 (Suc (Suc off)) = [0, 0]" using assms by (simp add: wire_i16_even)
  then show ?thesis by (simp add: wire_subheader_def wire_seq_def wire_u8_def)
qed

lemma backpatch_blit:
  assumes "h + 4 + length p \<le> length buf"
  shows "backpatch_length (blit h ([sub, 1, 0, 0] @ p) buf) h n =
     blit h ([sub, 1, of_nat (n mod 256), of_nat (n div 256 mod 256)] @ p) buf"
proof -
  have "length (take h buf) = h" using assms by simp
  then show ?thesis
    by (simp add: backpatch_length_def blit_def list_update_append numeral_2_eq_2 numeral_3_eq_3)
qed

text \<open>What a failed build leaves alone: the buffer's size and everything from the capacity on.\<close>

definition buffer_kept :: "nat \<Rightarrow> bytes \<Rightarrow> bytes \<Rightarrow> bool" where
  "buffer_kept cap buf buf' \<longleftrightarrow> length buf' = length buf \<and> drop cap buf' = drop cap buf"

lemma finish_exact:
  assumes wf: "wf_writer w" and pos: "wpos w = 8" "walign_base w = 0"
    and wr: "writes (all_of payload) wr" and p: "p = wr 12"
  shows "12 + length p \<le> wcap w \<Longrightarrow> finish_submessage sub payload s on_header w =
      (12 + length p, on_header s,
       blit 8 ([sub, 1, of_nat (length p mod 256), of_nat (length p div 256 mod 256)] @ p) (wbuf w))"
    and "\<not> 12 + length p \<le> wcap w \<Longrightarrow> (case finish_submessage sub payload s on_header w of (n, s', buf) \<Rightarrow>
      n = 0 \<and> s' = (if 12 \<le> wcap w then on_header s else s) \<and> buffer_kept (wcap w) (wbuf w) buf)"
proof -
  let ?h = "[sub, 1, 0, 0]"
  have h: "wire_subheader sub (wpos w - walign_base w) = ?h" using pos by (simp add: subheader_bytes)
  note sub = writesD[OF writes_subheader[of sub] wf, unfolded h]
  let ?w = "append_bytes ?h w"
  have len: "wcap w \<le> length (wbuf w)" using wf by (simp add: wf_writer_def)
  have wf': "wf_writer ?w" if "12 \<le> wcap w" using that pos wf by (intro wf_append) simp_all
  have off: "wpos ?w - walign_base ?w = 12" using pos by simp
  have start: "submessage_header_at sub 1 w = (True, ?w)" if "12 \<le> wcap w" using sub(1) that pos by simp
  {
    assume fits: "12 + length p \<le> wcap w"
    then have c: "12 \<le> wcap w" by simp
    have "all_of payload ?w = (True, append_bytes p ?w)"
      using writesD(1)[OF wr wf'[OF c]] fits pos off p by simp
    moreover have "append_bytes p ?w = append_bytes (?h @ p) w" using fits len pos by (intro append_append) simp
    ultimately show "finish_submessage sub payload s on_header w = (12 + length p, on_header s,
       blit 8 ([sub, 1, of_nat (length p mod 256), of_nat (length p div 256 mod 256)] @ p) (wbuf w))"
      using start[OF c] pos fits len backpatch_blit[of 8 p "wbuf w" sub "length p"]
      by (simp add: finish_submessage_def Let_def)
  next
    assume no: "\<not> 12 + length p \<le> wcap w"
    show "case finish_submessage sub payload s on_header w of (n, s', buf) \<Rightarrow>
      n = 0 \<and> s' = (if 12 \<le> wcap w then on_header s else s) \<and> buffer_kept (wcap w) (wbuf w) buf"
    proof (cases "12 \<le> wcap w")
      case True
      have "\<not> fst (all_of payload ?w) \<and> writer_frame ?w (snd (all_of payload ?w))"
        using writesD(2)[OF wr wf'[OF True]] no pos off p by simp
      moreover have "writer_frame w ?w" using True pos wf by (intro frame_append) simp_all
      ultimately have f: "\<not> fst (all_of payload ?w)" "writer_frame w (snd (all_of payload ?w))"
        by (auto intro: frame_trans)
      then show ?thesis
        using start[OF True] True
        by (cases "all_of payload ?w") (simp add: finish_submessage_def Let_def writer_frame_def buffer_kept_def)
    next
      case False
      with sub(2) pos have "\<not> fst (submessage_header_at sub 1 w)" "writer_frame w (snd (submessage_header_at sub 1 w))"
        by simp_all
      with False show ?thesis
        by (cases "submessage_header_at sub 1 w") (simp add: finish_submessage_def Let_def writer_frame_def buffer_kept_def)
    qed
  }
qed

lemma header_exact:
  assumes "cap \<le> length buf" "length key = 4" "h = [sid, stream] @ le_bytes 2 seq @ key"
  shows "8 \<le> cap \<Longrightarrow> write_message_header sid stream seq key (xrce_cdr_writer_init buf cap) =
      (True, \<lparr>wbuf = blit 0 h buf, wcap = cap, wpos = 8, walign_base = 0\<rparr>)"
    and "\<not> 8 \<le> cap \<Longrightarrow> (case write_message_header sid stream seq key (xrce_cdr_writer_init buf cap) of
      (ok, w) \<Rightarrow> \<not> ok \<and> buffer_kept cap buf (wbuf w))"
proof -
  let ?w = "xrce_cdr_writer_init buf cap"
  have wf: "wf_writer ?w" using assms(1) by (simp add: wf_writer_def xrce_cdr_writer_init_def)
  have h: "wire_header sid stream seq key (wpos ?w - walign_base ?w) = h"
    using assms(2,3) by (simp add: header_bytes xrce_cdr_writer_init_def)
  note d = writesD[OF writes_message_header[of key sid stream seq] wf, unfolded h]
  have l: "length h = 8" using assms(2,3) by simp
  show "write_message_header sid stream seq key ?w = (True, \<lparr>wbuf = blit 0 h buf, wcap = cap, wpos = 8, walign_base = 0\<rparr>)"
    if "8 \<le> cap"
    using d(1) that l assms(2) by (simp add: append_bytes_def xrce_cdr_writer_init_def)
  show "case write_message_header sid stream seq key ?w of (ok, w) \<Rightarrow> \<not> ok \<and> buffer_kept cap buf (wbuf w)"
    if "\<not> 8 \<le> cap"
    using d(2) that l assms(2)
    by (cases "write_message_header sid stream seq key ?w") (simp add: writer_frame_def buffer_kept_def xrce_cdr_writer_init_def)
qed

lemma length_message: "length key = 4 \<Longrightarrow> length (message_bytes sid stream seq key sub p) = 12 + length p"
  by (simp add: message_bytes_def)

lemma build_request_exact:
  assumes "cap \<le> length buf" "length (client_key s) = 4"
    and "writes (all_of (payload (next_request_id s))) wr" "p = wr 12"
    and "m = message_bytes (session_id s) stream (out_seq_num s) (client_key s) sub p"
  shows "length m \<le> cap \<Longrightarrow> build_request s stream sub payload buf cap =
      (length m, s\<lparr>out_seq_num := out_seq_num s + 1, next_request_id := next_request_id s + 1\<rparr>, m @ drop (length m) buf)"
    and "\<not> length m \<le> cap \<Longrightarrow> (case build_request s stream sub payload buf cap of (n, s', buf') \<Rightarrow>
      n = 0 \<and> s' = s\<lparr>out_seq_num := out_seq_num s + (if 8 \<le> cap then 1 else 0),
                     next_request_id := next_request_id s + (if 12 \<le> cap then 1 else 0)\<rparr> \<and> buffer_kept cap buf buf')"
proof -
  let ?h = "[session_id s, stream] @ le_bytes 2 (out_seq_num s) @ client_key s"
  let ?b = "blit 0 ?h buf"
  let ?w = "\<lparr>wbuf = ?b, wcap = cap, wpos = 8, walign_base = 0\<rparr>"
  let ?s = "s\<lparr>out_seq_num := out_seq_num s + 1\<rparr>"
  note hd = header_exact[OF assms(1,2) refl, of "session_id s" stream "out_seq_num s"]
  have lm: "length m = 12 + length p" using assms(2,5) by (simp add: length_message)
  have lh: "length ?h = 8" using assms(2) by simp
  have wf: "wf_writer ?w" if "8 \<le> cap" using that assms(1) lh by (simp add: wf_writer_def)
  note fin = finish_exact[OF wf _ _ assms(3,4), where sub = sub and s = ?s and on_header = "\<lambda>s. s\<lparr>next_request_id := next_request_id s + 1\<rparr>"]
  have kept: "buffer_kept cap buf ?b" if "8 \<le> cap" using that assms(1) lh by (simp add: buffer_kept_def)
  have bb: "blit 8 ([sub, 1, of_nat (length p mod 256), of_nat (length p div 256 mod 256)] @ p) ?b = blit 0 m buf"
    if "length m \<le> cap"
    using blit_blit[of 0 ?h "[sub, 1, of_nat (length p mod 256), of_nat (length p div 256 mod 256)] @ p" buf]
      that lm lh assms(1,5) by (simp add: message_bytes_def)
  show "build_request s stream sub payload buf cap =
      (length m, s\<lparr>out_seq_num := out_seq_num s + 1, next_request_id := next_request_id s + 1\<rparr>, m @ drop (length m) buf)"
    if "length m \<le> cap"
    using that hd(1) fin(1) bb lm by (simp add: build_request_def Let_def blit_def)
  show "case build_request s stream sub payload buf cap of (n, s', buf') \<Rightarrow>
      n = 0 \<and> s' = s\<lparr>out_seq_num := out_seq_num s + (if 8 \<le> cap then 1 else 0),
                     next_request_id := next_request_id s + (if 12 \<le> cap then 1 else 0)\<rparr> \<and> buffer_kept cap buf buf'"
    if "\<not> length m \<le> cap"
  proof (cases "8 \<le> cap")
    case True
    then show ?thesis
      using that hd(1) fin(2) kept lm
      by (cases "finish_submessage sub (payload (next_request_id s)) ?s (\<lambda>s. s\<lparr>next_request_id := next_request_id s + 1\<rparr>) ?w")
         (simp add: build_request_def Let_def buffer_kept_def)
  next
    case False
    then show ?thesis using hd(2) by (auto simp: build_request_def split: prod.splits)
  qed
qed

text \<open>The payloads of the requests.\<close>

lemma wire_all_bytes: "wire_all [wire_bytes a, wire_bytes b] = wire_bytes (a @ b)"
  by (simp add: fun_eq_iff wire_seq_def wire_bytes_def)

lemma writes_write_data:
  assumes "n \<le> length sample"
  shows "writes (all_of [write_base_object_request rid x, xrce_cdr_write_bytes sample n])
     (wire_bytes (be_bytes 2 rid @ object_id_bytes x @ take n sample))"
proof -
  have "writes (all_of [write_base_object_request rid x, xrce_cdr_write_bytes sample n])
      (wire_all [wire_bytes (be_bytes 2 rid @ object_id_bytes x), wire_bytes (take n sample)])"
    by (intro writes_all_of) (simp add: writes_base_object_request writes_bytes assms)
  then show ?thesis unfolding wire_all_bytes by simp
qed

lemma writes_delete:
  "writes (all_of [write_base_object_request rid x]) (wire_bytes (be_bytes 2 rid @ object_id_bytes x))"
proof -
  have "all_of [write_base_object_request rid x] = write_base_object_request rid x"
    by (rule ext) (rule all_of_single)
  then show ?thesis by (simp only: writes_base_object_request)
qed

section \<open>Lemmas: parsers\<close>

lemma open_message:
  assumes "sid < 0x80" "length key = 4" "12 \<le> n"
    and buf: "buf = message_bytes sid stream seq key sub p"
  shows "open_submessage buf n = Some (sub, \<lparr>rbuf = buf, rlen = n, rpos = 12, ralign_base = 0\<rparr>)"
proof -
  obtain k0 k1 k2 k3 where k: "key = [k0, k1, k2, k3]"
    using assms(2) by (auto simp: numeral_eq_Suc length_Suc_conv)
  obtain s0 s1 where q: "le_bytes 2 seq = [s0, s1]"
    by (simp add: le_bytes_def numeral_2_eq_2)
  have b: "buf = [sid, stream, s0, s1, k0, k1, k2, k3, sub, 1, of_nat (length p mod 256), of_nat (length p div 256 mod 256)] @ p"
    unfolding buf message_bytes_def k q by simp
  obtain k where n: "n = 12 + k" using assms(3) le_Suc_ex by blast
  have "buf ! 0 = sid" "buf ! 8 = sub" using b by simp_all
  then show ?thesis
    using assms(1) n
    by (simp add: open_submessage_def skip_message_header_def xrce_cdr_reader_init_def xrce_cdr_read_u8_def ensure_def
        read_u16_def xrce_cdr_read_i16_def align_reader_def Let_def)
qed

lemma open_short: "len < 12 \<Longrightarrow> buf ! 0 < 0x80 \<Longrightarrow> open_submessage buf len = None"
  by (auto simp: open_submessage_def skip_message_header_def xrce_cdr_reader_init_def xrce_cdr_read_u8_def ensure_def
      read_u16_def xrce_cdr_read_i16_def align_reader_def Let_def)

lemma bit_below:
  fixes w :: "'a::len word"
  assumes "unat w < 2 ^ n" "bit w i"
  shows "i < n"
proof -
  have "take_bit n w = w"
    using assms(1) by (simp add: word_unat_eq_iff unsigned_take_bit_eq take_bit_nat_eq_self)
  with assms(2) show ?thesis by (metis bit_take_bit_iff)
qed

lemma object_id_fields:
  assumes "oid x < 4096" "okind x < 16" "raw = object_id_bytes x"
  shows "push_bit 4 (ucast (raw ! 0)) OR ucast (drop_bit 4 (raw ! 1)) = oid x" "raw ! 1 AND 0x0F = okind x"
proof -
  have o: "bit (oid x) i \<Longrightarrow> i < 12" and k: "bit (okind x) i \<Longrightarrow> i < 4" for i
    using bit_below[of "oid x" 12 i] bit_below[of "okind x" 4 i] assms(1,2) by (simp_all add: word_less_nat_alt)
  have f: "(0x0F :: u8) = mask 4" by (simp add: mask_numeral)
  have r: "raw ! 0 = ucast (drop_bit 4 (oid x))" "raw ! 1 = ucast (push_bit 4 (oid x)) OR (okind x AND 0x0F)"
    using assms(3) by (simp_all add: object_id_bytes_def)
  show "push_bit 4 (ucast (raw ! 0)) OR ucast (drop_bit 4 (raw ! 1)) = oid x"
  proof (rule bit_word_eqI)
    fix i assume "i < LENGTH(16)"
    then show "bit (push_bit 4 (ucast (raw ! 0)) OR ucast (drop_bit 4 (raw ! 1)) :: u16) i = bit (oid x) i"
      unfolding r f using o[of i] o[of "i - 4"] k[of "i + 4"] by (auto simp: bit_simps)
  qed
  show "raw ! 1 AND 0x0F = okind x"
  proof (rule bit_word_eqI)
    fix i assume "i < LENGTH(8)"
    then show "bit (raw ! 1 AND 0x0F) i = bit (okind x) i"
      unfolding r f using k[of i] by (auto simp: bit_simps)
  qed
qed

lemma message_drop: "length key = 4 \<Longrightarrow> drop 12 (message_bytes sid stream seq key sub p) = p"
  by (simp add: message_bytes_def)

lemma message_first: "message_bytes sid stream seq key sub p ! 0 = sid"
  by (simp add: message_bytes_def)

lemma read_bytes_at:
  assumes "rpos r + k \<le> rlen r" "rlen r \<le> length (rbuf r)" "length out = k"
  shows "xrce_cdr_read_bytes k (r, out) = (True, r\<lparr>rpos := rpos r + k\<rparr>, slice (rpos r) k (rbuf r))"
  using assms by (simp add: xrce_cdr_read_bytes_def ensure_def blit_def)

lemma parse_data_message:
  assumes "sid < 0x80" "length key = 4" "oid x < 4096" "okind x < 16" "length rid = 2"
    and "buf = message_bytes sid stream seq key XRCE_SUBMSG_DATA (rid @ object_id_bytes x @ sample)" "n \<le> length buf"
  shows "xrce_session_parse_data buf n y sm l =
     (if 16 \<le> n then (True, x, take (n - 16) sample, n - 16) else (False, y, sm, l))"
proof (cases "n < 12")
  case True
  then show ?thesis
    using open_short[OF True, of buf] message_first assms(1,6) by (simp add: xrce_session_parse_data_def)
next
  case False
  let ?r = "\<lparr>rbuf = buf, rlen = n, rpos = 12, ralign_base = 0\<rparr>"
  have o: "open_submessage buf n = Some (9, ?r)"
    using open_message[OF assms(1,2) _ assms(6)] False by simp
  have d: "drop 12 buf = rid @ object_id_bytes x @ sample" using assms(2,6) by (simp add: message_drop)
  have lo: "length (object_id_bytes x) = 2" by (simp add: object_id_bytes_def)
  show ?thesis
  proof (cases "16 \<le> n")
    case True
    have "drop 14 buf = drop 2 (drop 12 buf)" by simp
    then have "drop 14 buf = object_id_bytes x @ sample" unfolding d using assms(5) by simp
    then have sl: "slice 14 2 buf = object_id_bytes x" using lo by (simp add: slice_def)
    have "drop 16 buf = drop 4 (drop 12 buf)" by simp
    then have "drop 16 buf = sample" unfolding d using assms(5) lo by simp
    moreover have "xrce_cdr_read_bytes 2 (?r, [0, 0]) = (True, ?r\<lparr>rpos := 14\<rparr>, slice 12 2 buf)"
      using True assms(7) by (subst read_bytes_at) simp_all
    moreover have "xrce_cdr_read_bytes 2 (?r\<lparr>rpos := 14\<rparr>, [0, 0]) = (True, ?r\<lparr>rpos := 16\<rparr>, object_id_bytes x)"
      using True assms(7) sl by (subst read_bytes_at) simp_all
    ultimately show ?thesis
      using True o object_id_fields[OF assms(3,4) refl]
      by (simp add: xrce_session_parse_data_def read_object_id_def drop_take)
  next
    case no: False
    then consider "n = 12" | "n = 13" | "n = 14" | "n = 15" using False by linarith
    then show ?thesis
      by cases (use o in \<open>simp_all add: xrce_session_parse_data_def read_object_id_def xrce_cdr_read_bytes_def ensure_def\<close>)
  qed
qed

section \<open>Properties\<close>

text \<open>
  \<^verbatim>\<open>xrce_session_build_write_data\<close> produces exactly the WRITE_DATA message: header with the session's
  id, key and next sequence number, submessage header with the patched-in payload length, request id
  big-endian, packed object id, sample. It fails exactly when the message does not fit, with the
  buffer's size and the bytes behind the capacity unchanged; but even then the sequence number
  is consumed once 8 bytes fit, and the request id once 12 bytes fit.
\<close>

theorem write_data_exact:
  assumes "cap \<le> length buf" "length (client_key s) = 4" "n \<le> length sample"
    and "p = be_bytes 2 (next_request_id s) @ object_id_bytes x @ take n sample"
    and "m = message_bytes (session_id s) stream (out_seq_num s) (client_key s) XRCE_SUBMSG_WRITE_DATA p"
  shows "(case xrce_session_build_write_data s stream x sample n buf cap of (k, s', buf') \<Rightarrow>
     if length m \<le> cap
     then k = length m \<and> buf' = m @ drop (length m) buf \<and>
          s' = s\<lparr>out_seq_num := out_seq_num s + 1, next_request_id := next_request_id s + 1\<rparr>
     else k = 0 \<and> length buf' = length buf \<and> drop cap buf' = drop cap buf \<and>
          s' = s\<lparr>out_seq_num := out_seq_num s + (if 8 \<le> cap then 1 else 0),
                 next_request_id := next_request_id s + (if 12 \<le> cap then 1 else 0)\<rparr>)"
proof -
  let ?f = "\<lambda>rid. [write_base_object_request rid x, xrce_cdr_write_bytes sample n]"
  have w: "writes (all_of (?f (next_request_id s))) (wire_bytes p)"
    using writes_write_data[OF assms(3), of "next_request_id s" x] assms(4) by simp
  have p: "p = wire_bytes p 12" by (simp add: wire_bytes_def)
  note e = build_request_exact[OF assms(1,2), of ?f, OF w p assms(5)]
  show ?thesis
    unfolding xrce_session_build_write_data_def using e by (auto simp: buffer_kept_def split: prod.splits)
qed

theorem write_data_exact_witness:
  "let s = xrce_session_init 1 [9, 8, 7, 6] 512; x = xrce_object_id 0x12 5 in
   (case xrce_session_build_write_data s 1 x [42, 43] 2 (replicate 32 0) 32 of (k, s', buf') \<Rightarrow>
      k = 18 \<and> take 18 buf' = [1, 1, 0, 0, 9, 8, 7, 6, 7, 1, 6, 0, 0, 9, 1, 0x25, 42, 43] \<and> out_seq_num s' = 1) \<and>
   (case xrce_session_build_write_data s 1 x [42, 43] 2 (replicate 32 0) 13 of (k, s', buf') \<Rightarrow>
      k = 0 \<and> out_seq_num s' = 1 \<and> next_request_id s' = 10)"
proof -
  let ?s = "xrce_session_init 1 [9, 8, 7, 6] 512" and ?x = "xrce_object_id 0x12 5"
  let ?p = "be_bytes 2 (next_request_id ?s) @ object_id_bytes ?x @ take 2 [42, 43]"
  let ?m = "message_bytes (session_id ?s) 1 (out_seq_num ?s) (client_key ?s) XRCE_SUBMSG_WRITE_DATA ?p"
  have m: "?m = [1, 1, 0, 0, 9, 8, 7, 6, 7, 1, 6, 0, 0, 9, 1, 0x25, 42, 43]" by code_simp
  have s: "length (client_key ?s) = 4" "out_seq_num ?s = 0" "next_request_id ?s = 9"
    by (simp_all add: xrce_session_init_def)
  show ?thesis
    using write_data_exact[of 32 "replicate 32 0" ?s 2 "[42, 43]" ?p ?x ?m 1, OF _ _ _ refl refl]
      write_data_exact[of 13 "replicate 32 0" ?s 2 "[42, 43]" ?p ?x ?m 1, OF _ _ _ refl refl] s
    unfolding m by (auto simp: Let_def split: prod.splits)
qed

text \<open>
  Parsing a DATA message, cut off anywhere. From 16 bytes on, \<^verbatim>\<open>xrce_session_parse_data\<close> accepts and
  reports the packed object id (for ids below 4096 and kinds below 16) and as the sample all the bytes
  that follow: the length field of the submessage plays no role. Below 16 bytes it rejects and
  leaves the outputs alone.
\<close>

theorem parse_data_exact:
  assumes "sid < 0x80" "length key = 4" "oid x < 4096" "okind x < 16" "length rid = 2"
    and "buf = message_bytes sid stream seq key XRCE_SUBMSG_DATA (rid @ object_id_bytes x @ sample)" "n \<le> length buf"
  shows "xrce_session_parse_data buf n y sm l =
     (if 16 \<le> n then (True, x, take (n - 16) sample, n - 16) else (False, y, sm, l))"
  by (rule parse_data_message[OF assms])

theorem parse_data_exact_witness:
  "let buf = message_bytes 1 1 0 [1, 2, 3, 4] XRCE_SUBMSG_DATA ([0, 7] @ object_id_bytes (xrce_object_id 0x123 6) @ [5, 6, 7]) in
     xrce_session_parse_data buf 19 (xrce_object_id 0 0) [] 0 = (True, xrce_object_id 0x123 6, [5, 6, 7], 3) \<and>
     xrce_session_parse_data buf 15 (xrce_object_id 0 0) [] 0 = (False, xrce_object_id 0 0, [], 0)"
proof -
  let ?x = "xrce_object_id 0x123 6"
  let ?buf = "message_bytes 1 1 0 [1, 2, 3, 4] XRCE_SUBMSG_DATA ([0, 7] @ object_id_bytes ?x @ [5, 6, 7])"
  have "length ?buf = 19" by (simp add: message_bytes_def object_id_bytes_def)
  then show ?thesis
    using parse_data_exact[of 1 "[1, 2, 3, 4]" ?x "[0, 7]" ?buf 1 0 "[5, 6, 7]" 19 "xrce_object_id 0 0" "[]" 0]
      parse_data_exact[of 1 "[1, 2, 3, 4]" ?x "[0, 7]" ?buf 1 0 "[5, 6, 7]" 15 "xrce_object_id 0 0" "[]" 0]
    by (simp add: Let_def) (simp add: xrce_object_id_def)
qed

end
