(* ===== verification/Reliable.thy ===== *)
theory Reliable
  imports Prelude
begin

text \<open>
  \<^verbatim>\<open>xrce/src/reliable_stream.c\<close> and \<^verbatim>\<open>reliable_stream.h\<close>: the sender's window of a reliable stream.
  Sequence numbers are 16-bit words and wrap; the loops over them are recursions on the distance
  that is left. The pointer \<^verbatim>\<open>out_msg\<close> is modelled by the buffer it points to.
\<close>

section \<open>Data\<close>

abbreviation XRCE_RELIABLE_WINDOW :: nat where "XRCE_RELIABLE_WINDOW \<equiv> 32"
abbreviation XRCE_RELIABLE_MSG_MAX :: nat where "XRCE_RELIABLE_MSG_MAX \<equiv> 256"

record reliable_out =
  ro_buf :: "bytes list"
  ro_len :: "nat list"
  occupied :: "bool list"
  last_acknown :: u16
  last_sent :: u16
  any_sent :: bool
  send_lost :: bool
  retransmit_cursor :: u16
  retransmit_count :: u32

section \<open>Operations\<close>

definition slot_for :: "u16 \<Rightarrow> nat" where
  "slot_for seq = unat seq mod XRCE_RELIABLE_WINDOW"

definition xrce_reliable_out_init :: reliable_out where
  "xrce_reliable_out_init =
     \<lparr>ro_buf = replicate XRCE_RELIABLE_WINDOW (replicate XRCE_RELIABLE_MSG_MAX 0),
      ro_len = replicate XRCE_RELIABLE_WINDOW 0, occupied = replicate XRCE_RELIABLE_WINDOW False,
      last_acknown = 0, last_sent = 0, any_sent = False, send_lost = False,
      retransmit_cursor = 0, retransmit_count = 0\<rparr>"

definition xrce_reliable_out_track :: "reliable_out \<Rightarrow> u16 \<Rightarrow> bytes \<Rightarrow> nat \<Rightarrow> bool \<times> reliable_out" where
  "xrce_reliable_out_track ro seq msg len =
     (if len > XRCE_RELIABLE_MSG_MAX then (False, ro)
      else if any_sent ro \<and> unat (seq - last_acknown ro) > XRCE_RELIABLE_WINDOW then (False, ro)
      else
        (let slot = slot_for seq in
         (True, ro\<lparr>ro_buf := (ro_buf ro)[slot := blit 0 (take len msg) (ro_buf ro ! slot)],
                   ro_len := (ro_len ro)[slot := len], occupied := (occupied ro)[slot := True],
                   last_sent := seq, any_sent := True\<rparr>)))"

text \<open>The loop that frees the slots from \<^verbatim>\<open>seq\<close> up to \<^verbatim>\<open>first_unacked\<close>, excluded.\<close>

function free_until :: "u16 \<Rightarrow> u16 \<Rightarrow> bool list \<Rightarrow> bool list" where
  "free_until first_unacked seq occ =
     (if seq \<noteq> first_unacked then free_until first_unacked (seq + 1) (occ[slot_for seq := False]) else occ)"
  by pat_completeness auto
termination
proof (relation "measure (\<lambda>(first_unacked, seq, occ). unat (first_unacked - seq))")
  fix first_unacked seq :: u16 and occ :: "bool list"
  assume "seq \<noteq> first_unacked"
  then have "unat (first_unacked - seq - 1) < unat (first_unacked - seq)"
    by (simp add: unat_minus_one) (simp add: unat_gt_0)
  then show "((first_unacked, seq + 1, occ[slot_for seq := False]), first_unacked, seq, occ)
      \<in> measure (\<lambda>(first_unacked, seq, occ). unat (first_unacked - seq))"
    by (simp add: diff_diff_eq)
qed simp

declare free_until.simps [simp del]

definition xrce_reliable_out_on_acknack :: "reliable_out \<Rightarrow> u16 \<Rightarrow> u16 \<Rightarrow> reliable_out" where
  "xrce_reliable_out_on_acknack ro first_unacked bitmap =
     (let ro = (if any_sent ro
                then ro\<lparr>occupied := free_until first_unacked (last_acknown ro) (occupied ro),
                        last_acknown := first_unacked - 1\<rparr>
                else ro);
          ro = ro\<lparr>send_lost := bitmap \<noteq> 0\<rparr>
      in ro\<lparr>retransmit_cursor := last_acknown ro\<rparr>)"

text \<open>The loop of \<^verbatim>\<open>xrce_reliable_out_next_retransmit\<close>: the cursor where it stops, and whether at a message.\<close>

function next_occupied :: "reliable_out \<Rightarrow> u16 \<Rightarrow> bool \<times> u16" where
  "next_occupied ro cursor =
     (if cursor \<noteq> last_sent ro
      then if occupied ro ! slot_for (cursor + 1) then (True, cursor + 1) else next_occupied ro (cursor + 1)
      else (False, cursor))"
  by pat_completeness auto
termination
proof (relation "measure (\<lambda>(ro, cursor). unat (last_sent ro - cursor))")
  fix ro :: reliable_out and cursor :: u16
  assume "cursor \<noteq> last_sent ro"
  then have "unat (last_sent ro - cursor - 1) < unat (last_sent ro - cursor)"
    by (simp add: unat_minus_one) (simp add: unat_gt_0)
  then show "((ro, cursor + 1), ro, cursor) \<in> measure (\<lambda>(ro, cursor). unat (last_sent ro - cursor))"
    by (simp add: diff_diff_eq)
qed simp

declare next_occupied.simps [simp del]

definition xrce_reliable_out_next_retransmit ::
  "reliable_out \<Rightarrow> bytes \<Rightarrow> nat \<Rightarrow> bool \<times> reliable_out \<times> bytes \<times> nat" where
  "xrce_reliable_out_next_retransmit ro out_msg out_len =
     (if \<not> send_lost ro then (False, ro, out_msg, out_len)
      else
        (case next_occupied ro (retransmit_cursor ro) of
           (found, cursor) \<Rightarrow>
             (let ro = ro\<lparr>retransmit_cursor := cursor\<rparr> in
              if found
              then (True, ro\<lparr>retransmit_count := retransmit_count ro + 1\<rparr>,
                    ro_buf ro ! slot_for cursor, ro_len ro ! slot_for cursor)
              else (False, ro\<lparr>send_lost := False\<rparr>, out_msg, out_len))))"

text \<open>The callers' loop: retransmit until the call returns false; the messages resent.\<close>

partial_function (option) sweep :: "reliable_out \<Rightarrow> (bytes list \<times> reliable_out) option" where
  "sweep ro =
     (case xrce_reliable_out_next_retransmit ro [] 0 of
        (found, ro, msg, len) \<Rightarrow>
          if found then Option.bind (sweep ro) (\<lambda>(ms, ro). Some (take len msg # ms, ro))
          else Some ([], ro))"

section \<open>The window\<close>

text \<open>
  A tracker whose last acknowledged number is \<open>a\<close> and that holds the messages \<open>ms\<close>, with the numbers
  from \<open>a + 1\<close> on.
\<close>

definition holds_msg :: "reliable_out \<Rightarrow> u16 \<Rightarrow> bytes \<Rightarrow> bool" where
  "holds_msg ro seq m \<longleftrightarrow> occupied ro ! slot_for seq \<and> ro_len ro ! slot_for seq = length m \<and>
     take (length m) (ro_buf ro ! slot_for seq) = m"

definition arrays_ok :: "reliable_out \<Rightarrow> bool" where
  "arrays_ok ro \<longleftrightarrow> length (ro_buf ro) = 32 \<and> length (ro_len ro) = 32 \<and> length (occupied ro) = 32 \<and>
     (\<forall>b \<in> set (ro_buf ro). length b = 256)"

definition window :: "reliable_out \<Rightarrow> u16 \<Rightarrow> bytes list \<Rightarrow> bool" where
  "window ro a ms \<longleftrightarrow> arrays_ok ro \<and> any_sent ro \<and> last_acknown ro = a \<and>
     last_sent ro = a + of_nat (length ms) \<and> length ms \<le> 32 \<and>
     (\<forall>i < length ms. holds_msg ro (a + of_nat (Suc i)) (ms ! i))"

section \<open>Lemmas\<close>

text \<open>Slots of numbers at distance below 32 are distinct, those at distance 32 coincide.\<close>

lemma slot_shift: "slot_for (a + of_nat i) = (unat a + i) mod 32"
proof -
  have "unat (a + of_nat i) = (unat a + i) mod 65536"
    by (simp add: unat_word_ariths unat_of_nat mod_simps)
  then show ?thesis by (simp add: slot_for_def mod_mod_cancel)
qed

lemma slot_lt [simp]: "slot_for a < 32"
  by (simp add: slot_for_def)

lemma mod32_inj:
  fixes x :: nat
  assumes "(x + i) mod 32 = (x + j) mod 32" "i < j + 32" "j < i + 32"
  shows "i = j"
proof -
  have "int 32 dvd int (x + i) - int (x + j)"
    using assms(1) by (metis mod_eq_dvd_iff zmod_int)
  then have "32 dvd int i - int j" by simp
  then show ?thesis using assms(2,3) by (auto elim!: dvdE) presburger
qed

lemma slot_inj: "slot_for (a + of_nat i) = slot_for (a + of_nat j) \<Longrightarrow> i < j + 32 \<Longrightarrow> j < i + 32 \<Longrightarrow> i = j"
  unfolding slot_shift by (rule mod32_inj)

lemma free_until_nth:
  assumes "k \<le> 65535" "length occ = 32" "s < 32"
  shows "free_until (a + of_nat k) a occ ! s \<longleftrightarrow> occ ! s \<and> s \<notin> (\<lambda>i. slot_for (a + of_nat i)) ` {..<k}"
    and "length (free_until (a + of_nat k) a occ) = 32"
proof -
  have "(free_until (a + of_nat k) a occ ! s \<longleftrightarrow> occ ! s \<and> s \<notin> (\<lambda>i. slot_for (a + of_nat i)) ` {..<k})
      \<and> length (free_until (a + of_nat k) a occ) = 32"
    using assms
  proof (induction k arbitrary: a occ)
    case 0
    then show ?case by (simp add: free_until.simps)
  next
    case (Suc k)
    have "unat (of_nat (Suc k) :: u16) = Suc k" using Suc.prems(1) by (subst unat_of_nat) simp
    then have "(of_nat (Suc k) :: u16) \<noteq> 0" by (metis unat_0 nat.simps(3))
    then have ne: "a \<noteq> a + of_nat (Suc k)" by simp
    have e: "free_until (a + of_nat (Suc k)) a occ = free_until ((a + 1) + of_nat k) (a + 1) (occ[slot_for a := False])"
      using ne by (subst free_until.simps) (simp add: add.assoc)
    have im: "(\<lambda>i. slot_for (a + of_nat i)) ` {..<Suc k} = insert (slot_for a) ((\<lambda>i. slot_for (a + 1 + of_nat i)) ` {..<k})"
      by (simp add: lessThan_Suc_eq_insert_0 image_image add.assoc)
    show ?case
      using Suc.IH[of "occ[slot_for a := False]" "a + 1"] Suc.prems unfolding e im
      by (auto simp: nth_list_update)
  qed
  then show "free_until (a + of_nat k) a occ ! s \<longleftrightarrow> occ ! s \<and> s \<notin> (\<lambda>i. slot_for (a + of_nat i)) ` {..<k}"
    and "length (free_until (a + of_nat k) a occ) = 32" by blast+
qed

lemma holds_msg_store:
  assumes "arrays_ok ro" "length m \<le> 256" "slot = slot_for seq"
  shows "holds_msg (ro\<lparr>ro_buf := (ro_buf ro)[slot := blit 0 m (ro_buf ro ! slot)],
       ro_len := (ro_len ro)[slot := length m], occupied := (occupied ro)[slot := True], last_sent := x, any_sent := y\<rparr>) seq m"
  using assms by (simp add: holds_msg_def arrays_ok_def blit_def)

lemma arrays_ok_store:
  assumes "arrays_ok ro" "length m \<le> 256" "slot < 32"
  shows "arrays_ok (ro\<lparr>ro_buf := (ro_buf ro)[slot := blit 0 m (ro_buf ro ! slot)],
       ro_len := (ro_len ro)[slot := length m], occupied := (occupied ro)[slot := True], last_sent := x, any_sent := y\<rparr>)"
proof -
  have "length (ro_buf ro ! slot) = 256" using assms by (simp add: arrays_ok_def)
  then have "length (blit 0 m (ro_buf ro ! slot)) = 256" using assms(2) by simp
  then show ?thesis using assms(1,3) by (auto simp: arrays_ok_def dest!: subsetD[OF set_update_subset_insert])
qed

lemma track_window:
  assumes w: "window ro a ms" and len: "length m \<le> 256" and seq: "seq = a + of_nat (Suc (length ms))"
  shows "length ms < 32 \<Longrightarrow> \<exists>ro'. xrce_reliable_out_track ro seq m (length m) = (True, ro') \<and> window ro' a (ms @ [m])"
    and "length ms = 32 \<Longrightarrow> xrce_reliable_out_track ro seq m (length m) = (False, ro)"
proof -
  have d: "unat (seq - last_acknown ro) = Suc (length ms)"
    using w seq by (simp add: window_def unat_of_nat del: of_nat_Suc)
  show "xrce_reliable_out_track ro seq m (length m) = (False, ro)" if "length ms = 32"
    using that d w len by (simp add: xrce_reliable_out_track_def window_def)
  assume lt: "length ms < 32"
  let ?slot = "slot_for seq"
  let ?ro = "ro\<lparr>ro_buf := (ro_buf ro)[?slot := blit 0 m (ro_buf ro ! ?slot)], ro_len := (ro_len ro)[?slot := length m],
       occupied := (occupied ro)[?slot := True], last_sent := seq, any_sent := True\<rparr>"
  have t: "xrce_reliable_out_track ro seq m (length m) = (True, ?ro)"
    using lt d len w by (simp add: xrce_reliable_out_track_def Let_def window_def)
  have old: "holds_msg ?ro (a + of_nat (Suc i)) (ms ! i)" if "i < length ms" for i
  proof -
    have "slot_for (a + of_nat (Suc i)) \<noteq> ?slot"
      using slot_inj[of a "Suc i" "Suc (length ms)"] that lt seq by auto
    then show ?thesis using w that by (simp add: window_def holds_msg_def del: of_nat_Suc)
  qed
  have new: "holds_msg ?ro seq m" using w len by (intro holds_msg_store) (simp_all add: window_def)
  have "window ?ro a (ms @ [m])"
    using w lt len seq old new arrays_ok_store[OF _ len slot_lt[of seq], of ro, where x = seq and y = True]
    by (auto simp: window_def nth_append less_Suc_eq simp del: of_nat_Suc)
  with t show "\<exists>ro'. xrce_reliable_out_track ro seq m (length m) = (True, ro') \<and> window ro' a (ms @ [m])" by blast
qed

lemma first_window:
  assumes "length m \<le> 256"
  shows "\<exists>ro. xrce_reliable_out_track xrce_reliable_out_init 1 m (length m) = (True, ro) \<and> window ro 0 [m]"
proof -
  have a: "arrays_ok xrce_reliable_out_init" by (simp add: arrays_ok_def xrce_reliable_out_init_def)
  show ?thesis
    using assms arrays_ok_store[OF a assms slot_lt[of 1], of True 1] holds_msg_store[OF a assms refl, where seq = 1 and x = 1 and y = True]
    by (simp add: xrce_reliable_out_track_def Let_def window_def) (simp add: xrce_reliable_out_init_def)
qed

text \<open>A sweep resends what it finds held, and stops.\<close>

lemma sweep_held:
  assumes "send_lost ro" "retransmit_cursor ro = c" "length ms < 65536"
    and "\<forall>i < length ms. c + of_nat i \<noteq> last_sent ro" "\<forall>i < length ms. holds_msg ro (c + of_nat (Suc i)) (ms ! i)"
    and "next_occupied ro (c + of_nat (length ms)) = (False, last_sent ro)"
  shows "sweep ro = Some (ms, ro\<lparr>retransmit_cursor := last_sent ro, send_lost := False,
       retransmit_count := retransmit_count ro + of_nat (length ms)\<rparr>)"
  using assms
proof (induction ms arbitrary: ro c)
  case Nil
  then show ?case by (subst sweep.simps) (simp add: xrce_reliable_out_next_retransmit_def)
next
  case (Cons m ms)
  have h: "holds_msg ro (c + 1) m" "c \<noteq> last_sent ro" using Cons.prems(4,5) by auto
  let ?ro = "ro\<lparr>retransmit_cursor := c + 1, retransmit_count := retransmit_count ro + 1\<rparr>"
  have n: "xrce_reliable_out_next_retransmit ro [] 0 = (True, ?ro, ro_buf ro ! slot_for (c + 1), length m)"
    using h Cons.prems(1,2) by (simp add: xrce_reliable_out_next_retransmit_def next_occupied.simps holds_msg_def)
  have same: "next_occupied (ro\<lparr>retransmit_cursor := x, retransmit_count := y\<rparr>) z = next_occupied ro z" for x y z
    by (induction ro z rule: next_occupied.induct) (subst (1 2) next_occupied.simps, simp)
  have "sweep ?ro = Some (ms, ?ro\<lparr>retransmit_cursor := last_sent ?ro, send_lost := False,
       retransmit_count := retransmit_count ?ro + of_nat (length ms)\<rparr>)"
  proof (rule Cons.IH[where c = "c + 1"])
    show "\<forall>i < length ms. c + 1 + of_nat i \<noteq> last_sent ?ro" "\<forall>i < length ms. holds_msg ?ro (c + 1 + of_nat (Suc i)) (ms ! i)"
      using Cons.prems(4,5) by (auto simp: holds_msg_def add.assoc dest: spec[of _ "Suc _"])
    show "next_occupied ?ro (c + 1 + of_nat (length ms)) = (False, last_sent ?ro)"
      using Cons.prems(6) by (simp add: same add.assoc)
  qed (use Cons.prems in simp_all)
  then show ?case
    using n h by (subst sweep.simps) (simp add: holds_msg_def add.assoc)
qed

text \<open>
  An acknowledgement of the first \<open>k\<close> outstanding messages: which slots it leaves occupied. The
  slot of the number last acknowledged before is among the freed ones.
\<close>

lemma acknack_state:
  assumes w: "window ro a ms" and k: "k \<le> length ms"
    and ro': "ro' = xrce_reliable_out_on_acknack ro (a + of_nat (Suc k)) bitmap"
  shows "last_acknown ro' = a + of_nat k" "retransmit_cursor ro' = a + of_nat k" "send_lost ro' \<longleftrightarrow> bitmap \<noteq> 0"
    "last_sent ro' = last_sent ro" "any_sent ro'" "arrays_ok ro'" "retransmit_count ro' = retransmit_count ro"
    "\<And>i. k \<le> i \<Longrightarrow> i < length ms \<Longrightarrow> i < 31 \<Longrightarrow> holds_msg ro' (a + of_nat (Suc i)) (ms ! i)"
    "\<And>i. i \<le> k \<Longrightarrow> \<not> occupied ro' ! slot_for (a + of_nat i)"
proof -
  have sent: "any_sent ro" "last_acknown ro = a" "length (occupied ro) = 32" "length ms \<le> 32"
    using w by (simp_all add: window_def arrays_ok_def)
  have le: "Suc k \<le> 65535" using k sent(4) by simp
  note f = free_until_nth[OF le sent(3), of _ a]
  show "last_acknown ro' = a + of_nat k" "retransmit_cursor ro' = a + of_nat k" "send_lost ro' \<longleftrightarrow> bitmap \<noteq> 0"
    "last_sent ro' = last_sent ro" "any_sent ro'" "retransmit_count ro' = retransmit_count ro"
    using sent by (simp_all add: ro' xrce_reliable_out_on_acknack_def Let_def)
  have occ: "occupied ro' = free_until (a + of_nat (Suc k)) a (occupied ro)"
    and same: "ro_buf ro' = ro_buf ro" "ro_len ro' = ro_len ro"
    using sent by (simp_all add: ro' xrce_reliable_out_on_acknack_def Let_def)
  show "arrays_ok ro'" using w f(2)[of 0] by (simp add: window_def arrays_ok_def occ same)
  show "\<not> occupied ro' ! slot_for (a + of_nat i)" if "i \<le> k" for i
    unfolding occ using f(1)[OF slot_lt] that by auto
  show "holds_msg ro' (a + of_nat (Suc i)) (ms ! i)" if "k \<le> i" "i < length ms" "i < 31" for i
  proof -
    have "slot_for (a + of_nat (Suc i)) \<noteq> slot_for (a + of_nat j)" if "j < Suc k" for j
      using slot_inj[of a "Suc i" j] that \<open>k \<le> i\<close> \<open>i < 31\<close> by auto
    then have "slot_for (a + of_nat (Suc i)) \<notin> (\<lambda>j. slot_for (a + of_nat j)) ` {..<Suc k}" by auto
    moreover have "holds_msg ro (a + of_nat (Suc i)) (ms ! i)" using w that by (simp add: window_def)
    ultimately show ?thesis unfolding holds_msg_def occ same using f(1)[OF slot_lt] by blast
  qed
qed

lemma acknack_window:
  assumes "window ro a ms" "k \<le> length ms" "length ms \<le> 31"
    and "ro' = xrce_reliable_out_on_acknack ro (a + of_nat (Suc k)) bitmap"
  shows "window ro' (a + of_nat k) (drop k ms)"
  using acknack_state(1,4,5,6)[OF assms(1,2,4)] acknack_state(8)[OF assms(1,2,4), of "k + _"] assms(1-3)
  by (auto simp: window_def algebra_simps simp flip: of_nat_add)

lemma seq_distinct:
  assumes "i < j" "j < 65536"
  shows "(a :: u16) + of_nat i \<noteq> a + of_nat j"
proof
  assume "a + of_nat i = a + of_nat j"
  then have "unat (of_nat i :: u16) = unat (of_nat j :: u16)" by simp
  then show False using assms by (simp add: unat_of_nat)
qed

text \<open>The sweep after an acknowledgement; \<open>n\<close> messages are still held, none behind them.\<close>

lemma acknack_sweep:
  assumes w: "window ro a ms" and k: "k \<le> n" "n \<le> length ms" "n \<le> 31" and b: "bitmap \<noteq> 0"
    and ro': "ro' = xrce_reliable_out_on_acknack ro (a + of_nat (Suc k)) bitmap"
    and stop: "next_occupied ro' (a + of_nat n) = (False, last_sent ro')"
  shows "\<exists>ro''. sweep ro' = Some (drop k (take n ms), ro'') \<and> \<not> send_lost ro'' \<and>
     retransmit_count ro'' = retransmit_count ro + of_nat (n - k)"
proof -
  have kl: "k \<le> length ms" using k by simp
  note st = acknack_state[OF w kl ro']
  let ?ms = "drop k (take n ms)"
  have l: "length ?ms = n - k" "length ms \<le> 32" using k w by (simp_all add: window_def)
  have "sweep ro' = Some (?ms, ro'\<lparr>retransmit_cursor := last_sent ro', send_lost := False,
       retransmit_count := retransmit_count ro' + of_nat (length ?ms)\<rparr>)"
  proof (rule sweep_held[OF _ st(2)])
    show "send_lost ro'" using b st(3) by simp
    show "length ?ms < 65536" using l k by simp
    show "\<forall>i < length ?ms. a + of_nat k + of_nat i \<noteq> last_sent ro'"
    proof (intro allI impI)
      fix i assume "i < length ?ms"
      then show "a + of_nat k + of_nat i \<noteq> last_sent ro'"
        using seq_distinct[of "k + i" "length ms" a] l k st(4) w by (simp add: window_def add.assoc)
    qed
    show "\<forall>i < length ?ms. holds_msg ro' (a + of_nat k + of_nat (Suc i)) (?ms ! i)"
    proof (intro allI impI)
      fix i assume "i < length ?ms"
      then show "holds_msg ro' (a + of_nat k + of_nat (Suc i)) (?ms ! i)"
        using st(8)[of "k + i"] l k by (simp add: algebra_simps)
    qed
    have e: "a + of_nat k + of_nat (length ?ms) = a + of_nat n"
      using l k by (simp add: add.assoc flip: of_nat_add)
    show "next_occupied ro' (a + of_nat k + of_nat (length ?ms)) = (False, last_sent ro')"
      unfolding e by (rule stop)
  qed
  then show ?thesis using st(7) l by simp
qed

text \<open>Tracking a sequence of messages; \<open>None\<close> when one is refused.\<close>

fun track_all :: "reliable_out \<Rightarrow> u16 \<Rightarrow> bytes list \<Rightarrow> reliable_out option" where
  "track_all ro seq [] = Some ro"
| "track_all ro seq (m # ms) =
     (case xrce_reliable_out_track ro seq m (length m) of
        (ok, ro) \<Rightarrow> if ok then track_all ro (seq + 1) ms else None)"

lemma track_all_window:
  assumes "window ro a ns" "length ns + length ms \<le> 32" "\<forall>m \<in> set ms. length m \<le> 256"
  shows "\<exists>ro'. track_all ro (a + of_nat (Suc (length ns))) ms = Some ro' \<and> window ro' a (ns @ ms)"
  using assms
proof (induction ms arbitrary: ro ns)
  case (Cons m ms)
  obtain ro1 where t: "xrce_reliable_out_track ro (a + of_nat (Suc (length ns))) m (length m) = (True, ro1)"
      "window ro1 a (ns @ [m])"
    using track_window(1)[OF Cons.prems(1) _ refl, of m] Cons.prems(2,3) by auto
  have n: "a + of_nat (Suc (length ns)) + 1 = a + of_nat (Suc (length (ns @ [m])))" by simp
  from Cons.IH[OF t(2)] Cons.prems(2,3) t(1) show ?case
    by (simp only: track_all.simps n prod.case if_True) simp
qed simp

lemma track_all_init:
  assumes "ms \<noteq> []" "length ms \<le> 32" "\<forall>m \<in> set ms. length m \<le> 256"
  shows "\<exists>ro. track_all xrce_reliable_out_init 1 ms = Some ro \<and> window ro 0 ms"
proof -
  obtain m ns where ms: "ms = m # ns" using assms(1) by (cases ms) auto
  obtain ro where "xrce_reliable_out_track xrce_reliable_out_init 1 m (length m) = (True, ro)" "window ro 0 [m]"
    using first_window[of m] assms(3) ms by auto
  with track_all_window[of ro 0 "[m]" ns] assms ms show ?thesis by simp
qed

section \<open>Properties\<close>

text \<open>
  C27: The reliable window below its limit. A tracker that holds the messages after \<open>a\<close> in order accepts
  the next one while fewer than 32 are outstanding and refuses it, unchanged, at 32. While at most 31
  are outstanding, an ACKNACK for the first \<open>k\<close> of them leaves exactly the others tracked, and if its
  bitmap is nonzero the retransmit sweep ends and resends exactly those, in order, once each. Sequence
  numbers may wrap anywhere.
\<close>

theorem reliable_window_correct:
  assumes "window ro a ms" "length m \<le> 256" "k \<le> length ms"
    and "ro' = xrce_reliable_out_on_acknack ro (a + of_nat (Suc k)) bitmap"
  shows "(if length ms < 32
          then \<exists>ro1. xrce_reliable_out_track ro (a + of_nat (Suc (length ms))) m (length m) = (True, ro1) \<and> window ro1 a (ms @ [m])
          else xrce_reliable_out_track ro (a + of_nat (Suc (length ms))) m (length m) = (False, ro)) \<and>
     (length ms \<le> 31 \<longrightarrow> window ro' (a + of_nat k) (drop k ms) \<and>
        (\<exists>ro''. sweep ro' = Some (if bitmap \<noteq> 0 then drop k ms else [], ro'') \<and> \<not> send_lost ro''))"
proof (intro conjI impI)
  show "if length ms < 32
          then \<exists>ro1. xrce_reliable_out_track ro (a + of_nat (Suc (length ms))) m (length m) = (True, ro1) \<and> window ro1 a (ms @ [m])
          else xrce_reliable_out_track ro (a + of_nat (Suc (length ms))) m (length m) = (False, ro)"
    using track_window[OF assms(1,2) refl] assms(1) by (auto simp: window_def)
next
  assume le: "length ms \<le> 31"
  note st = acknack_state[OF assms(1,3,4)]
  show "window ro' (a + of_nat k) (drop k ms)" by (rule acknack_window[OF assms(1,3) le assms(4)])
  show "\<exists>ro''. sweep ro' = Some (if bitmap \<noteq> 0 then drop k ms else [], ro'') \<and> \<not> send_lost ro''"
  proof (cases "bitmap = 0")
    case True
    then have "sweep ro' = Some ([], ro')"
      using st(3) by (subst sweep.simps) (simp add: xrce_reliable_out_next_retransmit_def)
    then show ?thesis using True st(3) by simp
  next
    case False
    have "next_occupied ro' (a + of_nat (length ms)) = (False, last_sent ro')"
      using st(4) assms(1) by (simp add: window_def next_occupied.simps)
    from acknack_sweep[OF assms(1,3) order_refl le False assms(4) this] show ?thesis using False by auto
  qed
qed

theorem reliable_window_correct_witness:
  "\<exists>ro ro''. track_all xrce_reliable_out_init 1 [[5], [6, 7], []] = Some ro \<and>
     sweep (xrce_reliable_out_on_acknack ro 2 1) = Some ([[6, 7], []], ro'') \<and> \<not> send_lost ro''"
proof -
  obtain ro where r: "track_all xrce_reliable_out_init 1 [[5], [6, 7], []] = Some ro" "window ro 0 [[5], [6, 7], []]"
    using track_all_init[of "[[5], [6, 7], []]"] by auto
  from reliable_window_correct[OF r(2), of "[]" 1 "xrce_reliable_out_on_acknack ro 2 1" 1] r(1) show ?thesis by auto
qed

text \<open>
  At the limit the window loses a message. With all 32 slots outstanding, the slot freed for the
  number acknowledged last is the slot of the newest message: after an ACKNACK for any \<open>k < 32\<close> of them
  the newest message is no longer tracked, and the retransmit sweep resends every outstanding message
  except that one.
\<close>

theorem reliable_full_window_loses_newest:
  assumes "window ro a ms" "length ms = 32" "k < 32" "bitmap \<noteq> 0"
    and "ro' = xrce_reliable_out_on_acknack ro (a + of_nat (Suc k)) bitmap"
  shows "\<not> occupied ro' ! slot_for (last_sent ro') \<and>
     (\<exists>ro''. sweep ro' = Some (drop k (butlast ms), ro'') \<and> \<not> send_lost ro'')"
proof -
  have k: "k \<le> length ms" using assms(2,3) by simp
  note st = acknack_state[OF assms(1) k assms(5)]
  have last: "last_sent ro' = a + of_nat 32" using st(4) assms(1,2) by (simp add: window_def)
  have "slot_for (a + of_nat 32) = slot_for (a + of_nat 0)" unfolding slot_shift by simp
  then have gone: "\<not> occupied ro' ! slot_for (last_sent ro')" using st(9)[of 0] last by simp
  have ne: "a + of_nat 31 \<noteq> last_sent ro'" using seq_distinct[of 31 32 a] last by simp
  have "a + of_nat 31 + 1 = last_sent ro'" using last by (simp add: add.assoc)
  then have "next_occupied ro' (a + of_nat 31) = (False, last_sent ro')"
    using gone ne by (subst next_occupied.simps, simp) (simp add: next_occupied.simps)
  from acknack_sweep[OF assms(1) _ _ _ assms(4,5) this] assms(2,3) gone show ?thesis
    by (auto simp: butlast_conv_take)
qed

theorem reliable_full_window_loses_newest_witness:
  "\<exists>ro ro''. track_all xrce_reliable_out_init 1 (replicate 31 [7] @ [[8]]) = Some ro \<and>
     sweep (xrce_reliable_out_on_acknack ro 1 1) = Some (replicate 31 [7], ro'')"
proof -
  obtain ro where r: "track_all xrce_reliable_out_init 1 (replicate 31 [7] @ [[8]]) = Some ro"
      "window ro 0 (replicate 31 [7] @ [[8]])"
    using track_all_init[of "replicate 31 [7] @ [[8]]"] by auto
  from reliable_full_window_loses_newest[OF r(2), of 0 1 "xrce_reliable_out_on_acknack ro 1 1"] r(1)
  show ?thesis by (auto simp: butlast_append)
qed

end
