(* ===== verification/Gateway.thy ===== *)
theory Gateway
  imports Serial Secure
begin

text \<open>
  \<^verbatim>\<open>host/secure_gateway.c\<close>: the trusted gateway between a board that speaks authenticated serial frames
  and an agent that speaks plain ones: the key, the two directions, byte by byte, and what one byte makes the
  gateway do. What the gateway writes to either side and its log lines are part of its state. The event loop
  around the two directions is in \<open>Gateway_Loop\<close>.
\<close>

section \<open>Data\<close>

abbreviation MAX_PAYLOAD :: nat where "MAX_PAYLOAD \<equiv> 512"
abbreviation ADDR :: u8 where "ADDR \<equiv> 0x00"

definition XRCE_SERIAL_MAX_ENCODED_LEN :: "nat \<Rightarrow> nat" where
  "XRCE_SERIAL_MAX_ENCODED_LEN payload_len = 1 + 2 * (4 + payload_len + 2)"

definition DEFAULT_KEY :: bytes where
  "DEFAULT_KEY = [0xDE, 0xAD, 0xBE, 0xEF, 0xCA, 0xFE, 0xBA, 0xBE, 0x13, 0x37, 0xC0, 0xDE, 0xF0, 0x0D, 0x5E, 0xED]"

text \<open>The log lines, with what they report; a flag is true for the side of the board.\<close>

datatype log_line =
    Malformed_frame bool
  | Rejected string
  | Too_large_to_reencode nat
  | Verified nat
  | Wrap_failed nat
  | Wrapped u16
  | Link_closed bool

section \<open>Operations\<close>

text \<open>
  \<^verbatim>\<open>sscanf(s, "%2x", &byte)\<close>: white space is skipped, then at most two characters are read, an optional
  sign and hexadecimal digits; a lone prefix \<^verbatim>\<open>0x\<close> does not match.
\<close>

definition hex_digit :: "u8 \<Rightarrow> u32 option" where
  "hex_digit c =
     (if 0x30 \<le> c \<and> c \<le> 0x39 then Some (ucast (c - 0x30))
      else if 0x41 \<le> c \<and> c \<le> 0x46 then Some (ucast (c - 0x41) + 10)
      else if 0x61 \<le> c \<and> c \<le> 0x66 then Some (ucast (c - 0x61) + 10)
      else None)"

fun scan_digits :: "nat \<Rightarrow> u32 \<Rightarrow> bytes \<Rightarrow> u32" where
  "scan_digits (Suc n) v (c # cs) = (case hex_digit c of Some d \<Rightarrow> scan_digits n (v * 16 + d) cs | None \<Rightarrow> v)"
| "scan_digits _ v _ = v"

definition scan_2x :: "bytes \<Rightarrow> u32 option" where
  "scan_2x s =
     (case dropWhile (\<lambda>c. c = 0x20 \<or> 0x09 \<le> c \<and> c \<le> 0x0D) s of
        [] \<Rightarrow> None
      | c # cs \<Rightarrow>
          if c = 0x2B \<or> c = 0x2D
          then (case cs of
                  [] \<Rightarrow> None
                | d # _ \<Rightarrow> map_option (\<lambda>v. if c = 0x2D then - v else v) (hex_digit d))
          else if c = 0x30 \<and> (case cs of [] \<Rightarrow> False | d # _ \<Rightarrow> d = 0x78 \<or> d = 0x58) then None
          else if hex_digit c = None then None
          else Some (scan_digits 2 0 (c # cs)))"

fun parse_hex_loop :: "bytes \<Rightarrow> nat list \<Rightarrow> bytes \<Rightarrow> bool \<times> bytes" where
  "parse_hex_loop hex [] out = (True, out)"
| "parse_hex_loop hex (i # is) out =
     (case scan_2x (drop (i * 2) hex) of
        None \<Rightarrow> (False, out)
      | Some byte \<Rightarrow> parse_hex_loop hex is (out[i := ucast byte]))"

definition parse_hex_key :: "bytes \<Rightarrow> bytes \<Rightarrow> nat \<Rightarrow> int \<times> bytes" where
  "parse_hex_key hex out out_cap =
     (let hex_len = length hex in
      if hex_len = 0 \<or> hex_len mod 2 \<noteq> 0 \<or> hex_len div 2 > out_cap then (-1, out)
      else
        (case parse_hex_loop hex [0..<hex_len div 2] out of
           (ok, out) \<Rightarrow> if \<not> ok then (-1, out) else (int (hex_len div 2), out)))"

fun secure_result_str :: "secure_result \<Rightarrow> string" where
  "secure_result_str XRCE_SECURE_OK = ''ok''"
| "secure_result_str XRCE_SECURE_TOO_SHORT = ''too short (malformed)''"
| "secure_result_str XRCE_SECURE_BAD_TAG = ''bad tag (corrupted in transit, or wrong key)''"
| "secure_result_str XRCE_SECURE_REPLAYED = ''replayed (stale counter)''"

definition process_secure_frame ::
  "stack_mem \<Rightarrow> secure_ctx \<Rightarrow> bytes \<Rightarrow> nat \<Rightarrow> bytes \<Rightarrow> nat \<Rightarrow> (nat \<times> secure_ctx \<times> bytes \<times> log_line) option" where
  "process_secure_frame st ctx frame_payload frame_payload_len out out_cap =
     (case xrce_secure_unwrap st ctx frame_payload frame_payload_len [] 0 of
        None \<Rightarrow> None
      | Some (res, ctx, plain, plain_len) \<Rightarrow>
          if res \<noteq> XRCE_SECURE_OK then Some (0, ctx, out, Rejected (secure_result_str res))
          else
            (case xrce_serial_frame_encode out out_cap ADDR ADDR plain plain_len of
               (encoded_len, out) \<Rightarrow>
                 if encoded_len = 0 then Some (0, ctx, out, Too_large_to_reencode plain_len)
                 else Some (encoded_len, ctx, out, Verified plain_len)))"

definition wrap_and_encode ::
  "stack_mem \<Rightarrow> bytes \<Rightarrow> secure_ctx \<Rightarrow> bytes \<Rightarrow> nat \<Rightarrow> bytes \<Rightarrow> nat \<Rightarrow> (nat \<times> secure_ctx \<times> bytes \<times> log_line list) option" where
  "wrap_and_encode st wrapped_junk ctx plain plain_len out out_cap =
     (case xrce_secure_wrap st ctx plain plain_len wrapped_junk (MAX_PAYLOAD + XRCE_SECURE_OVERHEAD) of
        None \<Rightarrow> None
      | Some (wrapped_len, ctx, wrapped) \<Rightarrow>
          if wrapped_len = 0 then Some (0, ctx, out, [Wrap_failed plain_len])
          else
            (case xrce_serial_frame_encode out out_cap ADDR ADDR wrapped wrapped_len of
               (n, out) \<Rightarrow> Some (n, ctx, out, [])))"

section \<open>The event loop\<close>

record gateway =
  uplink_ctx :: secure_ctx
  downlink_ctx :: secure_ctx
  board_reader :: serial_reader
  agent_reader :: serial_reader
  to_agent :: bytes
  to_board :: bytes
  gw_log :: "log_line list"

definition gateway_init :: "bytes \<Rightarrow> nat \<Rightarrow> gateway" where
  "gateway_init key key_len =
     \<lparr>uplink_ctx = xrce_secure_init key key_len, downlink_ctx = xrce_secure_init key key_len,
      board_reader = xrce_serial_reader_init ADDR (replicate (MAX_PAYLOAD + XRCE_SECURE_OVERHEAD) 0)
        (MAX_PAYLOAD + XRCE_SECURE_OVERHEAD),
      agent_reader = xrce_serial_reader_init ADDR (replicate MAX_PAYLOAD 0) MAX_PAYLOAD,
      to_agent = [], to_board = [], gw_log = []\<rparr>"

text \<open>The key the program runs with: the built-in one, or the one of the command line.\<close>

definition gateway_key :: "bytes option \<Rightarrow> bytes \<Rightarrow> (bytes \<times> nat) option" where
  "gateway_key arg key_buf =
     (case arg of
        None \<Rightarrow> Some (DEFAULT_KEY, 16)
      | Some hex \<Rightarrow>
          (case parse_hex_key hex key_buf 64 of
             (parsed, key_buf) \<Rightarrow> if parsed < 0 then None else Some (key_buf, nat parsed)))"

text \<open>
  \<open>out\<close> is the uninitialised output buffer of the iteration. A short write is not modelled: the source
  ignores the result of \<^verbatim>\<open>write\<close>.
\<close>

definition board_byte :: "stack_mem \<Rightarrow> bytes \<Rightarrow> u8 \<Rightarrow> gateway \<Rightarrow> gateway option" where
  "board_byte st out byte g =
     (case xrce_serial_reader_feed (board_reader g) byte 0 0 of
        (res, r, src, flen) \<Rightarrow>
          (let g = g\<lparr>board_reader := r\<rparr> in
           if res = FEED_ERROR then Some (g\<lparr>gw_log := gw_log g @ [Malformed_frame True]\<rparr>)
           else if res = FEED_FRAME_READY
           then (case process_secure_frame st (uplink_ctx g) (payload_buf r) (unat flen) out
                        (XRCE_SERIAL_MAX_ENCODED_LEN MAX_PAYLOAD) of
                   None \<Rightarrow> None
                 | Some (out_len, ctx, out, line) \<Rightarrow>
                     (let g = g\<lparr>uplink_ctx := ctx, gw_log := gw_log g @ [line]\<rparr> in
                      Some (if out_len > 0 then g\<lparr>to_agent := to_agent g @ take out_len out\<rparr> else g)))
           else Some g))"

definition agent_byte :: "stack_mem \<Rightarrow> bytes \<Rightarrow> bytes \<Rightarrow> u8 \<Rightarrow> gateway \<Rightarrow> gateway option" where
  "agent_byte st wrapped_junk out byte g =
     (case xrce_serial_reader_feed (agent_reader g) byte 0 0 of
        (res, r, src, flen) \<Rightarrow>
          (let g = g\<lparr>agent_reader := r\<rparr> in
           if res = FEED_ERROR then Some (g\<lparr>gw_log := gw_log g @ [Malformed_frame False]\<rparr>)
           else if res = FEED_FRAME_READY
           then (case wrap_and_encode st wrapped_junk (downlink_ctx g) (payload_buf r) (unat flen) out
                        (XRCE_SERIAL_MAX_ENCODED_LEN (MAX_PAYLOAD + XRCE_SECURE_OVERHEAD)) of
                   None \<Rightarrow> None
                 | Some (out_len, ctx, out, lines) \<Rightarrow>
                     (let g = g\<lparr>downlink_ctx := ctx, gw_log := gw_log g @ lines\<rparr> in
                      Some (if out_len > 0
                            then g\<lparr>to_board := to_board g @ take out_len out, gw_log := gw_log g @ [Wrapped flen]\<rparr>
                            else g)))
           else Some g))"

fun board_bytes :: "stack_mem \<Rightarrow> bytes \<Rightarrow> bytes \<Rightarrow> gateway \<Rightarrow> gateway option" where
  "board_bytes st out [] g = Some g"
| "board_bytes st out (b # bs) g = Option.bind (board_byte st out b g) (board_bytes st out bs)"

section \<open>Lemmas\<close>

definition plain_frame :: "bytes \<Rightarrow> bytes" where
  "plain_frame p = frame_bytes ADDR ADDR p (xrce_serial_crc16 p (length p))"

lemma length_plain_frame: "length (plain_frame p) \<le> 1 + 2 * (4 + length p + 2)"
  unfolding plain_frame_def
  using length_frame_le[of "frame_body ADDR ADDR p (xrce_serial_crc16 p (length p))"]
  by (simp add: frame_bytes_def) (simp add: frame_body_def)

lemma encode_plain:
  assumes "out_cap \<le> length out" "1 + 2 * (4 + length p + 2) \<le> out_cap"
  shows "xrce_serial_frame_encode out out_cap ADDR ADDR p (length p) =
     (length (plain_frame p), plain_frame p @ drop (length (plain_frame p)) out)" "length (plain_frame p) \<noteq> 0"
  using frame_encode_blit(1)[OF assms(1) refl refl, of ADDR ADDR p] length_plain_frame[of p] assms(2)
  by (simp_all add: plain_frame_def blit_def frame_bytes_def)

lemma frame_encode_take:
  "n \<le> length p \<Longrightarrow> xrce_serial_frame_encode out cap a b p n = xrce_serial_frame_encode out cap a b (take n p) n"
  unfolding xrce_serial_frame_encode_def take_take min.idem ..

text \<open>What happens to a complete frame from the board.\<close>

lemma process_frame_total:
  assumes "stack_ok st" "key_ok ctx" "n \<le> length buf" "length out = XRCE_SERIAL_MAX_ENCODED_LEN MAX_PAYLOAD"
    and "counter = be_value (take 4 buf)" "plain = slice 12 (n - 12) buf"
  shows "\<exists>out' line. process_secure_frame st ctx buf n out (XRCE_SERIAL_MAX_ENCODED_LEN MAX_PAYLOAD) = Some
     (if 12 \<le> n \<and> n \<le> 328 \<and> take n buf = envelope (key_of ctx) counter plain \<and>
         \<not> (have_received ctx \<and> counter \<le> last_recv_counter ctx)
      then (length (plain_frame plain), ctx\<lparr>last_recv_counter := counter, have_received := True\<rparr>,
            plain_frame plain @ drop (length (plain_frame plain)) out, Verified (n - 12))
      else (0, ctx, out', line))"
proof (cases "12 \<le> n \<and> n \<le> 328 \<and> take n buf = envelope (key_of ctx) counter plain \<and>
         \<not> (have_received ctx \<and> counter \<le> last_recv_counter ctx)")
  case True
  have l: "length plain = n - 12" using True assms(3,6) by (simp add: slice_def)
  have le: "1 + 2 * (4 + (n - 12) + 2) \<le> 1037" using True by auto
  have e: "xrce_serial_frame_encode out (XRCE_SERIAL_MAX_ENCODED_LEN MAX_PAYLOAD) ADDR ADDR plain (n - 12) =
     (length (plain_frame plain), plain_frame plain @ drop (length (plain_frame plain)) out)"
    "length (plain_frame plain) \<noteq> 0"
    using encode_plain[of 1037 out plain] le assms(4) unfolding l by (simp_all add: XRCE_SERIAL_MAX_ENCODED_LEN_def)
  show ?thesis
    using True e unwrap_total[OF assms(1-3,5,6), of "[]" 0]
    by (simp add: process_secure_frame_def)
next
  case False
  then show ?thesis
    using unwrap_total[OF assms(1-3,5,6), of "[]" 0]
    by (auto simp: process_secure_frame_def)
qed

text \<open>The invariant of the gateway, and what one byte from the board can make it do.\<close>

definition gateway_ok :: "bytes \<Rightarrow> gateway \<Rightarrow> bool" where
  "gateway_ok key g \<longleftrightarrow> reader_ok (board_reader g) \<and> key_ok (uplink_ctx g) \<and> key_of (uplink_ctx g) = key"

lemma gateway_init_ok: "key_len \<le> length key \<Longrightarrow> gateway_ok (take key_len key) (gateway_init key key_len)"
  by (simp add: gateway_ok_def gateway_init_def reader_init_ok key_ok_def key_of_def xrce_secure_init_def)

text \<open>An envelope under \<open>key\<close> with payload \<open>p\<close> that the replay window of \<open>ctx\<close> lets through.\<close>

definition fresh_envelope :: "bytes \<Rightarrow> secure_ctx \<Rightarrow> bytes \<Rightarrow> u32 \<Rightarrow> bytes \<Rightarrow> bool" where
  "fresh_envelope key ctx w counter p \<longleftrightarrow> w = envelope key counter p \<and> length p \<le> 316 \<and>
     (have_received ctx \<longrightarrow> last_recv_counter ctx < counter)"

lemma board_byte_total:
  assumes "stack_ok st" "gateway_ok key g" "length out = XRCE_SERIAL_MAX_ENCODED_LEN MAX_PAYLOAD"
  shows "\<exists>g'. board_byte st out b g = Some g' \<and> gateway_ok key g' \<and>
     ((to_agent g' = to_agent g \<and> uplink_ctx g' = uplink_ctx g) \<or>
      (\<exists>n counter p. fresh_envelope key (uplink_ctx g) (take n (payload_buf (board_reader g'))) counter p \<and>
         to_agent g' = to_agent g @ plain_frame p \<and> have_received (uplink_ctx g') \<and> last_recv_counter (uplink_ctx g') = counter))"
proof -
  obtain res r src flen where f: "xrce_serial_reader_feed (board_reader g) b 0 0 = (res, r, src, flen)" by (metis prod_cases4)
  have ok: "reader_ok r" "res = FEED_FRAME_READY \<Longrightarrow> unat flen \<le> length (payload_buf r)"
    using feed_ok[OF _ f] assms(2) by (auto simp: gateway_ok_def reader_ok_def)
  have k: "key_ok (uplink_ctx g)" "key_of (uplink_ctx g) = key" using assms(2) by (simp_all add: gateway_ok_def)
  show ?thesis
  proof (cases "res = FEED_FRAME_READY")
    case False
    then show ?thesis using f ok(1) assms(2) by (cases "res = FEED_ERROR") (auto simp: board_byte_def gateway_ok_def Let_def)
  next
    case True
    let ?n = "unat flen" and ?buf = "payload_buf r" and ?ctx = "uplink_ctx g"
    let ?c = "be_value (take 4 ?buf) :: u32" and ?p = "slice 12 (?n - 12) ?buf"
    obtain out' line where p: "process_secure_frame st ?ctx ?buf ?n out (XRCE_SERIAL_MAX_ENCODED_LEN MAX_PAYLOAD) = Some
       (if 12 \<le> ?n \<and> ?n \<le> 328 \<and> take ?n ?buf = envelope (key_of ?ctx) ?c ?p \<and> \<not> (have_received ?ctx \<and> ?c \<le> last_recv_counter ?ctx)
        then (length (plain_frame ?p), ?ctx\<lparr>last_recv_counter := ?c, have_received := True\<rparr>,
              plain_frame ?p @ drop (length (plain_frame ?p)) out, Verified (?n - 12))
        else (0, ?ctx, out', line))"
      using process_frame_total[OF assms(1) k(1) ok(2)[OF True] assms(3) refl refl] by blast
    have pos: "length (plain_frame ?p) \<noteq> 0" by (simp add: plain_frame_def frame_bytes_def)
    show ?thesis
    proof (cases "12 \<le> ?n \<and> ?n \<le> 328 \<and> take ?n ?buf = envelope (key_of ?ctx) ?c ?p \<and> \<not> (have_received ?ctx \<and> ?c \<le> last_recv_counter ?ctx)")
      case acc: True
      have lp: "length ?p \<le> 316" using acc ok(2)[OF True] by (auto simp: slice_def)
      then have fr: "fresh_envelope key ?ctx (take ?n ?buf) ?c ?p" using acc k(2) by (auto simp: fresh_envelope_def)
      let ?g = "g\<lparr>board_reader := r, uplink_ctx := ?ctx\<lparr>last_recv_counter := ?c, have_received := True\<rparr>,
          gw_log := gw_log g @ [Verified (?n - 12)], to_agent := to_agent g @ plain_frame ?p\<rparr>"
      have "board_byte st out b g = Some ?g"
        using f True p acc pos by (simp add: board_byte_def Let_def)
      moreover have "gateway_ok key ?g" using ok(1) k by (simp add: gateway_ok_def)
      ultimately show ?thesis using fr by fastforce
    next
      case False
      from p have "process_secure_frame st ?ctx ?buf ?n out (XRCE_SERIAL_MAX_ENCODED_LEN MAX_PAYLOAD) = Some (0, ?ctx, out', line)"
        by (simp only: if_not_P[OF False])
      then have "board_byte st out b g = Some (g\<lparr>board_reader := r, uplink_ctx := ?ctx, gw_log := gw_log g @ [line]\<rparr>)"
        using f True by (simp add: board_byte_def Let_def)
      then show ?thesis using ok(1) k by (auto simp: gateway_ok_def)
    qed
  qed
qed

lemma board_bytes_append:
  "board_bytes st out (xs @ ys) g = Option.bind (board_bytes st out xs g) (board_bytes st out ys)"
  by (induction xs arbitrary: g) (auto split: bind_split)

lemma board_bytes_snoc:
  "board_bytes st out xs g = Some g1 \<Longrightarrow> board_bytes st out (xs @ [x]) g = board_byte st out x g1"
  by (simp add: board_bytes_append) (cases "board_byte st out x g1"; simp)

text \<open>The out-parameters have no influence on the reader, and are its fields when a frame is ready.\<close>

lemma feed_out_params:
  assumes "xrce_serial_reader_feed r b s l = (res, r', s', l')"
  shows "xrce_serial_reader_feed r b s2 l2 =
     (res, r', if res = FEED_FRAME_READY then s' else s2, if res = FEED_FRAME_READY then l' else l2)"
  using assms
  by (auto simp: xrce_serial_reader_feed_def feed_decoded_def Let_def
      split: if_splits prod.splits option.splits serial_state.splits)

lemma board_bytes_quiet:
  assumes "feed_all (board_reader g) bs s l = (replicate (length bs) FEED_IN_PROGRESS, r, s', l')"
  shows "board_bytes st out bs g = Some (g\<lparr>board_reader := r\<rparr>)"
  using assms
proof (induction bs arbitrary: g s l)
  case (Cons b bs)
  obtain res r1 s1 l1 where f: "xrce_serial_reader_feed (board_reader g) b s l = (res, r1, s1, l1)" by (metis prod_cases4)
  obtain ress t where g: "feed_all r1 bs s1 l1 = (ress, t)" by (cases "feed_all r1 bs s1 l1")
  from Cons.prems f g have res: "res = FEED_IN_PROGRESS" and rest: "feed_all r1 bs s1 l1 = (replicate (length bs) FEED_IN_PROGRESS, r, s', l')"
    by auto
  have "board_byte st out b g = Some (g\<lparr>board_reader := r1\<rparr>)"
    using feed_out_params[OF f, of 0 0] res by (simp add: board_byte_def)
  moreover have "board_bytes st out bs (g\<lparr>board_reader := r1\<rparr>) = Some (g\<lparr>board_reader := r\<rparr>)"
    using Cons.IH[of "g\<lparr>board_reader := r1\<rparr>" s1 l1] rest by simp
  ultimately show ?case by simp
qed simp

lemma feed_all_last:
  assumes "feed_all r (bs @ [b]) s l = (ress @ [res], r', s', l')" "length ress = length bs"
  shows "\<exists>r1 s1 l1. feed_all r bs s l = (ress, r1, s1, l1) \<and> xrce_serial_reader_feed r1 b s1 l1 = (res, r', s', l')"
proof -
  obtain ress1 r1 s1 l1 where f: "feed_all r bs s l = (ress1, r1, s1, l1)" by (metis prod_cases4)
  obtain res2 t where g: "xrce_serial_reader_feed r1 b s1 l1 = (res2, t)" by (cases "xrce_serial_reader_feed r1 b s1 l1")
  have "ress1 @ [res2] = ress @ [res]" "t = (r', s', l')"
    using assms(1) f g by (auto simp: feed_all_append split: prod.splits)
  then show ?thesis using f g by simp
qed

section \<open>What reaches the agent\<close>

text \<open>
  Whatever bytes arrive from the board, the gateway processes them all, and what it has written to the agent
  is a sequence of plain frames, each for a payload that was received inside a valid envelope under the
  gateway's key, with strictly increasing counters.
\<close>

lemma board_bytes_authentic:
  assumes "stack_ok st" "key_len \<le> length key" "length out = XRCE_SERIAL_MAX_ENCODED_LEN MAX_PAYLOAD"
    and "g0 = gateway_init key key_len"
  shows "\<exists>g cps. board_bytes st out input g0 = Some g \<and>
     to_agent g = concat (map (\<lambda>(c, p). plain_frame p) cps) \<and> sorted_wrt (<) (map fst cps) \<and>
     (\<forall>(c, p) \<in> set cps. \<exists>pre g1 n. prefix pre input \<and> board_bytes st out pre g0 = Some g1 \<and>
        take n (payload_buf (board_reader g1)) = envelope (take key_len key) c p)"
proof -
  let ?k = "take key_len key"
  let ?seen = "\<lambda>input c p. \<exists>pre g1 n. prefix pre input \<and> board_bytes st out pre g0 = Some g1 \<and>
        take n (payload_buf (board_reader g1)) = envelope ?k c p"
  have "\<exists>g cps. board_bytes st out input g0 = Some g \<and> gateway_ok ?k g \<and>
     to_agent g = concat (map (\<lambda>(c, p). plain_frame p) cps) \<and> sorted_wrt (<) (map fst cps) \<and>
     (\<forall>(c, p) \<in> set cps. ?seen input c p) \<and>
     (\<forall>(c, p) \<in> set cps. have_received (uplink_ctx g) \<and> c \<le> last_recv_counter (uplink_ctx g))"
  proof (induction input rule: rev_induct)
    case Nil
    have "to_agent g0 = []" using assms(4) by (simp add: gateway_init_def)
    then show ?case using gateway_init_ok[OF assms(2)] assms(4) by (intro exI[of _ g0] exI[of _ "[]"]) simp
  next
    case (snoc b input)
    then obtain g cps where g: "board_bytes st out input g0 = Some g" "gateway_ok ?k g"
        "to_agent g = concat (map (\<lambda>(c, p). plain_frame p) cps)" "sorted_wrt (<) (map fst cps)"
        "\<forall>(c, p) \<in> set cps. ?seen input c p"
        "\<forall>(c, p) \<in> set cps. have_received (uplink_ctx g) \<and> c \<le> last_recv_counter (uplink_ctx g)"
      by blast
    have seen: "?seen (input @ [b]) c p" if "?seen input c p" for c p
      using that prefix_prefix by blast
    obtain g' where g': "board_byte st out b g = Some g'" "gateway_ok ?k g'"
      and alt: "(to_agent g' = to_agent g \<and> uplink_ctx g' = uplink_ctx g) \<or>
        (\<exists>n counter p. fresh_envelope ?k (uplink_ctx g) (take n (payload_buf (board_reader g'))) counter p \<and>
         to_agent g' = to_agent g @ plain_frame p \<and> have_received (uplink_ctx g') \<and> last_recv_counter (uplink_ctx g') = counter)"
      using board_byte_total[OF assms(1) g(2) assms(3)] by blast
    have run: "board_bytes st out (input @ [b]) g0 = Some g'" using board_bytes_snoc[OF g(1)] g'(1) by simp
    from alt show ?case
    proof
      assume "to_agent g' = to_agent g \<and> uplink_ctx g' = uplink_ctx g"
      then show ?thesis using run g'(2) g(3-6) seen by (intro exI[of _ g'] exI[of _ cps]) fastforce
    next
      assume "\<exists>n counter p. fresh_envelope ?k (uplink_ctx g) (take n (payload_buf (board_reader g'))) counter p \<and>
         to_agent g' = to_agent g @ plain_frame p \<and> have_received (uplink_ctx g') \<and> last_recv_counter (uplink_ctx g') = counter"
      then obtain n c p where n: "fresh_envelope ?k (uplink_ctx g) (take n (payload_buf (board_reader g'))) c p"
          "to_agent g' = to_agent g @ plain_frame p" "have_received (uplink_ctx g')" "last_recv_counter (uplink_ctx g') = c"
        by blast
      have lt: "\<forall>(d, q) \<in> set cps. d < c" using g(6) n(1) by (fastforce simp: fresh_envelope_def)
      have "?seen (input @ [b]) c p" using run n(1) by (intro exI[of _ "input @ [b]"]) (auto simp: fresh_envelope_def)
      then show ?thesis
        using run g'(2) g(3-5) n seen lt
        by (intro exI[of _ g'] exI[of _ "cps @ [(c, p)]"]) (fastforce simp: sorted_wrt_append)
    qed
  qed
  then show ?thesis by blast
qed

text \<open>
  An authentic frame gets through. When the board's side of the gateway is not in the middle of an
  escape sequence and a serial frame carrying the envelope of a payload of at most 316 bytes arrives,
  with a counter the replay window lets through, the gateway writes exactly the plain serial frame of
  that payload to the agent and remembers the counter; the agent's reader decodes that frame by
  the serial round trip.
\<close>

lemma authentic_frame:
  assumes "stack_ok st" "gateway_ok key g" "length out = XRCE_SERIAL_MAX_ENCODED_LEN MAX_PAYLOAD"
    and "\<not> have_escape (board_reader g)" "local_addr (board_reader g) = ADDR" "payload_cap (board_reader g) = 524"
    and "length p \<le> 316" "have_received (uplink_ctx g) \<longrightarrow> last_recv_counter (uplink_ctx g) < c"
    and "w = envelope key c p"
  shows "\<exists>g'. board_bytes st out (plain_frame w) g = Some g' \<and> to_agent g' = to_agent g @ plain_frame p \<and>
     have_received (uplink_ctx g') \<and> last_recv_counter (uplink_ctx g') = c \<and> \<not> have_escape (board_reader g')"
proof -
  let ?r = "board_reader g"
  have lw: "length w = 12 + length p" using assms(9) by (simp add: length_envelope)
  have cap: "length w < 65536" "length w \<le> payload_cap ?r" "payload_cap ?r \<le> length (payload_buf ?r)"
    using lw assms(2,6,7) by (simp_all add: gateway_ok_def reader_ok_def)
  have pf: "plain_frame w = frame_bytes ADDR (local_addr ?r) w (xrce_serial_crc16 w (length w))"
    using assms(5) by (simp add: plain_frame_def)
  obtain r' s' l' where f: "feed_all ?r (plain_frame w) 0 0 =
      (replicate (length (plain_frame w) - 1) FEED_IN_PROGRESS @ [FEED_FRAME_READY], r', s', l')"
    and r': "payload_buf r' = blit 0 w (payload_buf ?r)" "l' = of_nat (length w)" and esc: "\<not> have_escape r'"
    using feed_frame[OF assms(4) cap pf, of 0 0] by auto
  have ne: "plain_frame w \<noteq> []" by (simp add: plain_frame_def frame_bytes_def)
  let ?bs = "butlast (plain_frame w)" and ?b = "last (plain_frame w)"
  have split: "plain_frame w = ?bs @ [?b]" using ne by simp
  have "feed_all ?r (?bs @ [?b]) 0 0 = (replicate (length ?bs) FEED_IN_PROGRESS @ [FEED_FRAME_READY], r', s', l')"
    using f ne by simp
  from feed_all_last[OF this] obtain r1 s1 l1 where
    q: "feed_all ?r ?bs 0 0 = (replicate (length ?bs) FEED_IN_PROGRESS, r1, s1, l1)"
    and last: "xrce_serial_reader_feed r1 ?b s1 l1 = (FEED_FRAME_READY, r', s', l')" by auto
  let ?g1 = "g\<lparr>board_reader := r1\<rparr>"
  have b1: "board_bytes st out ?bs g = Some ?g1" by (rule board_bytes_quiet[OF q])
  have t: "take (length w) (payload_buf r') = w" "length w \<le> length (payload_buf r')" "unat l' = length w"
    using r' cap by (simp_all add: blit_def unat_of_nat)
  have k: "key_ok (uplink_ctx g)" "key_of (uplink_ctx g) = key" using assms(2) by (simp_all add: gateway_ok_def)
  have c4: "be_value (take 4 (payload_buf r')) = c"
  proof -
    have "take 4 (payload_buf r') = take 4 (take (length w) (payload_buf r'))" using lw by simp
    also have "\<dots> = be_bytes 4 c" using t(1) assms(9) by (simp add: envelope_def)
    finally show ?thesis by simp
  qed
  have pl: "slice 12 (length w - 12) (payload_buf r') = p"
  proof -
    have "slice 12 (length w - 12) (payload_buf r') = drop 12 (take (length w) (payload_buf r'))"
      by (simp add: slice_def drop_take)
    then show ?thesis using t(1) assms(9) by (simp add: envelope_def length_tag_of)
  qed
  have cond: "12 \<le> length w \<and> length w \<le> 328 \<and> take (length w) (payload_buf r') = envelope (key_of (uplink_ctx g)) c p \<and>
      \<not> (have_received (uplink_ctx g) \<and> c \<le> last_recv_counter (uplink_ctx g))"
    using lw assms(7,8,9) t(1) k(2) by auto
  have "process_secure_frame st (uplink_ctx g) (payload_buf r') (length w) out
      (XRCE_SERIAL_MAX_ENCODED_LEN MAX_PAYLOAD) = Some (length (plain_frame p),
        (uplink_ctx g)\<lparr>last_recv_counter := c, have_received := True\<rparr>,
        plain_frame p @ drop (length (plain_frame p)) out, Verified (length w - 12))"
    using process_frame_total[OF assms(1) k(1) t(2) assms(3) refl refl] unfolding c4 pl if_P[OF cond] by blast
  moreover have "length (plain_frame p) > 0" by (simp add: plain_frame_def frame_bytes_def)
  ultimately have "board_byte st out ?b ?g1 = Some (?g1\<lparr>board_reader := r',
      uplink_ctx := (uplink_ctx g)\<lparr>last_recv_counter := c, have_received := True\<rparr>,
      gw_log := gw_log g @ [Verified (length w - 12)], to_agent := to_agent g @ plain_frame p\<rparr>)"
    using feed_out_params[OF last, of 0 0] t(3) by (simp add: board_byte_def Let_def)
  moreover have "board_bytes st out (plain_frame w) g = board_byte st out ?b ?g1"
    by (subst split) (rule board_bytes_snoc[OF b1])
  ultimately show ?thesis using esc by simp
qed

lemma feed_local_addr: "xrce_serial_reader_feed r b s l = (res, r', s', l') \<Longrightarrow> local_addr r' = local_addr r"
  by (auto simp: xrce_serial_reader_feed_def unstuff_def feed_decoded_def reset_to_wait_def Let_def
      split: if_splits prod.splits option.splits serial_state.splits)

text \<open>What stays the same at the board's side of the gateway.\<close>

lemma board_bytes_same:
  assumes "stack_ok st" "length out = XRCE_SERIAL_MAX_ENCODED_LEN MAX_PAYLOAD" "gateway_ok key g" "board_bytes st out bs g = Some g'"
  shows "gateway_ok key g' \<and> local_addr (board_reader g') = local_addr (board_reader g) \<and> payload_cap (board_reader g') = payload_cap (board_reader g)"
  using assms(3,4)
proof (induction bs arbitrary: g)
  case (Cons b bs)
  obtain res r s l where f: "xrce_serial_reader_feed (board_reader g) b 0 0 = (res, r, s, l)" by (metis prod_cases4)
  obtain g1 where g1: "board_byte st out b g = Some g1" "gateway_ok key g1"
    using board_byte_total[OF assms(1) Cons.prems(1) assms(2)] by blast
  have "board_reader g1 = r"
    using g1(1) f by (auto simp: board_byte_def Let_def split: if_splits option.splits prod.splits)
  moreover have "local_addr r = local_addr (board_reader g)" "payload_cap r = payload_cap (board_reader g)"
    using feed_local_addr[OF f] feed_ok[OF _ f] Cons.prems(1) by (simp_all add: gateway_ok_def)
  ultimately show ?case using Cons.IH[OF g1(2)] Cons.prems(2) g1(1) by simp
qed simp

text \<open>Authentic frames with increasing counters all get through, in order.\<close>

lemma authentic_frames:
  assumes "stack_ok st" "gateway_ok key g" "length out = XRCE_SERIAL_MAX_ENCODED_LEN MAX_PAYLOAD"
    and "\<not> have_escape (board_reader g)" "local_addr (board_reader g) = ADDR" "payload_cap (board_reader g) = 524"
    and "\<forall>(c, p) \<in> set cps. length p \<le> 316" "sorted_wrt (<) (map fst cps)"
    and "have_received (uplink_ctx g) \<longrightarrow> (\<forall>(c, p) \<in> set cps. last_recv_counter (uplink_ctx g) < c)"
  shows "\<exists>g'. board_bytes st out (concat (map (\<lambda>(c, p). plain_frame (envelope key c p)) cps)) g = Some g' \<and>
     to_agent g' = to_agent g @ concat (map (\<lambda>(c, p). plain_frame p) cps)"
  using assms(2,4-9)
proof (induction cps arbitrary: g)
  case (Cons cp cps)
  obtain c p where cp: "cp = (c, p)" by (cases cp)
  have h: "length p \<le> 316" "have_received (uplink_ctx g) \<longrightarrow> last_recv_counter (uplink_ctx g) < c" using Cons.prems(5,7) cp by auto
  obtain g1 where g1: "board_bytes st out (plain_frame (envelope key c p)) g = Some g1" "to_agent g1 = to_agent g @ plain_frame p"
      "last_recv_counter (uplink_ctx g1) = c" "\<not> have_escape (board_reader g1)"
    using authentic_frame[OF assms(1) Cons.prems(1) assms(3) Cons.prems(2-4) h refl] by blast
  note same = board_bytes_same[OF assms(1,3) Cons.prems(1) g1(1)]
  have "\<exists>g'. board_bytes st out (concat (map (\<lambda>(c, p). plain_frame (envelope key c p)) cps)) g1 = Some g' \<and>
     to_agent g' = to_agent g1 @ concat (map (\<lambda>(c, p). plain_frame p) cps)"
    by (rule Cons.IH) (use same g1 Cons.prems cp in \<open>auto simp: image_iff\<close>)
  then show ?case using g1 by (auto simp: cp board_bytes_append)
qed simp

end
