(* ===== verification/Gateway_Loop.thy ===== *)
theory Gateway_Loop
  imports Gateway
begin

text \<open>
  The \<^verbatim>\<open>main\<close> of \<^verbatim>\<open>host/secure_gateway.c\<close>: the command line, the terminals and the event loop that serves both
  directions. What the operating system answers is an argument: whether the board's terminal opens, whether
  \<^verbatim>\<open>openpty\<close> succeeds, and for every call of \<^verbatim>\<open>poll\<close> its result with the bytes that the following reads give.
  Putting the terminals into raw mode has no result the program looks at. The contents of the local arrays
  are the arguments \<open>st\<close>, \<open>out\<close>, \<open>wrapped\<close> and \<open>out2\<close>.
\<close>

section \<open>The event loop\<close>

text \<open>A read of one byte: the byte, or a result of zero or less.\<close>

datatype link_read = Byte u8 | No_byte

text \<open>\<^verbatim>\<open>poll\<close>: interrupted, failed, or with the reads of the board and of the agent where they are readable.\<close>

datatype poll_result = Poll_interrupted | Poll_failed | Poll_ready "link_read option" "link_read option"

text \<open>The two branches of an iteration; the flag is false at a \<^verbatim>\<open>break\<close>.\<close>

definition board_side :: "stack_mem \<Rightarrow> bytes \<Rightarrow> link_read option \<Rightarrow> gateway \<Rightarrow> (bool \<times> gateway) option" where
  "board_side st out r g =
     (case r of
        None \<Rightarrow> Some (True, g)
      | Some No_byte \<Rightarrow> Some (False, g\<lparr>gw_log := gw_log g @ [Link_closed True]\<rparr>)
      | Some (Byte b) \<Rightarrow> map_option (\<lambda>g. (True, g)) (board_byte st out b g))"

definition agent_side :: "stack_mem \<Rightarrow> bytes \<Rightarrow> bytes \<Rightarrow> link_read option \<Rightarrow> gateway \<Rightarrow> (bool \<times> gateway) option" where
  "agent_side st wrapped out2 r g =
     (case r of
        None \<Rightarrow> Some (True, g)
      | Some No_byte \<Rightarrow> Some (False, g\<lparr>gw_log := gw_log g @ [Link_closed False]\<rparr>)
      | Some (Byte b) \<Rightarrow> map_option (\<lambda>g. (True, g)) (agent_byte st wrapped out2 b g))"

definition gateway_pass ::
  "stack_mem \<Rightarrow> bytes \<Rightarrow> bytes \<Rightarrow> bytes \<Rightarrow> poll_result \<Rightarrow> gateway \<Rightarrow> (bool \<times> gateway) option" where
  "gateway_pass st out wrapped out2 ev g =
     (case ev of
        Poll_interrupted \<Rightarrow> Some (True, g)
      | Poll_failed \<Rightarrow> Some (False, g)
      | Poll_ready b a \<Rightarrow>
          Option.bind (board_side st out b g) (\<lambda>(go, g). if \<not> go then Some (False, g) else agent_side st wrapped out2 a g))"

text \<open>The loop, for as many calls of \<^verbatim>\<open>poll\<close> as have returned so far; the flag tells whether it is still running.\<close>

fun gateway_loop ::
  "stack_mem \<Rightarrow> bytes \<Rightarrow> bytes \<Rightarrow> bytes \<Rightarrow> poll_result list \<Rightarrow> gateway \<Rightarrow> (bool \<times> gateway) option" where
  "gateway_loop st out wrapped out2 [] g = Some (True, g)"
| "gateway_loop st out wrapped out2 (ev # evs) g =
     Option.bind (gateway_pass st out wrapped out2 ev g) (\<lambda>(go, g).
       if \<not> go then Some (False, g) else gateway_loop st out wrapped out2 evs g)"

section \<open>The program\<close>

datatype gateway_run = Gw_exited int | Gw_running gateway | Gw_done int gateway

text \<open>\<open>argv\<close> includes the program's name; \<open>key_buf\<close> is the local array of 64 bytes.\<close>

definition gateway_main ::
  "stack_mem \<Rightarrow> bytes \<Rightarrow> bytes \<Rightarrow> bytes \<Rightarrow> bytes \<Rightarrow> bool \<Rightarrow> bool \<Rightarrow> bytes list \<Rightarrow> poll_result list \<Rightarrow> gateway_run option" where
  "gateway_main st out wrapped out2 key_buf opens pty_ok argv evs =
     (if length argv < 2 \<or> length argv > 3 then Some (Gw_exited 1)
      else
        (case gateway_key (if length argv = 3 then Some (argv ! 2) else None) key_buf of
           None \<Rightarrow> Some (Gw_exited 1)
         | Some (key, key_len) \<Rightarrow>
             if \<not> opens then Some (Gw_exited 1)
             else if \<not> pty_ok then Some (Gw_exited 1)
             else
               Option.bind (gateway_loop st out wrapped out2 evs (gateway_init key key_len)) (\<lambda>(go, g).
                 Some (if go then Gw_running g else Gw_done 0 g))))"

section \<open>Lemmas: the two directions do not interfere\<close>

definition up_half :: "gateway \<Rightarrow> secure_ctx \<times> serial_reader \<times> bytes" where
  "up_half g = (uplink_ctx g, board_reader g, to_agent g)"

definition down_half :: "gateway \<Rightarrow> secure_ctx \<times> serial_reader \<times> bytes" where
  "down_half g = (downlink_ctx g, agent_reader g, to_board g)"

text \<open>A list of bytes through one direction.\<close>

primrec bytes_through :: "(u8 \<Rightarrow> 'g \<Rightarrow> 'g option) \<Rightarrow> bytes \<Rightarrow> 'g \<Rightarrow> 'g option" where
  "bytes_through step [] g = Some g"
| "bytes_through step (b # bs) g = Option.bind (step b g) (bytes_through step bs)"

lemma board_bytes_through: "board_bytes st out bs g = bytes_through (board_byte st out) bs g"
  by (induction bs arbitrary: g) (simp_all split: bind_split)

text \<open>
  The interface of a direction: it works on its own half of the state, whatever the other half is, leaves the other
  half alone, and always succeeds on a half that is in order.
\<close>

locale relay_side =
  fixes step :: "u8 \<Rightarrow> 'g \<Rightarrow> 'g option" and own :: "'g \<Rightarrow> 'h" and other :: "'g \<Rightarrow> 'k" and ok :: "'h \<Rightarrow> bool"
  assumes own_cong: "own g1 = own g2 \<Longrightarrow> map_option own (step b g1) = map_option own (step b g2)"
    and keeps_other: "step b g = Some g' \<Longrightarrow> other g' = other g"
    and total: "ok (own g) \<Longrightarrow> \<exists>g'. step b g = Some g' \<and> ok (own g')"
begin

lemma through_cong: "own g1 = own g2 \<Longrightarrow> map_option own (bytes_through step bs g1) = map_option own (bytes_through step bs g2)"
proof (induction bs arbitrary: g1 g2)
  case (Cons b bs)
  show ?case
  proof (cases "step b g1")
    case None
    then have "step b g2 = None" using own_cong[OF Cons.prems, of b] by simp
    then show ?thesis using None by simp
  next
    case (Some g1')
    then have "map_option own (step b g2) = Some (own g1')" using own_cong[OF Cons.prems, of b] by simp
    then obtain g2' where g2': "step b g2 = Some g2'" "own g1' = own g2'" by auto
    show ?thesis unfolding bytes_through.simps Some g2'(1) Option.bind.simps by (rule Cons.IH[OF g2'(2)])
  qed
qed simp

text \<open>What the bytes do to this half does not depend on the other one.\<close>

lemma through_same:
  assumes "own g2 = own g1" "bytes_through step bs g2 = Some g3"
  obtains g4 where "bytes_through step bs g1 = Some g4" "own g4 = own g3"
proof -
  have "map_option own (bytes_through step bs g1) = Some (own g3)" using through_cong[OF assms(1), of bs] assms(2) by simp
  then show thesis using that by auto
qed

end

lemma board_byte_halves:
  "up_half g1 = up_half g2 \<Longrightarrow> map_option up_half (board_byte st out b g1) = map_option up_half (board_byte st out b g2)"
  "board_byte st out b g = Some g' \<Longrightarrow> down_half g' = down_half g"
proof -
  show "map_option up_half (board_byte st out b g1) = map_option up_half (board_byte st out b g2)" if "up_half g1 = up_half g2"
    using that by (auto simp: up_half_def board_byte_def Let_def split: prod.splits option.splits)
  show "board_byte st out b g = Some g' \<Longrightarrow> down_half g' = down_half g"
    by (auto simp: down_half_def board_byte_def Let_def split: prod.splits option.splits if_splits)
qed

lemma agent_byte_halves:
  "down_half g1 = down_half g2 \<Longrightarrow> map_option down_half (agent_byte st w out b g1) = map_option down_half (agent_byte st w out b g2)"
  "agent_byte st w out b g = Some g' \<Longrightarrow> up_half g' = up_half g"
proof -
  show "map_option down_half (agent_byte st w out b g1) = map_option down_half (agent_byte st w out b g2)" if "down_half g1 = down_half g2"
    using that by (auto simp: down_half_def agent_byte_def Let_def split: prod.splits option.splits)
  show "agent_byte st w out b g = Some g' \<Longrightarrow> up_half g' = up_half g"
    by (auto simp: up_half_def agent_byte_def Let_def split: prod.splits option.splits if_splits)
qed

text \<open>What is in order for each direction: the local arrays have their sizes, reader and key are well-formed.\<close>

definition up_ok :: "stack_mem \<Rightarrow> bytes \<Rightarrow> secure_ctx \<times> serial_reader \<times> bytes \<Rightarrow> bool" where
  "up_ok st out h \<longleftrightarrow> stack_ok st \<and> length out = XRCE_SERIAL_MAX_ENCODED_LEN MAX_PAYLOAD \<and> key_ok (fst h) \<and> reader_ok (fst (snd h))"

definition down_ok :: "stack_mem \<Rightarrow> bytes \<Rightarrow> bytes \<Rightarrow> secure_ctx \<times> serial_reader \<times> bytes \<Rightarrow> bool" where
  "down_ok st wrapped out2 h \<longleftrightarrow> stack_ok st \<and> length wrapped = MAX_PAYLOAD + XRCE_SECURE_OVERHEAD \<and>
     length out2 = XRCE_SERIAL_MAX_ENCODED_LEN (MAX_PAYLOAD + XRCE_SECURE_OVERHEAD) \<and> key_ok (fst h) \<and> reader_ok (fst (snd h)) \<and>
     payload_cap (fst (snd h)) = MAX_PAYLOAD"

text \<open>One byte from the agent: nothing for the board, or the frame of the envelope of a complete payload.\<close>

lemma agent_byte_exact:
  assumes "down_ok st wrapped out2 (down_half g)" "xrce_serial_reader_feed (agent_reader g) b 0 0 = (res, r, src, flen)"
    and "p = take (unat flen) (payload_buf r)" "ctx = downlink_ctx g"
  shows "\<exists>g'. agent_byte st wrapped out2 b g = Some g' \<and> down_ok st wrapped out2 (down_half g') \<and>
     down_half g' = (if res = FEED_FRAME_READY \<and> length p \<le> 316
       then (ctx\<lparr>send_counter := send_counter ctx + 1\<rparr>, r, to_board g @ plain_frame (envelope (key_of ctx) (send_counter ctx) p))
       else (ctx, r, to_board g))"
proof -
  have d: "stack_ok st" "length wrapped = 524" "length out2 = XRCE_SERIAL_MAX_ENCODED_LEN 524" "key_ok ctx" "reader_ok (agent_reader g)"
      "payload_cap (agent_reader g) = 512"
    using assms(1,4) by (simp_all add: down_ok_def down_half_def)
  have f: "reader_ok r" "payload_cap r = 512" "res = FEED_FRAME_READY \<Longrightarrow> unat flen \<le> length (payload_buf r)"
    using feed_ok[OF d(5) assms(2)] d(6) by (auto simp: reader_ok_def)
  have ok': "down_ok st wrapped out2 (c, r, x)" if "key_ok c" for c x using that d f by (simp add: down_ok_def)
  consider (idle) "res \<noteq> FEED_FRAME_READY" | (long) "res = FEED_FRAME_READY" "316 < length p" | (fits) "res = FEED_FRAME_READY" "length p \<le> 316" by fastforce
  then show ?thesis
  proof cases
    case idle
    then show ?thesis
      using assms(2,4) ok'[OF d(4)] by (cases "res = FEED_ERROR") (auto simp: agent_byte_def Let_def down_half_def)
  next
    case long
    then have n: "unat flen = length p" using f(3) assms(3) by simp
    have "xrce_secure_wrap st ctx (payload_buf r) (unat flen) wrapped 524 = Some (0, ctx, wrapped)"
      using long(2) n by (simp add: xrce_secure_wrap_def)
    then have "wrap_and_encode st wrapped ctx (payload_buf r) (unat flen) out2 (XRCE_SERIAL_MAX_ENCODED_LEN 524) =
        Some (0, ctx, out2, [Wrap_failed (unat flen)])" by (simp add: wrap_and_encode_def)
    then show ?thesis
      using assms(2,4) long ok'[OF d(4)] by (auto simp: agent_byte_def Let_def down_half_def)
  next
    case fits
    then have n: "unat flen = length p" using f(3) assms(3) by simp
    let ?w = "envelope (key_of ctx) (send_counter ctx) p"
    have lw: "length ?w = 12 + length p" by (rule length_envelope)
    have wr: "xrce_secure_wrap st ctx (payload_buf r) (length p) wrapped 524 =
        Some (length ?w, ctx\<lparr>send_counter := send_counter ctx + 1\<rparr>, ?w @ drop (length ?w) wrapped)"
    proof (rule wrap_envelope[OF d(1,4)])
      show "length p \<le> length (payload_buf r)" using f(3) fits(1) n by simp
      show "?w = envelope (key_of ctx) (send_counter ctx) (take (length p) (payload_buf r))" using n assms(3) by simp
    qed (use fits d(2) in simp_all)
    have en: "xrce_serial_frame_encode out2 (XRCE_SERIAL_MAX_ENCODED_LEN 524) ADDR ADDR (?w @ drop (length ?w) wrapped) (length ?w) =
        (length (plain_frame ?w), plain_frame ?w @ drop (length (plain_frame ?w)) out2)" "length (plain_frame ?w) \<noteq> 0"
      using encode_plain[of "XRCE_SERIAL_MAX_ENCODED_LEN 524" out2 ?w] fits(2) lw d(3)
        frame_encode_take[of "length ?w" "?w @ drop (length ?w) wrapped" out2 "XRCE_SERIAL_MAX_ENCODED_LEN 524" ADDR ADDR]
      by (simp_all add: XRCE_SERIAL_MAX_ENCODED_LEN_def)
    have "wrap_and_encode st wrapped ctx (payload_buf r) (unat flen) out2 (XRCE_SERIAL_MAX_ENCODED_LEN 524) =
        Some (length (plain_frame ?w), ctx\<lparr>send_counter := send_counter ctx + 1\<rparr>, plain_frame ?w @ drop (length (plain_frame ?w)) out2, [])"
      using wr en lw by (simp add: wrap_and_encode_def n)
    then show ?thesis
      using assms(2,4) fits en(2) ok'[of "ctx\<lparr>send_counter := send_counter ctx + 1\<rparr>"] d(4)
      by (auto simp: agent_byte_def Let_def down_half_def key_ok_def)
  qed
qed

interpretation uplink: relay_side "board_byte st out" up_half down_half "up_ok st out" for st out
proof
  fix g b
  assume ok: "up_ok st out (up_half g)"
  then have "gateway_ok (key_of (uplink_ctx g)) g" by (simp add: up_ok_def up_half_def gateway_ok_def)
  then obtain g' where "board_byte st out b g = Some g'" "gateway_ok (key_of (uplink_ctx g)) g'"
    using board_byte_total[of st _ g out b] ok by (auto simp: up_ok_def)
  then show "\<exists>g'. board_byte st out b g = Some g' \<and> up_ok st out (up_half g')"
    using ok by (simp add: up_ok_def up_half_def gateway_ok_def)
qed (fact board_byte_halves)+

interpretation downlink: relay_side "agent_byte st wrapped out2" down_half up_half "down_ok st wrapped out2" for st wrapped out2
proof
  fix g b
  assume ok: "down_ok st wrapped out2 (down_half g)"
  obtain res r src flen where "xrce_serial_reader_feed (agent_reader g) b 0 0 = (res, r, src, flen)" by (metis prod_cases4)
  from agent_byte_exact[OF ok this refl refl]
  show "\<exists>g'. agent_byte st wrapped out2 b g = Some g' \<and> down_ok st wrapped out2 (down_half g')" by blast
qed (fact agent_byte_halves)+

text \<open>The bytes read from the board and from the agent until the loop is left, and whether it is still running.\<close>

definition byte_of :: "link_read option \<Rightarrow> bytes" where
  "byte_of r = (case r of Some (Byte b) \<Rightarrow> [b] | _ \<Rightarrow> [])"

fun reads :: "poll_result list \<Rightarrow> bytes \<times> bytes \<times> bool" where
  "reads [] = ([], [], True)"
| "reads (Poll_interrupted # evs) = reads evs"
| "reads (Poll_failed # evs) = ([], [], False)"
| "reads (Poll_ready b a # evs) =
     (if b = Some No_byte then ([], [], False)
      else if a = Some No_byte then (byte_of b, [], False)
      else (case reads evs of (bs, as, go) \<Rightarrow> (byte_of b @ bs, byte_of a @ as, go)))"

lemma board_side_run:
  assumes "up_ok st out (up_half g)" "b \<noteq> Some No_byte"
  obtains g1 where "board_side st out b g = Some (True, g1)" "up_ok st out (up_half g1)" "down_half g1 = down_half g"
    "bytes_through (board_byte st out) (byte_of b) g = Some g1"
proof (cases b)
  case (Some x)
  then obtain y where y: "x = Byte y" using assms(2) by (cases x) auto
  obtain g1 where g1: "board_byte st out y g = Some g1" "up_ok st out (up_half g1)" using uplink.total[OF assms(1)] by blast
  show ?thesis
    by (rule that[of g1]) (use g1 Some y uplink.keeps_other[OF g1(1)] in \<open>simp_all add: board_side_def byte_of_def\<close>)
qed (use assms that in \<open>simp add: board_side_def byte_of_def\<close>)

lemma agent_side_run:
  assumes "down_ok st wrapped out2 (down_half g)" "a \<noteq> Some No_byte"
  obtains g1 where "agent_side st wrapped out2 a g = Some (True, g1)" "down_ok st wrapped out2 (down_half g1)" "up_half g1 = up_half g"
    "bytes_through (agent_byte st wrapped out2) (byte_of a) g = Some g1"
proof (cases a)
  case (Some x)
  then obtain y where y: "x = Byte y" using assms(2) by (cases x) auto
  obtain g1 where g1: "agent_byte st wrapped out2 y g = Some g1" "down_ok st wrapped out2 (down_half g1)" using downlink.total[OF assms(1)] by blast
  show ?thesis
    by (rule that[of g1]) (use g1 Some y downlink.keeps_other[OF g1(1)] in \<open>simp_all add: agent_side_def byte_of_def\<close>)
qed (use assms that in \<open>simp add: agent_side_def byte_of_def\<close>)

lemma through_append: "bytes_through step (xs @ ys) g = Option.bind (bytes_through step xs g) (bytes_through step ys)"
  by (induction xs arbitrary: g) (auto split: bind_split)

text \<open>The loop is the two directions side by side, whatever the interleaving.\<close>

lemma loop_halves:
  assumes "up_ok st out (up_half g)" "down_ok st wrapped out2 (down_half g)" "reads evs = (bs, as, go)"
  shows "\<exists>g' gu gd. gateway_loop st out wrapped out2 evs g = Some (go, g') \<and>
     bytes_through (board_byte st out) bs g = Some gu \<and> up_half gu = up_half g' \<and>
     bytes_through (agent_byte st wrapped out2) as g = Some gd \<and> down_half gd = down_half g'"
  using assms
proof (induction evs arbitrary: g bs as)
  case (Cons ev evs)
  show ?case
  proof (cases ev)
    case (Poll_ready b a)
    show ?thesis
    proof (cases "b = Some No_byte")
      case True
      then show ?thesis
        using Cons.prems(3) Poll_ready by (auto simp: gateway_pass_def board_side_def up_half_def down_half_def)
    next
      case False
      obtain g1 where g1: "board_side st out b g = Some (True, g1)" "up_ok st out (up_half g1)" "down_half g1 = down_half g"
          "bytes_through (board_byte st out) (byte_of b) g = Some g1"
        using board_side_run[OF Cons.prems(1) False] by blast
      show ?thesis
      proof (cases "a = Some No_byte")
        case True
        then show ?thesis
          using Cons.prems(3) Poll_ready False g1 by (auto simp: gateway_pass_def agent_side_def up_half_def down_half_def)
      next
        case a: False
        have d1: "down_ok st wrapped out2 (down_half g1)" using Cons.prems(2) g1(3) by simp
        obtain g2 where g2: "agent_side st wrapped out2 a g1 = Some (True, g2)" "down_ok st wrapped out2 (down_half g2)" "up_half g2 = up_half g1"
            "bytes_through (agent_byte st wrapped out2) (byte_of a) g1 = Some g2"
          using agent_side_run[OF d1 a] by blast
        obtain bs1 as1 where r: "reads evs = (bs1, as1, go)" "bs = byte_of b @ bs1" "as = byte_of a @ as1"
          using Cons.prems(3) Poll_ready False a by (auto split: prod.splits)
        have u2: "up_ok st out (up_half g2)" using g1(2) g2(3) by simp
        obtain g' gu gd where IH: "gateway_loop st out wrapped out2 evs g2 = Some (go, g')" "bytes_through (board_byte st out) bs1 g2 = Some gu"
            "up_half gu = up_half g'" "bytes_through (agent_byte st wrapped out2) as1 g2 = Some gd" "down_half gd = down_half g'"
          using Cons.IH[OF u2 g2(2) r(1)] by blast
        obtain gu1 where gu1: "bytes_through (board_byte st out) bs1 g1 = Some gu1" "up_half gu1 = up_half gu"
          using uplink.through_same[OF g2(3) IH(2)] by blast
        have dn: "bytes_through (agent_byte st wrapped out2) as g1 = Some gd" using g2(4) IH(4) r(3) by (simp add: through_append)
        obtain gd1 where gd1: "bytes_through (agent_byte st wrapped out2) as g = Some gd1" "down_half gd1 = down_half gd"
          using downlink.through_same[OF g1(3) dn] by blast
        have "gateway_loop st out wrapped out2 (ev # evs) g = Some (go, g')"
          using Poll_ready g1(1) g2(1) IH(1) by (simp add: gateway_pass_def)
        moreover have "bytes_through (board_byte st out) bs g = Some gu1" using g1(4) gu1(1) r(2) by (simp add: through_append)
        ultimately show ?thesis using gu1(2) gd1 IH(3,5) by auto
      qed
    qed
  qed (use Cons in \<open>auto simp: gateway_pass_def\<close>)
qed auto

text \<open>The complete payloads in a stream of bytes.\<close>

fun frames_in :: "serial_reader \<Rightarrow> bytes \<Rightarrow> bytes list" where
  "frames_in r [] = []"
| "frames_in r (b # bs) =
     (case xrce_serial_reader_feed r b 0 0 of
        (res, r, src, flen) \<Rightarrow> (if res = FEED_FRAME_READY then [take (unat flen) (payload_buf r)] else []) @ frames_in r bs)"

text \<open>The frames of the envelopes of payloads, counted from \<open>c\<close> on.\<close>

fun envelopes_from :: "bytes \<Rightarrow> u32 \<Rightarrow> bytes list \<Rightarrow> bytes list" where
  "envelopes_from key c [] = []"
| "envelopes_from key c (p # ps) = envelope key c p # envelopes_from key (c + 1) ps"

lemma downlink_exact:
  assumes "down_ok st wrapped out2 (down_half g)" "bytes_through (agent_byte st wrapped out2) as g = Some g'"
  shows "to_board g' = to_board g @ concat (map plain_frame (envelopes_from (key_of (downlink_ctx g)) (send_counter (downlink_ctx g))
      (filter (\<lambda>p. length p \<le> 316) (frames_in (agent_reader g) as))))"
  using assms
proof (induction as arbitrary: g)
  case (Cons b as)
  let ?ctx = "downlink_ctx g"
  obtain res r src flen where f: "xrce_serial_reader_feed (agent_reader g) b 0 0 = (res, r, src, flen)" by (metis prod_cases4)
  let ?p = "take (unat flen) (payload_buf r)"
  obtain g1 where g1: "agent_byte st wrapped out2 b g = Some g1" "down_ok st wrapped out2 (down_half g1)"
     "down_half g1 = (if res = FEED_FRAME_READY \<and> length ?p \<le> 316
       then (?ctx\<lparr>send_counter := send_counter ?ctx + 1\<rparr>, r, to_board g @ plain_frame (envelope (key_of ?ctx) (send_counter ?ctx) ?p))
       else (?ctx, r, to_board g))"
    using agent_byte_exact[OF Cons.prems(1) f refl refl] by blast
  have "bytes_through (agent_byte st wrapped out2) as g1 = Some g'" using Cons.prems(2) g1(1) by simp
  from Cons.IH[OF g1(2) this] show ?case
    using g1(3) f by (auto simp: down_half_def key_of_def split: if_splits)
qed simp

lemma frames_in_quiet:
  "feed_all r bs s l = (replicate (length bs) FEED_IN_PROGRESS, r', s', l') \<Longrightarrow> frames_in r (bs @ zs) = frames_in r' zs"
proof (induction bs arbitrary: r s l)
  case (Cons b bs)
  obtain res r1 s1 l1 where f: "xrce_serial_reader_feed r b s l = (res, r1, s1, l1)" by (metis prod_cases4)
  obtain ress t where g: "feed_all r1 bs s1 l1 = (ress, t)" by (cases "feed_all r1 bs s1 l1")
  have "res = FEED_IN_PROGRESS" "feed_all r1 bs s1 l1 = (replicate (length bs) FEED_IN_PROGRESS, r', s', l')"
    using Cons.prems f g by auto
  then show ?case using Cons.IH feed_out_params[OF f, of 0 0] by simp
qed simp

lemma feed_all_same:
  "reader_ok r \<Longrightarrow> feed_all r bs s l = (ress, r', s', l') \<Longrightarrow> reader_ok r' \<and> payload_cap r' = payload_cap r \<and> local_addr r' = local_addr r"
proof (induction bs arbitrary: r s l ress)
  case (Cons b bs)
  obtain res r1 s1 l1 where f: "xrce_serial_reader_feed r b s l = (res, r1, s1, l1)" by (metis prod_cases4)
  obtain ress1 where g: "feed_all r1 bs s1 l1 = (ress1, r', s', l')" using Cons.prems(2) f by (auto split: prod.splits)
  show ?case using Cons.IH[OF _ g] feed_ok[OF Cons.prems(1) f] feed_local_addr[OF f] by simp
qed simp

text \<open>A reader that is not inside an escape sequence finds the payload of a frame.\<close>

definition reader_ready :: "nat \<Rightarrow> serial_reader \<Rightarrow> bool" where
  "reader_ready cap r \<longleftrightarrow> \<not> have_escape r \<and> reader_ok r \<and> local_addr r = ADDR \<and> payload_cap r = cap"

lemma frames_in_frame:
  assumes "reader_ready cap r" "length p \<le> cap" "length p < 65536"
  obtains r' where "frames_in r (plain_frame p @ zs) = p # frames_in r' zs" "reader_ready cap r'"
proof -
  have r: "\<not> have_escape r" "reader_ok r" "local_addr r = ADDR" "payload_cap r = cap" using assms(1) by (simp_all add: reader_ready_def)
  have pf: "plain_frame p = frame_bytes ADDR (local_addr r) p (xrce_serial_crc16 p (length p))" using r(3) by (simp add: plain_frame_def)
  have cap: "length p \<le> payload_cap r" "payload_cap r \<le> length (payload_buf r)" using assms(2) r(2,4) by (simp_all add: reader_ok_def)
  obtain r' s' l' where f: "feed_all r (plain_frame p) 0 0 = (replicate (length (plain_frame p) - 1) FEED_IN_PROGRESS @ [FEED_FRAME_READY], r', s', l')"
    and r': "\<not> have_escape r'" "payload_buf r' = blit 0 p (payload_buf r)" "l' = of_nat (length p)"
    using feed_frame[OF r(1) assms(3) cap pf, of 0 0] by auto
  have ne: "plain_frame p \<noteq> []" by (simp add: plain_frame_def frame_bytes_def)
  let ?bs = "butlast (plain_frame p)" and ?b = "last (plain_frame p)"
  have "feed_all r (?bs @ [?b]) 0 0 = (replicate (length ?bs) FEED_IN_PROGRESS @ [FEED_FRAME_READY], r', s', l')" using f ne by simp
  from feed_all_last[OF this] obtain r1 s1 l1 where
    q: "feed_all r ?bs 0 0 = (replicate (length ?bs) FEED_IN_PROGRESS, r1, s1, l1)"
    and last: "xrce_serial_reader_feed r1 ?b s1 l1 = (FEED_FRAME_READY, r', s', l')" by auto
  have "frames_in r (?bs @ (?b # zs)) = frames_in r1 (?b # zs)" by (rule frames_in_quiet[OF q])
  also have "\<dots> = p # frames_in r' zs"
    using feed_out_params[OF last, of 0 0] r'(2,3) cap assms(3) by (simp add: blit_def unat_of_nat)
  finally have "frames_in r (plain_frame p @ zs) = p # frames_in r' zs" using ne by (metis append.assoc append_Cons append_Nil append_butlast_last_id)
  moreover have "reader_ready cap r'" using feed_all_same[OF r(2) f] r r'(1) by (simp add: reader_ready_def)
  ultimately show thesis by (rule that)
qed

lemma frames_in_frames:
  assumes "reader_ready cap r" "\<forall>p \<in> set ps. length p \<le> cap \<and> length p < 65536"
  shows "frames_in r (concat (map plain_frame ps)) = ps"
  using assms
proof (induction ps arbitrary: r)
  case (Cons p ps)
  have p: "length p \<le> cap" "length p < 65536" using Cons.prems(2) by auto
  obtain r' where "frames_in r (plain_frame p @ concat (map plain_frame ps)) = p # frames_in r' (concat (map plain_frame ps))" "reader_ready cap r'"
    using frames_in_frame[OF Cons.prems(1) p] by blast
  then show ?case using Cons.IH Cons.prems(2) by simp
qed simp

lemma envelopes_from_map: "envelopes_from key c ps = map (\<lambda>i. envelope key (c + of_nat i) (ps ! i)) [0..<length ps]"
proof (induction ps arbitrary: c)
  case (Cons p ps)
  have "map (\<lambda>i. envelope key (c + of_nat i) ((p # ps) ! i)) [0..<length (p # ps)] =
      envelope key c p # map (\<lambda>i. envelope key (c + of_nat (Suc i)) (ps ! i)) [0..<length ps]"
    by (simp add: upt_conv_Cons o_def del: upt_Suc of_nat_Suc flip: map_Suc_upt)
  then show ?case using Cons.IH[of "c + 1"] by (simp add: add.assoc)
qed simp

text \<open>Any part of up to $2^{32}$ envelopes, numbered from zero: the counters are increasing.\<close>

lemma envelopes_nths:
  assumes "length ps \<le> 2 ^ 32"
  obtains cps where "nths (envelopes_from key 0 ps) I = map (\<lambda>(c, p). envelope key c p) cps" "map snd cps = nths ps I"
    "sorted_wrt (<) (map fst cps)"
proof
  let ?js = "filter (\<lambda>i. i \<in> I) [0..<length ps]"
  let ?cps = "map (\<lambda>i. (of_nat i :: u32, ps ! i)) ?js"
  show "nths (envelopes_from key 0 ps) I = map (\<lambda>(c, p). envelope key c p) ?cps" by (simp add: envelopes_from_map nths_map_upt o_def)
  show "map snd ?cps = nths ps I" using nths_map_upt[of "\<lambda>i. ps ! i" "length ps" I] by (simp add: map_nth o_def)
  have lt: "(of_nat i :: u32) < of_nat j" if "i < j" "j < 2 ^ 32" for i j :: nat
    using that by (simp add: word_less_nat_alt unat_of_nat)
  have "sorted_wrt (<) ?js" by (simp add: sorted_wrt_filter)
  then have "sorted_wrt (\<lambda>i j. (of_nat i :: u32) < of_nat j) ?js"
    by (rule sorted_wrt_mono_rel[rotated]) (use assms in \<open>auto intro!: lt\<close>)
  then show "sorted_wrt (<) (map fst ?cps)" by (simp add: sorted_wrt_map o_def)
qed

lemma parse_hex_loop_length: "length (snd (parse_hex_loop hex is out)) = length out"
  by (induction "is" arbitrary: out) (simp_all split: option.split)

lemma gateway_key_fits:
  assumes "gateway_key arg key_buf = Some (key, key_len)" "length key_buf = 64"
  shows "key_len \<le> length key"
proof (cases arg)
  case None
  then show ?thesis using assms(1) by (auto simp: gateway_key_def DEFAULT_KEY_def)
next
  case (Some hex)
  obtain n k where p: "parse_hex_key hex key_buf 64 = (n, k)" by fastforce
  have k: "key = k" "key_len = nat n" using assms(1) Some p by (simp_all add: gateway_key_def split: if_splits)
  have "length k = 64 \<and> nat n \<le> 64"
    using p parse_hex_loop_length[of hex "[0..<length hex div 2]" key_buf] assms(2)
    by (simp add: parse_hex_key_def Let_def split: if_splits prod.splits)
  then show ?thesis using k by simp
qed

lemma gateway_init_halves:
  assumes "stack_ok st" "key_len \<le> length key" "length out = XRCE_SERIAL_MAX_ENCODED_LEN MAX_PAYLOAD"
    and "length wrapped = MAX_PAYLOAD + XRCE_SECURE_OVERHEAD" "length out2 = XRCE_SERIAL_MAX_ENCODED_LEN (MAX_PAYLOAD + XRCE_SECURE_OVERHEAD)"
  shows "up_ok st out (up_half (gateway_init key key_len))" "down_ok st wrapped out2 (down_half (gateway_init key key_len))"
  using assms by (simp_all add: up_ok_def up_half_def down_ok_def down_half_def gateway_init_def xrce_secure_init_def key_ok_def reader_init_ok)
    (simp add: xrce_serial_reader_init_def)

section \<open>Properties\<close>

text \<open>
  C12: The gateway relays both ways, whatever arrives and in whatever order \<^verbatim>\<open>poll\<close> reports the two sides. It
  never fails; it runs on until a link closes or \<^verbatim>\<open>poll\<close> fails, and then returns 0. What the agent gets is a
  sequence of plain frames, each for a payload that the board sent inside a valid envelope under the gateway's
  key, with strictly increasing counters: nothing unauthenticated or replayed. What the board gets is, for
  every complete frame of the agent with at most 316 bytes and in their order, the frame of its envelope
  under that key, with the counters 0, 1, 2 and so on.
\<close>

theorem gateway_relays_securely:
  assumes "stack_ok st" "length out = XRCE_SERIAL_MAX_ENCODED_LEN MAX_PAYLOAD" "length wrapped = MAX_PAYLOAD + XRCE_SECURE_OVERHEAD"
    and "length out2 = XRCE_SERIAL_MAX_ENCODED_LEN (MAX_PAYLOAD + XRCE_SECURE_OVERHEAD)" "length key_buf = 64" "length argv \<in> {2, 3}"
    and "gateway_key (if length argv = 3 then Some (argv ! 2) else None) key_buf = Some (key, key_len)"
    and "g0 = gateway_init key key_len" "reads evs = (bs, as, go)"
  shows "\<exists>g cps. gateway_main st out wrapped out2 key_buf True True argv evs = Some (if go then Gw_running g else Gw_done 0 g) \<and>
     to_agent g = concat (map (\<lambda>(c, p). plain_frame p) cps) \<and> sorted_wrt (<) (map fst cps) \<and>
     (\<forall>(c, p) \<in> set cps. \<exists>pre g1 n. prefix pre bs \<and> board_bytes st out pre g0 = Some g1 \<and>
        take n (payload_buf (board_reader g1)) = envelope (take key_len key) c p) \<and>
     to_board g = concat (map plain_frame (envelopes_from (take key_len key) 0
        (filter (\<lambda>p. length p \<le> 316) (frames_in (agent_reader g0) as))))"
proof -
  have kl: "key_len \<le> length key" by (rule gateway_key_fits[OF assms(7,5)])
  note ok = gateway_init_halves[OF assms(1) kl assms(2-4), folded assms(8)]
  obtain g gu gd where l: "gateway_loop st out wrapped out2 evs g0 = Some (go, g)" "bytes_through (board_byte st out) bs g0 = Some gu"
      "up_half gu = up_half g" "bytes_through (agent_byte st wrapped out2) as g0 = Some gd" "down_half gd = down_half g"
    using loop_halves[OF ok assms(9)] by blast
  obtain cps where c: "to_agent gu = concat (map (\<lambda>(c, p). plain_frame p) cps)" "sorted_wrt (<) (map fst cps)"
      "\<forall>(c, p) \<in> set cps. \<exists>pre g1 n. prefix pre bs \<and> board_bytes st out pre g0 = Some g1 \<and>
        take n (payload_buf (board_reader g1)) = envelope (take key_len key) c p"
    using board_bytes_authentic[OF assms(1) kl assms(2,8), of bs] l(2) unfolding board_bytes_through by auto
  have "gateway_main st out wrapped out2 key_buf True True argv evs = Some (if go then Gw_running g else Gw_done 0 g)"
    using assms(6,7) l(1) by (auto simp: gateway_main_def assms(8))
  moreover have "to_agent g = to_agent gu" "to_board g = to_board gd" using l(3,5) by (simp_all add: up_half_def down_half_def)
  moreover have "to_board gd = concat (map plain_frame (envelopes_from (take key_len key) 0 (filter (\<lambda>p. length p \<le> 316) (frames_in (agent_reader g0) as))))"
    using downlink_exact[OF ok(2) l(4)] by (simp add: assms(8) gateway_init_def xrce_secure_init_def key_of_def)
  ultimately show ?thesis using c by auto
qed

theorem gateway_relays_securely_witness:
  "\<exists>g cps. gateway_main zero_stack (replicate 1037 0) (replicate 524 0) (replicate 1061 0) (replicate 64 0) True True [[0x67], [0x70]]
       [Poll_ready (Some (Byte 0x7E)) None, Poll_interrupted, Poll_ready None (Some No_byte)] = Some (Gw_done 0 g) \<and>
     to_agent g = concat (map (\<lambda>(c, p). plain_frame p) cps) \<and> sorted_wrt (<) (map fst cps :: u32 list) \<and> to_board g = []"
proof -
  have l: "length (replicate 1037 (0 :: u8)) = XRCE_SERIAL_MAX_ENCODED_LEN MAX_PAYLOAD" "length (replicate 524 (0 :: u8)) = MAX_PAYLOAD + XRCE_SECURE_OVERHEAD"
    "length (replicate 1061 (0 :: u8)) = XRCE_SERIAL_MAX_ENCODED_LEN (MAX_PAYLOAD + XRCE_SECURE_OVERHEAD)" "length (replicate 64 (0 :: u8)) = 64"
    "length [[0x67], [0x70 :: u8]] \<in> {2, 3}"
    by (simp_all add: XRCE_SERIAL_MAX_ENCODED_LEN_def)
  have k: "gateway_key (if length [[0x67], [0x70 :: u8]] = 3 then Some ([[0x67], [0x70]] ! 2) else None) (replicate 64 0) = Some (DEFAULT_KEY, 16)"
    by (simp add: gateway_key_def)
  have r: "reads [Poll_ready (Some (Byte 0x7E)) None, Poll_interrupted, Poll_ready None (Some No_byte)] = ([0x7E], [], False)"
    by (simp add: byte_of_def)
  show ?thesis
    using gateway_relays_securely[OF zero_stack_ok l k refl r] by auto
qed

end
