(* ===== verification/Uart.thy ===== *)
theory Uart
  imports Task
begin

text \<open>
  \<^verbatim>\<open>rtos/arm/uart.c\<close>: the polled driver of USART1, and the two decimal printers of
  \<^verbatim>\<open>rtos/arm/ros2_demo.c\<close> that use it.

  The configuration registers are fields of the device. The status and the data register are
  \<^verbatim>\<open>volatile\<close> and change under the hardware's control: they are functions of the number of status reads
  done so far, so every behaviour of the hardware is some pair of functions. A write to the data
  register appends to \<open>dr_writes\<close>. \<^verbatim>\<open>uart_putc\<close> spins until the transmitter is free; it is a partial
  function, and that it returns when the transmitter always becomes free again is a lemma.
\<close>

section \<open>Registers\<close>

record uart =
  rcc_ahb1enr :: u32
  rcc_apb2enr :: u32
  gpioa_moder :: u32
  gpioa_afrh :: u32
  usart1_brr :: u32
  usart1_cr1 :: u32
  usart1_sr :: "nat \<Rightarrow> u32"
  usart1_dr :: "nat \<Rightarrow> u32"
  sr_reads :: nat
  dr_writes :: "u32 list"

abbreviation USART_SR_RXNE :: u32 where "USART_SR_RXNE \<equiv> push_bit 5 1"
abbreviation USART_SR_TXE :: u32 where "USART_SR_TXE \<equiv> push_bit 7 1"
abbreviation USART_CR1_RE :: u32 where "USART_CR1_RE \<equiv> push_bit 2 1"
abbreviation USART_CR1_TE :: u32 where "USART_CR1_TE \<equiv> push_bit 3 1"
abbreviation USART_CR1_UE :: u32 where "USART_CR1_UE \<equiv> push_bit 13 1"

section \<open>Driver\<close>

definition uart_init :: "uart \<Rightarrow> uart" where
  "uart_init u =
     (let u = u\<lparr>rcc_ahb1enr := rcc_ahb1enr u OR push_bit 0 1\<rparr>;
          u = u\<lparr>rcc_apb2enr := rcc_apb2enr u OR push_bit 4 1\<rparr>;
          u = u\<lparr>gpioa_moder := gpioa_moder u AND NOT (push_bit (2 * 9) 3 OR push_bit (2 * 10) 3)\<rparr>;
          u = u\<lparr>gpioa_moder := gpioa_moder u OR (push_bit (2 * 9) 2 OR push_bit (2 * 10) 2)\<rparr>;
          u = u\<lparr>gpioa_afrh := gpioa_afrh u AND NOT (push_bit (4 * (9 - 8)) 0xF OR push_bit (4 * (10 - 8)) 0xF)\<rparr>;
          u = u\<lparr>gpioa_afrh := gpioa_afrh u OR (push_bit (4 * (9 - 8)) 7 OR push_bit (4 * (10 - 8)) 7)\<rparr>;
          u = u\<lparr>usart1_brr := 0x0683\<rparr>
      in u\<lparr>usart1_cr1 := USART_CR1_UE OR USART_CR1_TE OR USART_CR1_RE\<rparr>)"

text \<open>One read of the status register.\<close>

definition read_sr :: "uart \<Rightarrow> u32 \<times> uart" where
  "read_sr u = (usart1_sr u (sr_reads u), u\<lparr>sr_reads := Suc (sr_reads u)\<rparr>)"

partial_function (option) uart_putc :: "u8 \<Rightarrow> uart \<Rightarrow> uart option" where
  "uart_putc c u =
     (case read_sr u of
        (sr, u) \<Rightarrow>
          if sr AND USART_SR_TXE = 0 then uart_putc c u
          else Some (u\<lparr>dr_writes := dr_writes u @ [ucast c]\<rparr>))"

text \<open>The bytes of a string literal, terminator included; \<^verbatim>\<open>uart_puts\<close> stops at the terminator, and running off
  an unterminated array is \<open>None\<close>.\<close>

definition c_string :: "string \<Rightarrow> bytes" where
  "c_string s = map of_char s @ [0]"

fun uart_puts :: "bytes \<Rightarrow> uart \<Rightarrow> uart option" where
  "uart_puts [] u = None"
| "uart_puts (c # s) u = (if c = 0 then Some u else Option.bind (uart_putc c u) (uart_puts s))"

definition uart_getc_nonblocking :: "uart \<Rightarrow> int \<times> uart" where
  "uart_getc_nonblocking u =
     (case read_sr u of
        (sr, u) \<Rightarrow> if sr AND USART_SR_RXNE \<noteq> 0 then (uint (usart1_dr u (sr_reads u) AND 0xFF), u) else (-1, u))"

section \<open>Decimal output\<close>

text \<open>The first loop of \<^verbatim>\<open>uart_put_uint\<close>: \<open>ds\<close> is \<^verbatim>\<open>digits[0..n-1]\<close>.\<close>

function put_digits :: "u32 \<Rightarrow> bytes \<Rightarrow> bytes" where
  "put_digits v ds =
     (if v > 0 \<and> length ds < 10 then put_digits (v div 10) (ds @ [48 + ucast (v mod 10)]) else ds)"
  by pat_completeness auto
termination by (relation "measure (\<lambda>(v, ds). 10 - length ds)") auto

declare put_digits.simps [simp del]

fun uart_write :: "bytes \<Rightarrow> uart \<Rightarrow> uart option" where
  "uart_write [] u = Some u"
| "uart_write (c # s) u = Option.bind (uart_putc c u) (uart_write s)"

definition uart_put_uint :: "u32 \<Rightarrow> uart \<Rightarrow> uart option" where
  "uart_put_uint v u = (if v = 0 then uart_putc 48 u else uart_write (rev (put_digits v [])) u)"

definition uart_put_int :: "u32 \<Rightarrow> uart \<Rightarrow> uart option" where
  "uart_put_int v u =
     (if sint v < 0 then Option.bind (uart_putc 45 u) (uart_put_uint (word_of_int (- sint v)))
      else uart_put_uint v u)"

section \<open>Lemmas\<close>

text \<open>The transmitter always becomes free again.\<close>

definition tx_ready :: "uart \<Rightarrow> bool" where
  "tx_ready u \<longleftrightarrow> (\<forall>t. \<exists>t' \<ge> t. usart1_sr u t' AND USART_SR_TXE \<noteq> 0)"

text \<open>All that happened between two states is that \<open>bs\<close> was transmitted.\<close>

definition transmits :: "uart \<Rightarrow> bytes \<Rightarrow> uart \<Rightarrow> bool" where
  "transmits u bs u' \<longleftrightarrow>
     (\<exists>t \<ge> sr_reads u. u' = u\<lparr>sr_reads := t, dr_writes := dr_writes u @ map ucast bs\<rparr>)"

lemma transmits_refl [simp]: "transmits u [] u"
  unfolding transmits_def by (intro exI[of _ "sr_reads u"]) simp

lemma transmits_trans: "transmits u as u1 \<Longrightarrow> transmits u1 bs u2 \<Longrightarrow> transmits u (as @ bs) u2"
  unfolding transmits_def by (auto intro!: exI[of _ "sr_reads u2"])

lemma transmits_ready: "transmits u bs u' \<Longrightarrow> tx_ready u' = tx_ready u"
  by (auto simp: transmits_def tx_ready_def)

lemma transmits_writes: "transmits u bs u' \<Longrightarrow> dr_writes u' = dr_writes u @ map ucast bs"
  by (auto simp: transmits_def)

lemma uart_putc_spin:
  "usart1_sr u (sr_reads u + n) AND USART_SR_TXE \<noteq> 0 \<Longrightarrow> \<exists>u'. uart_putc c u = Some u' \<and> transmits u [c] u'"
proof (induction n arbitrary: u rule: less_induct)
  case (less n)
  show ?case
  proof (cases "usart1_sr u (sr_reads u) AND USART_SR_TXE = 0")
    case True
    then have n: "n \<noteq> 0" using less.prems by (cases n) auto
    let ?u = "u\<lparr>sr_reads := Suc (sr_reads u)\<rparr>"
    from n less.prems obtain u' where "uart_putc c ?u = Some u'" "transmits ?u [c] u'"
      using less.IH[of "n - 1" ?u] by auto
    moreover have "uart_putc c u = uart_putc c ?u" using True by (subst uart_putc.simps) (simp add: read_sr_def)
    ultimately show ?thesis by (auto simp: transmits_def intro!: exI[of _ "sr_reads u'"])
  next
    case False
    then show ?thesis
      by (subst uart_putc.simps) (auto simp: read_sr_def transmits_def intro!: exI[of _ "Suc (sr_reads u)"])
  qed
qed

lemma uart_putc_returns:
  assumes "tx_ready u"
  obtains u' where "uart_putc c u = Some u'" "transmits u [c] u'"
proof -
  obtain t where "t \<ge> sr_reads u" "usart1_sr u t AND USART_SR_TXE \<noteq> 0" using assms by (auto simp: tx_ready_def)
  then show ?thesis using uart_putc_spin[of u "t - sr_reads u" c] that by auto
qed

lemma uart_write_returns:
  assumes "tx_ready u"
  shows "\<exists>u'. uart_write bs u = Some u' \<and> transmits u bs u'"
  using assms
proof (induction bs arbitrary: u)
  case (Cons b bs)
  obtain u1 where 1: "uart_putc b u = Some u1" "transmits u [b] u1" using uart_putc_returns[OF Cons.prems] .
  obtain u2 where 2: "uart_write bs u1 = Some u2" "transmits u1 bs u2"
    using Cons.IH[of u1] Cons.prems transmits_ready[OF 1(2)] by auto
  show ?case using 1 2 transmits_trans[OF 1(2) 2(2)] by simp
qed simp

lemma uart_puts_write: "0 \<notin> set s \<Longrightarrow> uart_puts (s @ [0]) u = uart_write s u"
proof (induction s arbitrary: u)
  case (Cons c s)
  then show ?case by (cases "uart_putc c u") simp_all
qed simp

lemma of_char_zero: "(of_char c :: u8) = 0 \<longleftrightarrow> c = CHR 0x00"
proof -
  let ?n = "of_char c :: nat"
  have "?n < 256" by (metis of_char_mod_256 mod_less_divisor zero_less_numeral)
  then have "256 dvd ?n \<longleftrightarrow> ?n = 0" using nat_dvd_not_less[of ?n 256] by auto
  moreover have "?n = 0 \<longleftrightarrow> c = CHR 0x00" using of_char_eq_iff[of c "CHR 0x00", where ?'a = nat] by simp
  moreover have "(of_char c :: u8) = 0 \<longleftrightarrow> 256 dvd ?n"
    unfolding of_nat_of_char[symmetric, where ?'a = "8 word"] by (simp add: word_of_nat_eq_0_iff)
  ultimately show ?thesis by simp
qed

lemma uart_puts_returns:
  assumes "tx_ready u" "CHR 0x00 \<notin> set s"
  shows "\<exists>u'. uart_puts (c_string s) u = Some u' \<and> transmits u (map of_char s) u'"
proof -
  have "0 \<notin> set (map of_char s :: bytes)" using assms(2) of_char_zero by force
  then show ?thesis
    unfolding c_string_def using uart_puts_write uart_write_returns[OF assms(1)] by simp
qed

text \<open>Decimal digits.\<close>

lemma of_char_digit: "d < 10 \<Longrightarrow> (of_char (char_of (48 + d :: nat)) :: u8) = 48 + of_nat d"
  by (simp add: of_nat_of_char[symmetric, where ?'a = "8 word"] del: of_nat_of_char)

lemma put_digits_decimal:
  "0 < v \<Longrightarrow> unat v < 10 ^ (10 - length ds) \<Longrightarrow> rev (put_digits v ds) = map of_char (dec_digits (unat v)) @ rev ds"
proof (induction v ds rule: put_digits.induct)
  case (1 v ds)
  have u: "unat (v div 10) = unat v div 10" "unat (v mod 10) = unat v mod 10" 
    by (simp_all add: unat_div_distrib unat_mod_distrib)
  have d: "(48 + ucast (v mod 10) :: u8) = of_char (char_of (48 + unat v mod 10))"
    using of_char_digit[of "unat v mod 10"] unfolding u(2)[symmetric] of_nat_unat by (simp add: u(2))
  have l: "length ds < 10" using 1(2,3) by (cases "10 - length ds") (auto simp: word_less_nat_alt)
  have step: "put_digits v ds = put_digits (v div 10) (ds @ [48 + ucast (v mod 10)])"
    using 1(2) l by (subst put_digits.simps) simp
  show ?case
  proof (cases "unat v < 10")
    case True
    then have "v div 10 = 0" using u(1) by (simp add: unat_eq_zero)
    then show ?thesis using True d unfolding step by (simp add: put_digits.simps[of 0] dec_digits.simps)
  next
    case False
    obtain k where k: "10 - length ds = Suc k" using l by (cases "10 - length ds") auto
    then have "9 - length ds = k" by simp
    then have "unat (v div 10) < 10 ^ (10 - length (ds @ [48 + ucast (v mod 10)]))"
      using 1(3) u(1) k by (simp add: less_mult_imp_div_less mult.commute)
    moreover have "0 < v div 10" using False u(1) by (simp add: word_less_nat_alt)
    ultimately have "rev (put_digits (v div 10) (ds @ [48 + ucast (v mod 10)])) =
        map of_char (dec_digits (unat v div 10)) @ rev (ds @ [48 + ucast (v mod 10)])"
      using 1(1) 1(2) l u(1) by simp
    then show ?thesis using False d unfolding step by (simp add: dec_digits.simps[of "unat v"])
  qed
qed

lemma uart_put_uint_returns:
  assumes "tx_ready u"
  shows "\<exists>u'. uart_put_uint v u = Some u' \<and> transmits u (map of_char (dec_digits (unat v))) u'"
proof (cases "v = 0")
  case True
  then show ?thesis
    using uart_putc_returns[OF assms, of 48] of_char_digit[of 0] by (simp add: uart_put_uint_def dec_digits.simps) metis
next
  case False
  have "unat v < 10 ^ 10" using unsigned_less[of v, where ?'a = nat] by simp
  then have "rev (put_digits v []) = map of_char (dec_digits (unat v))"
    using put_digits_decimal[of v "[]"] False by (simp add: word_neq_0_conv)
  then show ?thesis using False uart_write_returns[OF assms] by (simp add: uart_put_uint_def)
qed

text \<open>The magnitude of a signed word.\<close>

lemma unat_negated:
  fixes v :: u32
  assumes "sint v < 0"
  shows "unat (word_of_int (- sint v) :: u32) = nat (- sint v)"
proof -
  have "- (2 ^ 31) \<le> sint v" using sint_ge[of v] by simp
  then have "uint (word_of_int (- sint v) :: u32) = - sint v"
    using assms unfolding uint_word_of_int_eq by (subst take_bit_int_eq_self) simp_all
  then show ?thesis by (metis unat_eq_nat_uint)
qed

lemma unat_nonneg:
  fixes v :: u32
  assumes "\<not> sint v < 0"
  shows "unat v = nat (sint v)"
proof -
  have "sint v < 2 ^ 31" using sint_lt[of v] by simp
  moreover have "uint v = take_bit 32 (sint v)" using uint_word_of_int_eq[of "sint v", where ?'a = 32] by simp
  ultimately show ?thesis using assms by (simp add: unat_eq_nat_uint take_bit_int_eq_self)
qed

lemma uart_put_int_returns:
  assumes "tx_ready u"
  shows "\<exists>u'. uart_put_int v u = Some u' \<and> transmits u (map of_char (dec_string (sint v))) u'"
proof (cases "sint v < 0")
  case True
  note n = unat_negated[OF True]
  obtain u1 where 1: "uart_putc 45 u = Some u1" "transmits u [45] u1" using uart_putc_returns[OF assms] .
  obtain u2 where 2: "uart_put_uint (word_of_int (- sint v)) u1 = Some u2"
      "transmits u1 (map of_char (dec_digits (nat (- sint v)))) u2"
    using uart_put_uint_returns[of u1 "word_of_int (- sint v)"] assms transmits_ready[OF 1(2)] unfolding n by auto
  show ?thesis
    using True 1(1) 2(1) transmits_trans[OF 1(2) 2(2)] by (simp add: uart_put_int_def dec_string_def)
next
  case False
  then show ?thesis
    using uart_put_uint_returns[OF assms, of v] unat_nonneg[OF False] by (simp add: uart_put_int_def dec_string_def)
qed

section \<open>Properties\<close>

text \<open>
  Decimal output terminates and is right for every \<^verbatim>\<open>int32_t\<close>, the most negative one included. When the
  transmitter always becomes free again, \<^verbatim>\<open>uart_put_int\<close> returns, and all it did is transmit the
  characters of the decimal numeral of its argument, in order.
\<close>

theorem uart_put_int_decimal:
  assumes "tx_ready u"
  shows "\<exists>u'. uart_put_int v u = Some u' \<and> transmits u (map of_char (dec_string (sint v))) u'"
  by (rule uart_put_int_returns[OF assms])

definition sample_uart :: "(nat \<Rightarrow> u32) \<Rightarrow> uart" where
  "sample_uart sr = \<lparr>rcc_ahb1enr = 0, rcc_apb2enr = 0, gpioa_moder = 0, gpioa_afrh = 0, usart1_brr = 0, usart1_cr1 = 0,
     usart1_sr = sr, usart1_dr = (\<lambda>t. 0), sr_reads = 0, dr_writes = []\<rparr>"

theorem uart_put_int_decimal_witness:
  "\<exists>u'. uart_put_int 0x80000000 (sample_uart (\<lambda>t. if even t then 0x80 else 0)) = Some u' \<and>
     dr_writes u' = map of_char ''-2147483648''"
proof -
  let ?u = "sample_uart (\<lambda>t. if even t then 0x80 else 0)"
  have "tx_ready ?u"
    unfolding tx_ready_def
  proof
    fix t :: nat
    show "\<exists>t' \<ge> t. usart1_sr ?u t' AND USART_SR_TXE \<noteq> 0" by (intro exI[of _ "2 * t"]) (simp add: sample_uart_def)
  qed
  moreover have "dec_string (sint (0x80000000 :: u32)) = ''-2147483648''" by (simp add: dec_string_def dec_digits.simps char_of_def bit_0)
  ultimately show ?thesis
    using uart_put_int_decimal[of ?u "0x80000000"] by (auto simp: transmits_def sample_uart_def)
qed

end
