(* ===== verification/Requests.thy ===== *)
theory Requests
  imports Uart Session Msgs
begin

text \<open>
  What the clients of the session layer share, the firmware images and the host programs: the object
  kinds of \<^verbatim>\<open>session.h\<close>, string literals as C strings, and the exact result of every request builder in a
  buffer of any size that is large enough.
\<close>

section \<open>Object kinds and streams\<close>

abbreviation XRCE_OBJK_PARTICIPANT :: u8 where "XRCE_OBJK_PARTICIPANT \<equiv> 1"
abbreviation XRCE_OBJK_TOPIC :: u8 where "XRCE_OBJK_TOPIC \<equiv> 2"
abbreviation XRCE_OBJK_PUBLISHER :: u8 where "XRCE_OBJK_PUBLISHER \<equiv> 3"
abbreviation XRCE_OBJK_SUBSCRIBER :: u8 where "XRCE_OBJK_SUBSCRIBER \<equiv> 4"
abbreviation XRCE_OBJK_DATAWRITER :: u8 where "XRCE_OBJK_DATAWRITER \<equiv> 5"
abbreviation XRCE_OBJK_DATAREADER :: u8 where "XRCE_OBJK_DATAREADER \<equiv> 6"
abbreviation XRCE_OBJK_REPLIER :: u8 where "XRCE_OBJK_REPLIER \<equiv> 8"
abbreviation BEST_EFFORT_STREAM_0 :: u8 where "BEST_EFFORT_STREAM_0 \<equiv> 1"

section \<open>Received samples\<close>

lemma read_rlen:
  "xrce_cdr_read_u8 (r, v) = (ok, r', v') \<Longrightarrow> rlen r' = rlen r"
  "read_u16 (r, w) = (ok, r', w') \<Longrightarrow> rlen r' = rlen r"
  "xrce_cdr_read_bytes n (r, b) = (ok, r', b') \<Longrightarrow> rlen r' = rlen r"
  "read_object_id (r, x) = (ok, r', x') \<Longrightarrow> rlen r' = rlen r"
  by (auto simp: xrce_cdr_read_u8_def read_u16_def xrce_cdr_read_i16_def xrce_cdr_read_bytes_def read_object_id_def
      align_reader_def Let_def split: if_splits prod.splits)

lemma parse_data_sample:
  assumes "xrce_session_parse_data buf len x sm l = (True, x', sample, k)" "len \<le> length buf"
  shows "length sample = k"
  using assms
  by (auto simp: xrce_session_parse_data_def open_submessage_def skip_message_header_def xrce_cdr_reader_init_def
      dest!: read_rlen split: if_splits prod.splits option.splits)

lemma le_value_4: "le_value [a, b, c, d] =
    (ucast a OR push_bit 8 (ucast b) OR push_bit 16 (ucast c) OR push_bit 24 (ucast d) :: u32)"
  by (rule bit_eqI) (auto simp: bit_le_value bit_simps nth_Cons split: nat.splits)

lemma take_4: "4 \<le> length xs \<Longrightarrow> take 4 xs = [xs ! 0, xs ! 1, xs ! 2, xs ! 3]"
  by (cases xs; cases "tl xs"; cases "tl (tl xs)"; cases "tl (tl (tl xs))") auto

section \<open>WRITE\_DATA\<close>

definition write_data_message :: "session \<Rightarrow> object_id \<Rightarrow> bytes \<Rightarrow> bytes" where
  "write_data_message s x sample = message_bytes (session_id s) BEST_EFFORT_STREAM_0 (out_seq_num s) (client_key s)
     XRCE_SUBMSG_WRITE_DATA (be_bytes 2 (next_request_id s) @ object_id_bytes x @ sample)"

text \<open>The session after a numbered request: one sequence number and one request id further.\<close>

definition numbered :: "session \<Rightarrow> session" where
  "numbered s = s\<lparr>out_seq_num := out_seq_num s + 1, next_request_id := next_request_id s + 1\<rparr>"

lemma numbered_key [simp]: "client_key (numbered s) = client_key s" "session_id (numbered s) = session_id s"
  by (simp_all add: numbered_def)

lemma length_write_data_message:
  "length (client_key s) = 4 \<Longrightarrow> length (write_data_message s x sample) = 16 + length sample"
  by (simp add: write_data_message_def length_message object_id_bytes_def)

lemma write_data_fits:
  assumes "length (client_key s) = 4" "length buf = cap" "n \<le> length sample" "16 + n \<le> cap"
  shows "xrce_session_build_write_data s BEST_EFFORT_STREAM_0 x sample n buf cap =
      (16 + n, numbered s, write_data_message s x (take n sample) @ drop (16 + n) buf)"
    "length (write_data_message s x (take n sample)) = 16 + n"
proof -
  let ?f = "\<lambda>rid. [write_base_object_request rid x, xrce_cdr_write_bytes sample n]"
  let ?p = "be_bytes 2 (next_request_id s) @ object_id_bytes x @ take n sample"
  have w: "writes (all_of (?f (next_request_id s))) (wire_bytes ?p)"
    using writes_write_data[OF assms(3), of "next_request_id s" x] by simp
  have p: "?p = wire_bytes ?p 12" by (simp add: wire_bytes_def)
  have c: "cap \<le> length buf" using assms(2) by simp
  note e = build_request_exact(1)[of cap buf s ?f, OF c assms(1) w p refl]
  show l: "length (write_data_message s x (take n sample)) = 16 + n"
    using assms by (simp add: length_write_data_message)
  show "xrce_session_build_write_data s BEST_EFFORT_STREAM_0 x sample n buf cap =
      (16 + n, numbered s, write_data_message s x (take n sample) @ drop (16 + n) buf)"
    using e[of BEST_EFFORT_STREAM_0 XRCE_SUBMSG_WRITE_DATA] l assms(4)
    unfolding xrce_session_build_write_data_def write_data_message_def numbered_def by simp
qed

section \<open>Strings\<close>

definition crlf :: string where
  "crlf = [CHR 0x0D, CHR 0x0A]"

lemma dec_digits_no_nul: "CHR 0x00 \<notin> set (dec_digits n)"
proof (induction n rule: dec_digits.induct)
  case (1 n)
  have c: "CHR 0x00 \<noteq> char_of (48 + d :: nat)" if "d < 10" for d
  proof
    assume "CHR 0x00 = char_of (48 + d :: nat)"
    then have "(of_char (char_of (48 + d :: nat)) :: nat) = of_char (CHR 0x00)" by (rule arg_cong[OF sym])
    then show False using that by simp
  qed
  show ?case using 1 c[of n] c[of "n mod 10"] by (simp add: dec_digits.simps[of n])
qed

lemma dec_string_no_nul: "CHR 0x00 \<notin> set (dec_string i)"
  using dec_digits_no_nul by (simp add: dec_string_def)

lemma crlf_no_nul [simp]: "CHR 0x00 \<notin> set crlf"
  by (simp add: crlf_def)

lemma c_string_props:
  assumes "CHR 0x00 \<notin> set s" "length s < 1000"
  shows "is_cstring (c_string s)" "length (cstr (c_string s)) = length s + 1"
proof -
  have "0 \<notin> set (map of_char s :: bytes)" using assms(1) of_char_zero by force
  then have "takeWhile (\<lambda>c. c \<noteq> 0) (map of_char s @ [0]) = (map of_char s :: bytes)"
    by (subst takeWhile_append2) auto
  then show "length (cstr (c_string s)) = length s + 1" by (simp add: cstr_def c_string_def)
  show "is_cstring (c_string s)" using assms(2) by (simp add: is_cstring_def c_string_def)
qed

section \<open>Requests that fit\<close>

text \<open>A request of a builder is whole: longer than its headers, within the buffer, and the session keeps its key.\<close>

definition request_fits :: "nat \<Rightarrow> nat \<times> session \<times> bytes \<Rightarrow> bool" where
  "request_fits cap r = (case r of (len, s, msg) \<Rightarrow>
     12 < len \<and> len \<le> cap \<and> length msg = cap \<and> length (client_key s) = 4)"

lemma build_request_fits:
  assumes "length (client_key s) = 4" "length msg = cap"
    and "writes (all_of (payload (next_request_id s))) wr" "0 < length (wr 12)" "12 + length (wr 12) \<le> cap"
  shows "request_fits cap (build_request s stream sub payload msg cap)"
  using build_request_exact(1)[of cap msg s payload wr "wr 12" _ stream sub, OF _ assms(1,3) refl refl] assms
  by (simp add: request_fits_def length_message)

lemma build_create_fits:
  assumes "length (client_key s) = 4" "length msg = cap" "CHR 0x00 \<notin> set xml" "length xml + 32 \<le> cap" "length xml < 1000"
  shows "request_fits cap (build_create s stream x (c_string xml) p d y msg cap)"
proof -
  let ?wr = "wire_all [wire_bytes (be_bytes 2 (next_request_id s) @ object_id_bytes x), wire_u8 (okind x),
    wire_u8 XRCE_REPRESENTATION_AS_XML_STRING, wire_string (c_string xml),
    if p then wire_i16 d else wire_bytes (object_id_bytes y)]"
  have c: "is_cstring (c_string xml)" "length (cstr (c_string xml)) = length xml + 1"
    using c_string_props[OF assms(3)] assms(5) by simp_all
  have w: "writes (all_of [write_base_object_request (next_request_id s) x, xrce_cdr_write_u8 (okind x),
        xrce_cdr_write_u8 XRCE_REPRESENTATION_AS_XML_STRING, xrce_cdr_write_string (c_string xml),
        if p then xrce_cdr_write_i16 d else write_object_id y]) ?wr"
    by (intro writes_all_of) (simp add: writes_base_object_request writes_u8 writes_string[OF c(1)] writes_i16 writes_object_id)
  have i16: "length (wire_i16 d off) \<le> 3" for off by (simp add: wire_i16_def padded_def)
  have len: "0 < length (?wr 12) \<and> 12 + length (?wr 12) \<le> cap"
    using assms(4) i16[of "length xml + 25"]
    by (simp add: wire_seq_def wire_bytes_def wire_u8_def wire_string_def wire_u32_def padded_def c(2) object_id_bytes_def
        add.commute)
  show ?thesis
    unfolding build_create_def
    by (rule build_request_fits[where wr = ?wr, OF assms(1,2) _ conjunct1[OF len] conjunct2[OF len]]) (rule w)
qed

lemma read_data_fits:
  assumes "length (client_key s) = 4" "length msg = cap" "32 \<le> cap"
  shows "request_fits cap (xrce_session_build_read_data s stream x pref msg cap)"
proof -
  let ?wr = "wire_all [wire_bytes (be_bytes 2 (next_request_id s) @ object_id_bytes x), wire_u8 pref, wire_u8 XRCE_FORMAT_DATA,
    wire_bool False, wire_bool True, wire_i16 0xFFFF, wire_i16 0, wire_i16 0, wire_i16 0]"
  have w: "writes (all_of [write_base_object_request (next_request_id s) x, xrce_cdr_write_u8 pref,
      xrce_cdr_write_u8 XRCE_FORMAT_DATA, xrce_cdr_write_bool False, xrce_cdr_write_bool True,
      write_u16 0xFFFF, write_u16 0, write_u16 0, write_u16 0]) ?wr"
    by (intro writes_all_of) (simp add: writes_base_object_request writes_u8 writes_bool writes_u16)
  have len: "0 < length (?wr 12)" "12 + length (?wr 12) \<le> cap"
    using assms(3)
    by (simp_all add: wire_seq_def wire_bytes_def wire_u8_def wire_bool_def wire_i16_def padded_def object_id_bytes_def)
  show ?thesis
    unfolding xrce_session_build_read_data_def
    by (rule build_request_fits[where wr = ?wr, OF assms(1,2) _ len]) (rule w)
qed

lemma delete_fits:
  assumes "length (client_key s) = 4" "length msg = cap" "16 \<le> cap"
  shows "request_fits cap (xrce_session_build_delete s stream x msg cap)"
proof -
  let ?wr = "wire_bytes (be_bytes 2 (next_request_id s) @ object_id_bytes x)"
  have w: "writes (all_of [write_base_object_request (next_request_id s) x]) (wire_all [?wr])"
    by (intro writes_all_of) (simp add: writes_base_object_request)
  have len: "0 < length (wire_all [?wr] 12)" "12 + length (wire_all [?wr] 12) \<le> cap"
    using assms(3) by (simp_all add: wire_seq_def wire_bytes_def object_id_bytes_def)
  show ?thesis
    unfolding xrce_session_build_delete_def
    by (rule build_request_fits[where wr = "wire_all [?wr]", OF assms(1,2) _ len]) (rule w)
qed

lemma create_client_fits:
  assumes "length (client_key s) = 4" "length msg = cap" "28 \<le> cap"
  shows "request_fits cap (case xrce_session_build_create_client s msg cap of (n, msg) \<Rightarrow> (n, s, msg))"
proof -
  let ?h = "[0, 0] @ le_bytes 2 (0 :: u16) @ client_key s"
  let ?w = "\<lparr>wbuf = blit 0 ?h msg, wcap = cap, wpos = 8, walign_base = 0\<rparr>"
  let ?ops = "[xrce_cdr_write_bytes [0x58, 0x52, 0x43, 0x45] 4, xrce_cdr_write_bytes [0x01, 0x00] 2,
      xrce_cdr_write_bytes [0x01, 0x0F] 2, xrce_cdr_write_bytes (client_key s) 4,
      xrce_cdr_write_u8 (session_id s), xrce_cdr_write_bool False, write_u16 (mtu s)]"
  let ?wr = "wire_all [wire_bytes [0x58, 0x52, 0x43, 0x45], wire_bytes [0x01, 0x00], wire_bytes [0x01, 0x0F],
      wire_bytes (client_key s), wire_u8 (session_id s), wire_bool False, wire_i16 (mtu s)]"
  have h: "write_message_header 0 0 0 (client_key s) (xrce_cdr_writer_init msg cap) = (True, ?w)"
    using header_exact(1)[of cap msg "client_key s" ?h 0 0 0] assms by simp
  have wf: "wf_writer ?w" using assms by (simp add: wf_writer_def)
  have w: "writes (all_of ?ops) ?wr"
    by (intro writes_all_of) (use assms(1) in \<open>simp add: writes_byte_array writes_u8 writes_bool writes_u16\<close>)
  have l: "length (?wr 12) = 16"
    using assms(1) by (simp add: wire_seq_def wire_bytes_def wire_u8_def wire_bool_def wire_i16_def padded_def)
  obtain p where p: "p = ?wr 12" "length p = 16" using l by blast
  note fin = finish_exact(1)[OF wf _ _ w p(1), of XRCE_SUBMSG_CREATE_CLIENT s id]
  show ?thesis
    using assms h fin p(2) by (simp add: xrce_session_build_create_client_def request_fits_def)
qed

lemma encode_int32:
  assumes "length buf = cap" "8 \<le> cap"
  shows "std_msgs_Int32_encode \<lparr>int32_data = v\<rparr> buf cap n = (True, cdr_header @ le_bytes 4 v @ drop 8 buf, 8)"
proof -
  have im: "int32.image \<lparr>int32_data = v\<rparr> = cdr_header @ le_bytes 4 v"
    unfolding int32.image_def by (simp add: wire_seq_def wire_u32_def padded_def)
  then have "length (int32.image \<lparr>int32_data = v\<rparr>) = 8" by (simp add: cdr_header_def)
  with int32.encode_fits[OF TrueI, of cap buf "\<lparr>int32_data = v\<rparr>" n] assms show ?thesis
    by (simp add: im blit_def cdr_header_def)
qed

section \<open>Messages behind their header\<close>

text \<open>The result of an encoder in a buffer that is large enough, with the CDR header split off.\<close>

context cdr_message
begin

lemma encode_body:
  assumes "encodable x" "length buf = cap" "wire x 0 = body" "4 + length body \<le> cap"
  obtains b where "encode x buf cap n = (True, b, 4 + length body)" "take (4 + length body) b = cdr_header @ body" "length b = cap"
proof -
  have im: "image x = cdr_header @ body" "length (image x) = 4 + length body" by (simp_all add: image_def assms(3) cdr_header_def)
  have e: "encode x buf cap n = (True, blit 0 (image x) buf, 4 + length body)"
    using encode_fits[OF assms(1), of cap buf n] assms(2,4) im(2) by simp
  have t: "take (4 + length body) (blit 0 (image x) buf) = cdr_header @ body"
    unfolding im(2)[symmetric] im(1) by (simp add: blit_def)
  have "length (blit 0 (image x) buf) = cap" using assms(2,4) im(2) by simp
  with e t show ?thesis by (rule that)
qed

end

end
