(* ===== verification/Board.thy ===== *)
theory Board
  imports Requests Gateway
begin

text \<open>
  What the two firmware images, \<^verbatim>\<open>rtos/arm/ros2_demo.c\<close> and \<^verbatim>\<open>rtos/arm/gazebo_demo.c\<close>, share: the build
  options, the serial line with its optional authentication, and the session. Each image extends the
  record \<open>board\<close> with its own globals, so the operations here are polymorphic in the extension. The locale
  \<open>board_invariant\<close> is the contract between them: an invariant of an image that survives sending keeps
  every printing and sending operation total.
\<close>

section \<open>State\<close>

abbreviation SERIAL_LOCAL_ADDR :: u8 where "SERIAL_LOCAL_ADDR \<equiv> 0"
abbreviation SERIAL_REMOTE_ADDR :: u8 where "SERIAL_REMOTE_ADDR \<equiv> 0"
abbreviation SEND_FRAME_BUF_LEN :: nat where
  "SEND_FRAME_BUF_LEN \<equiv> XRCE_SERIAL_MAX_ENCODED_LEN (256 + XRCE_SECURE_OVERHEAD)"

record demo_cfg =
  SECURE_LINK :: bool
  NODE_ID :: nat

text \<open>The bytes that the local arrays of the sending path hold before they are written.\<close>

record board_stack =
  wrapped_msg :: bytes
  frame_msg :: bytes
  mac_stack :: stack_mem

record board =
  dev :: uart
  g_session :: session
  g_uplink_ctx :: secure_ctx

definition g_secure_key :: bytes where
  "g_secure_key = [0xDE, 0xAD, 0xBE, 0xEF, 0xCA, 0xFE, 0xBA, 0xBE, 0x13, 0x37, 0xC0, 0xDE, 0xF0, 0x0D, 0x5E, 0xED]"

definition NODE_SUFFIX :: "demo_cfg \<Rightarrow> string" where
  "NODE_SUFFIX cfg = (if NODE_ID cfg = 0 then '''' else ''_'' @ dec_digits (NODE_ID cfg))"

text \<open>A call of the driver on the board's device.\<close>

definition on_uart :: "(uart \<Rightarrow> uart option) \<Rightarrow> 'a board_scheme \<Rightarrow> 'a board_scheme option" where
  "on_uart f fw = map_option (\<lambda>u. fw\<lparr>dev := u\<rparr>) (f (dev fw))"

definition print :: "string \<Rightarrow> 'a board_scheme \<Rightarrow> 'a board_scheme option" where
  "print s = on_uart (uart_puts (c_string s))"

text \<open>The second half of \<^verbatim>\<open>send_frame\<close>, after the optional authentication.\<close>

definition encode_and_put :: "'j board_stack_scheme \<Rightarrow> bytes \<Rightarrow> nat \<Rightarrow> 'a board_scheme \<Rightarrow> 'a board_scheme option" where
  "encode_and_put J payload len fw =
     (case xrce_serial_frame_encode (frame_msg J) SEND_FRAME_BUF_LEN SERIAL_LOCAL_ADDR SERIAL_REMOTE_ADDR payload len of
        (flen, frame) \<Rightarrow>
          if flen = 0 then print (''ERROR: send_frame buffer too small for this payload'' @ crlf) fw
          else on_uart (uart_write (take flen frame)) fw)"

text \<open>\<^verbatim>\<open>send_frame\<close> of both images; they differ in the error text \<open>err\<close>.\<close>

definition send_payload :: "string \<Rightarrow> 'j board_stack_scheme \<Rightarrow> demo_cfg \<Rightarrow> bytes \<Rightarrow> nat \<Rightarrow> 'a board_scheme \<Rightarrow> 'a board_scheme option" where
  "send_payload err J cfg payload len fw =
     (if SECURE_LINK cfg
      then (case xrce_secure_wrap (mac_stack J) (g_uplink_ctx fw) payload len (wrapped_msg J) (256 + XRCE_SECURE_OVERHEAD) of
              None \<Rightarrow> None
            | Some (wrapped_len, ctx, wrapped) \<Rightarrow>
                (let fw = fw\<lparr>g_uplink_ctx := ctx\<rparr> in
                 if wrapped_len = 0 then print (err @ crlf) fw
                 else encode_and_put J wrapped wrapped_len fw))
      else encode_and_put J payload len fw)"

section \<open>Lemmas: sending\<close>

definition stack_arrays_ok :: "'j board_stack_scheme \<Rightarrow> bool" where
  "stack_arrays_ok J \<longleftrightarrow> length (wrapped_msg J) = 268 \<and> length (frame_msg J) = SEND_FRAME_BUF_LEN \<and> stack_ok (mac_stack J)"

definition board_ok :: "'a board_scheme \<Rightarrow> bool" where
  "board_ok b \<longleftrightarrow> tx_ready (dev b) \<and> key_ok (g_uplink_ctx b) \<and> length (client_key (g_session b)) = 4"

text \<open>The bytes on the line for a message, and what sending it does to the state.\<close>

definition link_frame :: "demo_cfg \<Rightarrow> secure_ctx \<Rightarrow> bytes \<Rightarrow> bytes" where
  "link_frame cfg ctx m = plain_frame (if SECURE_LINK cfg then envelope (key_of ctx) (send_counter ctx) m else m)"

definition sent :: "demo_cfg \<Rightarrow> 'a board_scheme \<Rightarrow> 'a board_scheme" where
  "sent cfg fw = (if SECURE_LINK cfg
     then fw\<lparr>g_uplink_ctx := (g_uplink_ctx fw)\<lparr>send_counter := send_counter (g_uplink_ctx fw) + 1\<rparr>\<rparr> else fw)"

lemma board_ok_dev: "board_ok fw \<Longrightarrow> transmits (dev fw) bs u \<Longrightarrow> board_ok (fw\<lparr>dev := u\<rparr>)"
  by (simp add: board_ok_def transmits_ready)

lemma sent_simps [simp]: "dev (sent cfg b) = dev b" "g_session (sent cfg b) = g_session b" "board_ok (sent cfg b) = board_ok b"
  by (simp_all add: sent_def board_ok_def)

lemma on_uart_transmits:
  "\<exists>u. f (dev fw) = Some u \<and> transmits (dev fw) bs u \<Longrightarrow> \<exists>u. on_uart f fw = Some (fw\<lparr>dev := u\<rparr>) \<and> transmits (dev fw) bs u"
  by (auto simp: on_uart_def)

lemma print_returns:
  assumes "board_ok fw" "CHR 0x00 \<notin> set s"
  obtains u where "print s fw = Some (fw\<lparr>dev := u\<rparr>)" "transmits (dev fw) (map of_char s) u"
proof -
  have "tx_ready (dev fw)" using assms(1) by (simp add: board_ok_def)
  from on_uart_transmits[of "uart_puts (c_string s)" fw, OF uart_puts_returns[OF this assms(2)]] show ?thesis
    using that unfolding print_def by blast
qed

lemma encode_and_put_exact:
  assumes "stack_arrays_ok J" "board_ok fw" "len \<le> length payload" "len \<le> 268"
  obtains u where "encode_and_put J payload len fw = Some (fw\<lparr>dev := u\<rparr>)"
    "transmits (dev fw) (plain_frame (take len payload)) u"
proof -
  have l: "length (take len payload) = len" using assms(3) by simp
  have e: "xrce_serial_frame_encode (frame_msg J) SEND_FRAME_BUF_LEN SERIAL_LOCAL_ADDR SERIAL_REMOTE_ADDR payload len =
      (length (plain_frame (take len payload)), plain_frame (take len payload) @ drop (length (plain_frame (take len payload))) (frame_msg J))"
    "length (plain_frame (take len payload)) \<noteq> 0"
    using encode_plain[of SEND_FRAME_BUF_LEN "frame_msg J" "take len payload"] assms(1,4) frame_encode_take[OF assms(3)] l
    by (simp_all add: stack_arrays_ok_def XRCE_SERIAL_MAX_ENCODED_LEN_def)
  have "tx_ready (dev fw)" using assms(2) by (simp add: board_ok_def)
  from on_uart_transmits[of "uart_write (plain_frame (take len payload))" fw, OF uart_write_returns[OF this]] show ?thesis
    using that e by (auto simp: encode_and_put_def)
qed

text \<open>A message of at most 256 bytes always goes out, as one frame.\<close>

lemma send_payload_exact:
  assumes "stack_arrays_ok J" "board_ok fw" "len \<le> length payload" "len \<le> 256"
  obtains u where "send_payload err J cfg payload len fw = Some (sent cfg (fw\<lparr>dev := u\<rparr>))"
    "transmits (dev fw) (link_frame cfg (g_uplink_ctx fw) (take len payload)) u"
proof (cases "SECURE_LINK cfg")
  case True
  let ?ctx = "g_uplink_ctx fw"
  let ?w = "envelope (key_of ?ctx) (send_counter ?ctx) (take len payload)"
  let ?fw = "fw\<lparr>g_uplink_ctx := ?ctx\<lparr>send_counter := send_counter ?ctx + 1\<rparr>\<rparr>"
  have l: "length ?w = 12 + len" using assms(3) by (simp add: length_envelope)
  have w: "xrce_secure_wrap (mac_stack J) ?ctx payload len (wrapped_msg J) 268 =
      Some (length ?w, ?ctx\<lparr>send_counter := send_counter ?ctx + 1\<rparr>, ?w @ drop (length ?w) (wrapped_msg J))"
    using assms by (intro wrap_envelope) (simp_all add: stack_arrays_ok_def board_ok_def)
  have ok: "board_ok ?fw" using assms(2) by (simp add: board_ok_def)
  obtain u where u: "encode_and_put J (?w @ drop (length ?w) (wrapped_msg J)) (length ?w) ?fw = Some (?fw\<lparr>dev := u\<rparr>)"
      "transmits (dev ?fw) (plain_frame (take (length ?w) (?w @ drop (length ?w) (wrapped_msg J)))) u"
    using encode_and_put_exact[OF assms(1) ok, of "length ?w" "?w @ drop (length ?w) (wrapped_msg J)"] l assms(4) by auto
  then show ?thesis
    using that[of u] True w l by (simp add: send_payload_def sent_def link_frame_def)
next
  case False
  obtain u where "encode_and_put J payload len fw = Some (fw\<lparr>dev := u\<rparr>)" "transmits (dev fw) (plain_frame (take len payload)) u"
    using encode_and_put_exact[OF assms(1,2,3)] assms(4) by auto
  then show ?thesis using that[of u] False by (simp add: send_payload_def sent_def link_frame_def)
qed

section \<open>The invariant of an image\<close>

text \<open>\<open>f\<close> returns from every state in which \<open>ok\<close> holds, and \<open>ok\<close> holds again.\<close>

definition keeps :: "('s \<Rightarrow> bool) \<Rightarrow> ('s \<Rightarrow> 's option) \<Rightarrow> bool" where
  "keeps ok f \<longleftrightarrow> (\<forall>s. ok s \<longrightarrow> (\<exists>s'. f s = Some s' \<and> ok s'))"

lemma keepsI: "(\<And>s. ok s \<Longrightarrow> \<exists>s'. f s = Some s' \<and> ok s') \<Longrightarrow> keeps ok f"
  by (simp add: keeps_def)

lemma keepsD: "keeps ok f \<Longrightarrow> ok s \<Longrightarrow> \<exists>s'. f s = Some s' \<and> ok s'"
  by (simp add: keeps_def)

lemma keeps_bind: "keeps ok f \<Longrightarrow> keeps ok g \<Longrightarrow> keeps ok (\<lambda>s. Option.bind (f s) g)"
  unfolding keeps_def by fastforce

locale board_invariant =
  fixes ok :: "'a board_scheme \<Rightarrow> bool"
  assumes inv_board: "ok b \<Longrightarrow> board_ok b"
    and inv_dev: "ok b \<Longrightarrow> tx_ready u \<Longrightarrow> ok (b\<lparr>dev := u\<rparr>)"
    and inv_sent: "ok b \<Longrightarrow> ok (sent cfg b)"
begin

lemma inv_transmits: "ok b \<Longrightarrow> transmits (dev b) bs u \<Longrightarrow> ok (b\<lparr>dev := u\<rparr>)"
  using inv_dev transmits_ready by (metis inv_board board_ok_def)

lemma keeps_print: "CHR 0x00 \<notin> set s \<Longrightarrow> keeps ok (print s)"
  by (rule keepsI) (metis print_returns inv_board inv_transmits)

lemma keeps_put_uint: "keeps ok (on_uart (uart_put_uint v))"
proof (rule keepsI)
  fix b assume b: "ok b"
  then obtain u where "uart_put_uint v (dev b) = Some u" "transmits (dev b) (map of_char (dec_digits (unat v))) u"
    using uart_put_uint_returns[of "dev b" v] inv_board[OF b] by (auto simp: board_ok_def)
  then show "\<exists>b'. on_uart (uart_put_uint v) b = Some b' \<and> ok b'"
    using inv_transmits[OF b] by (auto simp: on_uart_def)
qed

lemma keeps_send:
  "stack_arrays_ok J \<Longrightarrow> len \<le> length payload \<Longrightarrow> len \<le> 256 \<Longrightarrow> keeps ok (send_payload err J cfg payload len)"
  by (rule keepsI) (metis send_payload_exact inv_board inv_transmits inv_sent)

end

section \<open>Node names\<close>

definition cfg_ok :: "demo_cfg \<Rightarrow> bool" where
  "cfg_ok cfg \<longleftrightarrow> NODE_ID cfg < 256"

lemma NODE_SUFFIX_bound:
  assumes "cfg_ok cfg"
  shows "length (NODE_SUFFIX cfg) \<le> 4" "CHR 0x00 \<notin> set (NODE_SUFFIX cfg)"
proof -
  have "length (dec_digits n) \<le> 3" if "n < 1000" for n
    using that by (simp add: dec_digits.simps[of n] dec_digits.simps[of "n div 10"] dec_digits.simps[of "n div 10 div 10"])
  then show "length (NODE_SUFFIX cfg) \<le> 4" using assms by (simp add: NODE_SUFFIX_def cfg_ok_def)
  show "CHR 0x00 \<notin> set (NODE_SUFFIX cfg)" by (simp add: NODE_SUFFIX_def dec_digits_no_nul)
qed

end
