(* ===== verification/Ros2_Demo.thy ===== *)
theory Ros2_Demo
  imports Board
begin

text \<open>
  \<^verbatim>\<open>rtos/arm/ros2_demo.c\<close>: the firmware that joins the serial, security, session and message layers. It
  announces its ROS 2 entities to the agent, publishes a counter, and echoes every setpoint it receives.

  The globals of the file and the session of \<^verbatim>\<open>main\<close> are the record \<open>firmware\<close>. The build options
  \<^verbatim>\<open>SECURE_LINK\<close> and \<^verbatim>\<open>NODE_ID\<close> are the record \<open>demo_cfg\<close>; the bytes that the local arrays hold before
  they are written are the record \<open>demo_stack\<close>, an arbitrary parameter. The device is that of \<open>Uart\<close>, so a
  function that waits for the transmitter has \<open>None\<close> as the value of waiting forever.
\<close>

section \<open>State\<close>

abbreviation REANNOUNCE_EVERY_N_PUBLISHES :: nat where "REANNOUNCE_EVERY_N_PUBLISHES \<equiv> 200"
abbreviation PACE_BUSY_LOOPS :: nat where "PACE_BUSY_LOOPS \<equiv> 5000"
record demo_stack = board_stack +
  announce_msg :: bytes
  small_msg :: bytes
  sample_msg :: bytes

record firmware = board +
  g_rx_reader :: serial_reader
  g_participant_id :: object_id
  g_topic_id :: object_id
  g_publisher_id :: object_id
  g_datawriter_id :: object_id
  g_cmd_topic_id :: object_id
  g_subscriber_id :: object_id
  g_datareader_id :: object_id
  g_pong_topic_id :: object_id
  g_pong_datawriter_id :: object_id
  g_downlink_ctx :: secure_ctx

section \<open>Sending and receiving\<close>

definition send_frame :: "demo_stack \<Rightarrow> demo_cfg \<Rightarrow> bytes \<Rightarrow> nat \<Rightarrow> firmware \<Rightarrow> firmware option" where
  "send_frame = send_payload ''ERROR: secure wrap failed (payload too large)''"

definition handle_incoming_frame ::
  "demo_stack \<Rightarrow> demo_cfg \<Rightarrow> object_id \<Rightarrow> bytes \<Rightarrow> nat \<Rightarrow> firmware \<Rightarrow> firmware option" where
  "handle_incoming_frame J cfg datareader_id payload payload_len fw =
     (case xrce_session_parse_data payload payload_len \<lparr>oid = 0, okind = 0\<rparr> [] 0 of
        (ok, from_id, sample, sample_len) \<Rightarrow>
          if \<not> ok then Some fw
          else if oid from_id \<noteq> oid datareader_id \<or> okind from_id \<noteq> okind datareader_id \<or> sample_len < 4 then Some fw
          else
            (let setpoint = ucast (sample ! 0) OR push_bit 8 (ucast (sample ! 1)) OR
                   push_bit 16 (ucast (sample ! 2)) OR push_bit 24 (ucast (sample ! 3)) in
             Option.bind (print ''setpoint updated: '' fw) (\<lambda>fw.
             Option.bind (on_uart (uart_put_int setpoint) fw) (\<lambda>fw.
             Option.bind (print crlf fw) (\<lambda>fw.
               case xrce_session_build_write_data (g_session fw) BEST_EFFORT_STREAM_0 (g_pong_datawriter_id fw)
                      sample 4 (small_msg J) 64 of
                 (len, s, msg) \<Rightarrow> send_frame J cfg msg len (fw\<lparr>g_session := s\<rparr>))))))"

text \<open>The body of the loop of \<^verbatim>\<open>pace_and_poll_rx\<close>, and the loop.\<close>

definition poll_rx :: "demo_stack \<Rightarrow> demo_cfg \<Rightarrow> object_id \<Rightarrow> firmware \<Rightarrow> firmware option" where
  "poll_rx J cfg datareader_id fw =
     (case uart_getc_nonblocking (dev fw) of
        (c, u) \<Rightarrow>
          (let fw = fw\<lparr>dev := u\<rparr> in
           if c < 0 then Some fw
           else
             (case xrce_serial_reader_feed (g_rx_reader fw) (word_of_int c) 0 0 of
                (res, r, src, flen) \<Rightarrow>
                  (let fw = fw\<lparr>g_rx_reader := r\<rparr> in
                   if res \<noteq> FEED_FRAME_READY then Some fw
                   else if SECURE_LINK cfg
                   then (case xrce_secure_unwrap (mac_stack J) (g_downlink_ctx fw) (payload_buf r) (unat flen) [] 0 of
                           None \<Rightarrow> None
                         | Some (sres, ctx, plain, plain_len) \<Rightarrow>
                             (let fw = fw\<lparr>g_downlink_ctx := ctx\<rparr> in
                              if sres \<noteq> XRCE_SECURE_OK then print (''REJECTED downlink frame (auth failed)'' @ crlf) fw
                              else handle_incoming_frame J cfg datareader_id plain plain_len fw))
                   else handle_incoming_frame J cfg datareader_id (payload_buf r) (unat flen) fw))))"

fun pace_and_poll_rx :: "demo_stack \<Rightarrow> demo_cfg \<Rightarrow> object_id \<Rightarrow> nat \<Rightarrow> firmware \<Rightarrow> firmware option" where
  "pace_and_poll_rx J cfg datareader_id 0 fw = Some fw"
| "pace_and_poll_rx J cfg datareader_id (Suc n) fw =
     Option.bind (poll_rx J cfg datareader_id fw) (pace_and_poll_rx J cfg datareader_id n)"

section \<open>Announcing\<close>

text \<open>
  One request of \<^verbatim>\<open>announce_entities\<close>: log line, message into the shared local buffer, frame, pause. \<open>set_id\<close>
  is the assignment to the global object id before it.
\<close>

type_synonym request = "demo_cfg \<Rightarrow> firmware \<Rightarrow> bytes \<Rightarrow> nat \<times> session \<times> bytes"

definition announce ::
  "demo_stack \<Rightarrow> demo_cfg \<Rightarrow> (firmware \<Rightarrow> firmware) \<times> string \<times> request \<Rightarrow> bytes \<times> firmware \<Rightarrow> (bytes \<times> firmware) option" where
  "announce J cfg req st =
     (case req of (set_id, line, build) \<Rightarrow> case st of (msg, fw) \<Rightarrow>
        Option.bind (print (line @ crlf) (set_id fw)) (\<lambda>fw.
        case build cfg fw msg of
          (len, s, msg) \<Rightarrow>
            Option.bind (send_frame J cfg msg len (fw\<lparr>g_session := s\<rparr>)) (\<lambda>fw.
            Option.bind (pace_and_poll_rx J cfg (g_datareader_id fw) PACE_BUSY_LOOPS fw) (\<lambda>fw.
              Some (msg, fw)))))"

fun announce_all ::
  "demo_stack \<Rightarrow> demo_cfg \<Rightarrow> ((firmware \<Rightarrow> firmware) \<times> string \<times> request) list \<Rightarrow> bytes \<times> firmware \<Rightarrow> (bytes \<times> firmware) option" where
  "announce_all J cfg [] st = Some st"
| "announce_all J cfg (r # rs) st = Option.bind (announce J cfg r st) (announce_all J cfg rs)"

definition create_client :: request where
  "create_client cfg fw msg =
     (case xrce_session_build_create_client (g_session fw) msg 192 of (n, msg) \<Rightarrow> (n, g_session fw, msg))"

definition create_participant :: request where
  "create_participant cfg fw msg =
     xrce_session_build_create_participant (g_session fw) BEST_EFFORT_STREAM_0 (g_participant_id fw) 0
       (c_string (''<dds><participant><rtps><name>rtos_qemu_demo'' @ NODE_SUFFIX cfg @
         ''</name></rtps></participant></dds>'')) msg 192"

definition create_xml :: "(firmware \<Rightarrow> object_id) \<Rightarrow> (firmware \<Rightarrow> object_id) \<Rightarrow> (demo_cfg \<Rightarrow> string) \<Rightarrow> request" where
  "create_xml self parent xml cfg fw msg =
     xrce_session_build_create_xml (g_session fw) BEST_EFFORT_STREAM_0 (self fw) (parent fw) (c_string (xml cfg)) msg 192"

definition topic_xml :: "string \<Rightarrow> demo_cfg \<Rightarrow> string" where
  "topic_xml name cfg = ''<dds><topic><name>rt/'' @ name @ NODE_SUFFIX cfg @ ''</name>'' @
     ''<dataType>std_msgs::msg::dds_::Int32_</dataType></topic></dds>''"

definition endpoint_xml :: "string \<Rightarrow> string \<Rightarrow> demo_cfg \<Rightarrow> string" where
  "endpoint_xml tag name cfg = ''<dds><'' @ tag @ ''><topic><kind>NO_KEY</kind>'' @
     ''<name>rt/'' @ name @ NODE_SUFFIX cfg @ ''</name>'' @
     ''<dataType>std_msgs::msg::dds_::Int32_</dataType>'' @ ''</topic></'' @ tag @ ''></dds>''"

definition read_data :: request where
  "read_data cfg fw msg =
     xrce_session_build_read_data (g_session fw) BEST_EFFORT_STREAM_0 (g_datareader_id fw) BEST_EFFORT_STREAM_0 msg 192"

definition announce_script :: "((firmware \<Rightarrow> firmware) \<times> string \<times> request) list" where
  "announce_script =
     [(id, ''-> CREATE_CLIENT'', create_client),
      (\<lambda>fw. fw\<lparr>g_participant_id := xrce_object_id 1 XRCE_OBJK_PARTICIPANT\<rparr>, ''-> CREATE participant'', create_participant),
      (\<lambda>fw. fw\<lparr>g_topic_id := xrce_object_id 1 XRCE_OBJK_TOPIC\<rparr>, ''-> CREATE topic (rt/chatter)'',
       create_xml g_topic_id g_participant_id (topic_xml ''chatter'')),
      (\<lambda>fw. fw\<lparr>g_publisher_id := xrce_object_id 1 XRCE_OBJK_PUBLISHER\<rparr>, ''-> CREATE publisher'',
       create_xml g_publisher_id g_participant_id (\<lambda>cfg. '''')),
      (\<lambda>fw. fw\<lparr>g_datawriter_id := xrce_object_id 1 XRCE_OBJK_DATAWRITER\<rparr>, ''-> CREATE datawriter'',
       create_xml g_datawriter_id g_publisher_id (endpoint_xml ''data_writer'' ''chatter'')),
      (\<lambda>fw. fw\<lparr>g_cmd_topic_id := xrce_object_id 2 XRCE_OBJK_TOPIC\<rparr>, ''-> CREATE topic (rt/setpoint)'',
       create_xml g_cmd_topic_id g_participant_id (topic_xml ''setpoint'')),
      (\<lambda>fw. fw\<lparr>g_subscriber_id := xrce_object_id 1 XRCE_OBJK_SUBSCRIBER\<rparr>, ''-> CREATE subscriber'',
       create_xml g_subscriber_id g_participant_id (\<lambda>cfg. '''')),
      (\<lambda>fw. fw\<lparr>g_datareader_id := xrce_object_id 1 XRCE_OBJK_DATAREADER\<rparr>, ''-> CREATE datareader'',
       create_xml g_datareader_id g_subscriber_id (endpoint_xml ''data_reader'' ''setpoint'')),
      (id, ''-> READ_DATA (rt/setpoint)'', read_data),
      (\<lambda>fw. fw\<lparr>g_pong_topic_id := xrce_object_id 3 XRCE_OBJK_TOPIC\<rparr>, ''-> CREATE topic (rt/pong)'',
       create_xml g_pong_topic_id g_participant_id (topic_xml ''pong'')),
      (\<lambda>fw. fw\<lparr>g_pong_datawriter_id := xrce_object_id 2 XRCE_OBJK_DATAWRITER\<rparr>, ''-> CREATE datawriter (rt/pong)'',
       create_xml g_pong_datawriter_id g_publisher_id (endpoint_xml ''data_writer'' ''pong''))]"

definition announce_entities :: "demo_stack \<Rightarrow> demo_cfg \<Rightarrow> firmware \<Rightarrow> firmware option" where
  "announce_entities J cfg fw = map_option snd (announce_all J cfg announce_script (announce_msg J, fw))"

section \<open>The main program\<close>

text \<open>The values of the globals when the program starts; the session is filled in by \<open>ros2_boot\<close>.\<close>

definition firmware_init :: "demo_cfg \<Rightarrow> uart \<Rightarrow> firmware" where
  "firmware_init cfg u =
     (let none = \<lparr>oid = 0, okind = 0\<rparr> in
      \<lparr>dev = u,
       g_session = xrce_session_init 1 [0x52, 0x54, 0x4F, of_nat (0x53 + NODE_ID cfg)] 512,
       g_uplink_ctx = xrce_secure_init g_secure_key 16,
       g_rx_reader = xrce_serial_reader_init SERIAL_LOCAL_ADDR (replicate (256 + XRCE_SECURE_OVERHEAD) 0)
         (256 + XRCE_SECURE_OVERHEAD),
       g_participant_id = none, g_topic_id = none, g_publisher_id = none, g_datawriter_id = none,
       g_cmd_topic_id = none, g_subscriber_id = none, g_datareader_id = none, g_pong_topic_id = none,
       g_pong_datawriter_id = none, g_downlink_ctx = xrce_secure_init g_secure_key 16\<rparr>)"

definition ros2_boot :: "demo_stack \<Rightarrow> demo_cfg \<Rightarrow> uart \<Rightarrow> firmware option" where
  "ros2_boot J cfg u =
     Option.bind (print (''RTOS ROS2 demo: booting, sending XRCE frames over UART1'' @ crlf)
       (firmware_init cfg (uart_init u))) (\<lambda>fw.
     Option.bind (if SECURE_LINK cfg
       then print (''SECURE_LINK enabled: every frame HMAC-authenticated, '' @
              ''point this at host/secure_gateway.c, not a bare agent'' @ crlf) fw
       else Some fw) (\<lambda>fw.
     Option.bind (announce_entities J cfg fw)
       (print (''Publishing std_msgs/Int32 on rt/chatter, watching rt/setpoint...'' @ crlf))))"

text \<open>
  One pass of the publishing loop. When encoding fails the program stops in an empty loop: \<open>None\<close>.
  The counter is a signed 32-bit integer; incrementing it past its range has no meaning, and the
  loop below stops there.
\<close>

definition publish :: "demo_stack \<Rightarrow> demo_cfg \<Rightarrow> nat \<Rightarrow> firmware \<Rightarrow> firmware option" where
  "publish J cfg i fw =
     Option.bind (if i > 0 \<and> i mod REANNOUNCE_EVERY_N_PUBLISHES = 0 then announce_entities J cfg fw else Some fw) (\<lambda>fw.
     case std_msgs_Int32_encode \<lparr>int32_data = of_nat i\<rparr> (sample_msg J) 16 0 of
       (ok, sample, sample_len) \<Rightarrow>
         if \<not> ok then Option.bind (print (''ERROR: encode failed'' @ crlf) fw) (\<lambda>_. None)
         else
           (case xrce_session_build_write_data (g_session fw) BEST_EFFORT_STREAM_0 (g_datawriter_id fw)
                   (drop 4 sample) (sample_len - 4) (small_msg J) 64 of
              (len, s, msg) \<Rightarrow>
                Option.bind (send_frame J cfg msg len (fw\<lparr>g_session := s\<rparr>)) (\<lambda>fw.
                Option.bind (print ''published data='' fw) (\<lambda>fw.
                Option.bind (on_uart (uart_put_uint (of_nat i)) fw) (\<lambda>fw.
                Option.bind (print crlf fw)
                  (\<lambda>fw. pace_and_poll_rx J cfg (g_datareader_id fw) PACE_BUSY_LOOPS fw))))))"

fun publish_loop :: "demo_stack \<Rightarrow> demo_cfg \<Rightarrow> nat \<Rightarrow> firmware \<Rightarrow> firmware option" where
  "publish_loop J cfg 0 fw = Some fw"
| "publish_loop J cfg (Suc i) fw =
     Option.bind (publish_loop J cfg i fw) (\<lambda>fw. if i < 2 ^ 31 then publish J cfg i fw else None)"

section \<open>Lemmas: sending\<close>

definition demo_ok :: "demo_stack \<Rightarrow> bool" where
  "demo_ok J \<longleftrightarrow> stack_arrays_ok J \<and> length (announce_msg J) = 192 \<and> length (small_msg J) = 64 \<and> length (sample_msg J) = 16"

text \<open>The invariant of the firmware: its device transmits, its reader and its contexts are well formed.\<close>

definition fw_ok :: "firmware \<Rightarrow> bool" where
  "fw_ok fw \<longleftrightarrow> board_ok fw \<and> reader_ok (g_rx_reader fw) \<and> key_ok (g_downlink_ctx fw)"

lemmas fw_ok_simps = fw_ok_def board_ok_def

interpretation fwi: board_invariant fw_ok
  by unfold_locales (auto simp: fw_ok_simps sent_def)

lemma fw_ok_dev: "fw_ok fw \<Longrightarrow> transmits (dev fw) bs u \<Longrightarrow> fw_ok (fw\<lparr>dev := u\<rparr>)"
  by (rule fwi.inv_transmits)

lemma sent_firmware [simp]: "fw_ok (sent cfg fw) = fw_ok fw" "g_pong_datawriter_id (sent cfg fw) = g_pong_datawriter_id fw"
  by (simp_all add: sent_def fw_ok_simps)

lemma send_frame_exact:
  assumes "demo_ok J" "fw_ok fw" "len \<le> length payload" "len \<le> 256"
  obtains u where "send_frame J cfg payload len fw = Some (sent cfg (fw\<lparr>dev := u\<rparr>))"
    "transmits (dev fw) (link_frame cfg (g_uplink_ctx fw) (take len payload)) u"
  using send_payload_exact[of J fw len payload] assms unfolding send_frame_def demo_ok_def fw_ok_def by blast


section \<open>Lemmas: receiving\<close>

text \<open>The answer to an accepted setpoint: what is printed, and the WRITE_DATA message for \<^verbatim>\<open>rt/pong\<close>.\<close>

definition setpoint_line :: "bytes \<Rightarrow> string" where
  "setpoint_line sample = ''setpoint updated: '' @ dec_string (sint (le_value (take 4 sample) :: u32)) @ crlf"

lemma handle_setpoint:
  assumes "demo_ok J" "fw_ok fw" "len \<le> length payload"
    and "xrce_session_parse_data payload len \<lparr>oid = 0, okind = 0\<rparr> [] 0 = (True, x, sample, k)" "4 \<le> k"
    and "oid x = oid dr" "okind x = okind dr"
  obtains u where
    "handle_incoming_frame J cfg dr payload len fw = Some (sent cfg (fw\<lparr>g_session := numbered (g_session fw), dev := u\<rparr>))"
    "transmits (dev fw) (map of_char (setpoint_line sample) @
       link_frame cfg (g_uplink_ctx fw) (write_data_message (g_session fw) (g_pong_datawriter_id fw) (take 4 sample))) u"
proof -
  let ?v = "ucast (sample ! 0) OR push_bit 8 (ucast (sample ! 1)) OR
                   push_bit 16 (ucast (sample ! 2)) OR push_bit 24 (ucast (sample ! 3)) :: u32"
  let ?m = "write_data_message (g_session fw) (g_pong_datawriter_id fw) (take 4 sample)"
  have ls: "4 \<le> length sample" using parse_data_sample[OF assms(4,3)] assms(5) by simp
  then have v: "?v = le_value (take 4 sample)" by (simp only: take_4 le_value_4)
  obtain u1 where 1: "print ''setpoint updated: '' fw = Some (fw\<lparr>dev := u1\<rparr>)" "transmits (dev fw) (map of_char ''setpoint updated: '') u1"
    by (rule print_returns[OF fwi.inv_board[OF assms(2)], of "''setpoint updated: ''"]) auto
  note ok1 = fw_ok_dev[OF assms(2) 1(2)]
  obtain u2 where 2: "uart_put_int ?v u1 = Some u2" "transmits u1 (map of_char (dec_string (sint ?v))) u2"
    using uart_put_int_returns[of u1 ?v] ok1 by (auto simp: fw_ok_simps)
  have ok2: "fw_ok (fw\<lparr>dev := u2\<rparr>)" using fw_ok_dev[OF ok1, of _ u2] 2(2) by simp
  obtain u3 where 3: "print crlf (fw\<lparr>dev := u2\<rparr>) = Some (fw\<lparr>dev := u3\<rparr>)" "transmits u2 (map of_char crlf) u3"
    using print_returns[OF fwi.inv_board[OF ok2] crlf_no_nul] by auto
  have ok3: "fw_ok (fw\<lparr>dev := u3\<rparr>)" using fw_ok_dev[OF ok2, of _ u3] 3(2) by simp
  have key: "length (client_key (g_session fw)) = 4" "length (small_msg J) = 64" using assms(1,2) by (simp_all add: fw_ok_simps demo_ok_def)
  note w = write_data_fits[OF key ls, of "g_pong_datawriter_id fw", simplified]
  let ?fw = "fw\<lparr>dev := u3, g_session := numbered (g_session fw)\<rparr>"
  have ok4: "fw_ok ?fw" using ok3 by (simp add: fw_ok_simps numbered_def)
  obtain u4 where 4: "send_frame J cfg (?m @ drop 20 (small_msg J)) 20 ?fw = Some (sent cfg (?fw\<lparr>dev := u4\<rparr>))"
      "transmits u3 (link_frame cfg (g_uplink_ctx fw) ?m) u4"
    using send_frame_exact[OF assms(1) ok4, of 20 "?m @ drop 20 (small_msg J)" cfg] w(2) by auto
  have "handle_incoming_frame J cfg dr payload len fw = Some (sent cfg (?fw\<lparr>dev := u4\<rparr>))"
    using assms(4-7) 1(1) 2(1) 3(1) 4(1) w(1)
    by (simp add: handle_incoming_frame_def Let_def on_uart_def)
  moreover have "?fw\<lparr>dev := u4\<rparr> = fw\<lparr>g_session := numbered (g_session fw), dev := u4\<rparr>" by (cases fw) simp
  moreover have "transmits (dev fw) (map of_char (setpoint_line sample) @ link_frame cfg (g_uplink_ctx fw) ?m) u4"
    using transmits_trans[OF transmits_trans[OF transmits_trans[OF 1(2) 2(2)] 3(2)] 4(2)]
    unfolding setpoint_line_def v by simp
  ultimately show ?thesis using that by metis
qed

section \<open>Lemmas: the requests fit\<close>

text \<open>Every request of the script, in whatever state it is built.\<close>

lemma script_fits:
  assumes "cfg_ok cfg" "length (client_key (g_session fw)) = 4" "length msg = 192"
    and "(set_id, line, build) \<in> set announce_script"
  shows "request_fits 192 (build cfg fw msg)"
proof -
  note sx = NODE_SUFFIX_bound[OF assms(1)]
  note cf = build_create_fits[OF assms(2,3), simplified]
  have t: "CHR 0x00 \<notin> set (topic_xml n cfg)" "length (topic_xml n cfg) \<le> 160" if "n \<in> {''chatter'', ''setpoint'', ''pong''}" for n
    using that sx by (auto simp: topic_xml_def)
  have e: "CHR 0x00 \<notin> set (endpoint_xml g n cfg)" "length (endpoint_xml g n cfg) \<le> 160"
    if "n \<in> {''chatter'', ''setpoint'', ''pong''}" "g \<in> {''data_writer'', ''data_reader''}" for g n
    using that sx by (auto simp: endpoint_xml_def)
  have x: "request_fits 192 (create_xml self parent xml cfg fw msg)" if "CHR 0x00 \<notin> set (xml cfg)" "length (xml cfg) \<le> 160" for self parent xml
    unfolding create_xml_def xrce_session_build_create_xml_def using that by (intro cf) auto
  have p: "request_fits 192 (create_participant cfg fw msg)"
    unfolding create_participant_def xrce_session_build_create_participant_def using sx by (intro cf) auto
  consider "build = create_client" | "build = create_participant" | "build = read_data"
    | self parent xml where "build = create_xml self parent xml" "CHR 0x00 \<notin> set (xml cfg)" "length (xml cfg) \<le> 160"
    using assms(4) t e unfolding announce_script_def by force
  then show ?thesis
    by cases (use create_client_fits[OF assms(2,3)] p x read_data_fits[OF assms(2,3)] in \<open>auto simp: read_data_def create_client_def\<close>)
qed

section \<open>Lemmas: every operation returns and keeps the invariant\<close>

lemma keeps_send_frame: "demo_ok J \<Longrightarrow> len \<le> length payload \<Longrightarrow> len \<le> 256 \<Longrightarrow> keeps fw_ok (send_frame J cfg payload len)"
  unfolding send_frame_def demo_ok_def by (blast intro: fwi.keeps_send)

lemmas fw_keeps_print = fwi.keeps_print and fw_keeps_put_uint = fwi.keeps_put_uint

lemma keeps_handle:
  assumes "demo_ok J" "len \<le> length payload"
  shows "keeps fw_ok (handle_incoming_frame J cfg dr payload len)"
proof (rule keepsI)
  fix fw assume ok: "fw_ok fw"
  obtain ok1 x sample k where p: "xrce_session_parse_data payload len \<lparr>oid = 0, okind = 0\<rparr> [] 0 = (ok1, x, sample, k)"
    by (metis prod_cases4)
  show "\<exists>fw'. handle_incoming_frame J cfg dr payload len fw = Some fw' \<and> fw_ok fw'"
  proof (cases "ok1 \<and> oid x = oid dr \<and> okind x = okind dr \<and> 4 \<le> k")
    case True
    then have p1: "xrce_session_parse_data payload len \<lparr>oid = 0, okind = 0\<rparr> [] 0 = (True, x, sample, k)"
      and a: "4 \<le> k" "oid x = oid dr" "okind x = okind dr" using p by simp_all
    obtain u bs where "handle_incoming_frame J cfg dr payload len fw =
        Some (sent cfg (fw\<lparr>g_session := numbered (g_session fw), dev := u\<rparr>))" "transmits (dev fw) bs u"
      by (rule handle_setpoint[OF assms(1) ok assms(2) p1 a])
    moreover from this have "fw_ok (fw\<lparr>g_session := numbered (g_session fw), dev := u\<rparr>)"
      using fw_ok_dev[OF ok, of bs u] by (simp add: fw_ok_simps numbered_def)
    ultimately show ?thesis by simp
  next
    case False
    then show ?thesis using p ok by (auto simp: handle_incoming_frame_def)
  qed
qed

lemma keeps_poll:
  assumes "demo_ok J"
  shows "keeps fw_ok (poll_rx J cfg dr)"
proof (rule keepsI)
  fix fw assume ok: "fw_ok fw"
  obtain c u where g: "uart_getc_nonblocking (dev fw) = (c, u)" by fastforce
  then have "usart1_sr u = usart1_sr (dev fw)"
    by (auto simp: uart_getc_nonblocking_def read_sr_def split: if_splits)
  then have ok1: "fw_ok (fw\<lparr>dev := u\<rparr>)" using ok by (simp add: fw_ok_simps tx_ready_def)
  obtain res r src flen where f: "xrce_serial_reader_feed (g_rx_reader fw) (word_of_int c) 0 0 = (res, r, src, flen)"
    by (metis prod_cases4)
  have r: "reader_ok r" "res = FEED_FRAME_READY \<Longrightarrow> unat flen \<le> length (payload_buf r)"
    using feed_ok[OF _ f] ok by (auto simp: fw_ok_simps reader_ok_def)
  let ?fw = "fw\<lparr>dev := u, g_rx_reader := r\<rparr>"
  have ok2: "fw_ok ?fw" using ok1 r(1) by (simp add: fw_ok_simps)
  show "\<exists>fw'. poll_rx J cfg dr fw = Some fw' \<and> fw_ok fw'"
  proof (cases "c < 0 \<or> res \<noteq> FEED_FRAME_READY")
    case True
    then show ?thesis using g f ok1 ok2 by (auto simp: poll_rx_def Let_def)
  next
    case False
    note n = r(2) and h = keeps_handle[OF assms]
    show ?thesis
    proof (cases "SECURE_LINK cfg")
      case True
      have u: "key_ok (g_downlink_ctx fw)" "stack_ok (mac_stack J)" using ok assms by (simp_all add: fw_ok_simps demo_ok_def stack_arrays_ok_def)
      note w = unwrap_total[OF u(2,1) n refl refl, of "[]" 0]
      obtain sres ctx plain k where un: "xrce_secure_unwrap (mac_stack J) (g_downlink_ctx fw) (payload_buf r) (unat flen) [] 0 =
          Some (sres, ctx, plain, k)" "key_ok ctx" "k \<le> length plain"
        using w False n u(1) by (auto simp: slice_def split: if_splits)
      have ok3: "fw_ok (?fw\<lparr>g_downlink_ctx := ctx\<rparr>)" using ok2 un(2) by (simp add: fw_ok_simps)
      have rej: "keeps fw_ok (print (''REJECTED downlink frame (auth failed)'' @ crlf))" by (rule fw_keeps_print) simp
      then show ?thesis
        using False True g f un(1) keepsD[OF h[OF un(3)] ok3] keepsD[OF rej ok3]
        by (cases "sres = XRCE_SECURE_OK") (auto simp: poll_rx_def)
    next
      case no: False
      then show ?thesis using False g f n keepsD[OF h ok2] by (auto simp: poll_rx_def)
    qed
  qed
qed

lemma keeps_pace: "demo_ok J \<Longrightarrow> keeps fw_ok (pace_and_poll_rx J cfg dr n)"
proof (induction n)
  case (Suc n)
  then show ?case using keeps_bind[OF keeps_poll] by simp
qed (simp add: keeps_def)

text \<open>Announcing keeps the invariant and the size of the shared message buffer.\<close>

lemma script_state:
  assumes "(set_id, line, build) \<in> set announce_script"
  shows "fw_ok (set_id fw) = fw_ok fw" "g_session (set_id fw) = g_session fw" "CHR 0x00 \<notin> set line"
  using assms by (auto simp: announce_script_def fw_ok_simps)

lemma announce_returns:
  assumes "demo_ok J" "cfg_ok cfg" "req \<in> set announce_script" "fw_ok fw" "length msg = 192"
  shows "\<exists>msg' fw'. announce J cfg req (msg, fw) = Some (msg', fw') \<and> fw_ok fw' \<and> length msg' = 192"
proof -
  obtain set_id line build where req: "req = (set_id, line, build)" by (metis prod_cases3)
  note st = script_state[OF assms(3)[unfolded req]]
  have "keeps fw_ok (print (line @ crlf))" using st(3) by (intro fw_keeps_print) simp
  then obtain fw1 where 1: "print (line @ crlf) (set_id fw) = Some fw1" "fw_ok fw1"
    using keepsD[of fw_ok "print (line @ crlf)" "set_id fw"] assms(4) st(1) by auto
  obtain len s msg1 where b: "build cfg fw1 msg = (len, s, msg1)" by (metis prod_cases3)
  have fit: "len \<le> 192" "length msg1 = 192" "length (client_key s) = 4"
    using script_fits[OF assms(2) _ assms(5) assms(3)[unfolded req], of fw1] 1(2) b by (simp_all add: fw_ok_simps request_fits_def)
  have ok: "fw_ok (fw1\<lparr>g_session := s\<rparr>)" using 1(2) fit(3) by (simp add: fw_ok_simps)
  obtain fw2 where 2: "send_frame J cfg msg1 len (fw1\<lparr>g_session := s\<rparr>) = Some fw2" "fw_ok fw2"
    using keepsD[OF keeps_send_frame[OF assms(1), of len msg1 cfg] ok] fit by auto
  obtain fw3 where 3: "pace_and_poll_rx J cfg (g_datareader_id fw2) PACE_BUSY_LOOPS fw2 = Some fw3" "fw_ok fw3"
    using keepsD[OF keeps_pace[OF assms(1)] 2(2)] by blast
  show ?thesis
    unfolding announce_def req using 1(1) b 2(1) 3 fit(2) by (simp del: pace_and_poll_rx.simps)
qed

lemma announce_all_returns:
  assumes "demo_ok J" "cfg_ok cfg" "set rs \<subseteq> set announce_script" "fw_ok fw" "length msg = 192"
  shows "\<exists>msg' fw'. announce_all J cfg rs (msg, fw) = Some (msg', fw') \<and> fw_ok fw'"
  using assms(3-5)
proof (induction rs arbitrary: msg fw)
  case (Cons r rs)
  obtain msg1 fw1 where "announce J cfg r (msg, fw) = Some (msg1, fw1)" "fw_ok fw1" "length msg1 = 192"
    using announce_returns[OF assms(1,2) _ Cons.prems(2,3), of r] Cons.prems(1) by auto
  then show ?case using Cons.IH[of fw1 msg1] Cons.prems(1) by simp
qed simp

lemma keeps_announce_entities: "demo_ok J \<Longrightarrow> cfg_ok cfg \<Longrightarrow> keeps fw_ok (announce_entities J cfg)"
  by (rule keepsI) (use announce_all_returns[OF _ _ order_refl] in \<open>fastforce simp: announce_entities_def demo_ok_def\<close>)

lemma keeps_publish:
  assumes "demo_ok J" "cfg_ok cfg"
  shows "keeps fw_ok (publish J cfg i)"
proof (rule keepsI)
  fix fw assume ok: "fw_ok fw"
  obtain fw1 where 1: "(if i > 0 \<and> i mod REANNOUNCE_EVERY_N_PUBLISHES = 0 then announce_entities J cfg fw else Some fw) = Some fw1" "fw_ok fw1"
    using keepsD[OF keeps_announce_entities[OF assms] ok] ok by (cases "i > 0 \<and> i mod REANNOUNCE_EVERY_N_PUBLISHES = 0") auto
  let ?sample = "cdr_header @ le_bytes 4 (of_nat i :: u32) @ drop 8 (sample_msg J)"
  have e: "std_msgs_Int32_encode \<lparr>int32_data = of_nat i\<rparr> (sample_msg J) 16 0 = (True, ?sample, 8)"
    using assms(1) by (intro encode_int32) (simp_all add: demo_ok_def)
  have key: "length (client_key (g_session fw1)) = 4" "length (small_msg J) = 64" using assms(1) 1(2) by (simp_all add: fw_ok_simps demo_ok_def)
  have ls: "4 \<le> length (drop 4 ?sample)" by (simp add: cdr_header_def)
  note w = write_data_fits[OF key ls, of "g_datawriter_id fw1", simplified]
  obtain len s msg where b: "xrce_session_build_write_data (g_session fw1) BEST_EFFORT_STREAM_0 (g_datawriter_id fw1) (drop 4 ?sample) 4 (small_msg J) 64
      = (len, s, msg)" by (metis prod_cases3)
  have l: "len = 20" "s = numbered (g_session fw1)" "len \<le> length msg"
    using w b by (auto simp: cdr_header_def)
  have ok2: "fw_ok (fw1\<lparr>g_session := s\<rparr>)" using 1(2) l(2) by (simp add: fw_ok_simps numbered_def)
  have "keeps fw_ok (print ''published data='')" "keeps fw_ok (print crlf)" by (rule fw_keeps_print; simp)+
  from keeps_bind[OF keeps_send_frame[OF assms(1) l(3), of cfg] keeps_bind[OF this(1) keeps_bind[OF fw_keeps_put_uint[of "of_nat i"] keeps_bind[OF this(2)
      keepsI[where f = "\<lambda>fw. pace_and_poll_rx J cfg (g_datareader_id fw) PACE_BUSY_LOOPS fw", OF keepsD[OF keeps_pace[OF assms(1)]]]]]]]
  have "keeps fw_ok (\<lambda>fw. Option.bind (send_frame J cfg msg len fw) (\<lambda>fw. Option.bind (print ''published data='' fw) (\<lambda>fw.
      Option.bind (on_uart (uart_put_uint (of_nat i)) fw) (\<lambda>fw. Option.bind (print crlf fw)
        (\<lambda>fw. pace_and_poll_rx J cfg (g_datareader_id fw) PACE_BUSY_LOOPS fw)))))"
    using l(1) by simp
  from keepsD[OF this ok2] show "\<exists>fw'. publish J cfg i fw = Some fw' \<and> fw_ok fw'"
    unfolding publish_def 1(1) using e b by (simp del: pace_and_poll_rx.simps)
qed

lemma publish_loop_returns:
  assumes "demo_ok J" "cfg_ok cfg" "n \<le> 2 ^ 31" "fw_ok fw"
  shows "\<exists>fw'. publish_loop J cfg n fw = Some fw' \<and> fw_ok fw'"
  using assms(3)
proof (induction n)
  case (Suc n)
  then obtain fw' where "publish_loop J cfg n fw = Some fw'" "fw_ok fw'" by auto
  then show ?case using keepsD[OF keeps_publish[OF assms(1,2)]] Suc.prems by simp
qed (simp add: assms(4))

lemma firmware_init_ok: "tx_ready u \<Longrightarrow> fw_ok (firmware_init cfg (uart_init u))"
  by (simp add: fw_ok_simps firmware_init_def reader_init_ok key_ok_def xrce_secure_init_def g_secure_key_def
      xrce_session_init_def uart_init_def tx_ready_def Let_def)

lemma boot_returns:
  assumes "demo_ok J" "cfg_ok cfg" "tx_ready u"
  shows "\<exists>fw. ros2_boot J cfg u = Some fw \<and> fw_ok fw"
proof -
  have p: "CHR 0x00 \<notin> set s \<Longrightarrow> keeps fw_ok (print s)" for s by (rule fw_keeps_print)
  have "keeps fw_ok (\<lambda>fw. if SECURE_LINK cfg then print (''SECURE_LINK enabled: every frame HMAC-authenticated, '' @
      ''point this at host/secure_gateway.c, not a bare agent'' @ crlf) fw else Some fw)"
    by (cases "SECURE_LINK cfg") (simp_all add: p keeps_def[of fw_ok Some])
  then have "keeps fw_ok (\<lambda>fw. Option.bind (print (''RTOS ROS2 demo: booting, sending XRCE frames over UART1'' @ crlf) fw) (\<lambda>fw.
     Option.bind (if SECURE_LINK cfg then print (''SECURE_LINK enabled: every frame HMAC-authenticated, '' @
       ''point this at host/secure_gateway.c, not a bare agent'' @ crlf) fw else Some fw) (\<lambda>fw.
     Option.bind (announce_entities J cfg fw)
       (print (''Publishing std_msgs/Int32 on rt/chatter, watching rt/setpoint...'' @ crlf)))))"
    by (intro keeps_bind keeps_announce_entities[OF assms(1,2)] p) simp_all
  from keepsD[OF this firmware_init_ok[OF assms(3)]] show ?thesis unfolding ros2_boot_def .
qed

section \<open>Properties\<close>

text \<open>
  C13: The firmware never hangs. Whatever bytes the line delivers and whenever it delivers them, with the
  authenticated link or without, if the transmitter always becomes free again then booting returns, and
  so does every number of publications the 32-bit loop counter can count: no wait, no error loop and no
  parser blocks the program.
\<close>

theorem firmware_never_hangs:
  assumes "demo_ok J" "cfg_ok cfg" "tx_ready u" "n \<le> 2 ^ 31"
  shows "\<exists>fw fw'. ros2_boot J cfg u = Some fw \<and> publish_loop J cfg n fw = Some fw'"
  using boot_returns[OF assms(1-3)] publish_loop_returns[OF assms(1,2,4)] by blast

definition sample_stack :: demo_stack where
  "sample_stack = \<lparr>wrapped_msg = replicate 268 0xAA, frame_msg = replicate 549 0xAA, mac_stack = zero_stack,
     announce_msg = replicate 192 0xAA, small_msg = replicate 64 0xAA, sample_msg = replicate 16 0xAA\<rparr>"

lemma sample_stack_ok: "demo_ok sample_stack"
  by (simp add: demo_ok_def stack_arrays_ok_def sample_stack_def XRCE_SERIAL_MAX_ENCODED_LEN_def zero_stack_ok)

lemma sample_uart_ready: "tx_ready (sample_uart (\<lambda>t. 0xA0))"
  by (auto simp: tx_ready_def sample_uart_def)

theorem firmware_never_hangs_witness:
  "\<exists>fw fw'. ros2_boot sample_stack \<lparr>SECURE_LINK = True, NODE_ID = 7\<rparr> (sample_uart (\<lambda>t. 0xA0)) = Some fw \<and>
     publish_loop sample_stack \<lparr>SECURE_LINK = True, NODE_ID = 7\<rparr> 1000000 fw = Some fw'"
  using firmware_never_hangs[OF sample_stack_ok _ sample_uart_ready, of "\<lparr>SECURE_LINK = True, NODE_ID = 7\<rparr>" 1000000]
  by (simp add: cfg_ok_def del: publish_loop.simps)

text \<open>
  C14: The echo. A DATA message from the firmware's own datareader with at least four sample bytes makes it
  transmit exactly the line with the setpoint in decimal and then one frame: the WRITE_DATA message for the
  pong datawriter with the same four bytes, under the next sequence number and request id (inside an
  envelope under the next counter on the authenticated link). A DATA message for another object, or with
  fewer bytes, changes nothing at all.
\<close>

theorem firmware_echoes_setpoint:
  assumes "demo_ok J" "fw_ok fw" "sid < 0x80" "length key = 4" "length rid = 2"
    and "oid x < 4096" "okind x < 16"
    and "m = message_bytes sid stream seq key XRCE_SUBMSG_DATA (rid @ object_id_bytes x @ sample)"
  shows "if x = dr \<and> 4 \<le> length sample
     then \<exists>u. handle_incoming_frame J cfg dr m (length m) fw =
          Some (sent cfg (fw\<lparr>g_session := numbered (g_session fw), dev := u\<rparr>)) \<and>
        transmits (dev fw) (map of_char (setpoint_line sample) @
          link_frame cfg (g_uplink_ctx fw) (write_data_message (g_session fw) (g_pong_datawriter_id fw) (take 4 sample))) u
     else handle_incoming_frame J cfg dr m (length m) fw = Some fw"
proof -
  have l: "length m = 16 + length sample"
    using assms(4,5,8) by (simp add: length_message object_id_bytes_def)
  have p: "xrce_session_parse_data m (length m) \<lparr>oid = 0, okind = 0\<rparr> [] 0 = (True, x, sample, length sample)"
    using parse_data_message[OF assms(3,4,6,7,5,8) order_refl] l by simp
  have x: "x = dr \<longleftrightarrow> oid x = oid dr \<and> okind x = okind dr" by (cases x; cases dr) auto
  show ?thesis
  proof (cases "x = dr \<and> 4 \<le> length sample")
    case True
    then obtain u where "handle_incoming_frame J cfg dr m (length m) fw =
          Some (sent cfg (fw\<lparr>g_session := numbered (g_session fw), dev := u\<rparr>))"
        "transmits (dev fw) (map of_char (setpoint_line sample) @
          link_frame cfg (g_uplink_ctx fw) (write_data_message (g_session fw) (g_pong_datawriter_id fw) (take 4 sample))) u"
      using handle_setpoint[OF assms(1,2) order_refl p] by auto
    with True show ?thesis by auto
  next
    case False
    then show ?thesis using p x by (auto simp: handle_incoming_frame_def)
  qed
qed

theorem firmware_echoes_setpoint_witness:
  "let cfg = \<lparr>SECURE_LINK = False, NODE_ID = 0\<rparr>; fw = firmware_init cfg (uart_init (sample_uart (\<lambda>t. 0x80)));
       dr = xrce_object_id 1 6; m = message_bytes 1 1 0 [1, 2, 3, 4] XRCE_SUBMSG_DATA ([0, 7] @ object_id_bytes dr @ [42, 0, 0, 0]) in
   \<exists>fw'. handle_incoming_frame sample_stack cfg dr m (length m) fw = Some fw' \<and>
     take 20 (dr_writes (dev fw')) = map of_char ''setpoint updated: 42''"
proof -
  let ?cfg = "\<lparr>SECURE_LINK = False, NODE_ID = 0\<rparr>"
  let ?fw = "firmware_init ?cfg (uart_init (sample_uart (\<lambda>t. 0x80)))" and ?dr = "xrce_object_id 1 6"
  let ?m = "message_bytes 1 1 0 [1, 2, 3, 4] XRCE_SUBMSG_DATA ([0, 7] @ object_id_bytes ?dr @ [42, 0, 0, 0])"
  have ok: "fw_ok ?fw" by (intro firmware_init_ok) (auto simp: tx_ready_def sample_uart_def)
  have line: "setpoint_line [42, 0, 0, 0] = ''setpoint updated: 42'' @ crlf"
    by (simp add: setpoint_line_def dec_string_def dec_digits.simps char_of_def bit_0)
  have d: "dr_writes (dev ?fw) = []" by (simp add: firmware_init_def uart_init_def sample_uart_def Let_def)
  obtain u where u: "handle_incoming_frame sample_stack ?cfg ?dr ?m (length ?m) ?fw =
        Some (sent ?cfg (?fw\<lparr>g_session := numbered (g_session ?fw), dev := u\<rparr>))"
      "transmits (dev ?fw) (map of_char (setpoint_line [42, 0, 0, 0]) @ link_frame ?cfg (g_uplink_ctx ?fw)
         (write_data_message (g_session ?fw) (g_pong_datawriter_id ?fw) (take 4 [42, 0, 0, 0]))) u"
    using firmware_echoes_setpoint[OF sample_stack_ok ok, of 1 "[1, 2, 3, 4]" "[0, 7]" ?dr ?m 1 0 "[42, 0, 0, 0]" ?dr ?cfg]
    by (auto simp: xrce_object_id_def)
  have "take 20 (dr_writes u) = map of_char ''setpoint updated: 42''"
    using transmits_writes[OF u(2)] unfolding line d by simp
  then show ?thesis unfolding Let_def using u(1) by auto
qed

text \<open>
  Every announcement fits. For every node id below 256 and in every state, each of the eleven requests
  of \<^verbatim>\<open>announce_entities\<close> is built successfully into the 192-byte local buffer, so none of them goes out as
  an empty frame.
\<close>

theorem announcements_fit:
  assumes "cfg_ok cfg" "length (client_key (g_session fw)) = 4" "length msg = 192"
    and "(set_id, line, build) \<in> set announce_script"
  shows "case build cfg fw msg of (len, s, msg') \<Rightarrow> 12 < len \<and> len \<le> 192 \<and> length msg' = 192"
  using script_fits[OF assms] by (auto simp: request_fits_def)

theorem announcements_fit_witness:
  "case create_xml g_datareader_id g_subscriber_id (endpoint_xml ''data_reader'' ''setpoint'') \<lparr>SECURE_LINK = True, NODE_ID = 255\<rparr>
     (firmware_init \<lparr>SECURE_LINK = True, NODE_ID = 255\<rparr> (sample_uart (\<lambda>t. 0))) (replicate 192 0) of
     (len, s, msg') \<Rightarrow> 12 < len \<and> len \<le> 192"
proof -
  let ?cfg = "\<lparr>SECURE_LINK = True, NODE_ID = 255\<rparr>"
  let ?fw = "firmware_init ?cfg (sample_uart (\<lambda>t. 0))"
  have "length (client_key (g_session ?fw)) = 4" by (simp add: firmware_init_def xrce_session_init_def Let_def)
  then show ?thesis
    using announcements_fit[of ?cfg ?fw "replicate 192 0" _ "''-> CREATE datareader''"
        "create_xml g_datareader_id g_subscriber_id (endpoint_xml ''data_reader'' ''setpoint'')"]
    by (auto simp: cfg_ok_def announce_script_def split: prod.splits)
qed

end
