(* ===== verification/Gazebo_Demo.thy ===== *)
theory Gazebo_Demo
  imports Board
begin

text \<open>
  \<^verbatim>\<open>rtos/arm/gazebo_demo.c\<close>: the firmware that drives a simulated vehicle. It announces a publisher for the
  vehicle's velocity topic and then publishes one \<^verbatim>\<open>geometry_msgs/Twist\<close> after the other, straight ahead
  for forty, turning for the next forty. The record \<open>gz\<close> extends the board with the one global of the
  file; the object ids that are local to \<^verbatim>\<open>announce_entities\<close> are constants. The velocities are the
  bit patterns of the binary64 literals in the source.
\<close>

section \<open>State\<close>

abbreviation PUBLISHES_PER_PHASE :: u32 where "PUBLISHES_PER_PHASE \<equiv> 40"
abbreviation GZ_PACE_BUSY_LOOPS :: nat where "GZ_PACE_BUSY_LOOPS \<equiv> 200000"

record gz_stack = board_stack +
  gz_announce_msg :: bytes
  gz_msg :: bytes
  gz_sample :: bytes

record gz = board +
  gz_datawriter_id :: object_id

abbreviation f64_0_0 :: u64 where "f64_0_0 \<equiv> 0"
abbreviation f64_0_5 :: u64 where "f64_0_5 \<equiv> 0x3FE0000000000000"
abbreviation f64_0_2 :: u64 where "f64_0_2 \<equiv> 0x3FC999999999999A"
abbreviation f64_0_4 :: u64 where "f64_0_4 \<equiv> 0x3FD999999999999A"

section \<open>Operations\<close>

definition gz_send_frame :: "gz_stack \<Rightarrow> demo_cfg \<Rightarrow> bytes \<Rightarrow> nat \<Rightarrow> gz \<Rightarrow> gz option" where
  "gz_send_frame = send_payload ''ERROR: secure wrap failed''"

fun pace :: "nat \<Rightarrow> gz \<Rightarrow> gz" where
  "pace 0 fw = fw"
| "pace (Suc n) fw = pace n (fw\<lparr>dev := snd (uart_getc_nonblocking (dev fw))\<rparr>)"

text \<open>One request of \<^verbatim>\<open>announce_entities\<close>: log line, message into the shared local buffer, frame, pause.\<close>

type_synonym gz_request = "demo_cfg \<Rightarrow> session \<Rightarrow> bytes \<Rightarrow> nat \<times> session \<times> bytes"

definition gz_announce ::
  "gz_stack \<Rightarrow> demo_cfg \<Rightarrow> (gz \<Rightarrow> gz) \<times> string \<times> gz_request \<Rightarrow> bytes \<times> gz \<Rightarrow> (bytes \<times> gz) option" where
  "gz_announce J cfg req st =
     (case req of (set_id, line, build) \<Rightarrow> case st of (msg, fw) \<Rightarrow>
        Option.bind (print (line @ crlf) (set_id fw)) (\<lambda>fw.
        case build cfg (g_session fw) msg of
          (len, s, msg) \<Rightarrow>
            Option.bind (gz_send_frame J cfg msg len (fw\<lparr>g_session := s\<rparr>)) (\<lambda>fw.
              Some (msg, pace GZ_PACE_BUSY_LOOPS fw))))"

fun gz_announce_all ::
  "gz_stack \<Rightarrow> demo_cfg \<Rightarrow> ((gz \<Rightarrow> gz) \<times> string \<times> gz_request) list \<Rightarrow> bytes \<times> gz \<Rightarrow> (bytes \<times> gz) option" where
  "gz_announce_all J cfg [] st = Some st"
| "gz_announce_all J cfg (r # rs) st = Option.bind (gz_announce J cfg r st) (gz_announce_all J cfg rs)"

definition gz_create_client :: gz_request where
  "gz_create_client cfg s msg = (case xrce_session_build_create_client s msg 256 of (n, msg) \<Rightarrow> (n, s, msg))"

definition gz_create_participant :: gz_request where
  "gz_create_participant cfg s msg =
     xrce_session_build_create_participant s BEST_EFFORT_STREAM_0 (xrce_object_id 1 XRCE_OBJK_PARTICIPANT) 0
       (c_string (''<dds><participant><rtps><name>rtos_gazebo_demo'' @ NODE_SUFFIX cfg @
         ''</name></rtps></participant></dds>'')) msg 256"

definition gz_create_xml :: "object_id \<Rightarrow> object_id \<Rightarrow> (demo_cfg \<Rightarrow> string) \<Rightarrow> gz_request" where
  "gz_create_xml self parent xml cfg s msg =
     xrce_session_build_create_xml s BEST_EFFORT_STREAM_0 self parent (c_string (xml cfg)) msg 256"

definition cmd_vel_topic_xml :: "demo_cfg \<Rightarrow> string" where
  "cmd_vel_topic_xml cfg = ''<dds><topic><name>rt/model/vehicle_blue'' @ NODE_SUFFIX cfg @ ''/cmd_vel</name>'' @
     ''<dataType>geometry_msgs::msg::dds_::Twist_</dataType></topic></dds>''"

definition cmd_vel_writer_xml :: "demo_cfg \<Rightarrow> string" where
  "cmd_vel_writer_xml cfg = ''<dds><data_writer><topic><kind>NO_KEY</kind>'' @
     ''<name>rt/model/vehicle_blue'' @ NODE_SUFFIX cfg @ ''/cmd_vel</name>'' @
     ''<dataType>geometry_msgs::msg::dds_::Twist_</dataType>'' @ ''</topic></data_writer></dds>''"

definition gz_script :: "((gz \<Rightarrow> gz) \<times> string \<times> gz_request) list" where
  "gz_script =
     (let participant_id = xrce_object_id 1 XRCE_OBJK_PARTICIPANT; topic_id = xrce_object_id 1 XRCE_OBJK_TOPIC;
          publisher_id = xrce_object_id 1 XRCE_OBJK_PUBLISHER; datawriter_id = xrce_object_id 1 XRCE_OBJK_DATAWRITER in
      [(id, ''-> CREATE_CLIENT'', gz_create_client),
       (id, ''-> CREATE participant'', gz_create_participant),
       (id, ''-> CREATE topic (cmd_vel)'', gz_create_xml topic_id participant_id cmd_vel_topic_xml),
       (id, ''-> CREATE publisher'', gz_create_xml publisher_id participant_id (\<lambda>cfg. '''')),
       (\<lambda>fw. fw\<lparr>gz_datawriter_id := datawriter_id\<rparr>, ''-> CREATE datawriter (cmd_vel)'',
        gz_create_xml datawriter_id publisher_id cmd_vel_writer_xml)])"

definition gz_announce_entities :: "gz_stack \<Rightarrow> demo_cfg \<Rightarrow> gz \<Rightarrow> gz option" where
  "gz_announce_entities J cfg fw = map_option snd (gz_announce_all J cfg gz_script (gz_announce_msg J, fw))"

definition gz_init :: "demo_cfg \<Rightarrow> uart \<Rightarrow> gz" where
  "gz_init cfg u =
     \<lparr>dev = u, g_session = xrce_session_init 1 [0x67, 0x7A, 0x62, of_nat (0x30 + NODE_ID cfg)] 512,
      g_uplink_ctx = xrce_secure_init g_secure_key 16, gz_datawriter_id = \<lparr>oid = 0, okind = 0\<rparr>\<rparr>"

definition gz_boot :: "gz_stack \<Rightarrow> demo_cfg \<Rightarrow> uart \<Rightarrow> gz option" where
  "gz_boot J cfg u =
     Option.bind (print (''RTOS Gazebo demo: booting, driving vehicle_blue'' @ [CHR 0x27] @ ''s diff-drive plugin'' @ crlf)
       (gz_init cfg (uart_init u))) (\<lambda>fw.
     Option.bind (if SECURE_LINK cfg then print (''SECURE_LINK enabled: every frame HMAC-authenticated'' @ crlf) fw else Some fw) (\<lambda>fw.
     Option.bind (gz_announce_entities J cfg fw)
       (print (''Driving: straight, then turn, repeating...'' @ crlf))))"

definition drive_command :: "u32 \<Rightarrow> geometry_msgs_Twist" where
  "drive_command phase =
     (let zero = \<lparr>vx = 0, vy = 0, vz = 0\<rparr> in
      if phase = 0 then \<lparr>linear = zero\<lparr>vx := f64_0_5\<rparr>, angular = zero\<lparr>vz := f64_0_0\<rparr>\<rparr>
      else \<lparr>linear = zero\<lparr>vx := f64_0_2\<rparr>, angular = zero\<lparr>vz := f64_0_4\<rparr>\<rparr>)"

text \<open>One pass of the publishing loop. When encoding fails the program stops in an empty loop: \<open>None\<close>.\<close>

definition drive :: "gz_stack \<Rightarrow> demo_cfg \<Rightarrow> u32 \<Rightarrow> gz \<Rightarrow> gz option" where
  "drive J cfg i fw =
     Option.bind (if i > 0 \<and> i mod (PUBLISHES_PER_PHASE * 8) = 0 then gz_announce_entities J cfg fw else Some fw) (\<lambda>fw.
     let phase = (i div PUBLISHES_PER_PHASE) mod 2 in
     case geometry_msgs_Twist_encode (drive_command phase) (gz_sample J) 64 0 of
       (ok, sample, sample_len) \<Rightarrow>
         if \<not> ok then Option.bind (print (''ERROR: Twist encode failed'' @ crlf) fw) (\<lambda>_. None)
         else
           (case xrce_session_build_write_data (g_session fw) BEST_EFFORT_STREAM_0 (gz_datawriter_id fw)
                   (drop 4 sample) (sample_len - 4) (gz_msg J) 96 of
              (len, s, msg) \<Rightarrow>
                Option.bind (gz_send_frame J cfg msg len (fw\<lparr>g_session := s\<rparr>)) (\<lambda>fw.
                Option.bind (print ''cmd_vel phase='' fw) (\<lambda>fw.
                Option.bind (on_uart (uart_put_uint phase) fw) (\<lambda>fw.
                Option.bind (print crlf fw) (\<lambda>fw. Some (pace GZ_PACE_BUSY_LOOPS fw)))))))"

text \<open>The first \<open>n\<close> passes; the counter is unsigned and wraps.\<close>

fun drive_loop :: "gz_stack \<Rightarrow> demo_cfg \<Rightarrow> nat \<Rightarrow> gz \<Rightarrow> gz option" where
  "drive_loop J cfg 0 fw = Some fw"
| "drive_loop J cfg (Suc n) fw = Option.bind (drive_loop J cfg n fw) (drive J cfg (of_nat n))"

section \<open>Lemmas\<close>

definition gz_stack_ok :: "gz_stack \<Rightarrow> bool" where
  "gz_stack_ok J \<longleftrightarrow> stack_arrays_ok J \<and> length (gz_announce_msg J) = 256 \<and> length (gz_msg J) = 96 \<and> length (gz_sample J) = 64"

abbreviation gz_ok :: "gz \<Rightarrow> bool" where "gz_ok \<equiv> board_ok"

interpretation gzi: board_invariant gz_ok
  by unfold_locales (auto simp: board_ok_def sent_def)

text \<open>Polling only advances the count of status reads.\<close>

lemma pace_transmits: "\<exists>u. pace n fw = fw\<lparr>dev := u\<rparr> \<and> transmits (dev fw) [] u"
proof (induction n arbitrary: fw)
  case 0
  show ?case by (rule exI[of _ "dev fw"]) simp
next
  case (Suc n)
  let ?u = "snd (uart_getc_nonblocking (dev fw))"
  have 1: "transmits (dev fw) [] ?u"
    by (auto simp: uart_getc_nonblocking_def read_sr_def transmits_def intro!: exI[of _ "Suc (sr_reads (dev fw))"])
  obtain u where "pace n (fw\<lparr>dev := ?u\<rparr>) = fw\<lparr>dev := ?u\<rparr>\<lparr>dev := u\<rparr>" "transmits ?u [] u"
    using Suc.IH[of "fw\<lparr>dev := ?u\<rparr>"] by auto
  then show ?case using transmits_trans[OF 1] by auto
qed

lemma pace_ok [simp]: "gz_ok (pace n fw) = gz_ok fw"
  using pace_transmits[of n fw] transmits_ready by (auto simp: board_ok_def)

lemma gz_send_exact:
  assumes "gz_stack_ok J" "gz_ok fw" "len \<le> length payload" "len \<le> 256"
  obtains u where "gz_send_frame J cfg payload len fw = Some (sent cfg (fw\<lparr>dev := u\<rparr>))"
    "transmits (dev fw) (link_frame cfg (g_uplink_ctx fw) (take len payload)) u"
  using send_payload_exact[of J fw len payload] assms unfolding gz_send_frame_def gz_stack_ok_def by blast

lemma gz_script_fits:
  assumes "cfg_ok cfg" "length (client_key s) = 4" "length msg = 256" "(set_id, line, build) \<in> set gz_script"
  shows "request_fits 256 (build cfg s msg)"
proof -
  note sx = NODE_SUFFIX_bound[OF assms(1)]
  have x: "request_fits 256 (gz_create_xml self parent xml cfg s msg)" if "CHR 0x00 \<notin> set (xml cfg)" "length (xml cfg) \<le> 200" for self parent xml
    unfolding gz_create_xml_def xrce_session_build_create_xml_def
    by (rule build_create_fits[OF assms(2,3) that(1)]) (use that(2) in simp_all)
  have p: "request_fits 256 (gz_create_participant cfg s msg)"
    unfolding gz_create_participant_def xrce_session_build_create_participant_def
    by (rule build_create_fits[OF assms(2,3)]) (use sx in auto)
  have t: "CHR 0x00 \<notin> set (cmd_vel_topic_xml cfg)" "length (cmd_vel_topic_xml cfg) \<le> 200"
    "CHR 0x00 \<notin> set (cmd_vel_writer_xml cfg)" "length (cmd_vel_writer_xml cfg) \<le> 200"
    using sx by (auto simp: cmd_vel_topic_xml_def cmd_vel_writer_xml_def)
  have c: "request_fits 256 (gz_create_client cfg s msg)"
    using create_client_fits[OF assms(2,3)] by (simp add: gz_create_client_def)
  show ?thesis using assms(4) c p x t by (auto simp: gz_script_def Let_def)
qed

lemma gz_announce_returns:
  assumes "gz_stack_ok J" "cfg_ok cfg" "req \<in> set gz_script" "gz_ok fw" "length msg = 256"
  shows "\<exists>msg' fw'. gz_announce J cfg req (msg, fw) = Some (msg', fw') \<and> gz_ok fw' \<and> length msg' = 256"
proof -
  obtain set_id line build where req: "req = (set_id, line, build)" by (metis prod_cases3)
  have st: "gz_ok (set_id fw)" "CHR 0x00 \<notin> set line"
    using assms(3,4) unfolding req by (auto simp: gz_script_def Let_def board_ok_def)
  have "keeps gz_ok (print (line @ crlf))" using st(2) by (intro gzi.keeps_print) simp
  from keepsD[OF this st(1)] obtain fw1 where 1: "print (line @ crlf) (set_id fw) = Some fw1" "gz_ok fw1" by blast
  obtain len s msg1 where b: "build cfg (g_session fw1) msg = (len, s, msg1)" by (metis prod_cases3)
  have fit: "len \<le> 256" "length msg1 = 256" "length (client_key s) = 4"
    using gz_script_fits[OF assms(2) _ assms(5) assms(3)[unfolded req], of "g_session fw1"] 1(2) b
    by (simp_all add: board_ok_def request_fits_def)
  have ok: "gz_ok (fw1\<lparr>g_session := s\<rparr>)" using 1(2) fit(3) by (simp add: board_ok_def)
  have "keeps gz_ok (gz_send_frame J cfg msg1 len)"
    unfolding gz_send_frame_def by (rule gzi.keeps_send) (use assms(1) fit in \<open>auto simp: gz_stack_ok_def\<close>)
  from keepsD[OF this ok] obtain fw2 where 2: "gz_send_frame J cfg msg1 len (fw1\<lparr>g_session := s\<rparr>) = Some fw2" "gz_ok fw2"
    by blast
  show ?thesis
    unfolding gz_announce_def req using 1(1) b 2 fit(2) by (simp del: pace.simps)
qed

lemma gz_announce_all_returns:
  assumes "gz_stack_ok J" "cfg_ok cfg" "set rs \<subseteq> set gz_script" "gz_ok fw" "length msg = 256"
  shows "\<exists>msg' fw'. gz_announce_all J cfg rs (msg, fw) = Some (msg', fw') \<and> gz_ok fw'"
  using assms(3-5)
proof (induction rs arbitrary: msg fw)
  case (Cons r rs)
  obtain msg1 fw1 where "gz_announce J cfg r (msg, fw) = Some (msg1, fw1)" "gz_ok fw1" "length msg1 = 256"
    using gz_announce_returns[OF assms(1,2) _ Cons.prems(2,3), of r] Cons.prems(1) by auto
  then show ?case using Cons.IH[of fw1 msg1] Cons.prems(1) by simp
qed simp

lemma keeps_gz_announce: "gz_stack_ok J \<Longrightarrow> cfg_ok cfg \<Longrightarrow> keeps gz_ok (gz_announce_entities J cfg)"
  by (rule keepsI)
    (use gz_announce_all_returns[OF _ _ order_refl] in \<open>fastforce simp: gz_announce_entities_def gz_stack_ok_def\<close>)

text \<open>The six numbers of a command as they go over the line.\<close>

definition twist_bytes :: "geometry_msgs_Twist \<Rightarrow> bytes" where
  "twist_bytes m = concat (map (le_bytes 8) [vx (linear m), vy (linear m), vz (linear m),
     vx (angular m), vy (angular m), vz (angular m)])"

lemma twist_image: "twist.image m = cdr_header @ twist_bytes m"
  unfolding twist.image_def twist_bytes_def by (simp add: wire_vec3_def wire_seq_def wire_f64_def padded_def)

lemma encode_twist:
  assumes "length buf = 64"
  shows "geometry_msgs_Twist_encode m buf 64 n = (True, cdr_header @ twist_bytes m @ drop 52 buf, 52)" "length (twist_bytes m) = 48"
proof -
  show l: "length (twist_bytes m) = 48" by (simp add: twist_bytes_def)
  have "length (twist.image m) = 52" using l by (simp add: twist_image cdr_header_def)
  with twist.encode_fits[OF TrueI, of 64 buf m n] assms l
  show "geometry_msgs_Twist_encode m buf 64 n = (True, cdr_header @ twist_bytes m @ drop 52 buf, 52)"
    by (simp add: twist_image blit_def cdr_header_def)
qed

text \<open>A pass that does not announce: one frame, one line, nothing else.\<close>

lemma drive_exact:
  assumes "gz_stack_ok J" "gz_ok fw" "\<not> (i > 0 \<and> i mod (PUBLISHES_PER_PHASE * 8) = 0)" "phase = (i div PUBLISHES_PER_PHASE) mod 2"
  shows "\<exists>u. drive J cfg i fw = Some (sent cfg (fw\<lparr>g_session := numbered (g_session fw), dev := u\<rparr>)) \<and>
     transmits (dev fw) (link_frame cfg (g_uplink_ctx fw)
         (write_data_message (g_session fw) (gz_datawriter_id fw) (twist_bytes (drive_command phase))) @
       map of_char (''cmd_vel phase='' @ dec_digits (unat phase) @ crlf)) u"
proof -
  let ?tw = "twist_bytes (drive_command phase)"
  let ?m = "write_data_message (g_session fw) (gz_datawriter_id fw) ?tw"
  let ?s = "cdr_header @ ?tw @ drop 52 (gz_sample J)"
  have J: "length (gz_sample J) = 64" "length (gz_msg J) = 96" using assms(1) by (simp_all add: gz_stack_ok_def)
  have l: "length ?tw = 48" by (rule encode_twist(2)[OF J(1)])
  have tk: "take 48 (drop 4 ?s) = ?tw" using l by (simp add: cdr_header_def)
  have key: "length (client_key (g_session fw)) = 4" using assms(2) by (simp add: board_ok_def)
  note w = write_data_fits[OF key J(2), of 48 "drop 4 ?s" "gz_datawriter_id fw", unfolded tk]
  let ?b = "?m @ drop 64 (gz_msg J)"
  have wd: "xrce_session_build_write_data (g_session fw) BEST_EFFORT_STREAM_0 (gz_datawriter_id fw) (drop 4 ?s) 48 (gz_msg J) 96 =
      (64, numbered (g_session fw), ?b)" "length ?m = 64"
    using w l by (simp_all add: cdr_header_def)
  let ?f0 = "fw\<lparr>g_session := numbered (g_session fw)\<rparr>"
  have ok0: "gz_ok ?f0" using assms(2) by (simp add: board_ok_def)
  obtain u1 where 1: "gz_send_frame J cfg ?b 64 ?f0 = Some (sent cfg (?f0\<lparr>dev := u1\<rparr>))"
      "transmits (dev fw) (link_frame cfg (g_uplink_ctx fw) ?m) u1"
    using gz_send_exact[OF assms(1) ok0, of 64 ?b cfg] wd(2) by auto
  let ?g = "\<lambda>u. sent cfg (?f0\<lparr>dev := u\<rparr>)"
  have upd: "(?g u)\<lparr>dev := u'\<rparr> = ?g u'" for u u' by (simp add: sent_def)
  have ok1: "gz_ok (?g u)" if "transmits (dev fw) bs u" for bs u
    using board_ok_dev[OF ok0, of bs u] that by simp
  obtain u2 where 2: "print ''cmd_vel phase='' (?g u1) = Some (?g u2)" "transmits u1 (map of_char ''cmd_vel phase='') u2"
    by (rule print_returns[OF ok1[OF 1(2)], of "''cmd_vel phase=''"]) (auto simp: upd)
  note t2 = transmits_trans[OF 1(2) 2(2)]
  obtain u3 where 3: "uart_put_uint phase u2 = Some u3" "transmits u2 (map of_char (dec_digits (unat phase))) u3"
    using uart_put_uint_returns[of u2 phase] ok1[OF t2] by (auto simp: board_ok_def)
  note t3 = transmits_trans[OF t2 3(2)]
  obtain u4 where 4: "print crlf (?g u3) = Some (?g u4)" "transmits u3 (map of_char crlf) u4"
    by (rule print_returns[OF ok1[OF t3] crlf_no_nul]) (auto simp: upd)
  note t4 = transmits_trans[OF t3 4(2)]
  obtain u5 where 5: "pace GZ_PACE_BUSY_LOOPS (?g u4) = ?g u5" "transmits u4 [] u5"
    using pace_transmits[of GZ_PACE_BUSY_LOOPS "?g u4"] by (auto simp: upd simp del: pace.simps)
  have e: "geometry_msgs_Twist_encode (drive_command phase) (gz_sample J) 64 0 = (True, ?s, 52)"
    by (rule encode_twist(1)[OF J(1)])
  have "drive J cfg i fw = Some (?g u5)"
    using assms(3,4) e wd(1) 1(1) 2(1) 3(1) 4(1) 5(1)
    by (auto simp: drive_def Let_def on_uart_def upd simp del: pace.simps)
  moreover have "transmits (dev fw) (link_frame cfg (g_uplink_ctx fw) ?m @
      map of_char (''cmd_vel phase='' @ dec_digits (unat phase) @ crlf)) u5"
    using transmits_trans[OF t4 5(2)] by simp
  ultimately show ?thesis by auto
qed

lemma keeps_drive:
  assumes "gz_stack_ok J" "cfg_ok cfg"
  shows "keeps gz_ok (drive J cfg i)"
proof (rule keepsI)
  fix fw assume ok: "gz_ok fw"
  have plain: "\<exists>fw'. drive J cfg j f = Some fw' \<and> gz_ok fw'"
    if f: "gz_ok f" "\<not> (j > 0 \<and> j mod (PUBLISHES_PER_PHASE * 8) = 0)" for f j
  proof -
    obtain u bs where "drive J cfg j f = Some (sent cfg (f\<lparr>g_session := numbered (g_session f), dev := u\<rparr>))" "transmits (dev f) bs u"
      using drive_exact[OF assms(1) f refl] by blast
    moreover from this have "gz_ok (f\<lparr>g_session := numbered (g_session f), dev := u\<rparr>)"
      using board_ok_dev[OF f(1), of bs u] by (simp add: board_ok_def)
    ultimately show ?thesis by simp
  qed
  show "\<exists>fw'. drive J cfg i fw = Some fw' \<and> gz_ok fw'"
  proof (cases "i > 0 \<and> i mod (PUBLISHES_PER_PHASE * 8) = 0")
    case True
    obtain fw1 where 1: "gz_announce_entities J cfg fw = Some fw1" "gz_ok fw1"
      using keepsD[OF keeps_gz_announce[OF assms] ok] by blast
    define j where "j = (i div PUBLISHES_PER_PHASE) mod 2 * PUBLISHES_PER_PHASE"
    have ph: "(j div PUBLISHES_PER_PHASE) mod 2 = (i div PUBLISHES_PER_PHASE) mod 2"
      and nj: "\<not> (j > 0 \<and> j mod (PUBLISHES_PER_PHASE * 8) = 0)"
    proof -
      let ?p = "(i div PUBLISHES_PER_PHASE) mod 2"
      have "unat ?p < 2" by (simp add: unat_mod_distrib)
      then have "?p = 0 \<or> ?p = 1" by (metis One_nat_def less_2_cases unat_0 unat_1 word_unat_eq_iff)
      then show "(j div PUBLISHES_PER_PHASE) mod 2 = ?p" "\<not> (j > 0 \<and> j mod (PUBLISHES_PER_PHASE * 8) = 0)"
        unfolding j_def by (elim disjE; simp)+
    qed
    have "drive J cfg i fw = drive J cfg j fw1"
      using True 1(1) nj unfolding drive_def ph by auto
    then show ?thesis using plain[OF 1(2) nj] by simp
  qed (use plain[OF ok] in blast)
qed

lemma drive_loop_returns:
  assumes "gz_stack_ok J" "cfg_ok cfg" "gz_ok fw"
  shows "\<exists>fw'. drive_loop J cfg n fw = Some fw' \<and> gz_ok fw'"
proof (induction n)
  case (Suc n)
  then show ?case using keepsD[OF keeps_drive[OF assms(1,2)]] by fastforce
qed (simp add: assms(3))

lemma gz_boot_returns:
  assumes "gz_stack_ok J" "cfg_ok cfg" "tx_ready u"
  shows "\<exists>fw. gz_boot J cfg u = Some fw \<and> gz_ok fw"
proof -
  have i: "gz_ok (gz_init cfg (uart_init u))"
    using assms(3) by (simp add: board_ok_def gz_init_def key_ok_def xrce_secure_init_def g_secure_key_def
        xrce_session_init_def uart_init_def tx_ready_def Let_def)
  have p: "CHR 0x00 \<notin> set s \<Longrightarrow> keeps gz_ok (print s)" for s by (rule gzi.keeps_print)
  have sec: "keeps gz_ok (\<lambda>fw. if SECURE_LINK cfg then print (''SECURE_LINK enabled: every frame HMAC-authenticated'' @ crlf) fw else Some fw)"
    by (cases "SECURE_LINK cfg") (simp_all add: p keeps_def[of gz_ok Some])
  have "keeps gz_ok (\<lambda>fw. Option.bind (print (''RTOS Gazebo demo: booting, driving vehicle_blue'' @ [CHR 0x27] @ ''s diff-drive plugin'' @ crlf) fw) (\<lambda>fw.
     Option.bind (if SECURE_LINK cfg then print (''SECURE_LINK enabled: every frame HMAC-authenticated'' @ crlf) fw else Some fw) (\<lambda>fw.
     Option.bind (gz_announce_entities J cfg fw)
       (print (''Driving: straight, then turn, repeating...'' @ crlf)))))"
    by (intro keeps_bind keeps_gz_announce[OF assms(1,2)] p sec) simp_all
  from keepsD[OF this i] show ?thesis unfolding gz_boot_def .
qed

section \<open>Properties\<close>

lemma phase_of_nat:
  assumes "n < 2 ^ 32"
  shows "unat ((of_nat n :: u32) div PUBLISHES_PER_PHASE mod 2) = n div 40 mod 2"
    and "\<not> n mod 320 = 0 \<Longrightarrow> \<not> ((of_nat n :: u32) > 0 \<and> of_nat n mod (PUBLISHES_PER_PHASE * 8) = 0)"
proof -
  have u: "unat (of_nat n :: u32) = n" using assms by (simp add: unsigned_of_nat take_bit_nat_eq_self)
  then show "unat ((of_nat n :: u32) div PUBLISHES_PER_PHASE mod 2) = n div 40 mod 2"
    by (simp add: unat_div_distrib unat_mod_distrib)
  have "unat ((of_nat n :: u32) mod (PUBLISHES_PER_PHASE * 8)) = n mod 320" using u by (simp add: unat_mod_distrib)
  then show "\<not> n mod 320 = 0 \<Longrightarrow> \<not> ((of_nat n :: u32) > 0 \<and> of_nat n mod (PUBLISHES_PER_PHASE * 8) = 0)"
    by (metis unat_0)
qed


definition sample_gz_stack :: gz_stack where
  "sample_gz_stack = \<lparr>wrapped_msg = replicate 268 0xAA, frame_msg = replicate 549 0xAA, mac_stack = zero_stack,
     gz_announce_msg = replicate 256 0xAA, gz_msg = replicate 96 0xAA, gz_sample = replicate 64 0xAA\<rparr>"


end
