(* ===== verification/Host_Client.thy ===== *)
theory Host_Client
  imports Requests
begin

text \<open>
  The frame that every host program under \<^verbatim>\<open>host/\<close> has: a UDP socket to the agent, a session, a 512-byte
  message buffer, and a straight line of requests before its loop, each sent and answered before the
  next one, the program ending at the first failure. \<^verbatim>\<open>send_and_wait_ok\<close> is the same function in each file.

  The operating system is the record \<open>host\<close>: \<open>net_in\<close> gives what the i-th \<^verbatim>\<open>recv\<close> finds (the empty list for
  a timeout, an error or an empty datagram, which the programs do not tell apart), \<open>net_ok\<close> whether the
  i-th \<^verbatim>\<open>sendto\<close> takes its whole datagram, \<open>net_clock\<close> what the i-th reading of the clock returns; every
  network and every clock is some choice of these functions. \<open>datagrams\<close> logs what was handed to \<^verbatim>\<open>sendto\<close>,
  \<open>stdout\<close> the printed lines; diagnostics on the error stream and the
  multi-line banners are not kept. Programs that keep
  globals of their own extend the record.
\<close>

section \<open>The operating system\<close>

record host =
  net_in :: "nat \<Rightarrow> bytes"
  net_ok :: "nat \<Rightarrow> bool"
  net_clock :: "nat \<Rightarrow> u64"
  recvs :: nat
  sends :: nat
  clock_reads :: nat
  datagrams :: "bytes list"
  stdout :: "string list"
  g_s :: session
  msg_buf :: bytes

definition sendto :: "bytes \<Rightarrow> nat \<Rightarrow> 'a host_scheme \<Rightarrow> bool \<times> 'a host_scheme" where
  "sendto msg len h = (net_ok h (sends h), h\<lparr>sends := Suc (sends h), datagrams := datagrams h @ [take len msg]\<rparr>)"

definition recv :: "nat \<Rightarrow> 'a host_scheme \<Rightarrow> bytes \<times> 'a host_scheme" where
  "recv cap h = (take cap (net_in h (recvs h)), h\<lparr>recvs := Suc (recvs h)\<rparr>)"

definition now_ms :: "'a host_scheme \<Rightarrow> u64 \<times> 'a host_scheme" where
  "now_ms h = (net_clock h (clock_reads h), h\<lparr>clock_reads := Suc (clock_reads h)\<rparr>)"

definition put_line :: "string \<Rightarrow> 'a host_scheme \<Rightarrow> 'a host_scheme" where
  "put_line s h = h\<lparr>stdout := stdout h @ [s]\<rparr>"

text \<open>\<^verbatim>\<open>%-24s\<close>, \<^verbatim>\<open>%x\<close> and \<^verbatim>\<open>%03x\<close>.\<close>

definition pad_right :: "nat \<Rightarrow> string \<Rightarrow> string" where
  "pad_right n s = s @ replicate (n - length s) (CHR '' '')"

definition nibble_char :: "nat \<Rightarrow> char" where
  "nibble_char d = (if d < 10 then char_of (48 + d) else char_of (87 + d))"

fun hex_digits :: "nat \<Rightarrow> string" where
  "hex_digits n = (if n < 16 then [nibble_char n] else hex_digits (n div 16) @ [nibble_char (n mod 16)])"

declare hex_digits.simps [simp del]

definition hex_padded :: "nat \<Rightarrow> nat \<Rightarrow> string" where
  "hex_padded w n = replicate (w - length (hex_digits n)) (CHR ''0'') @ hex_digits n"

text \<open>\<^verbatim>\<open>snprintf\<close> into a character array: at most its size less one, and the terminator.\<close>

definition snprintf :: "string \<Rightarrow> bytes \<Rightarrow> bytes" where
  "snprintf s a = blit 0 (take (length a - 1) (map of_char s) @ [0]) a"

section \<open>One request and its answer\<close>

definition send_and_wait_ok ::
  "string \<Rightarrow> bytes \<Rightarrow> nat \<Rightarrow> (bytes \<Rightarrow> nat \<Rightarrow> bool) \<Rightarrow> 'a host_scheme \<Rightarrow> bool \<times> 'a host_scheme" where
  "send_and_wait_ok step_name msg len parse_reply h =
     (case sendto msg len h of
        (sent_ok, h) \<Rightarrow>
          if \<not> sent_ok then (False, h)
          else
            (case recv 256 h of
               (reply, h) \<Rightarrow>
                 if reply = [] then (False, h)
                 else
                   (let ok = parse_reply reply (length reply) in
                    (ok, put_line (pad_right 24 step_name @ '' -> '' @ (if ok then ''OK'' else ''FAILED'') @ '' ('' @
                           dec_digits (length reply) @ '' byte reply)'') h))))"

datatype client_request =
    Create_client
  | Create_participant object_id string
  | Create_xml object_id object_id string
  | Read_data object_id
  | Delete object_id

definition build_client_request :: "client_request \<Rightarrow> session \<Rightarrow> bytes \<Rightarrow> nat \<times> session \<times> bytes" where
  "build_client_request req s buf =
     (case req of
        Create_client \<Rightarrow> (case xrce_session_build_create_client s buf 512 of (len, buf) \<Rightarrow> (len, s, buf))
      | Create_participant x xml \<Rightarrow> xrce_session_build_create_participant s BEST_EFFORT_STREAM_0 x 0 (c_string xml) buf 512
      | Create_xml x parent xml \<Rightarrow> xrce_session_build_create_xml s BEST_EFFORT_STREAM_0 x parent (c_string xml) buf 512
      | Read_data x \<Rightarrow> xrce_session_build_read_data s BEST_EFFORT_STREAM_0 x BEST_EFFORT_STREAM_0 buf 512
      | Delete x \<Rightarrow> xrce_session_build_delete s BEST_EFFORT_STREAM_0 x buf 512)"

text \<open>
  What a program does after building a request: send it and wait for an answer its parser accepts, send it
  and check that it was sent, or send it without looking.
\<close>

datatype after_build =
    Await string "bytes \<Rightarrow> nat \<Rightarrow> bool"
  | Must_send
  | Just_send

type_synonym setup_step = "client_request \<times> after_build"

definition setup_one :: "setup_step \<Rightarrow> 'a host_scheme \<Rightarrow> bool \<times> 'a host_scheme" where
  "setup_one st h =
     (case st of
        (req, after) \<Rightarrow>
          (case build_client_request req (g_s h) (msg_buf h) of
             (len, s, buf) \<Rightarrow>
               (let h = h\<lparr>g_s := s, msg_buf := buf\<rparr> in
                case after of
                  Await step_name parse_reply \<Rightarrow> send_and_wait_ok step_name buf len parse_reply h
                | Must_send \<Rightarrow> sendto buf len h
                | Just_send \<Rightarrow> (True, snd (sendto buf len h)))))"

text \<open>The straight line before the loop: \<open>False\<close> is \<^verbatim>\<open>return 1\<close> of \<^verbatim>\<open>main\<close>.\<close>

fun run_setup :: "setup_step list \<Rightarrow> 'a host_scheme \<Rightarrow> bool \<times> 'a host_scheme" where
  "run_setup [] h = (True, h)"
| "run_setup (st # sts) h = (case setup_one st h of (ok, h) \<Rightarrow> if \<not> ok then (False, h) else run_setup sts h)"

text \<open>The program so far: it returned from \<^verbatim>\<open>main\<close>, or it is in its loop.\<close>

datatype 'h outcome = Exited int 'h | Running 'h

abbreviation create_client_step :: setup_step where
  "create_client_step \<equiv> (Create_client, Await ''CREATE_CLIENT'' xrce_session_parse_create_client_reply)"

abbreviation create_step :: "string \<Rightarrow> client_request \<Rightarrow> setup_step" where
  "create_step step_name req \<equiv> (req, Await step_name xrce_session_parse_create_reply)"

definition participant_xml :: "string \<Rightarrow> string" where
  "participant_xml name = ''<dds><participant><rtps><name>'' @ name @ ''</name></rtps></participant></dds>''"

definition host_topic_xml :: "string \<Rightarrow> string \<Rightarrow> string" where
  "host_topic_xml name type = ''<dds><topic><name>'' @ name @ ''</name><dataType>'' @ type @ ''</dataType></topic></dds>''"

definition host_endpoint_xml :: "string \<Rightarrow> string \<Rightarrow> string \<Rightarrow> string" where
  "host_endpoint_xml tag name type = ''<dds><'' @ tag @ ''><topic><kind>NO_KEY</kind><name>'' @ name @
     ''</name><dataType>'' @ type @ ''</dataType></topic></'' @ tag @ ''></dds>''"

definition replier_xml :: "string \<Rightarrow> string \<Rightarrow> string \<Rightarrow> string \<Rightarrow> string" where
  "replier_xml profile service request_type reply_type =
     ''<dds><replier profile_name=\"'' @ profile @ ''\" service_name=\"'' @ service @ ''\" request_type=\"'' @ request_type @
     ''\" reply_type=\"'' @ reply_type @ ''\"><request_topic_name>rq/'' @ service @ ''Request</request_topic_name>'' @
     ''<reply_topic_name>rr/'' @ service @ ''Reply</reply_topic_name></replier></dds>''"

section \<open>Replies to a service request\<close>

abbreviation XRCE_SAMPLE_IDENTITY_SIZE :: nat where "XRCE_SAMPLE_IDENTITY_SIZE \<equiv> 24"

text \<open>
  The local array \<^verbatim>\<open>wire\<close>: the sample identity of the request, then the payload without its CDR header. A
  C function that receives a pointer and a length below four would read out of its array; the callers
  pass encoded messages, which are at least four bytes long.
\<close>

definition reply_wire :: "bytes \<Rightarrow> bytes \<Rightarrow> nat \<Rightarrow> bytes \<times> nat" where
  "reply_wire sample_identity payload_with_header payload_len =
     (take XRCE_SAMPLE_IDENTITY_SIZE sample_identity @ take (payload_len - 4) (drop 4 payload_with_header),
      XRCE_SAMPLE_IDENTITY_SIZE + (payload_len - 4))"

section \<open>Lemmas: the operating system\<close>

lemma sendto_simps [simp]:
  "sends (snd (sendto m l h)) = Suc (sends h)" "datagrams (snd (sendto m l h)) = datagrams h @ [take l m]"
  "g_s (snd (sendto m l h)) = g_s h" "msg_buf (snd (sendto m l h)) = msg_buf h" "recvs (snd (sendto m l h)) = recvs h"
  "clock_reads (snd (sendto m l h)) = clock_reads h" "net_in (snd (sendto m l h)) = net_in h"
  "net_ok (snd (sendto m l h)) = net_ok h" "net_clock (snd (sendto m l h)) = net_clock h"
  "stdout (snd (sendto m l h)) = stdout h" "fst (sendto m l h) = net_ok h (sends h)"
  "host.more (snd (sendto m l h)) = host.more h"
  by (simp_all add: sendto_def)

lemma put_line_simps [simp]:
  "sends (put_line t h) = sends h" "datagrams (put_line t h) = datagrams h" "g_s (put_line t h) = g_s h"
  "msg_buf (put_line t h) = msg_buf h" "recvs (put_line t h) = recvs h" "clock_reads (put_line t h) = clock_reads h"
  "net_in (put_line t h) = net_in h" "net_ok (put_line t h) = net_ok h" "net_clock (put_line t h) = net_clock h"
  "stdout (put_line t h) = stdout h @ [t]" "host.more (put_line t h) = host.more h"
  by (simp_all add: put_line_def)

section \<open>Lemmas: what each request looks like\<close>

definition request_kind :: "client_request \<Rightarrow> u8" where
  "request_kind req = (case req of Create_client \<Rightarrow> XRCE_SUBMSG_CREATE_CLIENT | Read_data _ \<Rightarrow> XRCE_SUBMSG_READ_DATA
     | Delete _ \<Rightarrow> XRCE_SUBMSG_DELETE | _ \<Rightarrow> XRCE_SUBMSG_CREATE)"

definition base_wire :: "u16 \<Rightarrow> object_id \<Rightarrow> wire" where
  "base_wire rid x = wire_bytes (be_bytes 2 rid @ object_id_bytes x)"

definition request_wire :: "client_request \<Rightarrow> session \<Rightarrow> wire" where
  "request_wire req s = (case req of
       Create_client \<Rightarrow> wire_all [wire_bytes [0x58, 0x52, 0x43, 0x45], wire_bytes [0x01, 0x00], wire_bytes [0x01, 0x0F],
         wire_bytes (client_key s), wire_u8 (session_id s), wire_bool False, wire_i16 (mtu s)]
     | Create_participant x xml \<Rightarrow> wire_all [base_wire (next_request_id s) x, wire_u8 (okind x),
         wire_u8 XRCE_REPRESENTATION_AS_XML_STRING, wire_string (c_string xml), wire_i16 0]
     | Create_xml x y xml \<Rightarrow> wire_all [base_wire (next_request_id s) x, wire_u8 (okind x),
         wire_u8 XRCE_REPRESENTATION_AS_XML_STRING, wire_string (c_string xml), wire_bytes (object_id_bytes y)]
     | Read_data x \<Rightarrow> wire_all [base_wire (next_request_id s) x, wire_u8 BEST_EFFORT_STREAM_0, wire_u8 XRCE_FORMAT_DATA,
         wire_bool False, wire_bool True, wire_i16 0xFFFF, wire_i16 0, wire_i16 0, wire_i16 0]
     | Delete x \<Rightarrow> wire_all [base_wire (next_request_id s) x])"

text \<open>The datagram of a request, and the session after it.\<close>

definition request_message :: "session \<Rightarrow> client_request \<Rightarrow> bytes" where
  "request_message s req =
     (if req = Create_client then message_bytes 0 0 0 (client_key s) (request_kind req) (request_wire req s 12)
      else message_bytes (session_id s) BEST_EFFORT_STREAM_0 (out_seq_num s) (client_key s) (request_kind req) (request_wire req s 12))"

definition after_request :: "client_request \<Rightarrow> session \<Rightarrow> session" where
  "after_request req s = (if req = Create_client then s else numbered s)"

text \<open>A request whose XML is a proper C string that leaves room for the headers in 512 bytes.\<close>

definition request_ok :: "client_request \<Rightarrow> bool" where
  "request_ok req = (case req of Create_participant _ xml \<Rightarrow> CHR 0x00 \<notin> set xml \<and> length xml \<le> 480
     | Create_xml _ _ xml \<Rightarrow> CHR 0x00 \<notin> set xml \<and> length xml \<le> 480 | _ \<Rightarrow> True)"

lemma build_numbered:
  assumes "length (client_key s) = 4" "length buf = 512" "writes (all_of (payload (next_request_id s))) wr"
    and "p = wr 12" "length p \<le> 500"
  shows "build_request s stream sub payload buf 512 =
     (12 + length p, numbered s, message_bytes (session_id s) stream (out_seq_num s) (client_key s) sub p @ drop (12 + length p) buf)"
  using build_request_exact(1)[of 512 buf s payload wr p _ stream sub, OF _ assms(1,3,4) refl] assms(2,5)
  by (simp add: numbered_def length_message assms(1))

lemma request_wire_length:
  assumes "request_ok req" "length (client_key s) = 4"
  shows "0 < length (request_wire req s 12)" "length (request_wire req s 12) \<le> 500"
proof -
  have i16: "length (wire_i16 d off) \<le> 3" for d off by (simp add: wire_i16_def padded_def)
  have xml: "length (cstr (c_string xml)) = length xml + 1" if "CHR 0x00 \<notin> set xml" "length xml \<le> 480" for xml
    using c_string_props(2)[OF that(1)] that(2) by simp
  have "0 < length (request_wire req s 12) \<and> length (request_wire req s 12) \<le> 500"
  proof (cases req)
    case (Create_participant x c)
    with assms i16[of 0 "length c + 25"] xml[of c] show ?thesis
      by (simp add: request_wire_def request_ok_def base_wire_def wire_seq_def wire_bytes_def wire_u8_def wire_string_def
          wire_u32_def padded_def object_id_bytes_def add.commute)
  next
    case (Create_xml x y c)
    with assms xml[of c] show ?thesis
      by (simp add: request_wire_def request_ok_def base_wire_def wire_seq_def wire_bytes_def wire_u8_def wire_string_def
          wire_u32_def padded_def object_id_bytes_def)
  qed (use assms in \<open>simp_all add: request_wire_def base_wire_def wire_seq_def wire_bytes_def wire_u8_def wire_bool_def
      wire_i16_def padded_def object_id_bytes_def\<close>)
  then show "0 < length (request_wire req s 12)" "length (request_wire req s 12) \<le> 500" by simp_all
qed

lemma create_client_exact:
  assumes "length (client_key s) = 4" "length buf = 512"
  shows "xrce_session_build_create_client s buf 512 =
     (28, request_message s Create_client @ drop 28 buf)" "length (request_message s Create_client) = 28"
proof -
  let ?h = "[0, 0] @ le_bytes 2 (0 :: u16) @ client_key s"
  let ?w = "\<lparr>wbuf = blit 0 ?h buf, wcap = 512, wpos = 8, walign_base = 0\<rparr>"
  let ?ops = "[xrce_cdr_write_bytes [0x58, 0x52, 0x43, 0x45] 4, xrce_cdr_write_bytes [0x01, 0x00] 2,
      xrce_cdr_write_bytes [0x01, 0x0F] 2, xrce_cdr_write_bytes (client_key s) 4,
      xrce_cdr_write_u8 (session_id s), xrce_cdr_write_bool False, write_u16 (mtu s)]"
  have h: "write_message_header 0 0 0 (client_key s) (xrce_cdr_writer_init buf 512) = (True, ?w)"
    using header_exact(1)[of 512 buf "client_key s" ?h 0 0 0] assms by simp
  have wf: "wf_writer ?w" using assms by (simp add: wf_writer_def)
  have w: "writes (all_of ?ops) (request_wire Create_client s)"
    unfolding request_wire_def client_request.case
    by (intro writes_all_of) (use assms(1) in \<open>simp add: writes_byte_array writes_u8 writes_bool writes_u16\<close>)
  obtain p where p: "p = request_wire Create_client s 12" "length p = 16"
    using assms(1) by (simp add: request_wire_def wire_seq_def wire_bytes_def wire_u8_def wire_bool_def wire_i16_def padded_def)
  show "length (request_message s Create_client) = 28"
    using assms(1) p by (simp add: request_message_def length_message)
  show "xrce_session_build_create_client s buf 512 = (28, request_message s Create_client @ drop 28 buf)"
    using assms h finish_exact(1)[OF wf _ _ w p(1), of XRCE_SUBMSG_CREATE_CLIENT s id] p
    by (simp add: xrce_session_build_create_client_def request_message_def message_bytes_def request_kind_def blit_def)
qed

lemma request_exact:
  assumes "request_ok req" "length (client_key s) = 4" "length buf = 512"
  shows "build_client_request req s buf =
     (length (request_message s req), after_request req s, request_message s req @ drop (length (request_message s req)) buf)"
proof -
  define p where "p = request_wire req s 12"
  note len = request_wire_length[OF assms(1,2), folded p_def]
  have m: "length (request_message s req) = 12 + length p" if "req \<noteq> Create_client"
    using that assms(2) by (simp add: request_message_def length_message p_def)
  have c: "is_cstring (c_string xml)" if "CHR 0x00 \<notin> set xml" "length xml \<le> 480" for xml
    using c_string_props(1)[OF that(1)] that(2) by simp
  note ww = writes_base_object_request[folded base_wire_def] writes_u8 writes_i16 writes_object_id writes_bool writes_u16
  show ?thesis
  proof (cases req)
    case Create_client
    then show ?thesis using create_client_exact[OF assms(2,3)] by (simp add: build_client_request_def after_request_def)
  next
    case (Create_participant x xml)
    let ?f = "\<lambda>rid. [write_base_object_request rid x, xrce_cdr_write_u8 (okind x),
      xrce_cdr_write_u8 XRCE_REPRESENTATION_AS_XML_STRING, xrce_cdr_write_string (c_string xml), xrce_cdr_write_i16 0]"
    have w: "writes (all_of (?f (next_request_id s))) (request_wire req s)"
      unfolding request_wire_def Create_participant client_request.case
      by (intro writes_all_of) (use Create_participant assms(1) in \<open>simp add: ww writes_string[OF c] request_ok_def\<close>)
    show ?thesis
      using build_numbered[where payload = ?f, OF assms(2,3) w p_def len(2), of BEST_EFFORT_STREAM_0 XRCE_SUBMSG_CREATE] m Create_participant
      by (simp add: build_client_request_def xrce_session_build_create_participant_def build_create_def request_message_def
          request_kind_def after_request_def p_def)
  next
    case (Create_xml x y xml)
    let ?f = "\<lambda>rid. [write_base_object_request rid x, xrce_cdr_write_u8 (okind x),
      xrce_cdr_write_u8 XRCE_REPRESENTATION_AS_XML_STRING, xrce_cdr_write_string (c_string xml), write_object_id y]"
    have w: "writes (all_of (?f (next_request_id s))) (request_wire req s)"
      unfolding request_wire_def Create_xml client_request.case
      by (intro writes_all_of) (use Create_xml assms(1) in \<open>simp add: ww writes_string[OF c] request_ok_def\<close>)
    show ?thesis
      using build_numbered[where payload = ?f, OF assms(2,3) w p_def len(2), of BEST_EFFORT_STREAM_0 XRCE_SUBMSG_CREATE] m Create_xml
      by (simp add: build_client_request_def xrce_session_build_create_xml_def build_create_def request_message_def
          request_kind_def after_request_def p_def)
  next
    case (Read_data x)
    let ?f = "\<lambda>rid. [write_base_object_request rid x, xrce_cdr_write_u8 BEST_EFFORT_STREAM_0,
        xrce_cdr_write_u8 XRCE_FORMAT_DATA, xrce_cdr_write_bool False, xrce_cdr_write_bool True,
        write_u16 0xFFFF, write_u16 0, write_u16 0, write_u16 0]"
    have w: "writes (all_of (?f (next_request_id s))) (request_wire req s)"
      unfolding request_wire_def Read_data client_request.case by (intro writes_all_of) (simp add: ww)
    show ?thesis
      using build_numbered[where payload = ?f, OF assms(2,3) w p_def len(2), of BEST_EFFORT_STREAM_0 XRCE_SUBMSG_READ_DATA] m Read_data
      by (simp add: build_client_request_def xrce_session_build_read_data_def request_message_def request_kind_def
          after_request_def p_def)
  next
    case (Delete x)
    let ?f = "\<lambda>rid. [write_base_object_request rid x]"
    have w: "writes (all_of (?f (next_request_id s))) (request_wire req s)"
      unfolding request_wire_def Delete client_request.case by (intro writes_all_of) (simp add: ww)
    show ?thesis
      using build_numbered[where payload = ?f, OF assms(2,3) w p_def len(2), of BEST_EFFORT_STREAM_0 XRCE_SUBMSG_DELETE] m Delete
      by (simp add: build_client_request_def xrce_session_build_delete_def request_message_def request_kind_def
          after_request_def p_def)
  qed
qed

section \<open>Lemmas: the straight line\<close>

definition client_ok :: "'a host_scheme \<Rightarrow> bool" where
  "client_ok h \<longleftrightarrow> length (client_key (g_s h)) = 4 \<and> length (msg_buf h) = 512"

text \<open>Two states with the same outside world and the same globals of the program.\<close>

definition same_world :: "'a host_scheme \<Rightarrow> 'a host_scheme \<Rightarrow> bool" where
  "same_world h h' \<longleftrightarrow> net_in h' = net_in h \<and> net_ok h' = net_ok h \<and> net_clock h' = net_clock h \<and> host.more h' = host.more h"

fun script_messages :: "session \<Rightarrow> client_request list \<Rightarrow> bytes list" where
  "script_messages s [] = []"
| "script_messages s (r # rs) = request_message s r # script_messages (after_request r s) rs"

fun script_session :: "session \<Rightarrow> client_request list \<Rightarrow> session" where
  "script_session s [] = s"
| "script_session s (r # rs) = script_session (after_request r s) rs"

definition is_await :: "setup_step \<Rightarrow> bool" where
  "is_await st = (case snd st of Await _ _ \<Rightarrow> True | _ \<Rightarrow> False)"

definition answered :: "(bytes \<Rightarrow> nat \<Rightarrow> bool) \<Rightarrow> bytes \<Rightarrow> bool" where
  "answered p d \<longleftrightarrow> d \<noteq> [] \<and> p (take 256 d) (min 256 (length d))"

text \<open>The i-th step of a script succeeds, given what the network does from state \<open>h\<close> on.\<close>

definition step_passes :: "'a host_scheme \<Rightarrow> setup_step list \<Rightarrow> nat \<Rightarrow> bool" where
  "step_passes h steps i = (case snd (steps ! i) of
       Await _ p \<Rightarrow> net_ok h (sends h + i) \<and> answered p (net_in h (recvs h + length (filter is_await (take i steps))))
     | Must_send \<Rightarrow> net_ok h (sends h + i)
     | Just_send \<Rightarrow> True)"

lemma after_request_key [simp]: "client_key (after_request r s) = client_key s"
  by (simp add: after_request_def)

lemma setup_one_exact:
  assumes "request_ok (fst st)" "client_ok h"
  obtains h' where "setup_one st h = (step_passes h (st # sts) 0, h')"
    "datagrams h' = datagrams h @ [request_message (g_s h) (fst st)]" "g_s h' = after_request (fst st) (g_s h)"
    "client_ok h'" "same_world h h'" "sends h' = Suc (sends h)"
    "step_passes h (st # sts) 0 \<longrightarrow> recvs h' = recvs h + (if is_await st then 1 else 0)"
proof -
  obtain req aft where st: "st = (req, aft)" by (cases st)
  let ?m = "request_message (g_s h) req"
  let ?b = "?m @ drop (length ?m) (msg_buf h)"
  let ?h = "h\<lparr>g_s := after_request req (g_s h), msg_buf := ?b\<rparr>"
  have key: "length (client_key (g_s h)) = 4" "length (msg_buf h) = 512" using assms(2) by (simp_all add: client_ok_def)
  note ex = request_exact[OF assms(1)[unfolded st fst_conv] key]
  have lm: "length ?m \<le> 512"
  proof (cases "req = Create_client")
    case True
    then show ?thesis using create_client_exact(2)[OF key] by simp
  next
    case False
    then show ?thesis using request_wire_length(2)[OF assms(1)[unfolded st fst_conv] key(1)] key(1)
      by (simp add: request_message_def length_message)
  qed
  have c: "client_ok ?h" using key lm by (simp add: client_ok_def)
  show ?thesis
  proof (cases aft)
    case (Await nm p)
    define d where "d = take 256 (net_in h (recvs h))"
    have e: "setup_one st h = send_and_wait_ok nm ?b (length ?m) p ?h"
      using ex by (simp add: setup_one_def st Await Let_def)
    have pass: "step_passes h (st # sts) 0 \<longleftrightarrow> net_ok h (sends h) \<and> d \<noteq> [] \<and> p d (length d)"
      unfolding step_passes_def answered_def d_def st Await by (simp add: min.commute)
    show ?thesis
      by (rule that[of "snd (send_and_wait_ok nm ?b (length ?m) p ?h)"])
        (use c in \<open>auto simp: e[unfolded st Await] pass[unfolded st Await] send_and_wait_ok_def recv_def d_def[symmetric] same_world_def client_ok_def is_await_def
          st Await Let_def sendto_def put_line_def\<close>)
  next
    case Must_send
    show ?thesis
      by (rule that[of "snd (sendto ?b (length ?m) ?h)"])
        (use ex c in \<open>auto simp: setup_one_def st Must_send Let_def step_passes_def same_world_def client_ok_def is_await_def sendto_def\<close>)
  next
    case Just_send
    show ?thesis
      by (rule that[of "snd (sendto ?b (length ?m) ?h)"])
        (use ex c in \<open>auto simp: setup_one_def st Just_send Let_def step_passes_def same_world_def client_ok_def is_await_def\<close>)
  qed
qed

lemma run_setup_exact:
  assumes "list_all request_ok (map fst steps)" "client_ok h"
  shows "\<exists>k h'. k \<le> length steps \<and> (\<forall>i < k. step_passes h steps i) \<and> (k < length steps \<longrightarrow> \<not> step_passes h steps k) \<and>
     run_setup steps h = (k = length steps, h') \<and>
     datagrams h' = datagrams h @ take (Suc k) (script_messages (g_s h) (map fst steps)) \<and>
     g_s h' = script_session (g_s h) (map fst (take (Suc k) steps)) \<and> client_ok h' \<and> same_world h h' \<and>
     (k = length steps \<longrightarrow> sends h' = sends h + k)"
  using assms
proof (induction steps arbitrary: h)
  case Nil
  then show ?case by (simp add: same_world_def)
next
  case (Cons st sts)
  have ok: "request_ok (fst st)" "list_all request_ok (map fst sts)" using Cons.prems(1) by simp_all
  obtain h1 where 1: "setup_one st h = (step_passes h (st # sts) 0, h1)"
      "datagrams h1 = datagrams h @ [request_message (g_s h) (fst st)]" "g_s h1 = after_request (fst st) (g_s h)"
      "client_ok h1" "same_world h h1" "sends h1 = Suc (sends h)"
      "step_passes h (st # sts) 0 \<longrightarrow> recvs h1 = recvs h + (if is_await st then 1 else 0)"
    by (rule setup_one_exact[OF ok(1) Cons.prems(2), of sts])
  show ?case
  proof (cases "step_passes h (st # sts) 0")
    case False
    then show ?thesis using 1 by (intro exI[of _ 0] exI[of _ h1]) simp
  next
    case True
    have sh: "step_passes h (st # sts) (Suc i) = step_passes h1 sts i" for i
      using 1(5-7) True by (simp add: step_passes_def same_world_def split: after_build.splits)
    obtain k h' where k: "k \<le> length sts" "\<forall>i < k. step_passes h1 sts i" "k < length sts \<longrightarrow> \<not> step_passes h1 sts k"
        "run_setup sts h1 = (k = length sts, h')"
        "datagrams h' = datagrams h1 @ take (Suc k) (script_messages (g_s h1) (map fst sts))"
        "g_s h' = script_session (g_s h1) (map fst (take (Suc k) sts))" "client_ok h'" "same_world h1 h'"
        "k = length sts \<longrightarrow> sends h' = sends h1 + k"
      using Cons.IH[OF ok(2) 1(4)] by blast
    have "\<forall>i < Suc k. step_passes h (st # sts) i" using True k(2) sh by (auto simp: less_Suc_eq_0_disj)
    moreover have "same_world h h'" using 1(5) k(8) by (simp add: same_world_def)
    ultimately show ?thesis
      using 1(1-3,6) True k sh by (intro exI[of _ "Suc k"] exI[of _ h']) auto
  qed
qed


text \<open>An agent that accepts everything, with the status messages of the protocol.\<close>

definition good_agent :: "nat \<Rightarrow> bytes" where
  "good_agent i = (if i = 0 then [0x81, 0, 0, 0, 4, 1, 1, 0, 0] else [0x81, 0, 0, 0, 5, 1, 5, 0, 0, 9, 0, 0x11, 0])"

definition sample_host :: "(nat \<Rightarrow> bytes) \<Rightarrow> host" where
  "sample_host agent = \<lparr>net_in = agent, net_ok = \<lambda>_. True, net_clock = \<lambda>i. of_nat (1000 * i), recvs = 0, sends = 0,
     clock_reads = 0, datagrams = [], stdout = [], g_s = xrce_session_init 1 [0xCA, 0xFE, 0xF0, 0x0D] 512,
     msg_buf = replicate 512 0xAA\<rparr>"

lemma good_agent_accepts:
  "answered xrce_session_parse_create_client_reply (good_agent 0)"
  "answered xrce_session_parse_create_reply (good_agent (Suc i))"
proof -
  show "answered xrce_session_parse_create_client_reply (good_agent 0)" by code_simp
  have "answered xrce_session_parse_create_reply (good_agent 1)" by code_simp
  then show "answered xrce_session_parse_create_reply (good_agent (Suc i))" by (simp add: good_agent_def)
qed


end
