(* ===== verification/Host_Demos.thy ===== *)
theory Host_Demos
  imports Host_Client
begin

text \<open>
  The small host programs: \<^verbatim>\<open>live_agent_check.c\<close>, \<^verbatim>\<open>live_publish_demo.c\<close>, \<^verbatim>\<open>live_subscribe_demo.c\<close>,
  \<^verbatim>\<open>live_service_demo.c\<close> and \<^verbatim>\<open>live_delete_demo.c\<close>. Each is its script of requests and one definition for
  a pass of its loop; \<open>Exited\<close> carries the value \<^verbatim>\<open>main\<close> returns. Opening and configuring the socket is left
  to the operating system, and pauses have no effect on the state.
\<close>

section \<open>The common frame of main\<close>

text \<open>\<open>loop\<close> is what follows the script.\<close>

definition host_main ::
  "bytes \<Rightarrow> setup_step list \<Rightarrow> ('a host_scheme \<Rightarrow> 'a host_scheme outcome) \<Rightarrow> nat \<Rightarrow> 'a host_scheme \<Rightarrow> 'a host_scheme outcome" where
  "host_main key script loop argc h =
     (if argc \<noteq> 3 then Exited 2 h
      else
        (case run_setup script (h\<lparr>g_s := xrce_session_init 1 key 512\<rparr>) of
           (ok, h) \<Rightarrow> if \<not> ok then Exited 1 h else loop h))"

abbreviation participant_1 :: object_id where "participant_1 \<equiv> xrce_object_id 1 XRCE_OBJK_PARTICIPANT"
abbreviation topic_1 :: object_id where "topic_1 \<equiv> xrce_object_id 1 XRCE_OBJK_TOPIC"
abbreviation publisher_1 :: object_id where "publisher_1 \<equiv> xrce_object_id 1 XRCE_OBJK_PUBLISHER"
abbreviation subscriber_1 :: object_id where "subscriber_1 \<equiv> xrce_object_id 1 XRCE_OBJK_SUBSCRIBER"
abbreviation datawriter_1 :: object_id where "datawriter_1 \<equiv> xrce_object_id 1 XRCE_OBJK_DATAWRITER"
abbreviation datareader_1 :: object_id where "datareader_1 \<equiv> xrce_object_id 1 XRCE_OBJK_DATAREADER"
abbreviation replier_1 :: object_id where "replier_1 \<equiv> xrce_object_id 1 XRCE_OBJK_REPLIER"

abbreviation int32_type :: string where "int32_type \<equiv> ''std_msgs::msg::dds_::Int32_''"

section \<open>The agent check\<close>

text \<open>\<open>out\<close> is the 64-byte local array; the address parses or not.\<close>

definition agent_check_main :: "bytes \<Rightarrow> bool \<Rightarrow> string \<Rightarrow> string \<Rightarrow> nat \<Rightarrow> host \<Rightarrow> host outcome" where
  "agent_check_main out address_ok ip port argc h =
     (if argc \<noteq> 3 then Exited 2 h
      else
        (let h = h\<lparr>g_s := xrce_session_init 1 [0xDE, 0xAD, 0xBE, 0xEF] 512\<rparr> in
         case xrce_session_build_create_client (g_s h) out 64 of
           (out_len, out) \<Rightarrow>
             if out_len = 0 then Exited 1 h
             else
               (let h = put_line (''Sending '' @ dec_digits out_len @ ''-byte CREATE_CLIENT to '' @ ip @ '':'' @ port) h in
                if \<not> address_ok then Exited 1 h
                else
                  (case sendto out out_len h of
                     (sent_ok, h) \<Rightarrow>
                       if \<not> sent_ok then Exited 1 h
                       else
                         (case recv 128 h of
                            (reply, h) \<Rightarrow>
                              if reply = [] then Exited 1 h
                              else
                                (let h = put_line (''Received '' @ dec_digits (length reply) @ ''-byte reply, raw bytes:'' @
                                       concat (map (\<lambda>b. '' '' @ hex_padded 2 (unat b)) reply)) h in
                                 if xrce_session_parse_create_client_reply reply (length reply)
                                 then Exited 0 (put_line
                                   ''PASS: real MicroXRCEAgent accepted CREATE_CLIENT and replied STATUS_AGENT/OK'' h)
                                 else Exited 1 h))))))"

section \<open>Publishing\<close>

definition publish_script :: "string \<Rightarrow> string \<Rightarrow> setup_step list" where
  "publish_script name topic =
     [create_client_step,
      create_step ''CREATE participant'' (Create_participant participant_1 (participant_xml name)),
      create_step ''CREATE topic'' (Create_xml topic_1 participant_1 (host_topic_xml topic int32_type)),
      create_step ''CREATE publisher'' (Create_xml publisher_1 participant_1 ''''),
      create_step ''CREATE datawriter'' (Create_xml datawriter_1 publisher_1 (host_endpoint_xml ''data_writer'' topic int32_type))]"

text \<open>One pass of the publishing loop; \<open>sample\<close> is its 16-byte local array.\<close>

definition chatter_pass :: "bytes \<Rightarrow> u32 \<Rightarrow> 'a host_scheme \<Rightarrow> 'a host_scheme outcome" where
  "chatter_pass sample i h =
     (case std_msgs_Int32_encode \<lparr>int32_data = i\<rparr> sample 16 0 of
        (ok, sample, sample_len) \<Rightarrow>
          if \<not> ok then Exited 1 h
          else
            (case xrce_session_build_write_data (g_s h) BEST_EFFORT_STREAM_0 datawriter_1 (drop 4 sample) (sample_len - 4)
                    (msg_buf h) 512 of
               (len, s, buf) \<Rightarrow>
                 (case sendto buf len (h\<lparr>g_s := s, msg_buf := buf\<rparr>) of
                    (sent_ok, h) \<Rightarrow>
                      if \<not> sent_ok then Exited 1 h
                      else Running (put_line (''published data='' @ dec_string (sint i)) h))))"

fun chatter_loop :: "bytes \<Rightarrow> nat \<Rightarrow> 'a host_scheme \<Rightarrow> 'a host_scheme outcome" where
  "chatter_loop sample 0 h = Running h"
| "chatter_loop sample (Suc n) h =
     (case chatter_loop sample n h of Exited c h \<Rightarrow> Exited c h | Running h \<Rightarrow> chatter_pass sample (of_nat n) h)"

definition publish_main :: "bytes \<Rightarrow> nat \<Rightarrow> nat \<Rightarrow> 'a host_scheme \<Rightarrow> 'a host_scheme outcome" where
  "publish_main sample n =
     host_main [0xCA, 0xFE, 0xF0, 0x0D] (publish_script ''rtos_demo'' ''rt/chatter'') (chatter_loop sample n)"

section \<open>Subscribing\<close>

definition subscribe_script :: "setup_step list" where
  "subscribe_script =
     [create_client_step,
      create_step ''CREATE participant'' (Create_participant participant_1 (participant_xml ''rtos_sub_demo'')),
      create_step ''CREATE topic'' (Create_xml topic_1 participant_1 (host_topic_xml ''rt/cmd'' int32_type)),
      create_step ''CREATE subscriber'' (Create_xml subscriber_1 participant_1 ''''),
      create_step ''CREATE datareader'' (Create_xml datareader_1 subscriber_1 (host_endpoint_xml ''data_reader'' ''rt/cmd'' int32_type)),
      (Read_data datareader_1, Must_send)]"

definition subscribe_pass :: "'a host_scheme \<Rightarrow> 'a host_scheme" where
  "subscribe_pass h =
     (case recv 256 h of
        (d, h) \<Rightarrow>
          if d = [] then h
          else
            (case xrce_session_parse_data d (length d) \<lparr>oid = 0, okind = 0\<rparr> [] 0 of
               (ok, from_id, sample, sample_len) \<Rightarrow>
                 if \<not> ok then h
                 else if sample_len < 4 then h
                 else
                   (let value = ucast (sample ! 0) OR push_bit 8 (ucast (sample ! 1)) OR
                          push_bit 16 (ucast (sample ! 2)) OR push_bit 24 (ucast (sample ! 3)) :: u32 in
                    put_line (''received /cmd data='' @ dec_string (sint value) @ '' (from object 0x'' @
                      hex_padded 3 (unat (oid from_id)) @ '' kind 0x'' @ hex_digits (unat (okind from_id)) @ '')'') h)))"

definition subscribe_main :: "nat \<Rightarrow> nat \<Rightarrow> 'a host_scheme \<Rightarrow> 'a host_scheme outcome" where
  "subscribe_main n = host_main [0x53, 0x55, 0x42, 0x00] subscribe_script (\<lambda>h. Running ((subscribe_pass ^^ n) h))"

section \<open>Serving a trigger\<close>

definition service_script :: "setup_step list" where
  "service_script =
     [create_client_step,
      create_step ''CREATE participant'' (Create_participant participant_1 (participant_xml ''rtos_service_demo'')),
      create_step ''CREATE replier'' (Create_xml replier_1 participant_1
        (replier_xml ''self_test_replier'' ''self_test'' ''std_srvs::srv::dds_::Trigger_Request_'' ''std_srvs::srv::dds_::Trigger_Response_'')),
      (Read_data replier_1, Must_send)]"

text \<open>One pass of the serving loop; \<open>resp\<close> is the 512-byte local array, \<open>count\<close> the number of replies before.\<close>

definition service_pass :: "bytes \<Rightarrow> int \<times> 'a host_scheme \<Rightarrow> int \<times> 'a host_scheme" where
  "service_pass resp st =
     (case st of (reply_count, h) \<Rightarrow>
      case recv 256 h of
        (d, h) \<Rightarrow>
          if d = [] then (reply_count, h)
          else
            (case xrce_session_parse_data d (length d) \<lparr>oid = 0, okind = 0\<rparr> [] 0 of
               (ok, from_id, sample, sample_len) \<Rightarrow>
                 if \<not> ok then (reply_count, h)
                 else if sample_len < XRCE_SAMPLE_IDENTITY_SIZE then (reply_count, h)
                 else
                   (let reply_count = reply_count + 1;
                        h = put_line (''request #'' @ dec_string reply_count @ '' received -- replying'') h in
                    case std_srvs_Trigger_Response_encode
                           \<lparr>success = True, trigger_message = snprintf (''self-test #'' @ dec_string reply_count @ '' ok'') (replicate 256 0)\<rparr>
                           resp 512 0 of
                      (ok, resp_sample, resp_sample_len) \<Rightarrow>
                        if \<not> ok then (reply_count, h)
                        else
                          (case reply_wire sample resp_sample resp_sample_len of
                             (wire, wire_len) \<Rightarrow>
                               (case xrce_session_build_write_data (g_s h) BEST_EFFORT_STREAM_0 replier_1 wire wire_len (msg_buf h) 512 of
                                  (len, s, buf) \<Rightarrow>
                                    (case sendto buf len (h\<lparr>g_s := s, msg_buf := buf\<rparr>) of
                                       (sent_ok, h) \<Rightarrow>
                                         (reply_count, if \<not> sent_ok then h else put_line (''reply #'' @ dec_string reply_count @ '' sent'') h)))))))"

definition service_main :: "bytes \<Rightarrow> nat \<Rightarrow> nat \<Rightarrow> 'a host_scheme \<Rightarrow> 'a host_scheme outcome" where
  "service_main resp n =
     host_main [0x5E, 0x27, 0xE5, 0x70] service_script
       (\<lambda>h. Running (snd ((service_pass resp ^^ n) (0, put_line ''READ_DATA (requests)     -> sent'' h))))"

section \<open>Deleting\<close>

definition delete_script :: "setup_step list" where
  "delete_script =
     map (\<lambda>(name, x). (Delete x, Await name xrce_session_parse_delete_reply))
       [(''DELETE datawriter'', datawriter_1), (''DELETE publisher'', publisher_1), (''DELETE topic'', topic_1)]"

text \<open>Everything after the entities exist; the results of encoding and of the first send are not looked at.\<close>

definition delete_rest :: "bytes \<Rightarrow> 'a host_scheme \<Rightarrow> 'a host_scheme outcome" where
  "delete_rest sample h =
     (case std_msgs_Int32_encode \<lparr>int32_data = 1\<rparr> sample 16 0 of
        (_, sample, sample_len) \<Rightarrow>
          (case xrce_session_build_write_data (g_s h) BEST_EFFORT_STREAM_0 datawriter_1 (drop 4 sample) (sample_len - 4)
                  (msg_buf h) 512 of
             (len, s, buf) \<Rightarrow>
               (let h = snd (sendto buf len (h\<lparr>g_s := s, msg_buf := buf\<rparr>));
                    h = put_line ''published one sample on rt/delete_test -- entities exist now'' h in
                case run_setup delete_script h of
                  (ok, h) \<Rightarrow>
                    if \<not> ok then Exited 1 h
                    else Exited 0 (put_line ''deleted datawriter/publisher/topic -- entities should be gone now'' h))))"

definition delete_main :: "bytes \<Rightarrow> nat \<Rightarrow> 'a host_scheme \<Rightarrow> 'a host_scheme outcome" where
  "delete_main sample = host_main [0xDE, 0x1E, 0x7E, 0x57] (publish_script ''rtos_delete_demo'' ''rt/delete_test'') (delete_rest sample)"

section \<open>Lemmas\<close>

lemma scripts_ok:
  "list_all request_ok (map fst (publish_script ''rtos_demo'' ''rt/chatter''))"
  "list_all request_ok (map fst (publish_script ''rtos_delete_demo'' ''rt/delete_test''))"
  "list_all request_ok (map fst subscribe_script)" "list_all request_ok (map fst service_script)"
  "list_all request_ok (map fst delete_script)"
  by (simp_all add: publish_script_def subscribe_script_def service_script_def delete_script_def request_ok_def
      participant_xml_def host_topic_xml_def host_endpoint_xml_def replier_xml_def)

lemma client_ok_init: "length key = 4 \<Longrightarrow> length (msg_buf h) = 512 \<Longrightarrow> client_ok (h\<lparr>g_s := xrce_session_init 1 key 512\<rparr>)"
  by (simp add: client_ok_def xrce_session_init_def)

text \<open>A sample of up to 496 bytes always goes out as one datagram.\<close>

lemma write_and_send:
  assumes "client_ok h" "n \<le> length sample" "n \<le> 496"
  obtains buf where "xrce_session_build_write_data (g_s h) BEST_EFFORT_STREAM_0 x sample n (msg_buf h) 512 = (16 + n, numbered (g_s h), buf)"
    "take (16 + n) buf = write_data_message (g_s h) x (take n sample)" "length buf = 512"
proof -
  have key: "length (client_key (g_s h)) = 4" "length (msg_buf h) = 512" using assms(1) by (simp_all add: client_ok_def)
  have c: "16 + n \<le> 512" using assms(3) by simp
  note w = write_data_fits[OF key assms(2) c, of x]
  show ?thesis
    by (rule that[OF w(1)]) (use assms(3) in \<open>simp_all add: w(2) key(2)\<close>)
qed

lemma chatter_pass_exact:
  assumes "client_ok h" "length sample = 16"
  obtains h' where "chatter_pass sample i h = (if net_ok h (sends h) then Running h' else Exited 1 h')"
    "datagrams h' = datagrams h @ [write_data_message (g_s h) datawriter_1 (le_bytes 4 i)]"
    "g_s h' = numbered (g_s h)" "client_ok h'" "same_world h h'" "sends h' = Suc (sends h)"
proof -
  let ?s = "cdr_header @ le_bytes 4 i @ drop 8 sample"
  have e: "std_msgs_Int32_encode \<lparr>int32_data = i\<rparr> sample 16 0 = (True, ?s, 8)" by (rule encode_int32) (use assms(2) in simp_all)
  have d: "4 \<le> length (drop 4 ?s)" "take 4 (drop 4 ?s) = le_bytes 4 i" by (simp_all add: cdr_header_def)
  obtain buf where b: "xrce_session_build_write_data (g_s h) BEST_EFFORT_STREAM_0 datawriter_1 (drop 4 ?s) 4 (msg_buf h) 512 =
        (20, numbered (g_s h), buf)" "take 20 buf = write_data_message (g_s h) datawriter_1 (le_bytes 4 i)" "length buf = 512"
    using write_and_send[OF assms(1) d(1), of datawriter_1] d(2) by auto
  let ?h = "snd (sendto buf 20 (h\<lparr>g_s := numbered (g_s h), msg_buf := buf\<rparr>))"
  show ?thesis
    by (rule that[of "if net_ok h (sends h) then put_line (''published data='' @ dec_string (sint i)) ?h else ?h"])
      (use assms(1) e b in \<open>auto simp: chatter_pass_def client_ok_def same_world_def sendto_def put_line_def\<close>)
qed

lemma chatter_loop_exact:
  assumes "client_ok h" "length sample = 16" "\<forall>i < n. net_ok h (sends h + i)" "n \<le> 2 ^ 31"
  obtains h' where "chatter_loop sample n h = Running h'" "client_ok h'" "same_world h h'" "sends h' = sends h + n"
    "datagrams h' = datagrams h @ map (\<lambda>i. write_data_message ((numbered ^^ i) (g_s h)) datawriter_1 (le_bytes 4 (of_nat i :: u32))) [0..<n]"
    "g_s h' = (numbered ^^ n) (g_s h)"
  using assms(3,4)
proof (induction n arbitrary: thesis)
  case 0
  show ?case by (rule "0.prems"(1)[of h]) (use assms(1) in \<open>simp_all add: same_world_def\<close>)
next
  case (Suc n)
  obtain h1 where 1: "chatter_loop sample n h = Running h1" "client_ok h1" "same_world h h1" "sends h1 = sends h + n"
      "datagrams h1 = datagrams h @ map (\<lambda>i. write_data_message ((numbered ^^ i) (g_s h)) datawriter_1 (le_bytes 4 (of_nat i :: u32))) [0..<n]"
      "g_s h1 = (numbered ^^ n) (g_s h)"
    by (rule Suc.IH) (use Suc.prems(2,3) in simp_all)
  obtain h2 where 2: "chatter_pass sample (of_nat n) h1 = (if net_ok h1 (sends h1) then Running h2 else Exited 1 h2)"
    "datagrams h2 = datagrams h1 @ [write_data_message (g_s h1) datawriter_1 (le_bytes 4 (of_nat n :: u32))]"
    "g_s h2 = numbered (g_s h1)" "client_ok h2" "same_world h1 h2" "sends h2 = Suc (sends h1)"
    by (rule chatter_pass_exact[OF 1(2) assms(2)])
  have "net_ok h1 (sends h1)" using 1(3,4) Suc.prems(2) by (simp add: same_world_def)
  then show ?case
    by (intro Suc.prems(1)[of h2]) (use 1 2 in \<open>auto simp: same_world_def\<close>)
qed

section \<open>Lemmas: the trigger reply\<close>

lemma length_dec_digits: "n < 10 ^ Suc k \<Longrightarrow> length (dec_digits n) \<le> Suc k"
proof (induction k arbitrary: n)
  case 0
  then show ?case by (simp add: dec_digits.simps[of n])
next
  case (Suc k)
  then have "n div 10 < 10 ^ Suc k" by (simp add: less_mult_imp_div_less mult.commute)
  then show ?case using Suc.IH[of "n div 10"] by (simp add: dec_digits.simps[of n])
qed

lemma snprintf_fits:
  assumes "CHR 0x00 \<notin> set s" "length s < length a"
  shows "cstr (snprintf s a) = map of_char s @ [0]" "length (snprintf s a) = length a" "0 \<in> set (snprintf s a)"
proof -
  have z: "0 \<notin> set (map of_char s :: bytes)" using assms(1) of_char_zero by force
  have e: "snprintf s a = map of_char s @ [0] @ drop (Suc (length s)) a"
    using assms(2) by (simp add: snprintf_def blit_def)
  then show "length (snprintf s a) = length a" "0 \<in> set (snprintf s a)" using assms(2) by simp_all
  have "takeWhile (\<lambda>c. c \<noteq> 0) (map of_char s @ [0] @ drop (Suc (length s)) a) = (map of_char s :: bytes)"
    using z by (subst takeWhile_append2) auto
  then show "cstr (snprintf s a) = map of_char s @ [0]" unfolding e cstr_def by simp
qed

lemma reply_wire_image:
  assumes "take n buf = cdr_header @ body" "n = 4 + length body" "n \<le> length buf"
  shows "reply_wire ident buf n = (take 24 ident @ body, 24 + length body)"
proof -
  have "take (n - 4) (drop 4 buf) = drop 4 (take n buf)" by (simp add: drop_take)
  then show ?thesis using assms(1,2) by (simp add: reply_wire_def cdr_header_def)
qed

text \<open>The reply number \<open>i\<close> without its CDR header: the flag, padding, and the message as a counted string.\<close>

definition trigger_text :: "int \<Rightarrow> string" where
  "trigger_text i = ''self-test #'' @ dec_string i @ '' ok''"

definition trigger_body :: "int \<Rightarrow> bytes" where
  "trigger_body i = [1, 0, 0, 0] @ le_bytes 4 (of_nat (length (trigger_text i) + 1) :: u32) @ map of_char (trigger_text i) @ [0]"

lemma trigger_text_props:
  assumes "0 \<le> i" "i < 2 ^ 31"
  shows "length (trigger_text i) \<le> 24" "CHR 0x00 \<notin> set (trigger_text i)"
proof -
  have "nat i < 10 ^ Suc 9" using assms by simp
  then show "length (trigger_text i) \<le> 24"
    using length_dec_digits[of "nat i" 9] assms(1) by (simp add: trigger_text_def dec_string_def)
  show "CHR 0x00 \<notin> set (trigger_text i)" by (simp add: trigger_text_def dec_string_no_nul)
qed

lemma trigger_encode:
  assumes "0 \<le> i" "i < 2 ^ 31" "length resp = 512"
  shows "\<exists>buf. std_srvs_Trigger_Response_encode \<lparr>success = True, trigger_message = snprintf (trigger_text i) (replicate 256 0)\<rparr> resp 512 0 =
      (True, buf, 4 + length (trigger_body i)) \<and> take (4 + length (trigger_body i)) buf = cdr_header @ trigger_body i \<and>
      length buf = 512 \<and> length (trigger_body i) \<le> 40"
proof -
  note t = trigger_text_props[OF assms(1,2)]
  define m where "m = snprintf (trigger_text i) (replicate 256 0)"
  let ?r = "\<lparr>success = True, trigger_message = m\<rparr>"
  have sp: "cstr m = map of_char (trigger_text i) @ [0]" "chars 256 m"
    using snprintf_fits[of "trigger_text i" "replicate 256 0", folded m_def] t by (simp_all add: chars_def)
  have im: "trigger_response.image ?r = cdr_header @ trigger_body i"
    unfolding trigger_response.image_def
    by (simp add: wire_seq_def wire_bool_def wire_u8_def wire_string_def wire_u32_def wire_bytes_def padded_def sp(1) trigger_body_def)
      (simp add: numeral_3_eq_3)
  have l: "length (trigger_body i) \<le> 40" using t(1) by (simp add: trigger_body_def)
  have li: "length (trigger_response.image ?r) = 4 + length (trigger_body i)" by (simp add: im cdr_header_def)
  have "chars 256 (trigger_message ?r)" using sp(2) by simp
  from trigger_response.encode_fits[OF this, of 512 resp 0] assms(3) l li
  have "std_srvs_Trigger_Response_encode ?r resp 512 0 = (True, blit 0 (trigger_response.image ?r) resp, 4 + length (trigger_body i))"
    by simp
  moreover have "take (4 + length (trigger_body i)) (blit 0 (trigger_response.image ?r) resp) = cdr_header @ trigger_body i"
    unfolding li[symmetric] im by (simp add: blit_def)
  moreover have "length (blit 0 (trigger_response.image ?r) resp) = 512" by (rule trans[OF length_blit assms(3)]) (use l li assms(3) in simp)
  ultimately show ?thesis using l unfolding m_def by blast
qed

lemma service_replies:
  assumes "client_ok h" "length resp = 512" "0 \<le> c" "c + 1 < 2 ^ 31"
    and "d = take 256 (net_in h (recvs h))" "d \<noteq> []"
    and "xrce_session_parse_data d (length d) \<lparr>oid = 0, okind = 0\<rparr> [] 0 = (True, x, sample, k)" "24 \<le> k"
  obtains h' where "service_pass resp (c, h) = (c + 1, h')"
    "datagrams h' = datagrams h @ [write_data_message (g_s h) replier_1 (take 24 sample @ trigger_body (c + 1))]"
    "g_s h' = numbered (g_s h)" "client_ok h'" "recvs h' = Suc (recvs h)" "same_world h h'"
proof -
  have k: "length sample = k" using parse_data_sample[OF assms(7) order_refl] .
  have c: "0 \<le> c + 1" using assms(3) by simp
  obtain buf where e: "std_srvs_Trigger_Response_encode \<lparr>success = True, trigger_message = snprintf (trigger_text (c + 1)) (replicate 256 0)\<rparr> resp 512 0 =
      (True, buf, 4 + length (trigger_body (c + 1)))" "take (4 + length (trigger_body (c + 1))) buf = cdr_header @ trigger_body (c + 1)"
      "length buf = 512" "length (trigger_body (c + 1)) \<le> 40"
    using trigger_encode[OF c assms(4,2)] by blast
  let ?t = "trigger_body (c + 1)"
  have w: "reply_wire sample buf (4 + length ?t) = (take 24 sample @ ?t, 24 + length ?t)"
    by (rule reply_wire_image[OF e(2) refl]) (use e(3,4) in simp)
  let ?h = "put_line (''request #'' @ dec_string (c + 1) @ '' received -- replying'') (h\<lparr>recvs := Suc (recvs h)\<rparr>)"
  have ok: "client_ok ?h" using assms(1) by (simp add: client_ok_def)
  have lw: "24 + length ?t \<le> length (take 24 sample @ ?t)" "24 + length ?t \<le> 496" using k assms(8) e(4) by simp_all
  obtain mb where b: "xrce_session_build_write_data (g_s ?h) BEST_EFFORT_STREAM_0 replier_1 (take 24 sample @ ?t) (24 + length ?t) (msg_buf ?h) 512 =
        (16 + (24 + length ?t), numbered (g_s ?h), mb)"
      "take (16 + (24 + length ?t)) mb = write_data_message (g_s ?h) replier_1 (take (24 + length ?t) (take 24 sample @ ?t))" "length mb = 512"
    by (rule write_and_send[OF ok lw, of replier_1])
  let ?h2 = "snd (sendto mb (16 + (24 + length ?t)) (?h\<lparr>g_s := numbered (g_s h), msg_buf := mb\<rparr>))"
  have tk: "take (24 + length ?t) (take 24 sample @ ?t) = take 24 sample @ ?t" using k assms(8) by simp
  have "service_pass resp (c, h) =
      (c + 1, if net_ok h (sends h) then put_line (''reply #'' @ dec_string (c + 1) @ '' sent'') ?h2 else ?h2)"
    unfolding service_pass_def prod.case recv_def assms(5)[symmetric]
    using assms(6-8) e(1) w b(1) by (simp add: Let_def trigger_text_def sendto_def)
  then show ?thesis
    by (rule that) (use b(2,3) tk assms(1) in \<open>auto simp: client_ok_def same_world_def\<close>)
qed

text \<open>
  The trigger service answers every request. Whatever object it comes from, a DATA message with at least
  the 24 bytes of a sample identity is answered by exactly one datagram: the WRITE\_DATA message for the
  replier under the next numbers, with the identity of the request repeated and the text
  that counts the replies; and any other datagram, or none, is passed over without an answer.
\<close>

theorem trigger_service_exact:
  assumes "client_ok h" "length resp = 512" "0 \<le> c" "c + 1 < 2 ^ 31"
  shows "case xrce_session_parse_data (take 256 (net_in h (recvs h))) (min (length (net_in h (recvs h))) 256) \<lparr>oid = 0, okind = 0\<rparr> [] 0 of
     (ok, x, sample, k) \<Rightarrow>
       case service_pass resp (c, h) of (c', h') \<Rightarrow>
         if net_in h (recvs h) \<noteq> [] \<and> ok \<and> 24 \<le> k
         then c' = c + 1 \<and> g_s h' = numbered (g_s h) \<and>
           datagrams h' = datagrams h @ [write_data_message (g_s h) replier_1 (take 24 sample @ [1, 0, 0, 0] @
             le_bytes 4 (of_nat (length (trigger_text (c + 1)) + 1) :: u32) @ map of_char (trigger_text (c + 1)) @ [0])]
         else c' = c \<and> g_s h' = g_s h \<and> datagrams h' = datagrams h"
proof -
  define d where "d = take 256 (net_in h (recvs h))"
  have l: "min (length (net_in h (recvs h))) 256 = length d" by (simp add: d_def)
  obtain ok x sample k where p: "xrce_session_parse_data d (length d) \<lparr>oid = 0, okind = 0\<rparr> [] 0 = (ok, x, sample, k)"
    by (metis prod_cases4)
  show ?thesis
  proof (cases "net_in h (recvs h) \<noteq> [] \<and> ok \<and> 24 \<le> k")
    case True
    then have p': "xrce_session_parse_data d (length d) \<lparr>oid = 0, okind = 0\<rparr> [] 0 = (True, x, sample, k)"
      and a: "d \<noteq> []" "24 \<le> k" using p by (simp_all add: d_def)
    obtain h' where "service_pass resp (c, h) = (c + 1, h')"
        "datagrams h' = datagrams h @ [write_data_message (g_s h) replier_1 (take 24 sample @ trigger_body (c + 1))]"
        "g_s h' = numbered (g_s h)"
      by (rule service_replies[OF assms d_def a(1) p' a(2)])
    then show ?thesis using True p l unfolding d_def[symmetric] by (simp add: trigger_body_def)
  next
    case False
    then show ?thesis
      using p l unfolding d_def[symmetric]
      by (auto simp: service_pass_def recv_def d_def[symmetric])
  qed
qed

theorem trigger_service_exact_witness:
  "let d = message_bytes 1 1 0 [1, 2, 3, 4] XRCE_SUBMSG_DATA ([0, 7] @ object_id_bytes replier_1 @ replicate 24 0x5A);
       h = sample_host (\<lambda>_. d) in
   datagrams (snd (service_pass (replicate 512 0) (0, h))) = [write_data_message (g_s h) replier_1 (replicate 24 0x5A @ trigger_body 1)]"
proof -
  define smp where "smp = (replicate 24 0x5A :: bytes)"
  define d where "d = message_bytes 1 1 0 [1, 2, 3, 4] XRCE_SUBMSG_DATA ([0, 7] @ object_id_bytes replier_1 @ smp)"
  define h where "h = sample_host (\<lambda>_. d)"
  have ls: "length smp = 24" by (simp add: smp_def)
  have l: "length d = 40" by (simp add: d_def length_message object_id_bytes_def ls)
  have p: "xrce_session_parse_data d 40 \<lparr>oid = 0, okind = 0\<rparr> [] 0 = (True, replier_1, smp, 24)"
    using parse_data_message[of 1 "[1, 2, 3, 4]" replier_1 "[0, 7]" d 1 0 smp 40] l ls by (simp add: xrce_object_id_def d_def)
  have n: "net_in h (recvs h) = d" "datagrams h = []" "d \<noteq> []" using l by (auto simp: h_def sample_host_def)
  have ok: "client_ok h" by (simp add: h_def client_ok_def sample_host_def xrce_session_init_def)
  have "datagrams (snd (service_pass (replicate 512 0) (0, h))) = [write_data_message (g_s h) replier_1 (smp @ trigger_body 1)]"
    using trigger_service_exact[OF ok, of "replicate 512 0" 0] l p ls
    by (cases "service_pass (replicate 512 0) (0, h)") (simp add: n trigger_body_def)
  then show ?thesis unfolding Let_def h_def d_def smp_def .
qed

text \<open>
  The publishing program from start to end, with an agent that accepts its requests and a network that
  takes its datagrams: the five requests, then the counter from zero on, one WRITE\_DATA message
  each, all under consecutive numbers.
\<close>

lemma publish_demo_exact:
  assumes "length (msg_buf h) = 512" "length sample = 16" "n \<le> 2 ^ 31"
    and "s = xrce_session_init 1 [0xCA, 0xFE, 0xF0, 0x0D] 512" "script = publish_script ''rtos_demo'' ''rt/chatter''"
    and "\<forall>i < 5. step_passes (h\<lparr>g_s := s\<rparr>) script i" "\<forall>i < n. net_ok h (sends h + 5 + i)"
  shows "\<exists>h'. publish_main sample n 3 h = Running h' \<and>
     datagrams h' = datagrams h @ script_messages s (map fst script) @
       map (\<lambda>i. write_data_message ((numbered ^^ (4 + i)) s) datawriter_1 (le_bytes 4 (of_nat i :: u32))) [0..<n]"
proof -
  let ?h = "h\<lparr>g_s := s\<rparr>"
  have ok: "list_all request_ok (map fst script)" "client_ok ?h"
    using scripts_ok(1) client_ok_init[of "[0xCA, 0xFE, 0xF0, 0x0D]" h] assms(1,4,5) by simp_all
  have l: "length script = 5" using assms(5) by (simp add: publish_script_def)
  have 4: "script_session s (map fst script) = (numbered ^^ 4) s"
    using assms(5) by (simp add: publish_script_def after_request_def eval_nat_numeral)
  have lm: "length (script_messages s (map fst script)) = 5" using assms(5) by (simp add: publish_script_def)
  obtain k h1 where k: "k \<le> length script" "k < length script \<longrightarrow> \<not> step_passes ?h script k"
      "run_setup script ?h = (k = length script, h1)"
      "datagrams h1 = datagrams ?h @ take (Suc k) (script_messages (g_s ?h) (map fst script))"
      "g_s h1 = script_session (g_s ?h) (map fst (take (Suc k) script))" "client_ok h1" "same_world ?h h1"
      "k = length script \<longrightarrow> sends h1 = sends ?h + k"
    using run_setup_exact[OF ok] by blast
  have k5: "k = 5" using k(1,2) assms(6) l by (cases "k < 5") auto
  have net: "\<forall>i < n. net_ok h1 (sends h1 + i)" using k(7,8) k5 l assms(7) by (simp add: same_world_def)
  obtain h2 where 2: "chatter_loop sample n h1 = Running h2"
      "datagrams h2 = datagrams h1 @ map (\<lambda>i. write_data_message ((numbered ^^ i) (g_s h1)) datawriter_1 (le_bytes 4 (of_nat i :: u32))) [0..<n]"
    by (rule chatter_loop_exact[OF k(6) assms(2) net assms(3)])
  have g: "g_s h1 = (numbered ^^ 4) s" using k(5) k5 4 l by simp
  have "(numbered ^^ i) (g_s h1) = (numbered ^^ (4 + i)) s" for i
    unfolding g by (simp add: funpow_add[symmetric, THEN fun_cong, unfolded o_apply] add.commute)
  then show ?thesis
    using 2 k(3,4) k5 l lm assms(4,5) by (simp add: publish_main_def host_main_def)
qed

end
