(* ===== verification/Action_Server.thy ===== *)
theory Action_Server
  imports Host_Demos
begin

text \<open>
  \<^verbatim>\<open>host/live_action_demo.c\<close>: a Fibonacci action server for one goal at a time. Three repliers (send goal,
  cancel goal, get result) and two topics (feedback, status) over the XRCE session; a request for the
  result that arrives early is held and answered when the goal ends.

  The globals of the goal are the record \<open>goal_state\<close>, inside \<open>action_server\<close>, which extends the host. \<open>J n\<close> is
  what a local array of \<open>n\<close> bytes holds before it is written. One pass of the loop of \<^verbatim>\<open>main\<close> is
  \<open>serve_pass\<close>: at most one datagram is handled, then the goal advances if half a second has passed.
\<close>

section \<open>State\<close>

abbreviation STEP_INTERVAL_MS :: u64 where "STEP_INTERVAL_MS \<equiv> 500"
abbreviation GOAL_STATUS_ACCEPTED :: u8 where "GOAL_STATUS_ACCEPTED \<equiv> 1"
abbreviation GOAL_STATUS_EXECUTING :: u8 where "GOAL_STATUS_EXECUTING \<equiv> 2"
abbreviation GOAL_STATUS_CANCELING :: u8 where "GOAL_STATUS_CANCELING \<equiv> 3"
abbreviation GOAL_STATUS_SUCCEEDED :: u8 where "GOAL_STATUS_SUCCEEDED \<equiv> 4"
abbreviation GOAL_STATUS_CANCELED :: u8 where "GOAL_STATUS_CANCELED \<equiv> 5"

record goal_state =
  g_goal_active :: bool
  g_goal_done :: bool
  g_cancel_requested :: bool
  g_goal_id :: bytes
  g_order :: u32
  g_feedback :: example_interfaces_Fibonacci_Result
  g_status :: u8
  g_last_step_ms :: u64
  g_result_pending :: bool
  g_result_sample_identity :: bytes

record action_server = host +
  goal :: goal_state

definition goal_init :: goal_state where
  "goal_init = \<lparr>g_goal_active = False, g_goal_done = False, g_cancel_requested = False, g_goal_id = replicate 16 0, g_order = 0,
     g_feedback = \<lparr>fib_sequence = replicate 16 0, sequence_count = 0\<rparr>, g_status = 0, g_last_step_ms = 0,
     g_result_pending = False, g_result_sample_identity = replicate 24 0\<rparr>"

abbreviation set_goal :: "(goal_state \<Rightarrow> goal_state) \<Rightarrow> action_server \<Rightarrow> action_server" where
  "set_goal f h \<equiv> h\<lparr>goal := f (goal h)\<rparr>"

section \<open>Sending\<close>

definition send_write_data :: "(nat \<Rightarrow> bytes) \<Rightarrow> object_id \<Rightarrow> bytes \<Rightarrow> nat \<Rightarrow> action_server \<Rightarrow> action_server" where
  "send_write_data J writer_id payload_with_header payload_len h =
     (case xrce_session_build_write_data (g_s h) BEST_EFFORT_STREAM_0 writer_id (drop 4 payload_with_header) (payload_len - 4) (J 512) 512 of
        (len, s, buf) \<Rightarrow> snd (sendto buf len (h\<lparr>g_s := s\<rparr>)))"

definition send_reply :: "(nat \<Rightarrow> bytes) \<Rightarrow> object_id \<Rightarrow> bytes \<Rightarrow> bytes \<Rightarrow> nat \<Rightarrow> action_server \<Rightarrow> action_server" where
  "send_reply J replier_id sample_identity payload_with_header payload_len h =
     (case reply_wire sample_identity payload_with_header payload_len of
        (wire, wire_len) \<Rightarrow>
          (case xrce_session_build_write_data (g_s h) BEST_EFFORT_STREAM_0 replier_id wire wire_len
                  (J (XRCE_SAMPLE_IDENTITY_SIZE + 512)) (XRCE_SAMPLE_IDENTITY_SIZE + 512) of
             (len, s, buf) \<Rightarrow> snd (sendto buf len (h\<lparr>g_s := s\<rparr>))))"

section \<open>The handlers\<close>

abbreviation zero_time :: builtin_interfaces_Time where "zero_time \<equiv> \<lparr>sec = 0, nanosec = 0\<rparr>"
abbreviation zero_goal_info :: action_msgs_GoalInfo where "zero_goal_info \<equiv> \<lparr>goal_id = replicate 16 0, goal_stamp = zero_time\<rparr>"

definition status_array :: "goal_state \<Rightarrow> action_msgs_GoalStatusArray" where
  "status_array g =
     \<lparr>status_list = \<lparr>goal_info = zero_goal_info\<lparr>goal_id := g_goal_id g\<rparr>, status = g_status g\<rparr> #
        replicate 7 \<lparr>goal_info = zero_goal_info, status = 0\<rparr>,
      status_list_count = 1\<rparr>"

definition publish_status :: "(nat \<Rightarrow> bytes) \<Rightarrow> object_id \<Rightarrow> action_server \<Rightarrow> action_server" where
  "publish_status J status_writer_id h =
     (if \<not> g_goal_active (goal h) then h
      else
        (case action_msgs_GoalStatusArray_encode (status_array (goal h)) (J 256) 256 0 of
           (ok, buf, len) \<Rightarrow> if ok then send_write_data J status_writer_id buf len h else h))"

definition handle_send_goal ::
  "(nat \<Rightarrow> bytes) \<Rightarrow> object_id \<Rightarrow> bytes \<Rightarrow> bytes \<Rightarrow> nat \<Rightarrow> object_id \<Rightarrow> action_server \<Rightarrow> action_server" where
  "handle_send_goal J replier_id sample_identity request_bytes request_len status_writer_id h =
     (if request_len < XRCE_MSGS_UUID_SIZE + 4 then h
      else
        (let req_goal_id = take XRCE_MSGS_UUID_SIZE request_bytes;
             req_order = ucast (request_bytes ! 16) OR push_bit 8 (ucast (request_bytes ! 17)) OR
               push_bit 16 (ucast (request_bytes ! 18)) OR push_bit 24 (ucast (request_bytes ! 19));
             h = put_line (''send_goal request: order='' @ dec_string (sint req_order)) h;
             can_accept = (\<not> g_goal_active (goal h) \<or> g_goal_done (goal h)) in
         case example_interfaces_Fibonacci_SendGoal_Response_encode \<lparr>accepted = can_accept, accept_stamp = zero_time\<rparr> (J 64) 64 0 of
           (_, resp_buf, resp_len) \<Rightarrow>
             (let h = send_reply J replier_id sample_identity resp_buf resp_len h in
              if \<not> can_accept then put_line ''send_goal rejected: a goal is already running'' h
              else
                (let h = set_goal (\<lambda>g. g\<lparr>g_goal_active := True, g_goal_done := False, g_cancel_requested := False,
                       g_goal_id := req_goal_id, g_order := req_order, g_feedback := (g_feedback g)\<lparr>sequence_count := 0\<rparr>,
                       g_status := GOAL_STATUS_ACCEPTED\<rparr>) h in
                 case now_ms h of
                   (now, h) \<Rightarrow>
                     put_line (''goal accepted, running Fibonacci('' @ dec_string (sint req_order) @ '')'')
                       (publish_status J status_writer_id (set_goal (\<lambda>g. g\<lparr>g_last_step_ms := now\<rparr>) h))))))"

definition handle_cancel_goal ::
  "(nat \<Rightarrow> bytes) \<Rightarrow> object_id \<Rightarrow> bytes \<Rightarrow> nat \<Rightarrow> object_id \<Rightarrow> action_server \<Rightarrow> action_server" where
  "handle_cancel_goal J replier_id sample_identity request_len status_writer_id h =
     (if request_len < XRCE_MSGS_UUID_SIZE then h
      else
        (let resp = \<lparr>return_code = 0, goals_canceling = replicate 8 zero_goal_info, goals_canceling_count = 0\<rparr> in
         case (if g_goal_active (goal h) \<and> \<not> g_goal_done (goal h)
               then
                 (let resp = resp\<lparr>return_code := 0, goals_canceling_count := 1,
                        goals_canceling := (goals_canceling resp)[0 := zero_goal_info\<lparr>goal_id := g_goal_id (goal h)\<rparr>]\<rparr>;
                      h = set_goal (\<lambda>g. g\<lparr>g_cancel_requested := True, g_status := GOAL_STATUS_CANCELING\<rparr>) h
                  in (resp, put_line ''cancel request accepted'' (publish_status J status_writer_id h)))
               else (resp\<lparr>return_code := 2\<rparr>, put_line ''cancel request rejected: no active goal'' h)) of
           (resp, h) \<Rightarrow>
             (case action_msgs_CancelGoal_Response_encode resp (J 256) 256 0 of
                (_, resp_buf, resp_len) \<Rightarrow> send_reply J replier_id sample_identity resp_buf resp_len h)))"

definition reply_result :: "(nat \<Rightarrow> bytes) \<Rightarrow> object_id \<Rightarrow> bytes \<Rightarrow> action_server \<Rightarrow> action_server" where
  "reply_result J replier_id sample_identity h =
     (let resp = \<lparr>result_status = g_status (goal h), result = g_feedback (goal h)\<rparr> in
      case example_interfaces_Fibonacci_GetResult_Response_encode resp (J 256) 256 0 of
        (_, resp_buf, resp_len) \<Rightarrow>
          put_line (''get_result replied: status='' @ dec_string (sint (result_status resp)) @ '', '' @
              dec_digits (unat (sequence_count (result resp))) @ '' values'')
            (send_reply J replier_id sample_identity resp_buf resp_len h))"

definition handle_get_result :: "(nat \<Rightarrow> bytes) \<Rightarrow> object_id \<Rightarrow> bytes \<Rightarrow> nat \<Rightarrow> action_server \<Rightarrow> action_server" where
  "handle_get_result J replier_id sample_identity request_len h =
     (if request_len < XRCE_MSGS_UUID_SIZE then h
      else if \<not> g_goal_done (goal h)
      then put_line ''get_result request received, goal not finished yet -- holding until it is''
             (set_goal (\<lambda>g. g\<lparr>g_result_pending := True,
                g_result_sample_identity := take XRCE_SAMPLE_IDENTITY_SIZE sample_identity\<rparr>) h)
      else reply_result J replier_id sample_identity h)"

definition maybe_reply_pending_result :: "(nat \<Rightarrow> bytes) \<Rightarrow> object_id \<Rightarrow> action_server \<Rightarrow> action_server" where
  "maybe_reply_pending_result J get_result_replier_id h =
     (if g_result_pending (goal h) \<and> g_goal_done (goal h)
      then set_goal (\<lambda>g. g\<lparr>g_result_pending := False\<rparr>)
             (reply_result J get_result_replier_id (g_result_sample_identity (goal h)) h)
      else h)"

text \<open>
  The sequence is signed in the source; the sums stay below \<^verbatim>\<open>2^31\<close>, as the invariant below shows, so that
  the addition of the bit patterns is the addition of the source.
\<close>

definition next_value :: "example_interfaces_Fibonacci_Result \<Rightarrow> u32" where
  "next_value fb =
     (if sequence_count fb < 2 then sequence_count fb
      else fib_sequence fb ! unat (sequence_count fb - 1) + fib_sequence fb ! unat (sequence_count fb - 2))"

definition push_value :: "example_interfaces_Fibonacci_Result \<Rightarrow> example_interfaces_Fibonacci_Result" where
  "push_value fb =
     \<lparr>fib_sequence = (fib_sequence fb)[unat (sequence_count fb) := next_value fb], sequence_count = sequence_count fb + 1\<rparr>"

text \<open>The tail of \<^verbatim>\<open>step_goal\<close>, once a step is due.\<close>

definition advance_goal :: "(nat \<Rightarrow> bytes) \<Rightarrow> object_id \<Rightarrow> object_id \<Rightarrow> object_id \<Rightarrow> action_server \<Rightarrow> action_server" where
  "advance_goal J feedback_writer_id status_writer_id get_result_replier_id h =
     (if g_cancel_requested (goal h)
      then
        (let h = set_goal (\<lambda>g. g\<lparr>g_status := GOAL_STATUS_CANCELED, g_goal_done := True\<rparr>) h;
             h = publish_status J status_writer_id h;
             h = put_line (''goal canceled after '' @ dec_digits (unat (sequence_count (g_feedback (goal h)))) @ '' values'') h
         in maybe_reply_pending_result J get_result_replier_id h)
      else
        (let next = next_value (g_feedback (goal h));
             h = set_goal (\<lambda>g. g\<lparr>g_feedback := push_value (g_feedback g)\<rparr>) h;
             fb = \<lparr>feedback_goal_id = g_goal_id (goal h), feedback = g_feedback (goal h)\<rparr>;
             h = (case example_interfaces_Fibonacci_FeedbackMessage_encode fb (J 256) 256 0 of
                    (ok, buf, len) \<Rightarrow> if ok then send_write_data J feedback_writer_id buf len h else h);
             h = put_line (''feedback: '' @ dec_digits (unat (sequence_count (g_feedback (goal h)))) @ '' values, last='' @
                   dec_string (sint next)) h;
             h = set_goal (\<lambda>g. g\<lparr>g_status := GOAL_STATUS_EXECUTING\<rparr>) h;
             h = publish_status J status_writer_id h
         in if sequence_count (g_feedback (goal h)) \<ge> g_order (goal h) \<or>
               unat (sequence_count (g_feedback (goal h))) \<ge> XRCE_MSGS_SEQ_I32_MAX
            then
              (let h = set_goal (\<lambda>g. g\<lparr>g_status := GOAL_STATUS_SUCCEEDED, g_goal_done := True\<rparr>) h;
                   h = publish_status J status_writer_id h;
                   h = put_line (''goal succeeded: '' @ dec_digits (unat (sequence_count (g_feedback (goal h)))) @ '' values'') h
               in maybe_reply_pending_result J get_result_replier_id h)
            else h))"

definition step_goal :: "(nat \<Rightarrow> bytes) \<Rightarrow> object_id \<Rightarrow> object_id \<Rightarrow> object_id \<Rightarrow> action_server \<Rightarrow> action_server" where
  "step_goal J feedback_writer_id status_writer_id get_result_replier_id h =
     (if \<not> g_goal_active (goal h) \<or> g_goal_done (goal h) then h
      else
        (case now_ms h of
           (now, h) \<Rightarrow>
             if now - g_last_step_ms (goal h) < STEP_INTERVAL_MS then h
             else
               (case now_ms h of
                  (now, h) \<Rightarrow>
                    advance_goal J feedback_writer_id status_writer_id get_result_replier_id (set_goal (\<lambda>g. g\<lparr>g_last_step_ms := now\<rparr>) h))))"

section \<open>The main program\<close>

abbreviation send_goal_replier :: object_id where "send_goal_replier \<equiv> xrce_object_id 1 XRCE_OBJK_REPLIER"
abbreviation cancel_goal_replier :: object_id where "cancel_goal_replier \<equiv> xrce_object_id 2 XRCE_OBJK_REPLIER"
abbreviation get_result_replier :: object_id where "get_result_replier \<equiv> xrce_object_id 3 XRCE_OBJK_REPLIER"
abbreviation feedback_writer :: object_id where "feedback_writer \<equiv> xrce_object_id 1 XRCE_OBJK_DATAWRITER"
abbreviation status_writer :: object_id where "status_writer \<equiv> xrce_object_id 2 XRCE_OBJK_DATAWRITER"
abbreviation status_topic :: object_id where "status_topic \<equiv> xrce_object_id 2 XRCE_OBJK_TOPIC"

definition action_script :: "setup_step list" where
  "action_script =
     [create_client_step,
      create_step ''CREATE participant'' (Create_participant participant_1 (participant_xml ''rtos_action_demo'')),
      create_step ''CREATE send_goal replier'' (Create_xml send_goal_replier participant_1
        (replier_xml ''fib_send_goal'' ''fibonacci/_action/send_goal'' ''example_interfaces::action::dds_::Fibonacci_SendGoal_Request_''
          ''example_interfaces::action::dds_::Fibonacci_SendGoal_Response_'')),
      create_step ''CREATE cancel_goal replier'' (Create_xml cancel_goal_replier participant_1
        (replier_xml ''fib_cancel_goal'' ''fibonacci/_action/cancel_goal'' ''action_msgs::srv::dds_::CancelGoal_Request_''
          ''action_msgs::srv::dds_::CancelGoal_Response_'')),
      create_step ''CREATE get_result replier'' (Create_xml get_result_replier participant_1
        (replier_xml ''fib_get_result'' ''fibonacci/_action/get_result'' ''example_interfaces::action::dds_::Fibonacci_GetResult_Request_''
          ''example_interfaces::action::dds_::Fibonacci_GetResult_Response_'')),
      create_step ''CREATE publisher'' (Create_xml publisher_1 participant_1 ''''),
      create_step ''CREATE feedback topic'' (Create_xml topic_1 participant_1
        (host_topic_xml ''rt/fibonacci/_action/feedback'' ''example_interfaces::action::dds_::Fibonacci_FeedbackMessage_'')),
      create_step ''CREATE feedback datawriter'' (Create_xml feedback_writer publisher_1
        (host_endpoint_xml ''data_writer'' ''rt/fibonacci/_action/feedback'' ''example_interfaces::action::dds_::Fibonacci_FeedbackMessage_'')),
      create_step ''CREATE status topic'' (Create_xml status_topic participant_1
        (host_topic_xml ''rt/fibonacci/_action/status'' ''action_msgs::msg::dds_::GoalStatusArray_'')),
      create_step ''CREATE status datawriter'' (Create_xml status_writer publisher_1
        (host_endpoint_xml ''data_writer'' ''rt/fibonacci/_action/status'' ''action_msgs::msg::dds_::GoalStatusArray_'')),
      (Read_data send_goal_replier, Just_send),
      (Read_data cancel_goal_replier, Just_send),
      (Read_data get_result_replier, Just_send)]"

text \<open>The first half of a pass: the datagram that \<^verbatim>\<open>recv\<close> returned.\<close>

definition dispatch :: "(nat \<Rightarrow> bytes) \<Rightarrow> bytes \<Rightarrow> action_server \<Rightarrow> action_server" where
  "dispatch J d h =
     (if d = [] then h
      else
        (case xrce_session_parse_data d (length d) \<lparr>oid = 0, okind = 0\<rparr> [] 0 of
           (ok, from_id, sample, sample_len) \<Rightarrow>
             if ok \<and> sample_len \<ge> XRCE_SAMPLE_IDENTITY_SIZE
             then
               (let sample_identity = sample;
                    req_bytes = drop XRCE_SAMPLE_IDENTITY_SIZE sample;
                    req_len = sample_len - XRCE_SAMPLE_IDENTITY_SIZE in
                if oid from_id = oid send_goal_replier \<and> okind from_id = XRCE_OBJK_REPLIER
                then handle_send_goal J send_goal_replier sample_identity req_bytes req_len status_writer h
                else if oid from_id = oid cancel_goal_replier \<and> okind from_id = XRCE_OBJK_REPLIER
                then handle_cancel_goal J cancel_goal_replier sample_identity req_len status_writer h
                else if oid from_id = oid get_result_replier \<and> okind from_id = XRCE_OBJK_REPLIER
                then handle_get_result J get_result_replier sample_identity req_len h
                else h)
             else h))"

definition serve_pass :: "(nat \<Rightarrow> bytes) \<Rightarrow> action_server \<Rightarrow> action_server" where
  "serve_pass J h =
     (case recv 512 h of (d, h) \<Rightarrow> step_goal J feedback_writer status_writer get_result_replier (dispatch J d h))"

definition action_main :: "(nat \<Rightarrow> bytes) \<Rightarrow> nat \<Rightarrow> nat \<Rightarrow> action_server \<Rightarrow> action_server outcome" where
  "action_main J n argc h =
     host_main [0xAC, 0x71, 0x0A, 0x01] action_script (\<lambda>h. Running ((serve_pass J ^^ n) h)) argc (h\<lparr>goal := goal_init\<rparr>)"

lemma action_script_ok: "list_all request_ok (map fst action_script)"
  by (simp add: action_script_def request_ok_def participant_xml_def host_topic_xml_def host_endpoint_xml_def replier_xml_def)

section \<open>Lemmas: what is sent\<close>

definition locals_ok :: "(nat \<Rightarrow> bytes) \<Rightarrow> bool" where
  "locals_ok J \<longleftrightarrow> (\<forall>n. length (J n) = n)"

definition session_ok :: "'a host_scheme \<Rightarrow> bool" where
  "session_ok h \<longleftrightarrow> length (client_key (g_s h)) = 4"

text \<open>Sending one WRITE\_DATA message.\<close>

definition emit :: "object_id \<Rightarrow> bytes \<Rightarrow> action_server \<Rightarrow> action_server" where
  "emit x body h = h\<lparr>g_s := numbered (g_s h), sends := Suc (sends h), datagrams := datagrams h @ [write_data_message (g_s h) x body]\<rparr>"

lemma emit_simps [simp]:
  "goal (emit x b h) = goal h" "session_ok (emit x b h) = session_ok h" "clock_reads (emit x b h) = clock_reads h"
  "recvs (emit x b h) = recvs h" "net_in (emit x b h) = net_in h" "net_clock (emit x b h) = net_clock h" "net_ok (emit x b h) = net_ok h"
  "g_s (emit x b h) = numbered (g_s h)" "datagrams (emit x b h) = datagrams h @ [write_data_message (g_s h) x b]"
  by (simp_all add: emit_def session_ok_def)

lemma server_put_line [simp]: "goal (put_line t h) = goal h" "session_ok (put_line t h) = session_ok h"
  by (simp_all add: put_line_def session_ok_def)

lemma set_goal_session [simp]: "session_ok (h\<lparr>goal := g\<rparr>) = session_ok h"
  by (simp add: session_ok_def)

lemma send_write_data_exact:
  assumes "locals_ok J" "session_ok h" "take (4 + length body) p = cdr_header @ body" "4 + length body \<le> length p" "length body \<le> 496"
  shows "send_write_data J x p (4 + length body) h = emit x body h"
proof -
  have key: "length (client_key (g_s h)) = 4" "length (J 512) = 512" using assms(1,2) by (simp_all add: locals_ok_def session_ok_def)
  have d: "take (length body) (drop 4 p) = body" using assms(3) by (simp add: take_drop cdr_header_def add.commute)
  have n: "length body \<le> length (drop 4 p)" "16 + length body \<le> 512" using assms(4,5) by simp_all
  note w = write_data_fits[OF key n, of x]
  show ?thesis
    unfolding send_write_data_def emit_def sendto_def using w d by simp
qed

lemma send_reply_exact:
  assumes "locals_ok J" "session_ok h" "take (4 + length body) p = cdr_header @ body" "4 + length body \<le> length p" "length body \<le> 496"
    and "24 \<le> length ident"
  shows "send_reply J x ident p (4 + length body) h = emit x (take 24 ident @ body) h"
proof -
  have key: "length (client_key (g_s h)) = 4" "length (J 536) = 536" using assms(1,2) by (simp_all add: locals_ok_def session_ok_def)
  note r = reply_wire_image[OF assms(3) refl assms(4), of ident]
  have n: "24 + length body \<le> length (take 24 ident @ body)" "16 + (24 + length body) \<le> 536" using assms(5,6) by simp_all
  have tk: "take (24 + length body) (take 24 ident @ body) = take 24 ident @ body" using assms(6) by simp
  note w = write_data_fits[OF key n, of x, unfolded tk]
  show ?thesis
    unfolding send_reply_def emit_def sendto_def using w r by simp
qed

text \<open>The bodies of the messages, byte for byte.\<close>

definition status_bytes :: "goal_state \<Rightarrow> bytes" where
  "status_bytes g = [1, 0, 0, 0] @ g_goal_id g @ replicate 8 0 @ [g_status g]"

definition values_bytes :: "u32 list \<Rightarrow> bytes" where
  "values_bytes vs = le_bytes 4 (of_nat (length vs) :: u32) @ concat (map (le_bytes 4) vs)"

definition fib_values :: "example_interfaces_Fibonacci_Result \<Rightarrow> u32 list" where
  "fib_values fb = take (unat (sequence_count fb)) (fib_sequence fb)"

definition result_bytes :: "goal_state \<Rightarrow> bytes" where
  "result_bytes g = [g_status g, 0, 0, 0] @ values_bytes (fib_values (g_feedback g))"

definition feedback_bytes :: "goal_state \<Rightarrow> bytes" where
  "feedback_bytes g = g_goal_id g @ values_bytes (fib_values (g_feedback g))"

definition accept_bytes :: "bool \<Rightarrow> bytes" where
  "accept_bytes b = [if b then 1 else 0, 0, 0, 0] @ replicate 8 0"

definition cancel_bytes :: "goal_state option \<Rightarrow> bytes" where
  "cancel_bytes g = (case g of None \<Rightarrow> [2, 0, 0, 0, 0, 0, 0, 0] | Some g \<Rightarrow> [0, 0, 0, 0, 1, 0, 0, 0] @ g_goal_id g @ replicate 8 0)"

lemma length_concat_le: "length (concat (map (le_bytes 4) vs)) = 4 * length vs"
  by (induction vs) simp_all

lemma wire_all_u32: "off mod 4 = 0 \<Longrightarrow> wire_all (map wire_u32 vs) off = concat (map (le_bytes 4) vs)"
proof (induction vs arbitrary: off)
  case (Cons v vs)
  have "(off + 4) mod 4 = 0" using Cons.prems by simp
  then show ?case using Cons by (simp add: wire_seq_def wire_u32_def padded_def)
qed simp

lemma aligned_4: "(off + ((4 - off mod 4) mod 4 + 4)) mod 4 = (0 :: nat)"
proof -
  define q r where "q = off div 4" and "r = off mod 4"
  have o: "off = 4 * q + r" "r = 0 \<or> r = 1 \<or> r = 2 \<or> r = 3" unfolding q_def r_def by auto
  have "(4 * q + r + ((4 - r) mod 4 + 4)) mod 4 = 0" using o(2) by (elim disjE) simp_all
  then show ?thesis unfolding r_def[symmetric] unfolding o(1) .
qed

lemma wire_values: "wire_result fb off = replicate ((4 - off mod 4) mod 4) 0 @ values_bytes (fib_values fb)"
proof -
  let ?vs = "take (unat (sequence_count fb)) (fib_sequence fb)" and ?p = "(4 - off mod 4) mod 4"
  have u: "wire_u32 v off = replicate ?p 0 @ le_bytes 4 v" for v by (simp only: wire_u32_def padded_def)
  have l: "length (replicate ?p (0 :: u8) @ le_bytes 4 (v :: u32)) = ?p + 4" for v by simp
  have "wire_result fb off = (replicate ?p 0 @ le_bytes 4 (of_nat (length ?vs) :: u32)) @ wire_all (map wire_u32 ?vs) (off + (?p + 4))"
    unfolding wire_result_def wire_array_def wire_seq_def u l ..
  then show ?thesis unfolding wire_all_u32[OF aligned_4] values_bytes_def fib_values_def by (simp only: append_assoc)
qed

lemma le_bytes_4_small: "le_bytes 4 (0 :: u32) = replicate 4 0" "le_bytes 4 (1 :: u32) = [1, 0, 0, 0]"
  by code_simp+

lemma replicate_small: "replicate 3 x = [x, x, x]" "replicate 4 x = [x, x, x, x]" "replicate 8 x = [x, x, x, x, x, x, x, x]"
  by (simp_all add: eval_nat_numeral)

lemma length_values: "length vs \<le> 16 \<Longrightarrow> length (values_bytes vs) \<le> 68"
  by (simp add: values_bytes_def length_concat_le)

text \<open>The part of the invariant that the encoders rely on.\<close>

definition goal_typed :: "goal_state \<Rightarrow> bool" where
  "goal_typed g \<longleftrightarrow> length (g_goal_id g) = 16 \<and> length (fib_sequence (g_feedback g)) = 16 \<and>
     unat (sequence_count (g_feedback g)) \<le> 16 \<and> length (g_result_sample_identity g) = 24"

lemma typed_values: "goal_typed g \<Longrightarrow> length (fib_values (g_feedback g)) \<le> 16"
  by (simp add: goal_typed_def fib_values_def)

lemma status_wire: "goal_typed g \<Longrightarrow> wire_goal_status_array (status_array g) 0 = status_bytes g"
  by (simp add: wire_goal_status_array_def wire_array_def status_array_def wire_goal_status_def wire_goal_info_def wire_seq_def
      wire_u32_def wire_bytes_def wire_u8_def padded_def status_bytes_def goal_typed_def le_bytes_4_small replicate_small)

lemma publish_status_exact:
  assumes "locals_ok J" "session_ok h" "goal_typed (goal h)"
  shows "publish_status J w h = (if g_goal_active (goal h) then emit w (status_bytes (goal h)) h else h)"
proof (cases "g_goal_active (goal h)")
  case True
  let ?b = "status_bytes (goal h)"
  have enc: "gsa_encodable (status_array (goal h))" using assms(3)
    by (simp add: gsa_encodable_def status_array_def array_ok_def goal_status_ok_def goal_info_ok_def goal_typed_def list_all_iff)
  have lb: "length ?b = 29" using assms(3) by (simp add: status_bytes_def goal_typed_def)
  obtain b where b: "action_msgs_GoalStatusArray_encode (status_array (goal h)) (J 256) 256 0 = (True, b, 4 + length ?b)"
      "take (4 + length ?b) b = cdr_header @ ?b" "length b = 256"
    by (rule goal_status_array.encode_body[OF enc _ status_wire[OF assms(3)], of "J 256" 256 0])
      (use assms(1) lb in \<open>simp_all add: locals_ok_def\<close>)
  have "send_write_data J w b (4 + length ?b) h = emit w ?b h"
    by (rule send_write_data_exact[OF assms(1,2) b(2)]) (use b(3) lb in simp_all)
  then show ?thesis using True b(1) by (simp add: publish_status_def)
qed (simp add: publish_status_def)

lemma reply_result_exact:
  assumes "locals_ok J" "session_ok h" "goal_typed (goal h)" "24 \<le> length ident"
  obtains t where "reply_result J x ident h = put_line t (emit x (take 24 ident @ result_bytes (goal h)) h)"
proof -
  let ?b = "result_bytes (goal h)"
  let ?r = "\<lparr>result_status = g_status (goal h), result = g_feedback (goal h)\<rparr>"
  have enc: "result_encodable (result ?r)" using assms(3) by (simp add: result_encodable_def result_target_def goal_typed_def)
  have w: "wire_all [wire_u8 (result_status ?r), wire_result (result ?r)] 0 = ?b"
    by (simp add: wire_seq_def wire_u8_def result_bytes_def wire_values replicate_small)
  have lb: "length ?b \<le> 72" using length_values[OF typed_values[OF assms(3)]] by (simp add: result_bytes_def)
  obtain b where b: "example_interfaces_Fibonacci_GetResult_Response_encode ?r (J 256) 256 0 = (True, b, 4 + length ?b)"
      "take (4 + length ?b) b = cdr_header @ ?b" "length b = 256"
    by (rule get_result_response.encode_body[OF enc _ w, of "J 256" 256 0]) (use assms(1) lb in \<open>simp_all add: locals_ok_def\<close>)
  have "send_reply J x ident b (4 + length ?b) h = emit x (take 24 ident @ ?b) h"
    by (rule send_reply_exact[OF assms(1,2) b(2) _ _ assms(4)]) (use b(3) lb in simp_all)
  then show ?thesis using that b(1) by (simp add: reply_result_def)
qed

lemma accept_exact:
  assumes "locals_ok J" "session_ok h" "24 \<le> length ident"
  shows "case example_interfaces_Fibonacci_SendGoal_Response_encode \<lparr>accepted = b, accept_stamp = zero_time\<rparr> (J 64) 64 0 of
     (_, resp_buf, resp_len) \<Rightarrow> send_reply J x ident resp_buf resp_len h = emit x (take 24 ident @ accept_bytes b) h"
proof -
  let ?m = "\<lparr>accepted = b, accept_stamp = zero_time\<rparr>"
  have w: "wire_all [wire_bool (accepted ?m), wire_u32 (sec (accept_stamp ?m)), wire_u32 (nanosec (accept_stamp ?m))] 0 = accept_bytes b"
    by (simp add: wire_seq_def wire_bool_def wire_u32_def padded_def accept_bytes_def le_bytes_4_small replicate_small)
  have lb: "length (accept_bytes b) = 12" by (simp add: accept_bytes_def)
  obtain bf where b: "example_interfaces_Fibonacci_SendGoal_Response_encode ?m (J 64) 64 0 = (True, bf, 4 + length (accept_bytes b))"
      "take (4 + length (accept_bytes b)) bf = cdr_header @ accept_bytes b" "length bf = 64"
    by (rule send_goal_response.encode_body[OF TrueI _ w, of "J 64" 64 0]) (use assms(1) lb in \<open>simp_all add: locals_ok_def\<close>)
  have "send_reply J x ident bf (4 + length (accept_bytes b)) h = emit x (take 24 ident @ accept_bytes b) h"
    by (rule send_reply_exact[OF assms(1,2) b(2) _ _ assms(3)]) (use b(3) lb in simp_all)
  then show ?thesis using b(1) by simp
qed

lemma cancel_exact:
  assumes "locals_ok J" "session_ok h" "24 \<le> length ident" "cgr_encodable m" "wire_cancel_goal_response m 0 = body" "length body \<le> 100"
  shows "case action_msgs_CancelGoal_Response_encode m (J 256) 256 0 of
     (_, resp_buf, resp_len) \<Rightarrow> send_reply J x ident resp_buf resp_len h = emit x (take 24 ident @ body) h"
proof -
  obtain bf where b: "action_msgs_CancelGoal_Response_encode m (J 256) 256 0 = (True, bf, 4 + length body)"
      "take (4 + length body) bf = cdr_header @ body" "length bf = 256"
    by (rule cancel_goal_response.encode_body[OF assms(4) _ assms(5), of "J 256" 256 0]) (use assms(1,6) in \<open>simp_all add: locals_ok_def\<close>)
  have "send_reply J x ident bf (4 + length body) h = emit x (take 24 ident @ body) h"
    by (rule send_reply_exact[OF assms(1,2) b(2) _ _ assms(3)]) (use b(3) assms(6) in simp_all)
  then show ?thesis using b(1) by simp
qed

lemma cancel_wire:
  "wire_cancel_goal_response \<lparr>return_code = 2, goals_canceling = replicate 8 zero_goal_info, goals_canceling_count = 0\<rparr> 0 = cancel_bytes None"
  "length (g_goal_id g) = 16 \<Longrightarrow> wire_cancel_goal_response \<lparr>return_code = 0,
     goals_canceling = (replicate 8 zero_goal_info)[0 := zero_goal_info\<lparr>goal_id := g_goal_id g\<rparr>], goals_canceling_count = 1\<rparr> 0 = cancel_bytes (Some g)"
  by (simp_all add: wire_cancel_goal_response_def wire_seq_def wire_u8_def wire_array_def wire_u32_def padded_def wire_goal_info_def
      wire_bytes_def cancel_bytes_def le_bytes_4_small replicate_small)

lemma feedback_exact:
  assumes "locals_ok J" "session_ok h" "goal_typed g"
  shows "(case example_interfaces_Fibonacci_FeedbackMessage_encode \<lparr>feedback_goal_id = g_goal_id g, feedback = g_feedback g\<rparr> (J 256) 256 0 of
     (ok, buf, len) \<Rightarrow> if ok then send_write_data J x buf len h else h) = emit x (feedback_bytes g) h"
proof -
  let ?b = "feedback_bytes g"
  let ?m = "\<lparr>feedback_goal_id = g_goal_id g, feedback = g_feedback g\<rparr>"
  have enc: "length (feedback_goal_id ?m) = 16 \<and> result_encodable (feedback ?m)"
    using assms(3) by (simp add: result_encodable_def result_target_def goal_typed_def)
  have w: "wire_all [wire_bytes (feedback_goal_id ?m), wire_result (feedback ?m)] 0 = ?b"
    using assms(3) by (simp add: wire_seq_def wire_bytes_def feedback_bytes_def wire_values goal_typed_def)
  have lb: "length ?b \<le> 84" using length_values[OF typed_values[OF assms(3)]] assms(3) by (simp add: feedback_bytes_def goal_typed_def)
  obtain b where b: "example_interfaces_Fibonacci_FeedbackMessage_encode ?m (J 256) 256 0 = (True, b, 4 + length ?b)"
      "take (4 + length ?b) b = cdr_header @ ?b" "length b = 256"
    by (rule feedback_message.encode_body[OF enc _ w, of "J 256" 256 0]) (use assms(1) lb in \<open>simp_all add: locals_ok_def\<close>)
  have "send_write_data J x b (4 + length ?b) h = emit x ?b h"
    by (rule send_write_data_exact[OF assms(1,2) b(2)]) (use b(3) lb in simp_all)
  then show ?thesis using b(1) by simp
qed

section \<open>The server as a machine on requests\<close>

text \<open>
  The same server without bytes, buffers and clock calls: the requests it receives, what each does to the
  goal, and the messages it sends, as pairs of an object and a body.
\<close>

datatype request =
    Nothing
  | Send_goal bytes bytes u32
  | Cancel bytes
  | Get_result bytes

type_synonym reply = "object_id \<times> bytes"

definition accept_goal :: "bytes \<Rightarrow> u32 \<Rightarrow> u64 \<Rightarrow> goal_state \<Rightarrow> goal_state" where
  "accept_goal gid n now g = g\<lparr>g_goal_active := True, g_goal_done := False, g_cancel_requested := False, g_goal_id := gid,
     g_order := n, g_feedback := (g_feedback g)\<lparr>sequence_count := 0\<rparr>, g_status := GOAL_STATUS_ACCEPTED, g_last_step_ms := now\<rparr>"

abbreviation running :: "goal_state \<Rightarrow> bool" where
  "running g \<equiv> g_goal_active g \<and> \<not> g_goal_done g"

definition on_request :: "u64 \<Rightarrow> request \<Rightarrow> goal_state \<Rightarrow> goal_state \<times> reply list" where
  "on_request now req g = (case req of
       Nothing \<Rightarrow> (g, [])
     | Send_goal ident gid n \<Rightarrow>
         if running g then (g, [(send_goal_replier, ident @ accept_bytes False)])
         else (let g = accept_goal gid n now g in
               (g, [(send_goal_replier, ident @ accept_bytes True), (status_writer, status_bytes g)]))
     | Cancel ident \<Rightarrow>
         if running g
         then (let g = g\<lparr>g_cancel_requested := True, g_status := GOAL_STATUS_CANCELING\<rparr> in
               (g, [(status_writer, status_bytes g), (cancel_goal_replier, ident @ cancel_bytes (Some g))]))
         else (g, [(cancel_goal_replier, ident @ cancel_bytes None)])
     | Get_result ident \<Rightarrow>
         if \<not> g_goal_done g then (g\<lparr>g_result_pending := True, g_result_sample_identity := ident\<rparr>, [])
         else (g, [(get_result_replier, ident @ result_bytes g)]))"

definition finish_goal :: "u8 \<Rightarrow> goal_state \<Rightarrow> goal_state \<times> reply list" where
  "finish_goal st g =
     (let g = g\<lparr>g_status := st, g_goal_done := True\<rparr> in
      if g_result_pending g
      then (g\<lparr>g_result_pending := False\<rparr>,
            [(status_writer, status_bytes g), (get_result_replier, g_result_sample_identity g @ result_bytes g)])
      else (g, [(status_writer, status_bytes g)]))"

definition on_tick :: "u64 \<Rightarrow> goal_state \<Rightarrow> goal_state \<times> reply list" where
  "on_tick now g =
     (if g_cancel_requested g then finish_goal GOAL_STATUS_CANCELED (g\<lparr>g_last_step_ms := now\<rparr>)
      else
        (let g = g\<lparr>g_last_step_ms := now, g_feedback := push_value (g_feedback g)\<rparr>;
             out = [(feedback_writer, feedback_bytes g)];
             g = g\<lparr>g_status := GOAL_STATUS_EXECUTING\<rparr>;
             out = out @ [(status_writer, status_bytes g)] in
         if sequence_count (g_feedback g) \<ge> g_order g \<or> unat (sequence_count (g_feedback g)) \<ge> 16
         then (case finish_goal GOAL_STATUS_SUCCEEDED g of (g, rest) \<Rightarrow> (g, out @ rest))
         else (g, out)))"

text \<open>The request in a datagram.\<close>

definition classify :: "bytes \<Rightarrow> request" where
  "classify d =
     (case xrce_session_parse_data d (length d) \<lparr>oid = 0, okind = 0\<rparr> [] 0 of
        (ok, x, sample, n) \<Rightarrow>
          if d = [] \<or> \<not> ok \<or> n < 24 then Nothing
          else if x = send_goal_replier \<and> 44 \<le> n then Send_goal (take 24 sample) (take 16 (drop 24 sample)) (le_value (take 4 (drop 40 sample)))
          else if x = cancel_goal_replier \<and> 40 \<le> n then Cancel (take 24 sample)
          else if x = get_result_replier \<and> 40 \<le> n then Get_result (take 24 sample)
          else Nothing)"

section \<open>Lemmas: the program implements the machine\<close>

fun sample_messages :: "session \<Rightarrow> reply list \<Rightarrow> bytes list" where
  "sample_messages s [] = []"
| "sample_messages s ((x, b) # rs) = write_data_message s x b # sample_messages (numbered s) rs"

text \<open>All that happened between two states is that \<open>out\<close> was sent, apart from the goal and the log.\<close>

definition responds :: "action_server \<Rightarrow> reply list \<Rightarrow> action_server \<Rightarrow> bool" where
  "responds h out h' \<longleftrightarrow> datagrams h' = datagrams h @ sample_messages (g_s h) out \<and> g_s h' = (numbered ^^ length out) (g_s h) \<and>
     recvs h' = recvs h \<and> clock_reads h' = clock_reads h \<and> net_in h' = net_in h \<and> net_clock h' = net_clock h \<and> net_ok h' = net_ok h"

lemma sample_messages_snoc:
  "sample_messages s (out @ [(x, b)]) = sample_messages s out @ [write_data_message ((numbered ^^ length out) s) x b]"
proof (induction out arbitrary: s)
  case (Cons r out)
  have "(numbered ^^ length out) (numbered s) = numbered ((numbered ^^ length out) s)" for s by (simp add: funpow_swap1)
  then show ?case using Cons by (cases r) simp
qed simp

lemma responds_start [simp]: "responds h [] h"
  by (simp add: responds_def)

lemma responds_emit: "responds h out h' \<Longrightarrow> responds h (out @ [(x, b)]) (emit x b h')"
  by (simp add: responds_def sample_messages_snoc)

lemma responds_line [simp]: "responds h out (put_line t h') = responds h out h'"
  by (simp add: responds_def)

lemma responds_goal [simp]: "responds h out (h'\<lparr>goal := g\<rparr>) = responds h out h'" "responds (h\<lparr>goal := g\<rparr>) out h' = responds h out h'"
  by (simp_all add: responds_def)

lemma responds_append:
  assumes "responds h out h'" "responds h' out' h''"
  shows "responds h (out @ out') h''"
proof -
  have "sample_messages s (out @ out') = sample_messages s out @ sample_messages ((numbered ^^ length out) s) out'" for s
  proof (induction out arbitrary: s)
    case (Cons r out)
    then show ?case by (cases r) (simp add: funpow_swap1)
  qed simp
  moreover have "(numbered ^^ (length out + length out')) s = (numbered ^^ length out') ((numbered ^^ length out) s)" for s
    by (simp add: funpow_add[symmetric, THEN fun_cong, unfolded o_apply] add.commute)
  ultimately show ?thesis using assms by (simp add: responds_def)
qed

lemma responds_session: "responds h out h' \<Longrightarrow> session_ok h' = session_ok h"
proof -
  have "client_key ((numbered ^^ n) s) = client_key s" for n s by (induction n) simp_all
  then show "responds h out h' \<Longrightarrow> session_ok h' = session_ok h" by (simp add: responds_def session_ok_def)
qed

lemma responds_1: "responds h [(x, b)] (emit x b h)"
  using responds_emit[OF responds_start] by simp

lemma responds_2: "responds h [(x, b), (y, c)] (emit y c (emit x b h))"
  using responds_emit[OF responds_1] by simp

lemma send_goal_refines:
  assumes "locals_ok J" "session_ok h" "goal_typed (goal h)" "24 \<le> length ident" "20 \<le> length req"
    and "on_request (net_clock h (clock_reads h)) (Send_goal (take 24 ident) (take 16 req) (le_value (take 4 (drop 16 req)))) (goal h) = (g, out)"
    and "h' = handle_send_goal J send_goal_replier ident req (length req) status_writer h"
  shows "goal h' = g \<and> responds (h\<lparr>clock_reads := clock_reads h'\<rparr>) out h' \<and>
     clock_reads h' = clock_reads h + (if running (goal h) then 0 else 1)"
proof -
  have n: "le_value (take 4 (drop 16 req)) = (ucast (req ! 16) OR push_bit 8 (ucast (req ! 17)) OR
      push_bit 16 (ucast (req ! 18)) OR push_bit 24 (ucast (req ! 19)) :: u32)"
    using assms(5) by (simp add: take_4 le_value_4)
  have acc: "case example_interfaces_Fibonacci_SendGoal_Response_encode \<lparr>accepted = b, accept_stamp = zero_time\<rparr> (J 64) 64 0 of
     (_, resp_buf, resp_len) \<Rightarrow> send_reply J send_goal_replier ident resp_buf resp_len (put_line t h) =
        emit send_goal_replier (take 24 ident @ accept_bytes b) (put_line t h)" for b t
    using assms(1,2,4) by (intro accept_exact) simp_all
  show ?thesis
  proof (cases "running (goal h)")
    case True
    then have "h' = put_line ''send_goal rejected: a goal is already running'' (emit send_goal_replier (take 24 ident @ accept_bytes False)
        (put_line (''send_goal request: order='' @ dec_string (sint (le_value (take 4 (drop 16 req)) :: u32))) h))"
      using assms(5,7) acc[where b = False] unfolding n
      by (simp add: handle_send_goal_def Let_def split: prod.splits)
    then show ?thesis
      using True assms(6) responds_1 by (auto simp: on_request_def responds_def)
  next
    case False
    let ?n = "le_value (take 4 (drop 16 req)) :: u32"
    let ?h1 = "emit send_goal_replier (take 24 ident @ accept_bytes True) (put_line (''send_goal request: order='' @ dec_string (sint ?n)) h)"
    let ?g = "accept_goal (take 16 req) ?n (net_clock h (clock_reads h)) (goal h)"
    let ?h2 = "?h1\<lparr>clock_reads := Suc (clock_reads h), goal := ?g\<rparr>"
    have ty: "goal_typed ?g" using assms(3,5) by (simp add: goal_typed_def accept_goal_def)
    have ps: "publish_status J status_writer ?h2 = emit status_writer (status_bytes ?g) ?h2"
      using publish_status_exact[OF assms(1), of ?h2 status_writer] assms(2) ty by (simp add: session_ok_def emit_def accept_goal_def)
    have h1: "set_goal (\<lambda>g. g\<lparr>g_last_step_ms := net_clock h (clock_reads h)\<rparr>) (set_goal (\<lambda>g. g\<lparr>g_goal_active := True, g_goal_done := False,
        g_cancel_requested := False, g_goal_id := take 16 req, g_order := ?n, g_feedback := (g_feedback g)\<lparr>sequence_count := 0\<rparr>,
        g_status := GOAL_STATUS_ACCEPTED\<rparr>) ?h1\<lparr>clock_reads := Suc (clock_reads h)\<rparr>) = ?h2"
      by (simp add: accept_goal_def emit_def)
    have "h' = put_line (''goal accepted, running Fibonacci('' @ dec_string (sint ?n) @ '')'') (publish_status J status_writer ?h2)"
      using assms(5,7) False acc[where b = True] h1 unfolding n
      by (simp add: handle_send_goal_def Let_def now_ms_def split: prod.splits)
    moreover have "g = ?g" "out = [(send_goal_replier, take 24 ident @ accept_bytes True), (status_writer, status_bytes ?g)]"
      using False assms(6) by (auto simp: on_request_def Let_def)
    ultimately show ?thesis
      unfolding ps using False by (simp add: responds_def emit_def put_line_def)
  qed
qed

lemma cancel_refines:
  assumes "locals_ok J" "session_ok h" "goal_typed (goal h)" "24 \<le> length ident" "16 \<le> n"
    and "on_request now (Cancel (take 24 ident)) (goal h) = (g, out)"
    and "h' = handle_cancel_goal J cancel_goal_replier ident n status_writer h"
  shows "goal h' = g \<and> responds h out h'"
proof (cases "running (goal h)")
  case False
  let ?m = "\<lparr>return_code = 2, goals_canceling = replicate 8 zero_goal_info, goals_canceling_count = 0\<rparr>"
  have enc: "cgr_encodable ?m" by (simp add: cgr_encodable_def array_ok_def goal_info_ok_def list_all_iff)
  have c: "case action_msgs_CancelGoal_Response_encode ?m (J 256) 256 0 of
     (_, resp_buf, resp_len) \<Rightarrow> send_reply J cancel_goal_replier ident resp_buf resp_len (put_line t h) =
       emit cancel_goal_replier (take 24 ident @ cancel_bytes None) (put_line t h)" for t
    by (rule cancel_exact[OF assms(1) _ assms(4) enc cancel_wire(1)]) (use assms(2) in \<open>simp_all add: cancel_bytes_def\<close>)
  have "\<not> n < 16" using assms(5) by simp
  then have "h' = emit cancel_goal_replier (take 24 ident @ cancel_bytes None) (put_line ''cancel request rejected: no active goal'' h)"
    using assms(7) False c by (simp add: handle_cancel_goal_def Let_def split: prod.splits)
  moreover have "g = goal h" "out = [(cancel_goal_replier, take 24 ident @ cancel_bytes None)]"
    using False assms(6) by (auto simp: on_request_def)
  ultimately show ?thesis by (simp add: responds_def)
next
  case True
  let ?g = "(goal h)\<lparr>g_cancel_requested := True, g_status := GOAL_STATUS_CANCELING\<rparr>"
  let ?m = "\<lparr>return_code = 0, goals_canceling = (replicate 8 zero_goal_info)[0 := zero_goal_info\<lparr>goal_id := g_goal_id ?g\<rparr>],
    goals_canceling_count = 1\<rparr>"
  have ty: "goal_typed ?g" using assms(3) by (simp add: goal_typed_def)
  have l: "length (g_goal_id ?g) = 16" using ty by (simp add: goal_typed_def)
  have "\<forall>x \<in> set (goals_canceling ?m). goal_info_ok x"
    using l set_update_subset_insert[of "replicate 8 zero_goal_info" 0 "zero_goal_info\<lparr>goal_id := g_goal_id ?g\<rparr>"] by (auto simp: goal_info_ok_def)
  then have enc: "cgr_encodable ?m" by (simp add: cgr_encodable_def array_ok_def list_all_iff)
  let ?h1 = "emit status_writer (status_bytes ?g) (h\<lparr>goal := ?g\<rparr>)"
  have ps: "publish_status J status_writer (h\<lparr>goal := ?g\<rparr>) = ?h1"
    using publish_status_exact[OF assms(1), of "h\<lparr>goal := ?g\<rparr>" status_writer] assms(2) ty True by simp
  have c: "case action_msgs_CancelGoal_Response_encode ?m (J 256) 256 0 of
     (_, resp_buf, resp_len) \<Rightarrow> send_reply J cancel_goal_replier ident resp_buf resp_len (put_line t ?h1) =
       emit cancel_goal_replier (take 24 ident @ cancel_bytes (Some ?g)) (put_line t ?h1)" for t
    by (rule cancel_exact[OF assms(1) _ assms(4) enc cancel_wire(2)[OF l]]) (use assms(2) l in \<open>simp_all add: cancel_bytes_def\<close>)
  obtain ok rb rl where en: "action_msgs_CancelGoal_Response_encode ?m (J 256) 256 0 = (ok, rb, rl)" by (metis prod_cases3)
  have sr: "send_reply J cancel_goal_replier ident rb rl (put_line t ?h1) =
      emit cancel_goal_replier (take 24 ident @ cancel_bytes (Some ?g)) (put_line t ?h1)" for t
    using c[where t = t] unfolding en by simp
  have n: "\<not> n < 16" using assms(5) by simp
  have "h' = emit cancel_goal_replier (take 24 ident @ cancel_bytes (Some ?g)) (put_line ''cancel request accepted'' ?h1)"
    unfolding assms(7) handle_cancel_goal_def if_not_P[OF n] Let_def if_P[OF True] ps
    using sr en by simp
  moreover have "g = ?g" "out = [(status_writer, status_bytes ?g), (cancel_goal_replier, take 24 ident @ cancel_bytes (Some ?g))]"
    using True assms(6) by (auto simp: on_request_def Let_def)
  ultimately show ?thesis by (simp add: responds_def)
qed

lemma get_result_refines:
  assumes "locals_ok J" "session_ok h" "goal_typed (goal h)" "24 \<le> length ident" "16 \<le> n"
    and "on_request now (Get_result (take 24 ident)) (goal h) = (g, out)"
    and "h' = handle_get_result J get_result_replier ident n h"
  shows "goal h' = g \<and> responds h out h'"
proof (cases "g_goal_done (goal h)")
  case True
  obtain t where "reply_result J get_result_replier ident h =
      put_line t (emit get_result_replier (take 24 ident @ result_bytes (goal h)) h)"
    by (rule reply_result_exact[OF assms(1-4)])
  then show ?thesis
    using True assms(5-7) responds_1 by (auto simp: handle_get_result_def on_request_def)
next
  case False
  then show ?thesis using assms(5-7) by (auto simp: handle_get_result_def on_request_def)
qed

text \<open>Ending the goal, and the held request for its result.\<close>

lemma finish_refines:
  assumes "locals_ok J" "session_ok h" "goal_typed (goal h)" "g_goal_active (goal h)" "finish_goal st (goal h) = (g, out)"
    and "h' = maybe_reply_pending_result J get_result_replier (put_line t (publish_status J status_writer
           (set_goal (\<lambda>g. g\<lparr>g_status := st, g_goal_done := True\<rparr>) h)))"
  shows "goal h' = g \<and> responds h out h'"
proof -
  let ?g = "(goal h)\<lparr>g_status := st, g_goal_done := True\<rparr>"
  have ty: "goal_typed ?g" using assms(3) by (simp add: goal_typed_def)
  let ?h1 = "put_line t (emit status_writer (status_bytes ?g) (h\<lparr>goal := ?g\<rparr>))"
  have ps: "publish_status J status_writer (h\<lparr>goal := ?g\<rparr>) = emit status_writer (status_bytes ?g) (h\<lparr>goal := ?g\<rparr>)"
    using publish_status_exact[OF assms(1), of "h\<lparr>goal := ?g\<rparr>" status_writer] assms(2,4) ty by simp
  have r: "responds h [(status_writer, status_bytes ?g)] ?h1" by (simp add: responds_def)
  show ?thesis
  proof (cases "g_result_pending (goal h)")
    case True
    let ?id = "g_result_sample_identity (goal h)"
    have id: "24 \<le> length ?id" "take 24 ?id = ?id" using assms(3) by (simp_all add: goal_typed_def)
    obtain t2 where rr: "reply_result J get_result_replier ?id ?h1 = put_line t2 (emit get_result_replier (take 24 ?id @ result_bytes ?g) ?h1)"
      using reply_result_exact[OF assms(1), of ?h1 ?id get_result_replier] assms(2) ty id(1) by auto
    have "h' = set_goal (\<lambda>g. g\<lparr>g_result_pending := False\<rparr>) (put_line t2 (emit get_result_replier (?id @ result_bytes ?g) ?h1))"
      using True assms(6) rr ps id(2) by (simp add: maybe_reply_pending_result_def)
    moreover have "g = ?g\<lparr>g_result_pending := False\<rparr>" "out = [(status_writer, status_bytes ?g), (get_result_replier, ?id @ result_bytes ?g)]"
      using True assms(5) by (auto simp: finish_goal_def Let_def)
    ultimately show ?thesis using responds_emit[OF r] by simp
  next
    case False
    then show ?thesis using assms(5,6) ps r by (auto simp: maybe_reply_pending_result_def finish_goal_def Let_def)
  qed
qed

lemma push_typed:
  assumes "goal_typed g" "unat (sequence_count (g_feedback g)) < 16"
  shows "goal_typed (g\<lparr>g_feedback := push_value (g_feedback g)\<rparr>)" "unat (sequence_count (push_value fb)) = unat (sequence_count fb) + 1 \<or> sequence_count fb = -1"
proof -
  have s: "unat (c + 1) = unat c + 1" if "c \<noteq> -1" for c :: u32
    using that by (metis Suc_eq_plus1 add.commute add.right_neutral add_eq_0_iff unatSuc)
  have "unat (-1 :: u32) = 4294967295" by (simp add: unsigned_minus_1_eq_mask mask_eq_exp_minus_1)
  then have "sequence_count (g_feedback g) \<noteq> -1" using assms(2) by auto
  with s assms show "goal_typed (g\<lparr>g_feedback := push_value (g_feedback g)\<rparr>)" by (simp add: goal_typed_def push_value_def)
  show "unat (sequence_count (push_value fb)) = unat (sequence_count fb) + 1 \<or> sequence_count fb = -1"
    using s by (auto simp: push_value_def)
qed

lemma advance_refines:
  assumes "locals_ok J" "session_ok h" "goal_typed (goal h)" "running (goal h)" "unat (sequence_count (g_feedback (goal h))) < 16"
    and "g_last_step_ms (goal h) = now" "on_tick now (goal h) = (g, out)"
    and "h' = advance_goal J feedback_writer status_writer get_result_replier h"
  shows "goal h' = g \<and> responds h out h'"
proof (cases "g_cancel_requested (goal h)")
  case True
  have l: "(goal h)\<lparr>g_last_step_ms := now\<rparr> = goal h" using assms(6) by simp
  let ?t = "\<lambda>h. ''goal canceled after '' @ dec_digits (unat (sequence_count (g_feedback (goal h)))) @ '' values''"
  have f: "finish_goal GOAL_STATUS_CANCELED (goal h) = (g, out)" using True assms(7) unfolding on_tick_def l by simp
  show ?thesis
    by (rule finish_refines[OF assms(1-3) _ f, where t = "?t (publish_status J status_writer
        (set_goal (\<lambda>g. g\<lparr>g_status := GOAL_STATUS_CANCELED, g_goal_done := True\<rparr>) h))"])
      (use True assms(4,8) in \<open>simp_all add: advance_goal_def Let_def\<close>)
next
  case False
  let ?g1 = "(goal h)\<lparr>g_feedback := push_value (g_feedback (goal h))\<rparr>"
  let ?g2 = "?g1\<lparr>g_status := GOAL_STATUS_EXECUTING\<rparr>"
  have l: "(goal h)\<lparr>g_last_step_ms := now, g_feedback := push_value (g_feedback (goal h))\<rparr> = ?g1" using assms(6) by simp
  have ty1: "goal_typed ?g1" by (rule push_typed(1)[OF assms(3,5)])
  have ty2: "goal_typed ?g2" using ty1 by (simp add: goal_typed_def)
  let ?t = "''feedback: '' @ dec_digits (unat (sequence_count (g_feedback ?g1))) @ '' values, last='' @ dec_string (sint (next_value (g_feedback (goal h))))"
  let ?h1 = "emit feedback_writer (feedback_bytes ?g1) (h\<lparr>goal := ?g1\<rparr>)"
  let ?h2 = "emit status_writer (status_bytes ?g2) ((put_line ?t ?h1)\<lparr>goal := ?g2\<rparr>)"
  have fb: "(case example_interfaces_Fibonacci_FeedbackMessage_encode \<lparr>feedback_goal_id = g_goal_id ?g1, feedback = g_feedback ?g1\<rparr> (J 256) 256 0 of
     (ok, buf, len) \<Rightarrow> if ok then send_write_data J feedback_writer buf len (h\<lparr>goal := ?g1\<rparr>) else h\<lparr>goal := ?g1\<rparr>) = ?h1"
    by (rule feedback_exact[OF assms(1) _ ty1]) (use assms(2) in simp)
  have ps: "publish_status J status_writer ((put_line ?t ?h1)\<lparr>goal := ?g2\<rparr>) = ?h2"
    using publish_status_exact[OF assms(1), of "(put_line ?t ?h1)\<lparr>goal := ?g2\<rparr>" status_writer] assms(2,4) ty2 by simp
  have r2: "responds h [(feedback_writer, feedback_bytes ?g1), (status_writer, status_bytes ?g2)] ?h2" by (simp add: responds_def)
  have s2: "session_ok ?h2" "goal ?h2 = ?g2" using assms(2) by simp_all
  let ?done = "sequence_count (g_feedback ?g2) \<ge> g_order ?g2 \<or> unat (sequence_count (g_feedback ?g2)) \<ge> 16"
  let ?t3 = "''goal succeeded: '' @ dec_digits (unat (sequence_count (g_feedback (goal (publish_status J status_writer
        (set_goal (\<lambda>g. g\<lparr>g_status := GOAL_STATUS_SUCCEEDED, g_goal_done := True\<rparr>) ?h2)))))) @ '' values''"
  have e: "h' = (if ?done then maybe_reply_pending_result J get_result_replier (put_line ?t3 (publish_status J status_writer
           (set_goal (\<lambda>g. g\<lparr>g_status := GOAL_STATUS_SUCCEEDED, g_goal_done := True\<rparr>) ?h2))) else ?h2)"
    using assms(8) False fb ps by (simp add: advance_goal_def Let_def)
  have o: "on_tick now (goal h) = (if ?done then (case finish_goal GOAL_STATUS_SUCCEEDED ?g2 of (g, rest) \<Rightarrow>
        (g, [(feedback_writer, feedback_bytes ?g1), (status_writer, status_bytes ?g2)] @ rest))
      else (?g2, [(feedback_writer, feedback_bytes ?g1), (status_writer, status_bytes ?g2)]))"
    unfolding on_tick_def l Let_def using False by simp
  show ?thesis
  proof (cases ?done)
    case True
    obtain g3 rest where f: "finish_goal GOAL_STATUS_SUCCEEDED ?g2 = (g3, rest)" by fastforce
    have "goal h' = g3 \<and> responds ?h2 rest h'"
      by (rule finish_refines[OF assms(1) s2(1), where st = GOAL_STATUS_SUCCEEDED and t = ?t3])
        (use True e ty2 f assms(4) s2(2) in simp_all)
    moreover have "g = g3" "out = [(feedback_writer, feedback_bytes ?g1), (status_writer, status_bytes ?g2)] @ rest"
      using assms(7) o True f by simp_all
    ultimately show ?thesis using responds_append[OF r2] by simp
  next
    case no: False
    have h: "h' = ?h2" unfolding e if_not_P[OF no] ..
    have "g = ?g2" "out = [(feedback_writer, feedback_bytes ?g1), (status_writer, status_bytes ?g2)]"
      using assms(7) unfolding o if_not_P[OF no] by (blast dest: prod.inject[THEN iffD1] sym)+
    then show ?thesis unfolding h using r2 s2(2) by (simp only: simp_thms)
  qed
qed

section \<open>The invariant\<close>

fun fib :: "nat \<Rightarrow> nat" where
  "fib 0 = 0"
| "fib (Suc 0) = 1"
| "fib (Suc (Suc n)) = fib (Suc n) + fib n"

text \<open>How many values a goal of order \<open>n\<close> ends with: the order is read unsigned, and zero still gives one value.\<close>

definition goal_length :: "u32 \<Rightarrow> nat" where
  "goal_length n = max 1 (min 16 (unat n))"

definition goal_ok :: "goal_state \<Rightarrow> bool" where
  "goal_ok g \<longleftrightarrow> goal_typed g \<and> fib_values (g_feedback g) = map (\<lambda>i. of_nat (fib i)) [0..<unat (sequence_count (g_feedback g))] \<and>
     (running g \<longrightarrow> unat (sequence_count (g_feedback g)) < goal_length (g_order g) \<and>
        g_status g = (if g_cancel_requested g then GOAL_STATUS_CANCELING
                      else if sequence_count (g_feedback g) = 0 then GOAL_STATUS_ACCEPTED else GOAL_STATUS_EXECUTING)) \<and>
     (g_goal_done g \<longrightarrow> g_goal_active g \<and> \<not> g_result_pending g \<and>
        (if g_cancel_requested g then g_status g = GOAL_STATUS_CANCELED
         else g_status g = GOAL_STATUS_SUCCEEDED \<and> unat (sequence_count (g_feedback g)) = goal_length (g_order g)))"

definition request_typed :: "request \<Rightarrow> bool" where
  "request_typed req = (case req of Send_goal ident gid _ \<Rightarrow> length ident = 24 \<and> length gid = 16
     | Cancel ident \<Rightarrow> length ident = 24 | Get_result ident \<Rightarrow> length ident = 24 | Nothing \<Rightarrow> True)"

lemma goal_ok_init: "goal_ok goal_init"
  by (simp add: goal_ok_def goal_typed_def goal_init_def fib_values_def)

lemma goal_length_bounds: "1 \<le> goal_length n" "goal_length n \<le> 16"
  by (simp_all add: goal_length_def)

lemma on_request_ok:
  assumes "goal_ok g" "request_typed req" "on_request now req g = (g', out)"
  shows "goal_ok g'"
proof (cases req)
  case (Send_goal ident gid n)
  show ?thesis
  proof (cases "running g")
    case False
    then have "g' = accept_goal gid n now g" using assms(3) Send_goal by (auto simp: on_request_def Let_def)
    then show ?thesis using assms(1,2) Send_goal goal_length_bounds(1)[of n]
      by (simp add: goal_ok_def goal_typed_def accept_goal_def fib_values_def request_typed_def)
  qed (use assms Send_goal in \<open>simp add: on_request_def\<close>)
next
  case (Cancel ident)
  then show ?thesis using assms
    by (auto simp: on_request_def Let_def goal_ok_def goal_typed_def split: if_splits)
next
  case (Get_result ident)
  then show ?thesis using assms
    by (auto simp: on_request_def goal_ok_def goal_typed_def request_typed_def split: if_splits)
qed (use assms in \<open>simp add: on_request_def\<close>)

lemma finish_ok:
  assumes "goal_typed g" "fib_values (g_feedback g) = map (\<lambda>i. of_nat (fib i)) [0..<unat (sequence_count (g_feedback g))]"
    and "running g" "finish_goal st g = (g', out)"
    and "if g_cancel_requested g then st = GOAL_STATUS_CANCELED
         else st = GOAL_STATUS_SUCCEEDED \<and> unat (sequence_count (g_feedback g)) = goal_length (g_order g)"
  shows "goal_ok g' \<and> g_goal_done g' \<and> g_status g' = st \<and> g_feedback g' = g_feedback g \<and> g_order g' = g_order g \<and>
     g_cancel_requested g' = g_cancel_requested g"
  using assms by (auto simp: finish_goal_def Let_def goal_ok_def goal_typed_def split: if_splits)

text \<open>One more value: still the Fibonacci numbers, and no overflow.\<close>

lemma push_value_fib:
  assumes "goal_typed g" "fib_values (g_feedback g) = map (\<lambda>i. of_nat (fib i)) [0..<unat (sequence_count (g_feedback g))]"
    and "unat (sequence_count (g_feedback g)) = c" "c < 16"
  shows "unat (sequence_count (push_value (g_feedback g))) = Suc c"
    "fib_values (push_value (g_feedback g)) = map (\<lambda>i. of_nat (fib i)) [0..<Suc c]"
proof -
  let ?fb = "g_feedback g"
  have l: "length (fib_sequence ?fb) = 16" using assms(1) by (simp add: goal_typed_def)
  have "sequence_count ?fb \<noteq> -1" using assms(3,4) by (auto simp: unsigned_minus_1_eq_mask mask_eq_exp_minus_1)
  then show cnt: "unat (sequence_count (push_value ?fb)) = Suc c" using push_typed(2)[OF assms(1), of ?fb] assms(3,4) by simp
  have el: "fib_sequence ?fb ! i = of_nat (fib i)" if "i < c" for i
  proof -
    have "fib_values ?fb ! i = of_nat (fib i)" unfolding assms(2) using that assms(3) by simp
    then show ?thesis using that assms(3) by (simp add: fib_values_def)
  qed
  have nv: "next_value ?fb = of_nat (fib c)"
  proof (cases "c < 2")
    case True
    then have "sequence_count ?fb < 2" using assms(3) by (simp add: word_less_nat_alt)
    moreover have "fib c = c" using True by (auto simp: less_2_cases_iff)
    ultimately show ?thesis using assms(3) by (simp add: next_value_def) (metis of_nat_unat ucast_id)
  next
    case False
    then obtain k where k: "c = Suc (Suc k)" by (metis One_nat_def Suc_1 add_2_eq_Suc le_Suc_ex not_less)
    have ge: "\<not> sequence_count ?fb < 2" using False assms(3) by (simp add: word_less_nat_alt)
    have "(2 :: u32) \<le> sequence_count ?fb" "(1 :: u32) \<le> sequence_count ?fb" using False assms(3) by (simp_all add: word_le_nat_alt)
    then have "unat (sequence_count ?fb - 1) = Suc k" "unat (sequence_count ?fb - 2) = k"
      using k assms(3) by (simp_all add: unat_sub)
    then show ?thesis using ge el k by (simp add: next_value_def)
  qed
  have "fib_values (push_value ?fb) = take (Suc c) ((fib_sequence ?fb)[c := of_nat (fib c)])"
    unfolding fib_values_def cnt by (simp add: push_value_def nv assms(3))
  also have "\<dots> = fib_values ?fb @ [of_nat (fib c)]"
    using assms(3,4) l by (simp add: fib_values_def take_Suc_conv_app_nth)
  finally show "fib_values (push_value ?fb) = map (\<lambda>i. of_nat (fib i)) [0..<Suc c]" using assms(2,3) by simp
qed

lemma goal_length_reached:
  assumes "unat c = Suc k" "k < goal_length n"
  shows "(c \<ge> n \<or> unat c \<ge> 16) \<longleftrightarrow> Suc k = goal_length n"
  using assms by (auto simp: goal_length_def word_le_nat_alt)

lemma on_tick_ok:
  assumes "goal_ok g" "running g" "on_tick now g = (g', out)" "c = unat (sequence_count (g_feedback g))"
  shows "goal_ok g'"
    "\<not> g_cancel_requested g \<Longrightarrow> unat (sequence_count (g_feedback g')) = Suc c \<and> g_order g' = g_order g \<and> \<not> g_cancel_requested g' \<and>
       g_goal_active g' \<and> (g_goal_done g' \<longleftrightarrow> Suc c = goal_length (g_order g)) \<and> (\<not> g_goal_done g' \<longrightarrow> g_last_step_ms g' = now)"
    "g_cancel_requested g \<Longrightarrow> g_goal_done g' \<and> g_feedback g' = g_feedback g"
proof -
  have ok: "goal_typed g" "fib_values (g_feedback g) = map (\<lambda>i. of_nat (fib i)) [0..<unat (sequence_count (g_feedback g))]"
    "c < goal_length (g_order g)" using assms(1,2,4) by (simp_all add: goal_ok_def)
  have "goal_ok g' \<and> (\<not> g_cancel_requested g \<longrightarrow> unat (sequence_count (g_feedback g')) = Suc c \<and> g_order g' = g_order g \<and>
       \<not> g_cancel_requested g' \<and> g_goal_active g' \<and> (g_goal_done g' \<longleftrightarrow> Suc c = goal_length (g_order g)) \<and>
       (\<not> g_goal_done g' \<longrightarrow> g_last_step_ms g' = now)) \<and>
     (g_cancel_requested g \<longrightarrow> g_goal_done g' \<and> g_feedback g' = g_feedback g)"
  proof (cases "g_cancel_requested g")
    case True
    then have f: "finish_goal GOAL_STATUS_CANCELED (g\<lparr>g_last_step_ms := now\<rparr>) = (g', out)" using assms(3) by (simp add: on_tick_def)
    show ?thesis using finish_ok[OF _ _ _ f] True ok assms(2) by (auto simp: goal_typed_def)
  next
    case False
    let ?g1 = "g\<lparr>g_last_step_ms := now, g_feedback := push_value (g_feedback g)\<rparr>"
    let ?g2 = "?g1\<lparr>g_status := GOAL_STATUS_EXECUTING\<rparr>"
    let ?out = "[(feedback_writer, feedback_bytes ?g1), (status_writer, status_bytes ?g2)]"
    have c: "unat (sequence_count (g_feedback g)) = c" "c < 16" using assms(4) ok(3) goal_length_bounds(2)[of "g_order g"] by simp_all
    note p = push_value_fib[OF ok(1,2) c]
    have ty: "goal_typed ?g2" using push_typed(1)[OF ok(1)] c by (simp add: goal_typed_def)
    have d: "(sequence_count (g_feedback ?g2) \<ge> g_order ?g2 \<or> unat (sequence_count (g_feedback ?g2)) \<ge> 16) \<longleftrightarrow> Suc c = goal_length (g_order g)"
      using goal_length_reached[OF p(1) ok(3)] by simp
    have o: "on_tick now g = (if Suc c = goal_length (g_order g)
        then (case finish_goal GOAL_STATUS_SUCCEEDED ?g2 of (g, rest) \<Rightarrow> (g, ?out @ rest)) else (?g2, ?out))"
      unfolding on_tick_def Let_def if_not_P[OF False] d by simp
    show ?thesis
    proof (cases "Suc c = goal_length (g_order g)")
      case True
      obtain g3 rest where f: "finish_goal GOAL_STATUS_SUCCEEDED ?g2 = (g3, rest)" by fastforce
      have "g' = g3" using assms(3) o True f by simp
      moreover have "goal_ok g3 \<and> g_goal_done g3 \<and> g_feedback g3 = g_feedback ?g2 \<and> g_order g3 = g_order ?g2 \<and>
          g_cancel_requested g3 = g_cancel_requested ?g2"
        using finish_ok[OF ty _ _ f] p False True assms(2) by simp
      ultimately show ?thesis using True False p(1) by (auto simp: goal_ok_def)
    next
      case no: False
      have "g' = ?g2" using assms(3) o no by simp
      moreover have "sequence_count (push_value (g_feedback g)) \<noteq> 0" using p(1) by auto
      moreover have "Suc c < goal_length (g_order g)" using ok(3) no by simp
      ultimately show ?thesis using no False p ty assms(2) by (simp add: goal_ok_def)
    qed
  qed
  then show "goal_ok g'"
    "\<not> g_cancel_requested g \<Longrightarrow> unat (sequence_count (g_feedback g')) = Suc c \<and> g_order g' = g_order g \<and> \<not> g_cancel_requested g' \<and>
       g_goal_active g' \<and> (g_goal_done g' \<longleftrightarrow> Suc c = goal_length (g_order g)) \<and> (\<not> g_goal_done g' \<longrightarrow> g_last_step_ms g' = now)"
    "g_cancel_requested g \<Longrightarrow> g_goal_done g' \<and> g_feedback g' = g_feedback g" by blast+
qed

section \<open>A pass of the loop\<close>

text \<open>
  The machine's pass: the request, then a step if one is due. \<open>c\<close> counts the readings of the clock: one when
  a goal is accepted, one to see whether a step is due, one more when it is.
\<close>

definition machine_pass :: "(nat \<Rightarrow> u64) \<Rightarrow> nat \<Rightarrow> request \<Rightarrow> goal_state \<Rightarrow> goal_state \<times> reply list \<times> nat" where
  "machine_pass clock c req g =
     (case on_request (clock c) req g of
        (g', out) \<Rightarrow>
          (let c = (case req of Send_goal _ _ _ \<Rightarrow> if running g then c else Suc c | _ \<Rightarrow> c) in
           if \<not> running g' then (g', out, c)
           else if clock c - g_last_step_ms g' < STEP_INTERVAL_MS then (g', out, Suc c)
           else (case on_tick (clock (Suc c)) g' of (g'', out') \<Rightarrow> (g'', out @ out', Suc (Suc c)))))"

definition server_ok :: "action_server \<Rightarrow> bool" where
  "server_ok h \<longleftrightarrow> session_ok h \<and> goal_ok (goal h)"

lemma classify_typed: "request_typed (classify d)"
proof -
  obtain ok x sample n where p: "xrce_session_parse_data d (length d) \<lparr>oid = 0, okind = 0\<rparr> [] 0 = (ok, x, sample, n)"
    by (metis prod_cases4)
  have "ok \<Longrightarrow> length sample = n" using p parse_data_sample[of d "length d"] by auto
  then show ?thesis by (auto simp: classify_def p request_typed_def)
qed

lemma dispatch_refines:
  assumes "locals_ok J" "server_ok h" "on_request (net_clock h (clock_reads h)) (classify d) (goal h) = (g, out)"
    and "h' = dispatch J d h"
  shows "goal h' = g \<and> responds (h\<lparr>clock_reads := clock_reads h'\<rparr>) out h' \<and>
     clock_reads h' = (case classify d of Send_goal _ _ _ \<Rightarrow> if running (goal h) then clock_reads h else Suc (clock_reads h) | _ \<Rightarrow> clock_reads h)"
proof -
  have ok: "session_ok h" "goal_typed (goal h)" using assms(2) by (simp_all add: server_ok_def goal_ok_def)
  obtain b x sample n where p: "xrce_session_parse_data d (length d) \<lparr>oid = 0, okind = 0\<rparr> [] 0 = (b, x, sample, n)"
    by (metis prod_cases4)
  have l: "b \<Longrightarrow> length sample = n" using p parse_data_sample[of d "length d"] by auto
  have same: "goal h' = g \<and> responds (h\<lparr>clock_reads := clock_reads h'\<rparr>) out h' \<and> clock_reads h' = clock_reads h"
    if "h' = h" "classify d = Nothing" using that assms(3) by (auto simp: on_request_def responds_def)
  have eqs: "x = send_goal_replier \<longleftrightarrow> oid x = 1 \<and> okind x = 8" "x = cancel_goal_replier \<longleftrightarrow> oid x = 2 \<and> okind x = 8"
    "x = get_result_replier \<longleftrightarrow> oid x = 3 \<and> okind x = 8"
    by (cases x; simp add: xrce_object_id_def)+
  show ?thesis
  proof (cases "d = [] \<or> \<not> b \<or> n < 24")
    case True
    then have "h' = h" "classify d = Nothing" using assms(4) p by (auto simp: dispatch_def classify_def)
    then show ?thesis using same by simp
  next
    case False
    then have len: "length sample = n" "24 \<le> n" "24 \<le> length sample" using l by auto
    let ?req = "drop 24 sample"
    consider (send) "oid x = 1" "okind x = 8" | (cancel) "oid x = 2" "okind x = 8" | (get) "oid x = 3" "okind x = 8"
      | (other) "okind x \<noteq> 8 \<or> (oid x \<noteq> 1 \<and> oid x \<noteq> 2 \<and> oid x \<noteq> 3)" by blast
    then show ?thesis
    proof cases
      case send
      then have h: "h' = handle_send_goal J send_goal_replier sample ?req (length ?req) status_writer h"
        using assms(4) p False len by (simp add: dispatch_def xrce_object_id_def)
      show ?thesis
      proof (cases "44 \<le> n")
        case True
        then have cl: "classify d = Send_goal (take 24 sample) (take 16 ?req) (le_value (take 4 (drop 16 ?req)))"
          using p False send eqs by (simp add: classify_def)
        have r: "20 \<le> length ?req" using True len by simp
        show ?thesis using send_goal_refines[OF assms(1) ok len(3) r assms(3)[unfolded cl] h] cl by (auto simp: responds_def)
      next
        case no: False
        then have "h' = h" using h len by (simp add: handle_send_goal_def)
        moreover have "classify d = Nothing" using p False send eqs no by (simp add: classify_def)
        ultimately show ?thesis using same by simp
      qed
    next
      case cancel
      then have h: "h' = handle_cancel_goal J cancel_goal_replier sample (n - 24) status_writer h"
        using assms(4) p False len by (simp add: dispatch_def xrce_object_id_def)
      show ?thesis
      proof (cases "40 \<le> n")
        case True
        then have cl: "classify d = Cancel (take 24 sample)" using p False cancel eqs by (simp add: classify_def)
        have "16 \<le> n - 24" using True by simp
        from cancel_refines[OF assms(1) ok len(3) this assms(3)[unfolded cl] h] cl show ?thesis by (auto simp: responds_def)
      next
        case no: False
        then have "h' = h" using h len by (simp add: handle_cancel_goal_def)
        moreover have "classify d = Nothing" using p False cancel eqs no by (simp add: classify_def)
        ultimately show ?thesis using same by simp
      qed
    next
      case get
      then have h: "h' = handle_get_result J get_result_replier sample (n - 24) h"
        using assms(4) p False len by (simp add: dispatch_def xrce_object_id_def)
      show ?thesis
      proof (cases "40 \<le> n")
        case True
        then have cl: "classify d = Get_result (take 24 sample)" using p False get eqs by (simp add: classify_def)
        have "16 \<le> n - 24" using True by simp
        from get_result_refines[OF assms(1) ok len(3) this assms(3)[unfolded cl] h] cl show ?thesis by (auto simp: responds_def)
      next
        case no: False
        then have "h' = h" using h len by (simp add: handle_get_result_def)
        moreover have "classify d = Nothing" using p False get eqs no by (simp add: classify_def)
        ultimately show ?thesis using same by simp
      qed
    next
      case other
      then have "h' = h" "classify d = Nothing"
        using assms(4) p False eqs by (auto simp: dispatch_def classify_def xrce_object_id_def)
      then show ?thesis using same by simp
    qed
  qed
qed

lemma on_tick_last: "on_tick now (g\<lparr>g_last_step_ms := t\<rparr>) = on_tick now g"
  by (simp add: on_tick_def Let_def)

lemma serve_pass_refines:
  assumes "locals_ok J" "server_ok h" "d = take 512 (net_in h (recvs h))"
    and "machine_pass (net_clock h) (clock_reads h) (classify d) (goal h) = (g, out, c)" "h' = serve_pass J h"
  shows "goal h' = g \<and> clock_reads h' = c \<and> responds (h\<lparr>recvs := Suc (recvs h), clock_reads := c\<rparr>) out h' \<and> server_ok h'"
proof -
  let ?h0 = "h\<lparr>recvs := Suc (recvs h)\<rparr>"
  obtain g1 out1 where r: "on_request (net_clock h (clock_reads h)) (classify d) (goal h) = (g1, out1)" by fastforce
  define h1 where "h1 = dispatch J d ?h0"
  have ok0: "server_ok ?h0" using assms(2) by (simp add: server_ok_def session_ok_def)
  have c1: "goal h1 = g1" "responds (?h0\<lparr>clock_reads := clock_reads h1\<rparr>) out1 h1"
    "clock_reads h1 = (case classify d of Send_goal _ _ _ \<Rightarrow> if running (goal h) then clock_reads h else Suc (clock_reads h) | _ \<Rightarrow> clock_reads h)"
  proof -
    have r0: "on_request (net_clock ?h0 (clock_reads ?h0)) (classify d) (goal ?h0) = (g1, out1)" using r by simp
    note raw = dispatch_refines[OF assms(1) ok0 r0 h1_def]
    show "goal h1 = g1" "responds (?h0\<lparr>clock_reads := clock_reads h1\<rparr>) out1 h1" using raw by blast+
    show "clock_reads h1 = (case classify d of Send_goal _ _ _ \<Rightarrow> if running (goal h) then clock_reads h else Suc (clock_reads h) | _ \<Rightarrow> clock_reads h)"
      using raw by (cases "classify d") simp_all
  qed
  have g1: "goal_ok g1" using on_request_ok[OF _ classify_typed r] assms(2) by (simp add: server_ok_def)
  have s1: "session_ok h1" using responds_session[OF c1(2)] assms(2) by (simp add: server_ok_def session_ok_def)
  have n1: "net_clock h1 = net_clock h" using c1(2) by (simp add: responds_def)
  have sp: "h' = step_goal J feedback_writer status_writer get_result_replier h1"
    using assms(3,5) by (simp add: serve_pass_def recv_def h1_def)
  show ?thesis
  proof (cases "running g1")
    case False
    then have "h' = h1" using sp c1(1) by (simp add: step_goal_def)
    moreover have "g = g1" "out = out1" "c = clock_reads h1"
      using assms(4) r False c1(3) unfolding machine_pass_def by (auto simp: Let_def)
    ultimately show ?thesis using c1 g1 s1 by (simp add: server_ok_def)
  next
    case True
    let ?c = "clock_reads h1"
    show ?thesis
    proof (cases "net_clock h ?c - g_last_step_ms g1 < STEP_INTERVAL_MS")
      case early: True
      then have h': "h' = h1\<lparr>clock_reads := Suc ?c\<rparr>" using sp c1(1) True n1 by (simp add: step_goal_def now_ms_def)
      have "g = g1" "out = out1" "c = Suc ?c"
        using assms(4) r True early c1(3) unfolding machine_pass_def by (auto simp: Let_def)
      then show ?thesis using c1 g1 s1 h' by (simp add: server_ok_def session_ok_def responds_def)
    next
      case due: False
      obtain g2 out2 where t: "on_tick (net_clock h (Suc ?c)) g1 = (g2, out2)" by fastforce
      let ?now = "net_clock h (Suc ?c)"
      let ?h2 = "h1\<lparr>clock_reads := Suc (Suc ?c), goal := g1\<lparr>g_last_step_ms := ?now\<rparr>\<rparr>"
      have h': "h' = advance_goal J feedback_writer status_writer get_result_replier ?h2"
        using sp c1(1) True due n1 by (simp add: step_goal_def now_ms_def)
      have same: "on_tick ?now (g1\<lparr>g_last_step_ms := ?now\<rparr>) = (g2, out2)" using t by (simp only: on_tick_last)
      have a: "goal h' = g2 \<and> responds ?h2 out2 h'"
        by (rule advance_refines[OF assms(1) _ _ _ _ _ _ h', where now = ?now])
          (use g1 s1 True same goal_length_bounds(2)[of "g_order g1"] in \<open>simp_all add: session_ok_def goal_ok_def goal_typed_def\<close>)
      have "responds (h\<lparr>recvs := Suc (recvs h), clock_reads := Suc (Suc ?c)\<rparr>) out1 ?h2" using c1(2) by (simp add: responds_def)
      from responds_append[OF this conjunct2[OF a]]
      have "responds (h\<lparr>recvs := Suc (recvs h), clock_reads := Suc (Suc ?c)\<rparr>) (out1 @ out2) h'" .
      moreover have "g = g2" "out = out1 @ out2" "c = Suc (Suc ?c)"
        using assms(4) r True due c1(3) t unfolding machine_pass_def by (auto simp: Let_def)
      moreover have "session_ok h'" using responds_session[OF conjunct2[OF a]] s1 by (simp add: session_ok_def)
      moreover have "goal_ok g2" using on_tick_ok(1)[OF g1 True t refl] .
      ultimately show ?thesis using a by (simp add: server_ok_def responds_def)
    qed
  qed
qed

section \<open>Lemmas: goals come to an end\<close>

text \<open>Time passes: whatever reading a step was taken at, some later reading is half a second further.\<close>

definition clock_advances :: "(nat \<Rightarrow> u64) \<Rightarrow> bool" where
  "clock_advances f \<longleftrightarrow> (\<forall>p t. \<exists>j \<ge> t. STEP_INTERVAL_MS \<le> f j - f p)"

definition is_cancel :: "request \<Rightarrow> bool" where
  "is_cancel req = (case req of Cancel _ \<Rightarrow> True | _ \<Rightarrow> False)"

definition never_canceled :: "action_server \<Rightarrow> bool" where
  "never_canceled h \<longleftrightarrow> (\<forall>i. \<not> is_cancel (classify (take 512 (net_in h i))))"

text \<open>Two goal states that differ at most in the held request.\<close>

definition same_goal :: "goal_state \<Rightarrow> goal_state \<Rightarrow> bool" where
  "same_goal g g' \<longleftrightarrow> g_feedback g' = g_feedback g \<and> g_order g' = g_order g \<and> g_goal_id g' = g_goal_id g \<and>
     g_last_step_ms g' = g_last_step_ms g \<and> g_goal_active g' = g_goal_active g \<and> g_goal_done g' = g_goal_done g \<and>
     g_cancel_requested g' = g_cancel_requested g"

lemma request_while_running:
  assumes "running g" "\<not> is_cancel req" "on_request now req g = (g', out)"
  shows "same_goal g g'"
  using assms by (cases req) (auto simp: on_request_def same_goal_def is_cancel_def split: if_splits)

lemma tick_keeps_id: "on_tick now g = (g', out) \<Longrightarrow> g_goal_id g' = g_goal_id g"
  by (auto simp: on_tick_def finish_goal_def Let_def split: if_splits)

lemma pass_while_running:
  assumes "locals_ok J" "server_ok h" "running (goal h)" "\<not> g_cancel_requested (goal h)" "never_canceled h"
    and "h' = serve_pass J h" "now = net_clock h (clock_reads h)" "n = unat (sequence_count (g_feedback (goal h)))"
  shows "server_ok h'" "net_clock h' = net_clock h" "never_canceled h'"
    "if now - g_last_step_ms (goal h) < STEP_INTERVAL_MS
     then same_goal (goal h) (goal h') \<and> clock_reads h' = Suc (clock_reads h)
     else unat (sequence_count (g_feedback (goal h'))) = Suc n \<and> g_order (goal h') = g_order (goal h) \<and>
       g_goal_id (goal h') = g_goal_id (goal h) \<and> \<not> g_cancel_requested (goal h') \<and> g_goal_active (goal h') \<and>
       (g_goal_done (goal h') \<longleftrightarrow> Suc n = goal_length (g_order (goal h))) \<and>
       (\<not> g_goal_done (goal h') \<longrightarrow> g_last_step_ms (goal h') \<in> range (net_clock h))"
proof -
  define d where "d = take 512 (net_in h (recvs h))"
  obtain g out c where m: "machine_pass (net_clock h) (clock_reads h) (classify d) (goal h) = (g, out, c)" by (metis prod_cases3)
  have r: "goal h' = g" "clock_reads h' = c" "responds (h\<lparr>recvs := Suc (recvs h), clock_reads := c\<rparr>) out h'" "server_ok h'"
    using serve_pass_refines[OF assms(1,2) d_def m assms(6)] by blast+
  show "server_ok h'" by (rule r(4))
  show "net_clock h' = net_clock h" using r(3) by (simp add: responds_def)
  show "never_canceled h'" using r(3) assms(5) by (simp add: responds_def never_canceled_def)
  obtain g1 out1 where o: "on_request now (classify d) (goal h) = (g1, out1)" by fastforce
  have nc: "\<not> is_cancel (classify d)" using assms(5) unfolding never_canceled_def d_def by blast
  have s: "same_goal (goal h) g1" by (rule request_while_running[OF assms(3) nc o])
  have run1: "running g1" using s assms(3) by (simp add: same_goal_def)
  have c1: "(case classify d of Send_goal _ _ _ \<Rightarrow> if running (goal h) then clock_reads h else Suc (clock_reads h) | _ \<Rightarrow> clock_reads h) = clock_reads h"
    using assms(3) by (cases "classify d") simp_all
  have mp: "(g, out, c) = (if now - g_last_step_ms (goal h) < STEP_INTERVAL_MS then (g1, out1, Suc (clock_reads h))
      else (case on_tick (net_clock h (Suc (clock_reads h))) g1 of (g2, out2) \<Rightarrow> (g2, out1 @ out2, Suc (Suc (clock_reads h)))))"
    using m o run1 s unfolding machine_pass_def c1 Let_def assms(7)[symmetric] by (simp add: same_goal_def)
  have g1: "goal_ok g1" using on_request_ok[OF _ classify_typed o] assms(2) by (simp add: server_ok_def)
  show "if now - g_last_step_ms (goal h) < STEP_INTERVAL_MS
     then same_goal (goal h) (goal h') \<and> clock_reads h' = Suc (clock_reads h)
     else unat (sequence_count (g_feedback (goal h'))) = Suc n \<and> g_order (goal h') = g_order (goal h) \<and>
       g_goal_id (goal h') = g_goal_id (goal h) \<and> \<not> g_cancel_requested (goal h') \<and> g_goal_active (goal h') \<and>
       (g_goal_done (goal h') \<longleftrightarrow> Suc n = goal_length (g_order (goal h))) \<and>
       (\<not> g_goal_done (goal h') \<longrightarrow> g_last_step_ms (goal h') \<in> range (net_clock h))"
  proof (cases "now - g_last_step_ms (goal h) < STEP_INTERVAL_MS")
    case True
    then show ?thesis using mp r(1,2) s by simp
  next
    case False
    obtain g2 out2 where t: "on_tick (net_clock h (Suc (clock_reads h))) g1 = (g2, out2)" by fastforce
    have "g = g2" using mp False t by simp
    moreover have n1: "n = unat (sequence_count (g_feedback g1))" "\<not> g_cancel_requested g1" using s assms(4,8) by (simp_all add: same_goal_def)
    note on_tick_ok(2)[OF g1 run1 t n1]
    ultimately show ?thesis using False r(1) tick_keeps_id[OF t] s by (auto simp: same_goal_def)
  qed
qed

text \<open>A running goal takes its next step.\<close>

lemma next_step:
  assumes "locals_ok J" "server_ok h" "running (goal h)" "\<not> g_cancel_requested (goal h)" "never_canceled h"
    and "clock_reads h \<le> t" "STEP_INTERVAL_MS \<le> net_clock h t - g_last_step_ms (goal h)"
  shows "\<exists>k. let h' = (serve_pass J ^^ k) h in server_ok h' \<and> net_clock h' = net_clock h \<and> never_canceled h' \<and>
     unat (sequence_count (g_feedback (goal h'))) = Suc (unat (sequence_count (g_feedback (goal h)))) \<and>
     g_order (goal h') = g_order (goal h) \<and> g_goal_id (goal h') = g_goal_id (goal h) \<and> \<not> g_cancel_requested (goal h') \<and>
     g_goal_active (goal h') \<and>
     (g_goal_done (goal h') \<longleftrightarrow> Suc (unat (sequence_count (g_feedback (goal h)))) = goal_length (g_order (goal h))) \<and>
     (\<not> g_goal_done (goal h') \<longrightarrow> g_last_step_ms (goal h') \<in> range (net_clock h))"
  using assms(2-7)
proof (induction "t - clock_reads h" arbitrary: h)
  case 0
  then have t: "t = clock_reads h" by simp
  define h' where "h' = serve_pass J h"
  note p = pass_while_running[OF assms(1) 0(2-5) h'_def refl refl]
  have "\<not> net_clock h (clock_reads h) - g_last_step_ms (goal h) < STEP_INTERVAL_MS" using 0(7) t by simp
  then show ?case using p by (intro exI[of _ 1]) (simp add: h'_def[symmetric] Let_def)
next
  case (Suc m)
  define h' where "h' = serve_pass J h"
  note p = pass_while_running[OF assms(1) Suc(3-6) h'_def refl refl]
  show ?case
  proof (cases "net_clock h (clock_reads h) - g_last_step_ms (goal h) < STEP_INTERVAL_MS")
    case True
    then have s: "same_goal (goal h) (goal h')" "clock_reads h' = Suc (clock_reads h)" using p(4) by simp_all
    have "m = t - clock_reads h'" "clock_reads h' \<le> t" using s(2) Suc(2) by simp_all
    moreover have "running (goal h')" "\<not> g_cancel_requested (goal h')" "STEP_INTERVAL_MS \<le> net_clock h' t - g_last_step_ms (goal h')"
      using s(1) Suc(4,5,8) p(2) by (simp_all add: same_goal_def)
    ultimately obtain k where "let h'' = (serve_pass J ^^ k) h' in server_ok h'' \<and> net_clock h'' = net_clock h' \<and> never_canceled h'' \<and>
       unat (sequence_count (g_feedback (goal h''))) = Suc (unat (sequence_count (g_feedback (goal h')))) \<and>
       g_order (goal h'') = g_order (goal h') \<and> g_goal_id (goal h'') = g_goal_id (goal h') \<and> \<not> g_cancel_requested (goal h'') \<and>
       g_goal_active (goal h'') \<and>
       (g_goal_done (goal h'') \<longleftrightarrow> Suc (unat (sequence_count (g_feedback (goal h')))) = goal_length (g_order (goal h'))) \<and>
       (\<not> g_goal_done (goal h'') \<longrightarrow> g_last_step_ms (goal h'') \<in> range (net_clock h'))"
      using Suc(1)[of h'] p(1,3) by blast
    then show ?thesis
      using s(1) p(2) by (intro exI[of _ "Suc k"]) (simp add: funpow_swap1 h'_def[symmetric] same_goal_def Let_def)
  next
    case False
    then show ?thesis using p by (intro exI[of _ 1]) (simp add: h'_def[symmetric] Let_def)
  qed
qed

lemma goal_ends:
  assumes "locals_ok J" "server_ok h" "running (goal h)" "\<not> g_cancel_requested (goal h)" "never_canceled h"
    and "clock_advances (net_clock h)" "g_last_step_ms (goal h) \<in> range (net_clock h)"
  shows "\<exists>k. let g = goal ((serve_pass J ^^ k) h) in g_goal_done g \<and> \<not> g_cancel_requested g \<and> goal_ok g \<and>
     g_order g = g_order (goal h) \<and> g_goal_id g = g_goal_id (goal h)"
  using assms(2-7)
proof (induction "goal_length (g_order (goal h)) - unat (sequence_count (g_feedback (goal h)))" arbitrary: h rule: less_induct)
  case less
  obtain p where "g_last_step_ms (goal h) = net_clock h p" using less(7) by auto
  then obtain t where t: "clock_reads h \<le> t" "STEP_INTERVAL_MS \<le> net_clock h t - g_last_step_ms (goal h)"
    using less(6) unfolding clock_advances_def by metis
  obtain k where k: "let h' = (serve_pass J ^^ k) h in server_ok h' \<and> net_clock h' = net_clock h \<and> never_canceled h' \<and>
     unat (sequence_count (g_feedback (goal h'))) = Suc (unat (sequence_count (g_feedback (goal h)))) \<and>
     g_order (goal h') = g_order (goal h) \<and> g_goal_id (goal h') = g_goal_id (goal h) \<and> \<not> g_cancel_requested (goal h') \<and>
     g_goal_active (goal h') \<and>
     (g_goal_done (goal h') \<longleftrightarrow> Suc (unat (sequence_count (g_feedback (goal h)))) = goal_length (g_order (goal h))) \<and>
     (\<not> g_goal_done (goal h') \<longrightarrow> g_last_step_ms (goal h') \<in> range (net_clock h))"
    using next_step[OF assms(1) less(2-5) t] by blast
  define h' where "h' = (serve_pass J ^^ k) h"
  note k = k[folded h'_def, unfolded Let_def]
  show ?case
  proof (cases "g_goal_done (goal h')")
    case True
    then show ?thesis using k by (intro exI[of _ k]) (simp add: h'_def[symmetric] Let_def server_ok_def)
  next
    case False
    have "unat (sequence_count (g_feedback (goal h))) < goal_length (g_order (goal h))"
      using less(2,3) by (simp add: server_ok_def goal_ok_def)
    then have "goal_length (g_order (goal h')) - unat (sequence_count (g_feedback (goal h'))) <
        goal_length (g_order (goal h)) - unat (sequence_count (g_feedback (goal h)))" using k by simp
    from less(1)[OF this] False k less(6) obtain k2 where
      "let g = goal ((serve_pass J ^^ k2) h') in g_goal_done g \<and> \<not> g_cancel_requested g \<and> goal_ok g \<and>
       g_order g = g_order (goal h') \<and> g_goal_id g = g_goal_id (goal h')" by auto
    then show ?thesis using k
      by (intro exI[of _ "k2 + k"]) (simp add: funpow_add h'_def[symmetric] Let_def)
  qed
qed

lemma passes_ok: "locals_ok J \<Longrightarrow> server_ok h \<Longrightarrow> server_ok ((serve_pass J ^^ n) h)"
proof (induction n)
  case (Suc n)
  let ?h = "(serve_pass J ^^ n) h"
  obtain g out c where "machine_pass (net_clock ?h) (clock_reads ?h) (classify (take 512 (net_in ?h (recvs ?h)))) (goal ?h) = (g, out, c)"
    by (metis prod_cases3)
  from serve_pass_refines[OF Suc.prems(1) Suc.IH[OF Suc.prems] refl this refl] show ?case by simp
qed simp

lemma goal_of_more: "host.more h' = host.more h \<Longrightarrow> goal h' = goal (h :: action_server)"
  by (cases h; cases h') simp

section \<open>Properties\<close>

text \<open>
  C15: The action server is the machine. In every well-formed state a pass of the program's loop, with its
  parsing, encoding, buffers and clock calls, does exactly what a pass of the machine does for the
  request in the datagram: the same goal state, the same readings of the clock, and as datagrams
  exactly the machine's messages, each a WRITE\_DATA message under the next numbers; and the state is
  well-formed again.
\<close>

theorem action_server_refines_machine:
  assumes "locals_ok J" "server_ok h"
  shows "case machine_pass (net_clock h) (clock_reads h) (classify (take 512 (net_in h (recvs h)))) (goal h) of (g, out, c) \<Rightarrow>
     let h' = serve_pass J h in goal h' = g \<and> clock_reads h' = c \<and> recvs h' = Suc (recvs h) \<and>
       datagrams h' = datagrams h @ sample_messages (g_s h) out \<and> g_s h' = (numbered ^^ length out) (g_s h) \<and> server_ok h'"
proof -
  obtain g out c where m: "machine_pass (net_clock h) (clock_reads h) (classify (take 512 (net_in h (recvs h)))) (goal h) = (g, out, c)"
    by (metis prod_cases3)
  from serve_pass_refines[OF assms refl m refl] show ?thesis unfolding m by (simp add: responds_def Let_def)
qed

definition sample_server :: "(nat \<Rightarrow> bytes) \<Rightarrow> goal_state \<Rightarrow> action_server" where
  "sample_server agent g = \<lparr>net_in = agent, net_ok = \<lambda>_. True, net_clock = \<lambda>i. of_nat (1000 * i), recvs = 0, sends = 0,
     clock_reads = 1, datagrams = [], stdout = [], g_s = xrce_session_init 1 [0xAC, 0x71, 0x0A, 0x01] 512,
     msg_buf = replicate 512 0xAA, goal = g\<rparr>"

definition sample_goal :: goal_state where
  "sample_goal = accept_goal (replicate 16 7) 5 0 (goal_init\<lparr>g_result_pending := True\<rparr>)"

lemma sample_server_ok: "locals_ok (\<lambda>n. replicate n 0xAA)" "server_ok (sample_server agent sample_goal)"
  by (simp_all add: locals_ok_def server_ok_def session_ok_def sample_server_def sample_goal_def accept_goal_def goal_init_def goal_ok_def
      goal_typed_def fib_values_def xrce_session_init_def goal_length_def)

lemma silent_classify: "classify [] = Nothing"
  by (auto simp: classify_def split: prod.splits)

lemma sample_pass:
  "machine_pass (\<lambda>i. of_nat (1000 * i)) 1 Nothing sample_goal =
     (let g = sample_goal\<lparr>g_last_step_ms := 2000, g_status := GOAL_STATUS_EXECUTING, g_feedback := push_value (g_feedback sample_goal)\<rparr> in
      (g, [(feedback_writer, feedback_bytes g), (status_writer, status_bytes g)], 3))"
  by (simp add: machine_pass_def on_request_def on_tick_def sample_goal_def accept_goal_def goal_init_def push_value_def feedback_bytes_def
      fib_values_def Let_def word_less_nat_alt word_le_nat_alt)

theorem action_server_refines_machine_witness:
  "length (datagrams (serve_pass (\<lambda>n. replicate n 0xAA) (sample_server (\<lambda>_. []) sample_goal))) = 2"
proof -
  let ?h = "sample_server (\<lambda>_. []) sample_goal"
  have f: "net_clock ?h = (\<lambda>i. of_nat (1000 * i))" "clock_reads ?h = 1" "net_in ?h (recvs ?h) = []" "goal ?h = sample_goal" "datagrams ?h = []"
    by (simp_all add: sample_server_def)
  show ?thesis
    using action_server_refines_machine[OF sample_server_ok, of "\<lambda>_. []"]
    unfolding f take_Nil silent_classify sample_pass by (simp add: Let_def)
qed

text \<open>
  C17: The state of the action server is well-formed whatever arrives, whenever and however often: the goal
  id has 16 bytes and the held identity 24, at most 16 values are stored and they are the Fibonacci
  numbers, so the write of the next one is within the array and no sum overflows; the status is the
  one the phase of the goal requires; a finished goal has as many values as its order asks, between
  one and sixteen, unless it was canceled; and no request for a result is held once the goal is done.
\<close>

theorem action_server_well_typed:
  assumes "locals_ok J" "length (msg_buf h) = 512"
  shows "case action_main J n 3 h of Exited _ h' \<Rightarrow> goal h' = goal_init | Running h' \<Rightarrow> goal_ok (goal h')"
proof -
  let ?h = "h\<lparr>goal := goal_init\<rparr>\<lparr>g_s := xrce_session_init 1 [0xAC, 0x71, 0x0A, 0x01] 512\<rparr>"
  have ok: "client_ok ?h" by (rule client_ok_init) (use assms(2) in simp_all)
  obtain k h1 where k: "run_setup action_script ?h = (k = length action_script, h1)" "client_ok h1" "same_world ?h h1"
    using run_setup_exact[OF action_script_ok ok] by blast
  have g: "goal h1 = goal_init" using goal_of_more[of h1 ?h] k(3) by (simp add: same_world_def)
  have "server_ok h1" using k(2) g goal_ok_init by (simp add: server_ok_def session_ok_def client_ok_def)
  from passes_ok[OF assms(1) this, of n] show ?thesis
    using k(1) g by (simp add: action_main_def host_main_def server_ok_def)
qed

theorem action_server_well_typed_witness:
  "case action_main (\<lambda>n. replicate n 0) 100 3 (sample_server good_agent sample_goal) of
     Exited _ h' \<Rightarrow> goal h' = goal_init | Running h' \<Rightarrow> goal_ok (goal h')"
  by (rule action_server_well_typed) (simp_all add: locals_ok_def sample_server_def)

text \<open>
  C16: An accepted goal is carried out. If time passes and nobody asks to cancel, then from every well-formed
  state with a running goal the server reaches, after finitely many passes and whatever other
  datagrams arrive meanwhile, the end of that same goal: status SUCCEEDED and the
  Fibonacci numbers, as many as the order asks for but at least one and at most sixteen.
\<close>

theorem accepted_goal_succeeds:
  assumes "locals_ok J" "server_ok h" "running (goal h)" "\<not> g_cancel_requested (goal h)" "never_canceled h"
    and "clock_advances (net_clock h)" "g_last_step_ms (goal h) \<in> range (net_clock h)"
  shows "\<exists>k. let g = goal ((serve_pass J ^^ k) h) in g_goal_done g \<and> g_status g = GOAL_STATUS_SUCCEEDED \<and>
     g_goal_id g = g_goal_id (goal h) \<and>
     fib_values (g_feedback g) = map (\<lambda>i. of_nat (fib i)) [0..<max 1 (min 16 (unat (g_order (goal h))))]"
proof -
  obtain k where "let g = goal ((serve_pass J ^^ k) h) in g_goal_done g \<and> \<not> g_cancel_requested g \<and> goal_ok g \<and>
     g_order g = g_order (goal h) \<and> g_goal_id g = g_goal_id (goal h)"
    using goal_ends[OF assms] by blast
  then show ?thesis by (intro exI[of _ k]) (auto simp: goal_ok_def goal_length_def Let_def)
qed

lemma sample_clock: "clock_advances (\<lambda>i. of_nat (1000 * i))"
  unfolding clock_advances_def
proof (intro allI)
  fix p t :: nat
  let ?j = "p + 1 + t * 18446744073709551616"
  have z: "(of_nat (18446744073709551616 * m) :: u64) = 0" for m
  proof -
    have "(18446744073709551616 :: u64) = 0" by simp
    then show ?thesis unfolding of_nat_mult of_nat_numeral by (metis mult_zero_left)
  qed
  have j: "1000 * ?j = 1000 * p + 1000 + 18446744073709551616 * (1000 * t)" by simp
  have "(of_nat (1000 * ?j) :: u64) = of_nat (1000 * p) + 1000"
    unfolding j of_nat_add z of_nat_numeral by (simp only: add_0_right)
  then have "STEP_INTERVAL_MS \<le> (of_nat (1000 * ?j) :: u64) - of_nat (1000 * p)" by (simp only: add_diff_cancel_left') (simp add: word_le_nat_alt)
  moreover have "t \<le> ?j" by simp
  ultimately show "\<exists>j \<ge> t. STEP_INTERVAL_MS \<le> (of_nat (1000 * j) :: u64) - of_nat (1000 * p)" by blast
qed

lemma sample_goal_facts: "running sample_goal" "\<not> g_cancel_requested sample_goal" "g_last_step_ms sample_goal = 0" "g_order sample_goal = 5"
  by (simp_all add: sample_goal_def accept_goal_def)

theorem accepted_goal_succeeds_witness:
  "\<exists>k. let g = goal ((serve_pass (\<lambda>n. replicate n 0xAA) ^^ k) (sample_server (\<lambda>_. []) sample_goal)) in
     g_status g = GOAL_STATUS_SUCCEEDED \<and> fib_values (g_feedback g) = [0, 1, 1, 2, 3]"
proof -
  let ?h = "sample_server (\<lambda>_. []) sample_goal"
  have f: "net_clock ?h = (\<lambda>i. of_nat (1000 * i))" "net_in ?h = (\<lambda>_. [])" "goal ?h = sample_goal" by (simp_all add: sample_server_def)
  have a: "running (goal ?h)" "\<not> g_cancel_requested (goal ?h)" "never_canceled ?h" "g_last_step_ms (goal ?h) \<in> range (net_clock ?h)"
    unfolding f never_canceled_def take_Nil silent_classify using sample_goal_facts
    by (auto simp: is_cancel_def intro!: range_eqI[of _ _ 0])
  have c: "clock_advances (net_clock ?h)" unfolding f(1) by (rule sample_clock)
  have o: "g_order (goal ?h) = 5" unfolding f by (rule sample_goal_facts)
  have v: "map (\<lambda>i. of_nat (fib i) :: u32) [0..<max 1 (min 16 (unat (5 :: u32)))] = [0, 1, 1, 2, 3]" by code_simp
  show ?thesis using accepted_goal_succeeds[OF sample_server_ok a(1-3) c a(4)] unfolding o v by (auto simp: Let_def)
qed

end
