(* ===== verification/Diagnostics.thy ===== *)
theory Diagnostics
  imports Host_Demos Queue_System
begin

text \<open>
  \<^verbatim>\<open>host/live_diagnostics_demo.c\<close> and \<^verbatim>\<open>host/live_fault_demo.c\<close>: host programs that link the kernel, run two
  workers over a queue and publish the state of the kernel as a \<^verbatim>\<open>diagnostic_msgs/DiagnosticArray\<close>, every second
  and on request. The fault program is the same program with a consumer that destroys its own stack
  canary; the two differ in a \<open>diag_cfg\<close>.

  \<open>rtos_host\<close> extends the host with the kernel, \<open>diag_host\<close> with the globals of the programs. Every loop body of
  a task is one definition; the two workers go by the program points of the queue operations, and a
  worker that blocks or sleeps gives control back to \<^verbatim>\<open>scheduler_run\<close>. \<open>J n\<close> is what a local array of \<open>n\<close> bytes
  holds before it is written.
\<close>

section \<open>State\<close>

abbreviation DIAGNOSTIC_STATUS_OK :: u8 where "DIAGNOSTIC_STATUS_OK \<equiv> 0"
abbreviation DIAGNOSTIC_STATUS_WARN :: u8 where "DIAGNOSTIC_STATUS_WARN \<equiv> 1"
abbreviation WORK_QUEUE_CAPACITY :: int where "WORK_QUEUE_CAPACITY \<equiv> 4"
abbreviation FAULTY_ITERATIONS_BEFORE_CRASH :: int where "FAULTY_ITERATIONS_BEFORE_CRASH \<equiv> 5"

record rtos_host = host +
  g_mach :: machine

record diag_host = rtos_host +
  g_bytes_sent :: u64
  g_work_queue :: queue
  g_first_task :: ptr
  g_second_task :: ptr

abbreviation g_kern :: "'a rtos_host_scheme \<Rightarrow> kernel" where "g_kern h \<equiv> kern (g_mach h)"

text \<open>What distinguishes the two programs: the key, the names, and the names of the two workers.\<close>

record diag_cfg =
  demo_key :: bytes
  demo_name :: string
  demo_profile :: string
  first_name :: string
  second_name :: string

definition diagnostics_cfg :: diag_cfg where
  "diagnostics_cfg = \<lparr>demo_key = [0x08, 0x08, 0x08, 0x08], demo_name = ''rtos_diagnostics'', demo_profile = ''diag_refresh'',
     first_name = ''producer'', second_name = ''consumer''\<rparr>"

definition fault_cfg :: diag_cfg where
  "fault_cfg = \<lparr>demo_key = [0xFA, 0x01, 0x7A, 0x01], demo_name = ''rtos_fault_demo'', demo_profile = ''fault_diag_refresh'',
     first_name = ''healthy'', second_name = ''faulty''\<rparr>"

section \<open>Sending with a count\<close>

text \<open>Only datagrams that went out whole are counted.\<close>

definition count_bytes :: "nat \<Rightarrow> 'a diag_host_scheme \<Rightarrow> 'a diag_host_scheme" where
  "count_bytes len h = h\<lparr>g_bytes_sent := g_bytes_sent h + of_nat len\<rparr>"

definition diag_send_and_wait_ok ::
  "string \<Rightarrow> bytes \<Rightarrow> nat \<Rightarrow> (bytes \<Rightarrow> nat \<Rightarrow> bool) \<Rightarrow> 'a diag_host_scheme \<Rightarrow> bool \<times> 'a diag_host_scheme" where
  "diag_send_and_wait_ok step_name msg len parse_reply h =
     (case sendto msg len h of
        (sent_ok, h) \<Rightarrow>
          if \<not> sent_ok then (False, h)
          else
            (case recv 256 (count_bytes len h) of
               (reply, h) \<Rightarrow>
                 if reply = [] then (False, h)
                 else
                   (let ok = parse_reply reply (length reply) in
                    (ok, put_line (pad_right 24 step_name @ '' -> '' @ (if ok then ''OK'' else ''FAILED'')) h))))"

definition send_tracked :: "bytes \<Rightarrow> nat \<Rightarrow> 'a diag_host_scheme \<Rightarrow> 'a diag_host_scheme" where
  "send_tracked buf len h = (case sendto buf len h of (sent_ok, h) \<Rightarrow> if sent_ok then count_bytes len h else h)"

text \<open>
  The straight line of requests of a program with its own way of sending and waiting and its own way of
  sending only.
\<close>

definition setup_by ::
  "(string \<Rightarrow> bytes \<Rightarrow> nat \<Rightarrow> (bytes \<Rightarrow> nat \<Rightarrow> bool) \<Rightarrow> 'a host_scheme \<Rightarrow> bool \<times> 'a host_scheme) \<Rightarrow>
   (bytes \<Rightarrow> nat \<Rightarrow> 'a host_scheme \<Rightarrow> 'a host_scheme) \<Rightarrow> setup_step \<Rightarrow> 'a host_scheme \<Rightarrow> bool \<times> 'a host_scheme" where
  "setup_by wait only st h =
     (case st of
        (req, after) \<Rightarrow>
          (case build_client_request req (g_s h) (msg_buf h) of
             (len, s, buf) \<Rightarrow>
               (let h = h\<lparr>g_s := s, msg_buf := buf\<rparr> in
                case after of
                  Await step_name parse_reply \<Rightarrow> wait step_name buf len parse_reply h
                | Must_send \<Rightarrow> sendto buf len h
                | Just_send \<Rightarrow> (True, only buf len h))))"

fun run_by :: "(setup_step \<Rightarrow> 'h \<Rightarrow> bool \<times> 'h) \<Rightarrow> setup_step list \<Rightarrow> 'h \<Rightarrow> bool \<times> 'h" where
  "run_by one [] h = (True, h)"
| "run_by one (st # sts) h = (case one st h of (ok, h) \<Rightarrow> if \<not> ok then (False, h) else run_by one sts h)"

section \<open>The status array\<close>

definition zero_kv :: diagnostic_msgs_KeyValue where
  "zero_kv = \<lparr>kv_key = replicate 64 0, kv_value = replicate 64 0\<rparr>"

definition zero_status :: diagnostic_msgs_DiagnosticStatus where
  "zero_status = \<lparr>level = 0, diag_name = replicate 64 0, diag_message = replicate 64 0, hardware_id = replicate 64 0,
     diag_values = replicate 8 zero_kv, values_count = 0\<rparr>"

definition zero_array :: diagnostic_msgs_DiagnosticArray where
  "zero_array = \<lparr>diag_header = \<lparr>stamp = \<lparr>sec = 0, nanosec = 0\<rparr>, frame_id = replicate 64 0\<rparr>,
     diag_status = replicate 16 zero_status, status_count = 0\<rparr>"

text \<open>A status after \<^verbatim>\<open>memset\<close> and the calls of \<^verbatim>\<open>snprintf\<close>; the values go to the first entries.\<close>

definition status_entry :: "u8 \<Rightarrow> string \<Rightarrow> string \<Rightarrow> (string \<times> string) list \<Rightarrow> diagnostic_msgs_DiagnosticStatus" where
  "status_entry lvl name msg kvs =
     zero_status\<lparr>level := lvl, diag_name := snprintf name (diag_name zero_status),
       diag_message := snprintf msg (diag_message zero_status), hardware_id := snprintf ''rtos'' (hardware_id zero_status),
       diag_values := map (\<lambda>(k, v). \<lparr>kv_key = snprintf k (kv_key zero_kv), kv_value = snprintf v (kv_value zero_kv)\<rparr>) kvs @
         drop (length kvs) (diag_values zero_status),
       values_count := of_nat (length kvs)\<rparr>"

definition add_status :: "diagnostic_msgs_DiagnosticStatus \<Rightarrow> diagnostic_msgs_DiagnosticArray \<Rightarrow> diagnostic_msgs_DiagnosticArray" where
  "add_status st arr = arr\<lparr>diag_status := (diag_status arr)[unat (status_count arr) := st], status_count := status_count arr + 1\<rparr>"

definition task_state_name :: "task_state \<Rightarrow> string" where
  "task_state_name s = (case s of TASK_READY \<Rightarrow> ''READY'' | TASK_RUNNING \<Rightarrow> ''RUNNING'' | TASK_BLOCKED \<Rightarrow> ''BLOCKED''
     | TASK_TERMINATED \<Rightarrow> ''TERMINATED'')"

text \<open>\<^verbatim>\<open>%s\<close> of a character array.\<close>

definition text_in :: "string \<Rightarrow> string" where
  "text_in s = takeWhile (\<lambda>c. c \<noteq> CHR 0x00) s"

definition add_task_status :: "task \<Rightarrow> diagnostic_msgs_DiagnosticArray \<Rightarrow> diagnostic_msgs_DiagnosticArray" where
  "add_task_status t = add_status (status_entry DIAGNOSTIC_STATUS_OK (''task/'' @ text_in (tname t)) (task_state_name (tstate t))
     [(''priority'', dec_string (priority t)),
      (''stack_high_water_mark_bytes'', dec_digits (task_stack_high_water_mark t)),
      (''ticks_run'', dec_digits (unat (ticks_run t))),
      (''ticks_ready'', dec_digits (unat (ticks_ready t)))])"

definition add_scheduler_status :: "kernel \<Rightarrow> diagnostic_msgs_DiagnosticArray \<Rightarrow> diagnostic_msgs_DiagnosticArray" where
  "add_scheduler_status k = add_status (status_entry DIAGNOSTIC_STATUS_OK ''scheduler'' ''running''
     [(''tick_count'', dec_digits (unat (scheduler_tick_count k))),
      (''context_switch_count'', dec_digits (unat (scheduler_switch_count k)))])"

definition queue_depth :: "queue \<Rightarrow> int" where
  "queue_depth q = c_mod (qtail q - qhead q + qcapacity q) (qcapacity q)"

definition queue_level :: "queue \<Rightarrow> u8" where
  "queue_level q = (if queue_depth q = qcapacity q - 1 then DIAGNOSTIC_STATUS_WARN else DIAGNOSTIC_STATUS_OK)"

definition add_queue_status :: "string \<Rightarrow> queue \<Rightarrow> diagnostic_msgs_DiagnosticArray \<Rightarrow> diagnostic_msgs_DiagnosticArray" where
  "add_queue_status name q = add_status (status_entry (queue_level q) (''queue/'' @ name)
     (''depth '' @ dec_string (queue_depth q) @ ''/'' @ dec_string (qcapacity q))
     [(''depth'', dec_string (queue_depth q)), (''capacity'', dec_string (qcapacity q))])"

definition add_middleware_status :: "u64 \<Rightarrow> diagnostic_msgs_DiagnosticArray \<Rightarrow> diagnostic_msgs_DiagnosticArray" where
  "add_middleware_status bytes = add_status (status_entry DIAGNOSTIC_STATUS_OK ''middleware''
     ''best-effort only in this demo -- no retransmits possible'' [(''bytes_sent'', dec_digits (unat bytes))])"

section \<open>Publishing\<close>

definition diagnostics_array :: "'a diag_host_scheme \<Rightarrow> diagnostic_msgs_DiagnosticArray" where
  "diagnostics_array h =
     (let arr = zero_array;
          arr = add_task_status (deref (g_kern h) (g_first_task h)) arr;
          arr = add_task_status (deref (g_kern h) (g_second_task h)) arr;
          arr = add_scheduler_status (g_kern h) arr;
          arr = add_queue_status ''work'' (g_work_queue h) arr
      in add_middleware_status (g_bytes_sent h) arr)"

definition publish_diagnostics :: "(nat \<Rightarrow> bytes) \<Rightarrow> 'a diag_host_scheme \<Rightarrow> 'a diag_host_scheme" where
  "publish_diagnostics J h =
     (case diagnostic_msgs_DiagnosticArray_encode (diagnostics_array h) (J 2048) 2048 0 of
        (ok, sample, sample_len) \<Rightarrow>
          if \<not> ok then h
          else
            (case xrce_session_build_write_data (g_s h) BEST_EFFORT_STREAM_0 datawriter_1 (drop 4 sample) (sample_len - 4) (J 2048) 2048 of
               (len, s, buf) \<Rightarrow> send_tracked buf len (h\<lparr>g_s := s\<rparr>)))"

definition handle_refresh_requests :: "(nat \<Rightarrow> bytes) \<Rightarrow> 'a diag_host_scheme \<Rightarrow> 'a diag_host_scheme" where
  "handle_refresh_requests J h =
     (case recv 256 h of
        (d, h) \<Rightarrow>
          if d = [] then h
          else
            (case xrce_session_parse_data d (length d) \<lparr>oid = 0, okind = 0\<rparr> [] 0 of
               (ok, from_id, sample, sample_len) \<Rightarrow>
                 if \<not> ok \<or> oid from_id \<noteq> oid replier_1 \<or> okind from_id \<noteq> XRCE_OBJK_REPLIER \<or> sample_len < XRCE_SAMPLE_IDENTITY_SIZE
                 then h
                 else
                   (case std_srvs_Trigger_Response_encode
                           \<lparr>success = True, trigger_message = snprintf ''refreshed'' (replicate 256 0)\<rparr> (J 128) 128 0 of
                      (_, resp_sample, resp_sample_len) \<Rightarrow>
                        (case reply_wire sample resp_sample resp_sample_len of
                           (wire, wire_len) \<Rightarrow>
                             (case xrce_session_build_write_data (g_s h) BEST_EFFORT_STREAM_0 replier_1 wire wire_len (J 256) 256 of
                                (len, s, buf) \<Rightarrow>
                                  (let h = send_tracked buf len (h\<lparr>g_s := s\<rparr>);
                                       h = put_line ''refresh requested -- republishing'' h
                                   in publish_diagnostics J h))))))"

section \<open>The tasks\<close>

text \<open>\<^verbatim>\<open>task_sleep\<close> of the running task.\<close>

definition pause :: "int \<Rightarrow> 'a rtos_host_scheme \<Rightarrow> 'a rtos_host_scheme" where
  "pause ms h = h\<lparr>g_mach := machine_sleep ms (g_mach h)\<rparr>"

definition coordinator_pass :: "(nat \<Rightarrow> bytes) \<Rightarrow> 'a diag_host_scheme \<Rightarrow> 'a diag_host_scheme" where
  "coordinator_pass J h = pause 50 (handle_refresh_requests J h)"

definition publisher_pass :: "(nat \<Rightarrow> bytes) \<Rightarrow> 'a diag_host_scheme \<Rightarrow> 'a diag_host_scheme" where
  "publisher_pass J h = pause 1000 (publish_diagnostics J h)"

text \<open>
  One statement of a queue operation by the running task: a call that blocks it has yielded, and control
  is back in \<^verbatim>\<open>scheduler_run\<close>.
\<close>

definition queue_op ::
  "(queue_pc \<Rightarrow> queue \<Rightarrow> kernel \<Rightarrow> queue_pc \<times> queue \<times> kernel) \<Rightarrow> queue_pc \<Rightarrow> 'a diag_host_scheme \<Rightarrow> queue_pc \<times> 'a diag_host_scheme" where
  "queue_op f pc h =
     (case f pc (g_work_queue h) (g_kern h) of
        (pc, q, k) \<Rightarrow>
          (pc, h\<lparr>g_work_queue := q,
                 g_mach := (if tstate (deref k (cur_ptr (g_kern h))) = TASK_BLOCKED then back_to_scheduler k (g_mach h)
                            else (g_mach h)\<lparr>kern := k\<rparr>)\<rparr>))"

text \<open>The workers; \<open>i\<close> is their loop counter.\<close>

definition producer_stmt :: "int \<times> queue_pc \<Rightarrow> 'a diag_host_scheme \<Rightarrow> (int \<times> queue_pc) \<times> 'a diag_host_scheme" where
  "producer_stmt st h =
     (case st of (i, pc) \<Rightarrow>
      if pc = Outside then ((i + 1, Send_wait (word_of_int (i + 1))), pause 200 h)
      else (case queue_op queue_send pc h of (pc, h) \<Rightarrow> ((i, pc), h)))"

definition consumer_stmt :: "queue_pc \<Rightarrow> 'a diag_host_scheme \<Rightarrow> queue_pc \<times> 'a diag_host_scheme" where
  "consumer_stmt pc h =
     (case pc of
        Received item \<Rightarrow> (Recv_wait, pause 350 h)
      | _ \<Rightarrow> queue_op queue_receive pc h)"

definition stomp_canary :: "ptr \<Rightarrow> kernel \<Rightarrow> kernel" where
  "stomp_canary p = upd_task p (\<lambda>t. t\<lparr>stack := blit 0 (replicate TASK_CANARY_SIZE 0) (stack t)\<rparr>)"

definition faulty_stmt :: "int \<times> queue_pc \<Rightarrow> 'a diag_host_scheme \<Rightarrow> (int \<times> queue_pc) \<times> 'a diag_host_scheme" where
  "faulty_stmt st h =
     (case st of (i, pc) \<Rightarrow>
      (case pc of
         Received item \<Rightarrow>
           (let h = (if i = FAULTY_ITERATIONS_BEFORE_CRASH
                     then (put_line (''[faulty_worker] iteration '' @ dec_string i @
                             '': deliberately corrupting my own stack canary now (simulated overflow bug) -- next task_sleep() will trip the abort'') h)
                          \<lparr>g_mach := (g_mach h)\<lparr>kern := stomp_canary (g_second_task h) (g_kern h)\<rparr>\<rparr>
                     else h)
            in ((i + 1, Recv_wait), pause 350 h))
       | _ \<Rightarrow> (case queue_op queue_receive pc h of (pc, h) \<Rightarrow> ((i, pc), h))))"

section \<open>The programs\<close>

abbreviation diagnostics_type :: string where "diagnostics_type \<equiv> ''diagnostic_msgs::msg::dds_::DiagnosticArray_''"

definition diag_script :: "diag_cfg \<Rightarrow> setup_step list" where
  "diag_script cfg =
     [create_client_step,
      create_step ''CREATE participant'' (Create_participant participant_1 (participant_xml (demo_name cfg))),
      create_step ''CREATE topic'' (Create_xml topic_1 participant_1 (host_topic_xml ''rt/rtos/diagnostics'' diagnostics_type)),
      create_step ''CREATE publisher'' (Create_xml publisher_1 participant_1 ''''),
      create_step ''CREATE diagnostics datawriter'' (Create_xml datawriter_1 publisher_1
        (host_endpoint_xml ''data_writer'' ''rt/rtos/diagnostics'' diagnostics_type)),
      create_step ''CREATE refresh replier'' (Create_xml replier_1 participant_1
        (replier_xml (demo_profile cfg) ''rtos/diagnostics/refresh'' ''std_srvs::srv::dds_::Trigger_Request_'' ''std_srvs::srv::dds_::Trigger_Response_'')),
      (Read_data replier_1, Just_send)]"

text \<open>
  The queue, the four tasks and the timer. \<open>entries\<close> are the addresses of the task functions, \<open>envs\<close> what the
  allocator gives to the i-th \<^verbatim>\<open>task_spawn\<close>, whose result is not checked.
\<close>

definition start_tasks ::
  "diag_cfg \<Rightarrow> ptr list \<Rightarrow> (nat \<Rightarrow> ptr) \<Rightarrow> ptr \<Rightarrow> (nat \<Rightarrow> alloc_env) \<Rightarrow> 'a diag_host_scheme \<Rightarrow> 'a diag_host_scheme" where
  "start_tasks cfg storage entries sched_ctx envs h =
     (let k = g_kern h;
          (p, k) = task_spawn (Some (first_name cfg)) (entries 0) 0 20 sched_ctx (envs 0) k;
          (c, k) = task_spawn (Some (second_name cfg)) (entries 1) 0 10 sched_ctx (envs 1) k;
          (_, k) = task_spawn (Some ''coordinator'') (entries 2) 0 30 sched_ctx (envs 2) k;
          (_, k) = task_spawn (Some ''publisher'') (entries 3) 0 5 sched_ctx (envs 3) k;
          k = scheduler_enable_preemption 5 1 k
      in h\<lparr>g_work_queue := queue_init storage WORK_QUEUE_CAPACITY, g_first_task := p, g_second_task := c,
           g_mach := (g_mach h)\<lparr>kern := k, cpu := In_scheduler\<rparr>\<rparr>)"

definition diag_main ::
  "diag_cfg \<Rightarrow> ptr list \<Rightarrow> (nat \<Rightarrow> ptr) \<Rightarrow> ptr \<Rightarrow> (nat \<Rightarrow> alloc_env) \<Rightarrow> nat \<Rightarrow> diag_host \<Rightarrow> diag_host outcome" where
  "diag_main cfg storage entries sched_ctx envs argc h =
     (if argc \<noteq> 3 then Exited 2 h
      else
        (case run_by (setup_by diag_send_and_wait_ok send_tracked) (diag_script cfg) (h\<lparr>g_s := xrce_session_init 1 (demo_key cfg) 512\<rparr>) of
           (ok, h) \<Rightarrow> if \<not> ok then Exited 1 h else Running (start_tasks cfg storage entries sched_ctx envs h)))"

section \<open>Lemmas: setting up with another way of sending\<close>

text \<open>What a program shares with the outside: everything of the host but the printed lines.\<close>

definition core :: "'a host_scheme \<Rightarrow> host" where
  "core h = \<lparr>net_in = net_in h, net_ok = net_ok h, net_clock = net_clock h, recvs = recvs h, sends = sends h,
     clock_reads = clock_reads h, datagrams = datagrams h, stdout = [], g_s = g_s h, msg_buf = msg_buf h\<rparr>"

lemma core_eq_iff:
  "core h = core h' \<longleftrightarrow> net_in h = net_in h' \<and> net_ok h = net_ok h' \<and> net_clock h = net_clock h' \<and> recvs h = recvs h' \<and>
     sends h = sends h' \<and> clock_reads h = clock_reads h' \<and> datagrams h = datagrams h' \<and> g_s h = g_s h' \<and> msg_buf h = msg_buf h'"
  by (simp add: core_def)

text \<open>
  The interface: a way of sending and waiting gives the verdict that \<open>send_and_wait_ok\<close> gives, and both ways
  do to the outside what the plain ones do.
\<close>

locale setup_style =
  fixes wait :: "string \<Rightarrow> bytes \<Rightarrow> nat \<Rightarrow> (bytes \<Rightarrow> nat \<Rightarrow> bool) \<Rightarrow> 'a host_scheme \<Rightarrow> bool \<times> 'a host_scheme"
    and only :: "bytes \<Rightarrow> nat \<Rightarrow> 'a host_scheme \<Rightarrow> 'a host_scheme"
  assumes wait_verdict: "fst (wait nm m l p h) = fst (send_and_wait_ok nm m l p h)"
    and wait_core: "core (snd (wait nm m l p h)) = core (snd (send_and_wait_ok nm m l p h))"
    and only_core: "core (only m l h) = core (snd (sendto m l h))"

lemma send_and_wait_core:
  assumes "core h = core h'"
  shows "fst (send_and_wait_ok nm m l p h) = fst (send_and_wait_ok nm m l p h')"
    "core (snd (send_and_wait_ok nm m l p h)) = core (snd (send_and_wait_ok nm m l p h'))"
  using assms by (auto simp: core_eq_iff send_and_wait_ok_def sendto_def recv_def put_line_def Let_def)

lemma sendto_core:
  assumes "core h = core h'"
  shows "fst (sendto m l h) = fst (sendto m l h')" "core (snd (sendto m l h)) = core (snd (sendto m l h'))"
  using assms by (auto simp: core_eq_iff)

context setup_style
begin

lemma setup_by_core:
  assumes "core h = core h'"
  shows "fst (setup_by wait only st h) = fst (setup_one st h') \<and> core (snd (setup_by wait only st h)) = core (snd (setup_one st h'))"
proof -
  obtain req aft where st: "st = (req, aft)" by (cases st)
  have g: "g_s h = g_s h'" "msg_buf h = msg_buf h'" "net_ok h = net_ok h'" "sends h = sends h'" using assms by (simp_all add: core_eq_iff)
  obtain len s buf where b: "build_client_request req (g_s h') (msg_buf h') = (len, s, buf)" by (metis prod_cases3)
  have c: "core (h\<lparr>g_s := s, msg_buf := buf\<rparr>) = core (h'\<lparr>g_s := s, msg_buf := buf\<rparr>)" using assms by (simp add: core_eq_iff)
  show ?thesis
    by (cases aft) (simp_all add: setup_by_def setup_one_def st g b wait_verdict wait_core only_core
        send_and_wait_core[OF c] sendto_core[OF c, unfolded sendto_simps] Let_def)
qed

lemma run_by_core:
  "core h = core h' \<Longrightarrow> fst (run_by (setup_by wait only) sts h) = fst (run_setup sts h') \<and>
     core (snd (run_by (setup_by wait only) sts h)) = core (snd (run_setup sts h'))"
proof (induction sts arbitrary: h h')
  case (Cons st sts)
  note s = setup_by_core[OF Cons.prems, of st]
  show ?case using s Cons.IH by (auto simp: split_beta)
qed simp

text \<open>So such a program, too, sends its script in order and stops at the first failure.\<close>

lemma run_by_exact:
  assumes "list_all request_ok (map fst steps)" "client_ok h"
  shows "\<exists>k h'. k \<le> length steps \<and> (\<forall>i < k. step_passes h steps i) \<and> (k < length steps \<longrightarrow> \<not> step_passes h steps k) \<and>
     run_by (setup_by wait only) steps h = (k = length steps, h') \<and>
     datagrams h' = datagrams h @ take (Suc k) (script_messages (g_s h) (map fst steps)) \<and>
     g_s h' = script_session (g_s h) (map fst (take (Suc k) steps)) \<and> client_ok h'"
proof -
  obtain k h' where k: "k \<le> length steps" "\<forall>i < k. step_passes h steps i" "k < length steps \<longrightarrow> \<not> step_passes h steps k"
     "run_setup steps h = (k = length steps, h')" "datagrams h' = datagrams h @ take (Suc k) (script_messages (g_s h) (map fst steps))"
     "g_s h' = script_session (g_s h) (map fst (take (Suc k) steps))" "client_ok h'"
    using run_setup_exact[OF assms] by blast
  show ?thesis
    using run_by_core[OF refl, of steps h] k
    by (intro exI[of _ k] exI[of _ "snd (run_by (setup_by wait only) steps h)"])
      (auto simp: core_eq_iff client_ok_def prod_eq_iff)
qed

end

interpretation diag_style: setup_style diag_send_and_wait_ok send_tracked
  by unfold_locales
    (auto simp: diag_send_and_wait_ok_def send_and_wait_ok_def send_tracked_def sendto_def recv_def count_bytes_def put_line_def
      core_eq_iff Let_def)

lemma diag_scripts_ok: "list_all request_ok (map fst (diag_script diagnostics_cfg))" "list_all request_ok (map fst (diag_script fault_cfg))"
  by (simp_all add: diag_script_def diagnostics_cfg_def fault_cfg_def request_ok_def participant_xml_def host_topic_xml_def
      host_endpoint_xml_def replier_xml_def)

section \<open>Lemmas: what a status looks like\<close>

text \<open>A report as a subscriber reads it: the level, the name, the message and the values of each status.\<close>

type_synonym status_report = "u8 \<times> string \<times> string \<times> (string \<times> string) list"

definition text_of :: "bytes \<Rightarrow> string" where
  "text_of b = map (\<lambda>c. char_of (unat c)) (takeWhile (\<lambda>c. c \<noteq> 0) b)"

definition report_status :: "diagnostic_msgs_DiagnosticStatus \<Rightarrow> status_report" where
  "report_status st = (level st, text_of (diag_name st), text_of (diag_message st),
     map (\<lambda>kv. (text_of (kv_key kv), text_of (kv_value kv))) (take (unat (values_count st)) (diag_values st)))"

definition report :: "diagnostic_msgs_DiagnosticArray \<Rightarrow> status_report list" where
  "report arr = map report_status (take (unat (status_count arr)) (diag_status arr))"

lemma char_of_unat: "char_of (unat (of_char c :: u8)) = c"
proof -
  have "unat (of_nat (of_char c) :: u8) = of_char c mod 256" by (simp add: unat_of_nat)
  then show ?thesis unfolding of_nat_of_char by simp
qed

text \<open>Texts that fit their 64-byte arrays.\<close>

definition fits_64 :: "string \<Rightarrow> bool" where
  "fits_64 s \<longleftrightarrow> CHR 0x00 \<notin> set s \<and> length s < 64"

lemma snprintf_64:
  assumes "fits_64 s"
  shows "chars 64 (snprintf s (replicate 64 0))" "cstr (snprintf s (replicate 64 0)) = map of_char s @ [0]"
    "text_of (snprintf s (replicate 64 0)) = s"
proof -
  define z where "z = (replicate 64 0 :: bytes)"
  have l: "length z = 64" by (simp add: z_def)
  note f = snprintf_fits[of s z] 
  show 1: "chars 64 (snprintf s (replicate 64 0))" "cstr (snprintf s (replicate 64 0)) = map of_char s @ [0]"
    using f assms l unfolding z_def[symmetric] by (simp_all add: fits_64_def chars_def)
  have "takeWhile (\<lambda>c. c \<noteq> 0) (snprintf s z) = map of_char s" using 1(2) unfolding z_def[symmetric] by (simp add: cstr_def)
  then show "text_of (snprintf s (replicate 64 0)) = s" unfolding z_def[symmetric] text_of_def by (simp add: o_def char_of_unat)
qed

definition entry_fits :: "string \<Rightarrow> string \<Rightarrow> (string \<times> string) list \<Rightarrow> bool" where
  "entry_fits name msg kvs \<longleftrightarrow> fits_64 name \<and> fits_64 msg \<and> length kvs \<le> 8 \<and> list_all (\<lambda>(k, v). fits_64 k \<and> fits_64 v) kvs"

lemma status_entry_values:
  assumes "length kvs \<le> 8"
  shows "take (unat (values_count (status_entry l n m kvs))) (diag_values (status_entry l n m kvs)) =
      map (\<lambda>(k, v). \<lparr>kv_key = snprintf k (replicate 64 0), kv_value = snprintf v (replicate 64 0)\<rparr>) kvs"
    "unat (values_count (status_entry l n m kvs)) = length kvs" "length (diag_values (status_entry l n m kvs)) = 8"
proof -
  have u: "unat (of_nat (length kvs) :: u32) = length kvs" using assms by (simp add: unat_of_nat)
  then show "unat (values_count (status_entry l n m kvs)) = length kvs" by (simp add: status_entry_def)
  show "length (diag_values (status_entry l n m kvs)) = 8" using assms by (simp add: status_entry_def zero_status_def)
  show "take (unat (values_count (status_entry l n m kvs))) (diag_values (status_entry l n m kvs)) =
      map (\<lambda>(k, v). \<lparr>kv_key = snprintf k (replicate 64 0), kv_value = snprintf v (replicate 64 0)\<rparr>) kvs"
    by (simp add: status_entry_def zero_status_def zero_kv_def u)
qed

lemma status_entry_encodable:
  assumes "entry_fits n m kvs"
  shows "ds_encodable (status_entry l n m kvs)" "report_status (status_entry l n m kvs) = (l, n, m, kvs)"
proof -
  have f: "fits_64 n" "fits_64 m" "length kvs \<le> 8" "\<And>k v. (k, v) \<in> set kvs \<Longrightarrow> fits_64 k \<and> fits_64 v"
    using assms by (auto simp: entry_fits_def list_all_iff)
  have r: "fits_64 ''rtos''" by (simp add: fits_64_def)
  note sv = status_entry_values[OF f(3), of l n m]
  note s64 = snprintf_64(1)[OF f(1)] snprintf_64(1)[OF f(2)] snprintf_64(1)[OF r]
  show "ds_encodable (status_entry l n m kvs)"
    unfolding ds_encodable_def sv using s64 f(3,4)
    by (auto simp: status_entry_def zero_status_def zero_kv_def list_all_iff kv_encodable_def snprintf_64(1))
  show "report_status (status_entry l n m kvs) = (l, n, m, kvs)"
    unfolding report_status_def sv(1) using f(4)
    by (auto simp: status_entry_def zero_status_def snprintf_64(3)[OF f(1)] snprintf_64(3)[OF f(2)] snprintf_64(3) o_def
        intro!: map_idI)
qed

text \<open>Bounds on sizes: alignment adds at most three bytes to a counted string.\<close>

lemma wire_string_le: "length (wire_string s off) \<le> 7 + length (cstr s)"
  by (simp add: wire_string_def wire_seq_def wire_u32_def padded_def wire_bytes_def)

lemma wire_array_le:
  assumes "\<And>x off. x \<in> set xs \<Longrightarrow> length (f x off) \<le> b x"
  shows "length (wire_array f xs off) \<le> 7 + sum_list (map b xs)"
proof -
  have "length (wire_all (map f xs) off) \<le> sum_list (map b xs)" for off
    using assms
  proof (induction xs arbitrary: off)
    case (Cons x xs)
    have "length (wire_all (map f xs) (off + length (f x off))) \<le> sum_list (map b xs)" by (rule Cons.IH) (use Cons.prems in simp)
    moreover have "length (f x off) \<le> b x" using Cons.prems by simp
    ultimately show ?case by (simp add: wire_seq_def)
  qed simp
  from this[of "off + length (wire_u32 (of_nat (length xs)) off)"] show ?thesis
    by (simp add: wire_array_def wire_seq_def wire_u32_def padded_def)
qed

lemma wire_entry_le:
  assumes "entry_fits n m kvs"
  shows "length (wire_diagnostic_status (status_entry l n m kvs) off) \<le> 36 + length n + length m + (\<Sum>(k, v) \<leftarrow> kvs. 16 + length k + length v)"
proof -
  have f: "fits_64 n" "fits_64 m" "length kvs \<le> 8" "\<And>k v. (k, v) \<in> set kvs \<Longrightarrow> fits_64 k \<and> fits_64 v"
    using assms by (auto simp: entry_fits_def list_all_iff)
  have r: "fits_64 ''rtos''" by (simp add: fits_64_def)
  have ws: "length (wire_string (snprintf s (replicate 64 0)) off) \<le> 8 + length s" if "fits_64 s" for s off
    using wire_string_le[of "snprintf s (replicate 64 0)" off] snprintf_64(2)[OF that] by simp
  let ?kv = "\<lambda>(k, v). \<lparr>kv_key = snprintf k (replicate 64 0), kv_value = snprintf v (replicate 64 0)\<rparr>"
  let ?b = "\<lambda>kv. 14 + length (cstr (kv_key kv)) + length (cstr (kv_value kv))"
  have kv: "length (wire_key_value x off) \<le> ?b x" for x off
    using wire_string_le[of "kv_key x" off] wire_string_le[of "kv_value x" "off + length (wire_string (kv_key x) off)"]
    by (simp add: wire_key_value_def wire_seq_def)
  have "sum_list (map ?b (map ?kv kvs)) = (\<Sum>(k, v) \<leftarrow> kvs. 16 + length k + length v)"
    unfolding map_map by (rule arg_cong[of _ _ sum_list], rule map_cong[OF refl]) (auto dest: f(4) simp: snprintf_64(2))
  then have a: "length (wire_array wire_key_value (map ?kv kvs) off) \<le> 7 + (\<Sum>(k, v) \<leftarrow> kvs. 16 + length k + length v)" for off
    using wire_array_le[of "map ?kv kvs" wire_key_value ?b off, OF kv] by simp
  define A where "A = wire_array wire_key_value (map ?kv kvs)"
  define B where "B = (\<lambda>s. wire_string (snprintf s (replicate 64 0)))"
  have e: "wire_diagnostic_status (status_entry l n m kvs) = wire_all [wire_u8 l, B n, B m, B ''rtos'', A]"
    unfolding wire_diagnostic_status_def status_entry_values(1)[OF f(3)] A_def B_def
    by (simp add: status_entry_def zero_status_def)
  have b: "length (B n off) \<le> 8 + length n" "length (B m off) \<le> 8 + length m" "length (B ''rtos'' off) \<le> 12"
    "length (A off) \<le> 7 + (\<Sum>(k, v) \<leftarrow> kvs. 16 + length k + length v)" for off
    using ws[OF f(1)] ws[OF f(2)] ws[OF r] a by (simp_all add: A_def B_def)
  define o1 o2 o3 where "o1 = Suc off" and "o2 = o1 + length (B n o1)" and "o3 = o2 + length (B m o2)"
  have "length (wire_diagnostic_status (status_entry l n m kvs) off) =
      1 + length (B n o1) + length (B m o2) + length (B ''rtos'' o3) + length (A (o3 + length (B ''rtos'' o3)))"
    by (simp add: e wire_seq_def wire_u8_def o1_def o2_def o3_def)
  then show ?thesis
    using b(1)[of o1] b(2)[of o2] b(3)[of o3] b(4)[of "o3 + length (B ''rtos'' o3)"] by linarith
qed

text \<open>An array built by adding statuses to a zeroed one.\<close>

lemma add_statuses:
  assumes "length sts \<le> 16"
  shows "diag_status (fold add_status sts zero_array) = sts @ replicate (16 - length sts) zero_status"
    "status_count (fold add_status sts zero_array) = of_nat (length sts)"
    "diag_header (fold add_status sts zero_array) = diag_header zero_array"
proof -
  have "diag_status (fold add_status sts zero_array) = sts @ replicate (16 - length sts) zero_status \<and>
    status_count (fold add_status sts zero_array) = of_nat (length sts) \<and>
    diag_header (fold add_status sts zero_array) = diag_header zero_array"
    using assms
  proof (induction sts rule: rev_induct)
    case Nil
    then show ?case by (simp add: zero_array_def)
  next
    case (snoc st sts)
    have u: "unat (of_nat (length sts) :: u32) = length sts" using snoc.prems by (simp add: unat_of_nat)
    have r: "replicate (16 - length sts) zero_status = zero_status # replicate (15 - length sts) zero_status"
      using snoc.prems by (cases "16 - length sts") auto
    show ?case using snoc u r by (simp add: add_status_def list_update_append)
  qed
  then show "diag_status (fold add_status sts zero_array) = sts @ replicate (16 - length sts) zero_status"
    "status_count (fold add_status sts zero_array) = of_nat (length sts)"
    "diag_header (fold add_status sts zero_array) = diag_header zero_array" by simp_all
qed

lemma fold_statuses_props:
  assumes "length sts \<le> 16" "list_all ds_encodable sts" "arr = fold add_status sts zero_array"
    and "\<And>st off. st \<in> set sts \<Longrightarrow> length (wire_diagnostic_status st off) \<le> b st"
  shows "da_encodable arr" "report arr = map report_status sts" "length (wire_diagnostic_array arr 0) \<le> 24 + sum_list (map b sts)"
proof -
  note a = add_statuses[OF assms(1), folded assms(3)]
  have u: "unat (of_nat (length sts) :: u32) = length sts" using assms(1) by (simp add: unat_of_nat)
  have t: "take (unat (status_count arr)) (diag_status arr) = sts" using a u by simp
  have z: "chars 64 (replicate 64 0)" by (simp add: chars_def)
  have c0: "cstr (replicate 64 0) = [0]" by (simp add: cstr_def)
  show "da_encodable arr" using a assms(1,2) t u z by (simp add: da_encodable_def zero_array_def)
  show "report arr = map report_status sts" by (simp add: report_def t)
  have "length (wire_array wire_diagnostic_status sts 13) \<le> 7 + sum_list (map b sts)" by (rule wire_array_le[OF assms(4)])
  moreover have "length (wire_diagnostic_array arr 0) = 13 + length (wire_array wire_diagnostic_status sts 13)"
    by (simp add: wire_diagnostic_array_def t a(3) wire_header_def zero_array_def wire_seq_def wire_u32_def padded_def wire_string_def
        c0 wire_bytes_def)
  ultimately show "length (wire_diagnostic_array arr 0) \<le> 24 + sum_list (map b sts)" by simp
qed

section \<open>Lemmas: what a subscriber reads\<close>

lemma update_elems_nth:
  "i + length us \<le> length out \<Longrightarrow>
   update_elems i us out ! j = (if i \<le> j \<and> j < i + length us then (us ! (j - i)) (out ! j) else out ! j)"
proof (induction us arbitrary: i out)
  case (Cons u us)
  then show ?case
    by (cases "j = i") (auto simp: nth_list_update nth_Cons' Suc_diff_Suc)
qed auto

lemma map_take_update_elems:
  assumes "length xs \<le> length out" "\<And>x y. x \<in> set xs \<Longrightarrow> y \<in> set out \<Longrightarrow> f (g x y) = f x"
  shows "map f (take (length xs) (update_elems 0 (map g xs) out)) = map f xs"
  using assms by (intro nth_equalityI) (auto simp: update_elems_nth)

lemma text_of_store: "text_of (blit 0 (cstr s) old) = text_of s"
  by (simp add: text_of_def blit_def cstr_def takeWhile_append)

lemma report_status_store:
  assumes "ds_encodable s" "ds_target old"
  shows "report_status (ds_store s old) = report_status s"
proof -
  let ?n = "unat (values_count s)"
  let ?f = "\<lambda>kv. (text_of (kv_key kv), text_of (kv_value kv))"
  have l: "length (take ?n (diag_values s)) = ?n" "?n \<le> length (diag_values old)"
    using assms by (simp_all add: ds_encodable_def ds_target_def)
  have "map ?f (take (length (take ?n (diag_values s))) (update_elems 0 (map kv_store (take ?n (diag_values s))) (diag_values old))) =
      map ?f (take ?n (diag_values s))"
    by (rule map_take_update_elems) (use l in \<open>simp_all add: kv_store_def text_of_store\<close>)
  then show ?thesis unfolding l(1) by (simp add: report_status_def ds_store_def text_of_store)
qed

lemma report_store:
  assumes "da_encodable m" "da_target out"
  shows "report (da_store m out) = report m"
proof -
  let ?n = "unat (status_count m)"
  have l: "length (take ?n (diag_status m)) = ?n" "?n \<le> length (diag_status out)"
    using assms by (simp_all add: da_encodable_def da_target_def)
  have "map report_status (take (length (take ?n (diag_status m))) (update_elems 0 (map ds_store (take ?n (diag_status m))) (diag_status out))) =
      map report_status (take ?n (diag_status m))"
    by (rule map_take_update_elems)
      (use assms l in \<open>auto simp: da_encodable_def da_target_def list_all_iff intro!: report_status_store\<close>)
  then show ?thesis unfolding l(1) by (simp add: report_def da_store_def)
qed

text \<open>
  A payload that a subscriber decodes, into whatever structure, to a report. The subscriber's middleware
  puts the encapsulation header back in front of the payload.
\<close>

definition reads_as :: "bytes \<Rightarrow> status_report list \<Rightarrow> bool" where
  "reads_as payload r \<longleftrightarrow> (\<forall>out. da_target out \<longrightarrow>
     (\<exists>arr. diagnostic_msgs_DiagnosticArray_decode (cdr_header @ payload) (4 + length payload) out = (True, arr) \<and> report arr = r))"

lemma wire_reads_as:
  assumes "da_encodable arr"
  shows "reads_as (wire_diagnostic_array arr 0) (report arr)"
  unfolding reads_as_def
proof (intro allI impI)
  fix out assume t: "da_target out"
  let ?p = "wire_diagnostic_array arr 0"
  have "prefix (diagnostic_array.image arr) (take (4 + length ?p) (cdr_header @ ?p))"
    by (simp add: diagnostic_array.image_def cdr_header_def)
  from diagnostic_array.decode_image[OF assms t this] report_store[OF assms t]
  show "\<exists>a. diagnostic_msgs_DiagnosticArray_decode (cdr_header @ ?p) (4 + length ?p) out = (True, a) \<and> report a = report arr"
    by (simp add: cdr_header_def)
qed

section \<open>Lemmas: the published report\<close>

text \<open>A task whose name is terminated inside its array and whose numbers have their C ranges.\<close>

definition task_reportable :: "task \<Rightarrow> bool" where
  "task_reportable t \<longleftrightarrow> length (tname t) = TASK_NAME_MAX \<and> CHR 0x00 \<in> set (tname t) \<and> - (2 ^ 31) \<le> priority t \<and> priority t < 2 ^ 31 \<and>
     stack_size t < 2 ^ 64"

definition task_report :: "task \<Rightarrow> status_report" where
  "task_report t = (DIAGNOSTIC_STATUS_OK, ''task/'' @ text_in (tname t), task_state_name (tstate t),
     [(''priority'', dec_string (priority t)), (''stack_high_water_mark_bytes'', dec_digits (task_stack_high_water_mark t)),
      (''ticks_run'', dec_digits (unat (ticks_run t))), (''ticks_ready'', dec_digits (unat (ticks_ready t)))])"

definition diag_report :: "'a diag_host_scheme \<Rightarrow> status_report list" where
  "diag_report h =
     [task_report (deref (g_kern h) (g_first_task h)), task_report (deref (g_kern h) (g_second_task h)),
      (DIAGNOSTIC_STATUS_OK, ''scheduler'', ''running'',
       [(''tick_count'', dec_digits (unat (g_tick_count (g_kern h)))), (''context_switch_count'', dec_digits (unat (g_switch_count (g_kern h))))]),
      (queue_level (g_work_queue h), ''queue/work'', ''depth '' @ dec_string (queue_depth (g_work_queue h)) @ ''/'' @ dec_string (qcapacity (g_work_queue h)),
       [(''depth'', dec_string (queue_depth (g_work_queue h))), (''capacity'', dec_string (qcapacity (g_work_queue h)))]),
      (DIAGNOSTIC_STATUS_OK, ''middleware'', ''best-effort only in this demo -- no retransmits possible'',
       [(''bytes_sent'', dec_digits (unat (g_bytes_sent h)))])]"

lemma text_in_props:
  assumes "length s = 16" "CHR 0x00 \<in> set s"
  shows "length (text_in s) \<le> 15" "CHR 0x00 \<notin> set (text_in s)"
proof -
  have "length (takeWhile (\<lambda>c. c \<noteq> CHR 0x00) s) \<noteq> length s"
    using assms(2) by (metis length_takeWhile_le set_takeWhileD takeWhile_eq_take take_all_iff)
  then have "length (takeWhile (\<lambda>c. c \<noteq> CHR 0x00) s) < length s" by (simp add: length_takeWhile_le le_neq_implies_less)
  then show "length (text_in s) \<le> 15" using assms(1) by (simp add: text_in_def)
  show "CHR 0x00 \<notin> set (text_in s)" unfolding text_in_def by (auto dest: set_takeWhileD)
qed

lemma length_dec_string:
  assumes "- (2 ^ 31) \<le> i" "i < 2 ^ 31"
  shows "length (dec_string i) \<le> 11"
proof -
  have "nat i < 10 ^ Suc 9" "nat (- i) < 10 ^ Suc 9" using assms by simp_all
  then show ?thesis using length_dec_digits[of "nat i" 9] length_dec_digits[of "nat (- i)" 9] by (simp add: dec_string_def)
qed

lemma length_dec_u64: "n < 2 ^ 64 \<Longrightarrow> length (dec_digits n) \<le> 20"
  using length_dec_digits[of n 19] by simp

lemma length_dec_word: "length (dec_digits (unat (v :: u64))) \<le> 20"
  by (rule length_dec_u64) (use unsigned_less[of v, where ?'a = nat] in simp)

lemma high_water_mark_le: "task_stack_high_water_mark t \<le> stack_size t"
proof -
  have "hwm_scan t is \<le> stack_size t" for "is" by (induction "is") simp_all
  then show ?thesis by (simp add: task_stack_high_water_mark_def)
qed

lemma queue_depth_range:
  assumes "0 < qcapacity q"
  shows "- qcapacity q < queue_depth q" "queue_depth q < qcapacity q"
proof -
  define b where "b = qcapacity q"
  define a where "a = qtail q - qhead q + b"
  have b: "0 < b" using assms b_def by simp
  have m: "0 \<le> a mod b" "a mod b < b" "0 \<le> (- a) mod b" "(- a) mod b < b" using b by simp_all
  have "c_mod a b \<in> {a mod b, - ((- a) mod b)}"
    using b minus_mult_div_eq_mod[of a b] minus_mult_div_eq_mod[of "- a" b]
    by (simp add: c_mod_def c_div_def sgn_if)
  then have "- b < c_mod a b \<and> c_mod a b < b"
    by (elim insertE emptyE) (use m b in linarith)+
  then show "- qcapacity q < queue_depth q" "queue_depth q < qcapacity q"
    unfolding queue_depth_def b_def[symmetric] a_def[symmetric] by simp_all
qed

definition diag_ok :: "(nat \<Rightarrow> bytes) \<Rightarrow> 'a diag_host_scheme \<Rightarrow> bool" where
  "diag_ok J h \<longleftrightarrow> (\<forall>n. length (J n) = n) \<and> length (client_key (g_s h)) = 4 \<and> 0 < qcapacity (g_work_queue h) \<and> qcapacity (g_work_queue h) < 2 ^ 31 \<and>
     task_reportable (deref (g_kern h) (g_first_task h)) \<and> task_reportable (deref (g_kern h) (g_second_task h))"

definition entry_of :: "status_report \<Rightarrow> diagnostic_msgs_DiagnosticStatus" where
  "entry_of r = (case r of (l, n, m, kvs) \<Rightarrow> status_entry l n m kvs)"

definition entry_size :: "status_report \<Rightarrow> nat" where
  "entry_size r = (case r of (l, n, m, kvs) \<Rightarrow> 36 + length n + length m + (\<Sum>(k, v) \<leftarrow> kvs. 16 + length k + length v))"

text \<open>Reports whose texts fit come back as they are, and their size is bounded.\<close>

lemma entries_reported:
  assumes "length rs \<le> 16" "list_all (\<lambda>(l, n, m, kvs). entry_fits n m kvs) rs" "arr = fold add_status (map entry_of rs) zero_array"
  shows "da_encodable arr" "report arr = rs" "length (wire_diagnostic_array arr 0) \<le> 24 + sum_list (map entry_size rs)"
proof -
  have e: "ds_encodable (entry_of r)" "report_status (entry_of r) = r" "length (wire_diagnostic_status (entry_of r) off) \<le> entry_size r"
    if "r \<in> set rs" for r off
  proof -
    obtain l n m kvs where r: "r = (l, n, m, kvs)" by (cases r)
    then have "entry_fits n m kvs" using that assms(2) by (auto simp: list_all_iff)
    then show "ds_encodable (entry_of r)" "report_status (entry_of r) = r" "length (wire_diagnostic_status (entry_of r) off) \<le> entry_size r"
      using status_entry_encodable[of n m kvs l] wire_entry_le[of n m kvs l off] by (simp_all add: r entry_of_def entry_size_def)
  qed
  have b: "length (wire_diagnostic_status st off) \<le> entry_size (report_status st)" if "st \<in> set (map entry_of rs)" for st off
    using that e by auto
  have "list_all ds_encodable (map entry_of rs)" using e(1) by (simp add: list_all_iff)
  from fold_statuses_props[OF _ this assms(3) b] assms(1) e(2)
  show "da_encodable arr" "report arr = rs" "length (wire_diagnostic_array arr 0) \<le> 24 + sum_list (map entry_size rs)"
    by (simp_all add: o_def map_idI cong: map_cong)
qed

lemma task_report_fits:
  assumes "task_reportable t"
  shows "(case task_report t of (l, n, m, kvs) \<Rightarrow> entry_fits n m kvs)" "entry_size (task_report t) \<le> 256"
proof -
  have n: "length (text_in (tname t)) \<le> 15" "CHR 0x00 \<notin> set (text_in (tname t))"
    using text_in_props[of "tname t"] assms by (simp_all add: task_reportable_def)
  have p: "length (dec_string (priority t)) \<le> 11" using length_dec_string[of "priority t"] assms by (simp add: task_reportable_def)
  have w: "length (dec_digits (task_stack_high_water_mark t)) \<le> 20"
    by (rule length_dec_u64) (use high_water_mark_le[of t] assms in \<open>simp add: task_reportable_def\<close>)
  note u = length_dec_word
  have s: "length (task_state_name (tstate t)) \<le> 10" "CHR 0x00 \<notin> set (task_state_name (tstate t))"
    by (cases "tstate t"; simp add: task_state_name_def)+
  note nn = dec_digits_no_nul dec_string_no_nul
  show "(case task_report t of (l, n, m, kvs) \<Rightarrow> entry_fits n m kvs)"
    using n p w u[of "ticks_run t"] u[of "ticks_ready t"] s by (simp add: task_report_def entry_fits_def fits_64_def nn)
  show "entry_size (task_report t) \<le> 256"
    using n p w u[of "ticks_run t"] u[of "ticks_ready t"] s by (simp add: task_report_def entry_size_def)
qed

lemma diagnostics_array_fold:
  "diagnostics_array h = fold add_status (map entry_of (diag_report h)) zero_array" "length (diag_report h) = 5"
  by (simp_all add: diagnostics_array_def diag_report_def entry_of_def add_task_status_def task_report_def add_scheduler_status_def
      scheduler_tick_count_def scheduler_switch_count_def add_queue_status_def add_middleware_status_def Let_def)

lemma diag_report_fits:
  assumes "diag_ok J h"
  shows "list_all (\<lambda>(l, n, m, kvs). entry_fits n m kvs) (diag_report h)" "sum_list (map entry_size (diag_report h)) \<le> 1000"
proof -
  let ?q = "g_work_queue h"
  note t = task_report_fits[of "deref (g_kern h) (g_first_task h)"] task_report_fits[of "deref (g_kern h) (g_second_task h)"]
  note u = length_dec_word
  have q: "length (dec_string (queue_depth ?q)) \<le> 11" "length (dec_string (qcapacity ?q)) \<le> 11"
    using length_dec_string[of "queue_depth ?q"] length_dec_string[of "qcapacity ?q"] queue_depth_range[of ?q] assms by (simp_all add: diag_ok_def)
  note nn = dec_digits_no_nul dec_string_no_nul
  show "list_all (\<lambda>(l, n, m, kvs). entry_fits n m kvs) (diag_report h)"
    using t assms u[of "g_tick_count (g_kern h)"] u[of "g_switch_count (g_kern h)"] u[of "g_bytes_sent h"] q
    by (simp add: diag_report_def diag_ok_def entry_fits_def fits_64_def nn)
  have e: "entry_size (l, n, m, kvs) = 36 + length n + length m + (\<Sum>(k, v) \<leftarrow> kvs. 16 + length k + length v)" for l n m kvs
    by (simp add: entry_size_def)
  show "sum_list (map entry_size (diag_report h)) \<le> 1000"
    using t(2,4) assms u[of "g_tick_count (g_kern h)"] u[of "g_switch_count (g_kern h)"] u[of "g_bytes_sent h"] q
    by (simp add: diag_report_def diag_ok_def e)
qed

section \<open>Lemmas: publishing and answering\<close>

lemma send_tracked_simps [simp]:
  "datagrams (send_tracked b n h) = datagrams h @ [take n b]" "g_s (send_tracked b n h) = g_s h" "msg_buf (send_tracked b n h) = msg_buf h"
  "recvs (send_tracked b n h) = recvs h" "sends (send_tracked b n h) = Suc (sends h)" "net_in (send_tracked b n h) = net_in h"
  "net_ok (send_tracked b n h) = net_ok h" "stdout (send_tracked b n h) = stdout h" "g_mach (send_tracked b n h) = g_mach h"
  "g_work_queue (send_tracked b n h) = g_work_queue h" "g_first_task (send_tracked b n h) = g_first_task h"
  "g_second_task (send_tracked b n h) = g_second_task h"
  "g_bytes_sent (send_tracked b n h) = g_bytes_sent h + (if net_ok h (sends h) then of_nat n else 0)"
  by (auto simp: send_tracked_def sendto_def count_bytes_def)

text \<open>A report whose texts fit is encoded and written whole, in arrays of any sufficient size.\<close>

lemma report_written:
  assumes "length rs \<le> 16" "list_all (\<lambda>(l, n, m, kvs). entry_fits n m kvs) rs" "arr = fold add_status (map entry_of rs) zero_array"
    and "40 + sum_list (map entry_size rs) \<le> cap" "length b1 = cap" "length b2 = cap" "length (client_key s) = 4"
  obtains p sm where "reads_as p rs" "diagnostic_msgs_DiagnosticArray_encode arr b1 cap 0 = (True, sm, 4 + length p)"
    "xrce_session_build_write_data s BEST_EFFORT_STREAM_0 x (drop 4 sm) (length p) b2 cap =
       (16 + length p, numbered s, write_data_message s x p @ drop (16 + length p) b2)"
    "length (write_data_message s x p) = 16 + length p"
proof -
  note e = entries_reported[OF assms(1-3)]
  define p where "p = wire_diagnostic_array arr 0"
  have c: "4 + length p \<le> cap" "16 + length p \<le> cap" using e(3) assms(4) by (simp_all add: p_def)
  obtain sm where sm: "diagnostic_msgs_DiagnosticArray_encode arr b1 cap 0 = (True, sm, 4 + length p)"
      "take (4 + length p) sm = cdr_header @ p" "length sm = cap"
    by (rule diagnostic_array.encode_body[OF e(1) assms(5) p_def[symmetric] c(1), of 0])
  have d: "take (length p) (drop 4 sm) = p" using arg_cong[OF sm(2), of "drop 4"] by (simp add: drop_take cdr_header_def)
  have w: "length p \<le> length (drop 4 sm)" using sm(3) c by simp
  note b = write_data_fits[OF assms(7,6) w c(2), of x, unfolded d]
  show ?thesis by (rule that[OF _ sm(1) b]) (use wire_reads_as[OF e(1)] in \<open>simp add: p_def e(2)\<close>)
qed

lemma publish_exact:
  assumes "diag_ok J h"
  obtains payload b where "reads_as payload (diag_report h)"
    "take (16 + length payload) b = write_data_message (g_s h) datawriter_1 payload"
    "publish_diagnostics J h = send_tracked b (16 + length payload) (h\<lparr>g_s := numbered (g_s h)\<rparr>)"
proof -
  note r = diag_report_fits[OF assms]
  have n: "length (diag_report h) \<le> 16" "40 + sum_list (map entry_size (diag_report h)) \<le> 2048" using r(2) by (simp_all add: diagnostics_array_fold(2))
  have j: "length (J 2048) = 2048" "length (client_key (g_s h)) = 4" using assms by (simp_all add: diag_ok_def)
  obtain p sm where p: "reads_as p (diag_report h)"
    "diagnostic_msgs_DiagnosticArray_encode (diagnostics_array h) (J 2048) 2048 0 = (True, sm, 4 + length p)"
    "xrce_session_build_write_data (g_s h) BEST_EFFORT_STREAM_0 datawriter_1 (drop 4 sm) (length p) (J 2048) 2048 =
       (16 + length p, numbered (g_s h), write_data_message (g_s h) datawriter_1 p @ drop (16 + length p) (J 2048))"
    "length (write_data_message (g_s h) datawriter_1 p) = 16 + length p"
    by (rule report_written[OF n(1) r(1) diagnostics_array_fold(1) n(2) j(1,1,2)])
  show ?thesis by (rule that[OF p(1)]) (simp_all add: publish_diagnostics_def p(2-4))
qed

text \<open>The answer to a refresh request, without its CDR header.\<close>

definition refreshed_body :: bytes where
  "refreshed_body = [1, 0, 0, 0, 10, 0, 0, 0] @ map of_char ''refreshed'' @ [0]"

lemma refreshed_encode:
  assumes "length buf = 128"
  obtains b where "std_srvs_Trigger_Response_encode \<lparr>success = True, trigger_message = snprintf ''refreshed'' (replicate 256 0)\<rparr> buf 128 0 =
      (True, b, 4 + length refreshed_body)" "take (4 + length refreshed_body) b = cdr_header @ refreshed_body" "length b = 128"
proof -
  define m where "m = snprintf ''refreshed'' (replicate 256 0)"
  have sp: "cstr m = map of_char ''refreshed'' @ [0]" "chars 256 m"
    using snprintf_fits[of "''refreshed''" "replicate 256 0", folded m_def] by (simp_all add: chars_def)
  have le: "le_bytes 4 (10 :: u32) = [10, 0, 0, 0]" by code_simp
  have i: "wire_all [wire_bool (success r), wire_string (trigger_message r)] 0 = refreshed_body"
    if "r = \<lparr>success = True, trigger_message = m\<rparr>" for r
    by (simp add: that wire_seq_def wire_bool_def wire_string_def wire_u32_def wire_bytes_def padded_def sp(1) refreshed_body_def)
      (simp add: numeral_3_eq_3 le)
  show ?thesis
    by (rule trigger_response.encode_body[of "\<lparr>success = True, trigger_message = m\<rparr>" buf 128 refreshed_body 0, folded m_def])
      (use sp(2) assms i that in \<open>auto simp: refreshed_body_def m_def\<close>)
qed

lemma refresh_exact:
  assumes "diag_ok J h" "d = take 256 (net_in h (recvs h))" "d \<noteq> []"
    and "xrce_session_parse_data d (length d) \<lparr>oid = 0, okind = 0\<rparr> [] 0 = (True, x, sample, k)"
    and "oid x = oid replier_1" "okind x = XRCE_OBJK_REPLIER" "24 \<le> k"
  obtains payload where
    "datagrams (handle_refresh_requests J h) = datagrams h @
       [write_data_message (g_s h) replier_1 (take 24 sample @ refreshed_body), write_data_message (numbered (g_s h)) datawriter_1 payload]"
    "reads_as payload (diag_report (h\<lparr>g_bytes_sent := g_bytes_sent h + (if net_ok h (sends h) then 58 else 0)\<rparr>))"
    "g_s (handle_refresh_requests J h) = numbered (numbered (g_s h))"
proof -
  have k: "length sample = k" using parse_data_sample[OF assms(4) order_refl] .
  have j: "length (J 256) = 256" "length (J 128) = 128" "length (client_key (g_s h)) = 4" using assms(1) by (simp_all add: diag_ok_def)
  obtain b where e: "std_srvs_Trigger_Response_encode \<lparr>success = True, trigger_message = snprintf ''refreshed'' (replicate 256 0)\<rparr> (J 128) 128 0 =
      (True, b, 4 + length refreshed_body)" "take (4 + length refreshed_body) b = cdr_header @ refreshed_body" "length b = 128"
    by (rule refreshed_encode[OF j(2)])
  have lr: "length refreshed_body = 18" by (simp add: refreshed_body_def)
  let ?w = "take 24 sample @ refreshed_body"
  have w: "reply_wire sample b (4 + length refreshed_body) = (?w, 24 + length refreshed_body)"
    by (rule reply_wire_image[OF e(2) refl]) (use e(3) lr in simp)
  have lw: "42 \<le> length ?w" "16 + 42 \<le> (256 :: nat)" using k assms(7) lr by simp_all
  have tw: "take 42 ?w = ?w" using k assms(7) lr by simp
  note wd = write_data_fits[OF j(3,1) lw, of replier_1, unfolded tw]
  let ?b = "write_data_message (g_s h) replier_1 ?w @ drop 58 (J 256)"
  define h1 where "h1 = send_tracked ?b 58 (h\<lparr>recvs := Suc (recvs h), g_s := numbered (g_s h)\<rparr>)"
  define h2 where "h2 = put_line ''refresh requested -- republishing'' h1"
  have e2: "handle_refresh_requests J h = publish_diagnostics J h2"
    unfolding handle_refresh_requests_def recv_def assms(2)[symmetric]
    using assms(3-7) e(1) w wd(1) lr by (simp add: h2_def h1_def)
  have g2: "g_s h2 = numbered (g_s h)" "g_mach h2 = g_mach h" "g_work_queue h2 = g_work_queue h" "g_first_task h2 = g_first_task h"
    "g_second_task h2 = g_second_task h" "g_bytes_sent h2 = g_bytes_sent h + (if net_ok h (sends h) then 58 else 0)"
    "datagrams h2 = datagrams h @ [write_data_message (g_s h) replier_1 ?w]"
    using wd(2) by (simp_all add: h2_def put_line_def) (simp_all add: h1_def)
  have ok2: "diag_ok J h2" using assms(1) g2 by (simp add: diag_ok_def)
  obtain p bb where p: "reads_as p (diag_report h2)" "take (16 + length p) bb = write_data_message (g_s h2) datawriter_1 p"
      "publish_diagnostics J h2 = send_tracked bb (16 + length p) (h2\<lparr>g_s := numbered (g_s h2)\<rparr>)"
    by (rule publish_exact[OF ok2])
  have dr: "diag_report h2 = diag_report (h\<lparr>g_bytes_sent := g_bytes_sent h + (if net_ok h (sends h) then 58 else 0)\<rparr>)"
    by (simp add: diag_report_def g2)
  show ?thesis by (rule that[of p]) (use p e2 g2 dr in simp_all)
qed

section \<open>Lemmas: counting bytes\<close>

text \<open>The counter holds the total size of the datagrams that the network took whole.\<close>

definition bytes_counted :: "'a diag_host_scheme \<Rightarrow> bool" where
  "bytes_counted h \<longleftrightarrow> sends h = length (datagrams h) \<and>
     g_bytes_sent h = of_nat (\<Sum>i\<leftarrow>[0..<sends h]. if net_ok h i then length (datagrams h ! i) else 0)"

lemma bytes_counted_cong:
  "bytes_counted h \<Longrightarrow> sends h' = sends h \<Longrightarrow> datagrams h' = datagrams h \<Longrightarrow> g_bytes_sent h' = g_bytes_sent h \<Longrightarrow> net_ok h' = net_ok h \<Longrightarrow>
   bytes_counted h'"
  by (simp add: bytes_counted_def cong: if_cong)

lemma bytes_counted_send:
  assumes "bytes_counted h" "sends h' = Suc (sends h)" "datagrams h' = datagrams h @ [m]" "net_ok h' = net_ok h"
    and "g_bytes_sent h' = g_bytes_sent h + (if net_ok h (sends h) then of_nat (length m) else 0)"
  shows "bytes_counted h'"
proof -
  have e: "(datagrams h @ [m]) ! i = datagrams h ! i" if "i < sends h" for i
    using that assms(1) by (simp add: bytes_counted_def nth_append)
  have "(\<Sum>i\<leftarrow>[0..<sends h]. if net_ok h i then length ((datagrams h @ [m]) ! i) else 0) =
      (\<Sum>i\<leftarrow>[0..<sends h]. if net_ok h i then length (datagrams h ! i) else 0)"
    by (rule arg_cong[of _ _ sum_list], rule map_cong[OF refl]) (use e in auto)
  moreover have "(datagrams h @ [m]) ! sends h = m" using assms(1) by (simp add: bytes_counted_def)
  ultimately show ?thesis using assms by (simp add: bytes_counted_def cong: if_cong)
qed

lemma bytes_counted_tracked: "bytes_counted h \<Longrightarrow> n \<le> length b \<Longrightarrow> bytes_counted (send_tracked b n h)"
  by (rule bytes_counted_send[of h _ "take n b"]) simp_all

lemma bytes_counted_wait:
  assumes "bytes_counted h" "n \<le> length b"
  shows "bytes_counted (snd (diag_send_and_wait_ok nm b n p h))"
proof -
  let ?h = "snd (diag_send_and_wait_ok nm b n p h)"
  have "sends ?h = Suc (sends h)" "datagrams ?h = datagrams h @ [take n b]" "net_ok ?h = net_ok h"
    "g_bytes_sent ?h = g_bytes_sent h + (if net_ok h (sends h) then of_nat n else 0)"
    by (simp_all add: diag_send_and_wait_ok_def sendto_def recv_def put_line_def count_bytes_def Let_def)
  from bytes_counted_send[OF assms(1) this(1-3)] this(4) assms(2) show ?thesis by simp
qed

text \<open>Every text is cut to its array, so the array can always be encoded; what is sent lies inside its buffer.\<close>

lemma snprintf_chars: "chars 64 (snprintf s (replicate 64 0))"
proof -
  define z where "z = (replicate 64 0 :: bytes)"
  have "length z = 64" by (simp add: z_def)
  then show ?thesis unfolding z_def[symmetric] by (simp add: chars_def snprintf_def blit_def min_def)
qed

lemma status_entry_always:
  assumes "length kvs \<le> 8"
  shows "ds_encodable (status_entry l n m kvs)"
  unfolding ds_encodable_def status_entry_values[OF assms]
  using assms snprintf_chars by (auto simp: status_entry_def zero_status_def zero_kv_def list_all_iff kv_encodable_def)

lemma diagnostics_encodable: "da_encodable (diagnostics_array h)"
proof -
  have "list_all ds_encodable (map entry_of (diag_report h))"
    by (simp add: diag_report_def task_report_def entry_of_def status_entry_always)
  then show ?thesis
    using add_statuses[of "map entry_of (diag_report h)"] diagnostics_array_fold[of h] by (simp add: da_encodable_def zero_array_def chars_def)
qed

lemma write_data_inside:
  assumes "length (client_key s) = 4" "length buf = cap" "12 \<le> cap" "n \<le> length sample"
    and "xrce_session_build_write_data s stream x sample n buf cap = (len, s', buf')"
  shows "len \<le> length buf'" "length (client_key s') = 4"
proof -
  let ?f = "\<lambda>rid. [write_base_object_request rid x, xrce_cdr_write_bytes sample n]"
  let ?p = "be_bytes 2 (next_request_id s) @ object_id_bytes x @ take n sample"
  have w: "writes (all_of (?f (next_request_id s))) (wire_bytes ?p)"
    using writes_write_data[OF assms(4), of "next_request_id s" x] by simp
  have p: "?p = wire_bytes ?p 12" by (simp add: wire_bytes_def)
  have c: "cap \<le> length buf" using assms(2) by simp
  note e = build_request_exact[of cap buf s ?f, OF c assms(1) w p refl, of stream XRCE_SUBMSG_WRITE_DATA]
  note b = assms(5)[unfolded xrce_session_build_write_data_def]
  have "len \<le> length buf' \<and> length (client_key s') = 4"
  proof (cases "length (message_bytes (session_id s) stream (out_seq_num s) (client_key s) XRCE_SUBMSG_WRITE_DATA ?p) \<le> cap")
    case True
    from e(1)[OF True] b assms(1) show ?thesis by auto
  next
    case False
    from e(2)[OF False] b assms(1) show ?thesis by simp
  qed
  then show "len \<le> length buf'" "length (client_key s') = 4" by simp_all
qed

definition diag_inv :: "'a diag_host_scheme \<Rightarrow> bool" where
  "diag_inv h \<longleftrightarrow> bytes_counted h \<and> length (client_key (g_s h)) = 4"

lemma diag_inv_cong:
  assumes "diag_inv h" "sends h' = sends h" "datagrams h' = datagrams h" "g_bytes_sent h' = g_bytes_sent h" "net_ok h' = net_ok h" "g_s h' = g_s h"
  shows "diag_inv h'"
  using assms bytes_counted_cong[of h h'] by (simp add: diag_inv_def)

lemma diag_inv_write:
  assumes "diag_inv h" "length buf = cap" "12 \<le> cap" "n \<le> length sample"
    and "xrce_session_build_write_data (g_s h) stream x sample n buf cap = (len, s, buf')"
  shows "diag_inv (send_tracked buf' len (h\<lparr>g_s := s\<rparr>))"
proof -
  have k: "length (client_key (g_s h)) = 4" using assms(1) by (simp add: diag_inv_def)
  have "bytes_counted (h\<lparr>g_s := s\<rparr>)" by (rule bytes_counted_cong[of h]) (use assms(1) in \<open>simp_all add: diag_inv_def\<close>)
  then show ?thesis
    using write_data_inside[OF k assms(2-5)] bytes_counted_tracked by (simp add: diag_inv_def)
qed

lemma publish_inv:
  assumes "\<And>n. length (J n) = n" "diag_inv h"
  shows "diag_inv (publish_diagnostics J h)"
proof (cases "length (diagnostic_array.image (diagnostics_array h)) \<le> 2048")
  case True
  define sm where "sm = blit 0 (diagnostic_array.image (diagnostics_array h)) (J 2048)"
  define n where "n = length (diagnostic_array.image (diagnostics_array h))"
  have e: "diagnostic_msgs_DiagnosticArray_encode (diagnostics_array h) (J 2048) 2048 0 = (True, sm, n)"
    unfolding sm_def n_def by (rule diagnostic_array.encode_fits[OF diagnostics_encodable]) (use True assms(1) in simp_all)
  have "length sm = 2048" unfolding sm_def using True by (simp add: assms(1))
  then have n: "n - 4 \<le> length (drop 4 sm)" using True by (simp add: n_def)
  obtain len s b where b: "xrce_session_build_write_data (g_s h) BEST_EFFORT_STREAM_0 datawriter_1 (drop 4 sm) (n - 4) (J 2048) 2048 = (len, s, b)"
    by (metis prod_cases3)
  show ?thesis using diag_inv_write[OF assms(2) assms(1) _ n b] e b by (simp add: publish_diagnostics_def)
next
  case False
  then obtain b where "diagnostic_msgs_DiagnosticArray_encode (diagnostics_array h) (J 2048) 2048 0 = (False, b, 0)"
    using diagnostic_array.encode_too_long[OF diagnostics_encodable, of 2048 "J 2048" h 0] assms(1) by auto
  then show ?thesis using assms(2) by (simp add: publish_diagnostics_def)
qed

lemma refresh_inv:
  assumes "\<And>n. length (J n) = n" "diag_inv h"
  shows "diag_inv (handle_refresh_requests J h)"
proof -
  define d where "d = take 256 (net_in h (recvs h))"
  let ?h = "h\<lparr>recvs := Suc (recvs h)\<rparr>"
  have i: "diag_inv ?h" by (rule diag_inv_cong[OF assms(2)]) simp_all
  obtain ok x sample k where p: "xrce_session_parse_data d (length d) \<lparr>oid = 0, okind = 0\<rparr> [] 0 = (ok, x, sample, k)"
    by (metis prod_cases4)
  show ?thesis
  proof (cases "d = [] \<or> \<not> ok \<or> oid x \<noteq> oid replier_1 \<or> okind x \<noteq> XRCE_OBJK_REPLIER \<or> k < 24")
    case True
    then have "handle_refresh_requests J h = ?h"
      unfolding handle_refresh_requests_def recv_def d_def[symmetric] using p by auto
    then show ?thesis using i by simp
  next
    case False
    obtain b where e: "std_srvs_Trigger_Response_encode \<lparr>success = True, trigger_message = snprintf ''refreshed'' (replicate 256 0)\<rparr> (J 128) 128 0 =
        (True, b, 4 + length refreshed_body)" "take (4 + length refreshed_body) b = cdr_header @ refreshed_body" "length b = 128"
      by (rule refreshed_encode[OF assms(1)])
    have k: "length sample = k" using parse_data_sample[of d "length d"] p False by auto
    let ?w = "take 24 sample @ refreshed_body"
    have w: "reply_wire sample b (4 + length refreshed_body) = (?w, 24 + length refreshed_body)"
      by (rule reply_wire_image[OF e(2) refl]) (use e(3) in \<open>simp add: refreshed_body_def\<close>)
    obtain len s b' where b: "xrce_session_build_write_data (g_s ?h) BEST_EFFORT_STREAM_0 replier_1 ?w (24 + length refreshed_body) (J 256) 256 = (len, s, b')"
      by (metis prod_cases3)
    let ?h2 = "put_line ''refresh requested -- republishing'' (send_tracked b' len (?h\<lparr>g_s := s\<rparr>))"
    have "diag_inv (send_tracked b' len (?h\<lparr>g_s := s\<rparr>))"
      by (rule diag_inv_write[OF i assms(1) _ _ b]) (use k False in simp_all)
    then have "diag_inv ?h2" by (rule diag_inv_cong) (simp_all add: put_line_def)
    moreover have "handle_refresh_requests J h = publish_diagnostics J ?h2"
      unfolding handle_refresh_requests_def recv_def d_def[symmetric]
      using p e(1) w b False by (simp add: Let_def)
    ultimately show ?thesis using publish_inv[OF assms(1)] by simp
  qed
qed

lemma setup_by_inv:
  assumes "diag_inv h" "client_ok h" "request_ok (fst st)" "snd st \<noteq> Must_send"
  shows "diag_inv (snd (setup_by diag_send_and_wait_ok send_tracked st h)) \<and> client_ok (snd (setup_by diag_send_and_wait_ok send_tracked st h))"
proof -
  obtain req aft where st: "st = (req, aft)" by (cases st)
  let ?m = "request_message (g_s h) req"
  let ?b = "?m @ drop (length ?m) (msg_buf h)"
  let ?h = "h\<lparr>g_s := after_request req (g_s h), msg_buf := ?b\<rparr>"
  have key: "length (client_key (g_s h)) = 4" "length (msg_buf h) = 512" using assms(2) by (simp_all add: client_ok_def)
  note ex = request_exact[OF assms(3)[unfolded st fst_conv] key]
  have bc: "bytes_counted ?h" by (rule bytes_counted_cong[of h]) (use assms(1) in \<open>simp_all add: diag_inv_def\<close>)
  have len: "length ?m \<le> length ?b" by simp
  have c: "client_ok (snd (setup_by diag_send_and_wait_ok send_tracked st h))"
    using diag_style.setup_by_core[OF refl, of st h] setup_one_exact[OF assms(3,2), of Nil]
    by (metis (no_types, lifting) client_ok_def core_eq_iff snd_conv)
  have "bytes_counted (snd (setup_by diag_send_and_wait_ok send_tracked st h))"
    using assms(4) bytes_counted_wait[OF bc len] bytes_counted_tracked[OF bc len] ex
    by (cases aft) (simp_all add: setup_by_def st Let_def)
  then show ?thesis using c by (simp add: diag_inv_def client_ok_def)
qed

lemma run_by_inv:
  assumes "diag_inv h" "client_ok h" "list_all request_ok (map fst sts)" "list_all (\<lambda>st. snd st \<noteq> Must_send) sts"
  shows "diag_inv (snd (run_by (setup_by diag_send_and_wait_ok send_tracked) sts h))"
  using assms
proof (induction sts arbitrary: h)
  case (Cons st sts)
  then show ?case using setup_by_inv[of h st] by (auto simp: split_beta)
qed simp

section \<open>The running program\<close>

text \<open>
  The program after \<^verbatim>\<open>scheduler_run\<close> has been entered: the loop bodies of the coordinator and the publisher, the
  statements of the workers, and whatever the kernel does in between. A loop body is one step: the
  programs share the session between two tasks without a lock, and what happens when the timer splits
  a loop body is not described here.
\<close>

inductive diag_step :: "(nat \<Rightarrow> bytes) \<Rightarrow> diag_host \<Rightarrow> diag_host \<Rightarrow> bool" for J where
  publisher: "cpu (g_mach h) = In_task \<Longrightarrow> diag_step J h (publisher_pass J h)"
| coordinator: "cpu (g_mach h) = In_task \<Longrightarrow> diag_step J h (coordinator_pass J h)"
| producer: "cpu (g_mach h) = In_task \<Longrightarrow> diag_step J h (snd (producer_stmt st h))"
| consumer: "cpu (g_mach h) = In_task \<Longrightarrow> diag_step J h (snd (consumer_stmt pc h))"
| faulty: "cpu (g_mach h) = In_task \<Longrightarrow> diag_step J h (snd (faulty_stmt st h))"
| kernel_step: "machine_step (g_mach h) m \<Longrightarrow> diag_step J h (h\<lparr>g_mach := m\<rparr>)"

inductive diag_reach :: "diag_cfg \<Rightarrow> (nat \<Rightarrow> bytes) \<Rightarrow> diag_host \<Rightarrow> bool" for cfg J where
  start: "diag_main cfg storage entries sched_ctx envs 3 h = Running h' \<Longrightarrow> datagrams h = [] \<Longrightarrow> sends h = 0 \<Longrightarrow> g_bytes_sent h = 0 \<Longrightarrow>
     length (msg_buf h) = 512 \<Longrightarrow> diag_reach cfg J h'"
| step: "diag_reach cfg J h \<Longrightarrow> diag_step J h h' \<Longrightarrow> diag_reach cfg J h'"

inductive_cases diag_step_cases: "diag_step J h h'"

lemma queue_op_inv: "diag_inv h \<Longrightarrow> diag_inv (snd (queue_op f pc h))"
  by (erule diag_inv_cong) (simp_all add: queue_op_def split: prod.splits)

lemma pause_inv: "diag_inv h \<Longrightarrow> diag_inv (pause ms h)"
  by (erule diag_inv_cong) (simp_all add: pause_def)

lemma diag_step_inv:
  assumes "\<And>n. length (J n) = n" "diag_step J h h'" "diag_inv h"
  shows "diag_inv h'"
  using assms(2)
proof cases
  case publisher
  then show ?thesis using publish_inv[OF assms(1,3)] pause_inv by (simp add: publisher_pass_def)
next
  case coordinator
  then show ?thesis using refresh_inv[OF assms(1,3)] pause_inv by (simp add: coordinator_pass_def)
next
  case (producer st)
  then show ?thesis using queue_op_inv[OF assms(3)] pause_inv[OF assms(3)]
    by (cases st) (simp add: producer_stmt_def split_beta)
next
  case (consumer pc)
  then show ?thesis using queue_op_inv[OF assms(3)] pause_inv[OF assms(3)]
    by (cases pc) (simp_all add: consumer_stmt_def)
next
  case (faulty st)
  have k: "diag_inv (h\<lparr>stdout := s, g_mach := m\<rparr>)" for s m by (rule diag_inv_cong[OF assms(3)]) simp_all
  have "diag_inv (snd (faulty_stmt (i, pc) h))" for i pc
    using queue_op_inv[OF assms(3), of queue_receive pc] pause_inv[OF assms(3)] pause_inv[OF k]
    by (cases pc) (auto simp: faulty_stmt_def put_line_def Let_def split_beta)
  then show ?thesis using faulty by (cases st) simp
next
  case (kernel_step m)
  then show ?thesis using diag_inv_cong[OF assms(3), of "h\<lparr>g_mach := m\<rparr>"] by simp
qed

lemma diag_reach_inv:
  assumes "\<And>n. length (J n) = n" "cfg \<in> {diagnostics_cfg, fault_cfg}" "diag_reach cfg J h"
  shows "diag_inv h"
  using assms(3)
proof (induction rule: diag_reach.induct)
  case (start storage entries sched_ctx envs h h')
  let ?h = "h\<lparr>g_s := xrce_session_init 1 (demo_key cfg) 512\<rparr>"
  let ?r = "run_by (setup_by diag_send_and_wait_ok send_tracked) (diag_script cfg) ?h"
  have k: "length (demo_key cfg) = 4" using assms(2) by (auto simp: diagnostics_cfg_def fault_cfg_def)
  have i: "diag_inv ?h" "client_ok ?h"
    using start k by (simp_all add: diag_inv_def bytes_counted_def client_ok_def xrce_session_init_def)
  have s: "list_all request_ok (map fst (diag_script cfg))" "list_all (\<lambda>st. snd st \<noteq> Must_send) (diag_script cfg)"
    using assms(2) diag_scripts_ok by (auto simp: diag_script_def)
  have "h' = start_tasks cfg storage entries sched_ctx envs (snd ?r)"
    using start(1) by (auto simp: diag_main_def split: prod.splits if_splits)
  then show ?case
    using diag_inv_cong[OF run_by_inv[OF i s], of h'] by (simp add: start_tasks_def split: prod.splits)
next
  case (step h h')
  then show ?case using diag_step_inv[OF assms(1)] by blast
qed

section \<open>Properties\<close>


text \<open>A program whose workers are the two sample tasks of theory \<open>Kernel\<close>.\<close>

definition sample_diag :: diag_host where
  "sample_diag = \<lparr>net_in = good_agent, net_ok = \<lambda>_. True, net_clock = \<lambda>i. of_nat (1000 * i), recvs = 0, sends = 0,
     clock_reads = 0, datagrams = [], stdout = [], g_s = xrce_session_init 1 [8, 8, 8, 8] 512, msg_buf = replicate 512 0,
     g_mach = preemptive_pair, g_bytes_sent = 0, g_work_queue = queue_init [0, 0, 0, 0] 4, g_first_task = 0x1000, g_second_task = 0x2000\<rparr>"

lemma fresh_task_name: "a \<noteq> 0 \<Longrightarrow> tname (fresh_task a i) = name_buf (''task'' @ dec_string i)"
  by (simp add: fresh_task_def task_create_def witness_env_def Let_def)

lemma name_buf_reportable: "length (name_buf s) = TASK_NAME_MAX" "CHR 0x00 \<in> set (name_buf s)"
  by simp (metis diff_less length_name_buf name_buf_terminated nth_mem zero_less_numeral zero_less_one)

lemma sample_diag_ok: "diag_ok (\<lambda>n. replicate n 0) sample_diag"
  by (simp add: diag_ok_def sample_diag_def xrce_session_init_def queue_init_def preemptive_pair_facts task_reportable_def fresh_task_name
      name_buf_reportable)



text \<open>
  How deep the queue is reported to be. While no task is inside the queue's critical section, the reported depth
  is the number of items in the channel, unless the channel is full: a full queue is reported as empty, with
  level OK, because the ring indices of a full and of an empty queue are the same. The warning level is
  given exactly when one slot is left (always, for a queue of one slot).
\<close>

theorem queue_depth_reported:
  assumes "queue_reach n s" "\<forall>p\<in>set (g_tasks (qk s)). \<not> in_critical (qpc s p)"
    and "items = int (length (q_sent s)) - int (length (q_rcvd s))"
  shows "queue_depth (qq s) = (if items = n then 0 else items) \<and>
     queue_level (qq s) = (if items = n - 1 \<or> n = 1 then DIAGNOSTIC_STATUS_WARN else DIAGNOSTIC_STATUS_OK)"
proof -
  from queue_reach_inv[OF assms(1)] have sl: "slots_inv n s" and r: "ring_inv n s" by (simp_all add: queue_inv_def)
  have z: "tasks_at P (qpc s) ps = 0" if "\<forall>p\<in>set ps. \<not> P (qpc s p)" for P ps
    using that by (induction ps) simp_all
  have a: "\<not> advancing_tail pc" "\<not> advancing_head pc" if "\<not> in_critical pc" for pc using that by (cases pc; simp)+
  have t: "tasks_at advancing_tail (qpc s) (g_tasks (qk s)) = 0" "tasks_at advancing_head (qpc s) (g_tasks (qk s)) = 0"
    using z a assms(2) by simp_all
  have q: "0 < n" "qcapacity (qq s) = n" "qtail (qq s) = int (length (q_sent s)) mod n" "qhead (qq s) = int (length (q_rcvd s)) mod n"
    using r t by (simp_all add: ring_inv_def)
  have i: "0 \<le> items" "items \<le> n" using pending_bounds(1,2)[OF sl] assms(3) by simp_all
  have "0 \<le> qtail (qq s) - qhead (qq s) + n" 
    using pos_mod_sign[OF q(1), of "int (length (q_sent s))"] pos_mod_bound[OF q(1), of "int (length (q_rcvd s))"] q(3,4) by linarith
  then have "queue_depth (qq s) = (qtail (qq s) - qhead (qq s) + n) mod n" using q(1,2) by (simp add: queue_depth_def c_mod_pos)
  also have "\<dots> = items mod n" unfolding q(3,4) assms(3) by (simp add: mod_diff_eq)
  also have "\<dots> = (if items = n then 0 else items)" using i by simp
  finally show ?thesis using i q(1,2) by (auto simp: queue_level_def)
qed

theorem queue_depth_reported_witness:
  "queue_depth (qq sent_once) = 1 \<and> queue_level (qq sent_once) = DIAGNOSTIC_STATUS_WARN"
  using queue_depth_reported[OF sent_once_reach, of 1] by (simp add: sent_once_facts)

lemma sample_diag_runs:
  "\<exists>h'. diag_main diagnostics_cfg [0, 0, 0, 0] (\<lambda>_. 0) 0 (\<lambda>_. witness_env) 3 sample_diag = Running h' \<and> length (datagrams h') = 7"
proof -
  let ?h = "sample_diag\<lparr>g_s := xrce_session_init 1 (demo_key diagnostics_cfg) 512\<rparr>"
  let ?steps = "diag_script diagnostics_cfg"
  have c: "client_ok ?h" by (simp add: client_ok_def sample_diag_def xrce_session_init_def diagnostics_cfg_def)
  have l: "length ?steps = 7" by (simp add: diag_script_def)
  have "\<forall>i \<in> set [0, 1, 2, 3, 4, 5, 6]. step_passes ?h ?steps i"
    by (simp add: step_passes_def diag_script_def sample_diag_def is_await_def good_agent_accepts(1)
        good_agent_accepts(2)[of 0, simplified] good_agent_accepts(2)[of 1, simplified] good_agent_accepts(2)[of 2, simplified]
        good_agent_accepts(2)[of 3, simplified] good_agent_accepts(2)[of 4, simplified] good_agent_accepts(2) eval_nat_numeral)
  then have pass: "step_passes ?h ?steps i" if "i < 7" for i using that by (auto simp: less_Suc_eq eval_nat_numeral)
  obtain k h1 where k: "k \<le> length ?steps" "k < length ?steps \<longrightarrow> \<not> step_passes ?h ?steps k"
      "run_by (setup_by diag_send_and_wait_ok send_tracked) ?steps ?h = (k = length ?steps, h1)"
      "datagrams h1 = datagrams ?h @ take (Suc k) (script_messages (g_s ?h) (map fst ?steps))"
    using diag_style.run_by_exact[OF diag_scripts_ok(1) c] by blast
  have k7: "k = 7" using k(1,2) pass l by (metis le_neq_implies_less)
  have "length (script_messages (g_s ?h) (map fst ?steps)) = 7" by (simp add: diag_script_def)
  then have "length (datagrams h1) = 7" using k(4) k7 by (simp add: sample_diag_def)
  then show ?thesis using k(3) k7 l by (simp add: diag_main_def start_tasks_def split: prod.splits)
qed


text \<open>The pause of a worker is where the scheduler looks at its canary.\<close>

lemma sleep_checks_canary:
  assumes "0 < ms" "g_current_idx (kern m) = int (sched_next m)"
  shows "cpu (machine_sleep ms m) = (if task_canary_ok (deref (kern m) (cur_ptr (kern m))) then In_scheduler else Aborted)"
proof -
  have c: "g_tasks (kern m) ! sched_next m = cur_ptr (kern m)" using assms(2) by (simp add: cur_ptr_def)
  show ?thesis
    using assms by (simp add: machine_sleep_def task_sleep_def task_yield_def back_to_scheduler_def sched_resume_def restore_mask_def
        task_at_def task_check_canary_or_abort_def task_canary_ok_def c Let_def split: if_splits)
qed

lemma stomped_canary:
  assumes "length (stack t) = stack_size t" "32 \<le> stack_size t"
  shows "\<not> task_canary_ok (t\<lparr>stack := blit 0 (replicate TASK_CANARY_SIZE 0) (stack t)\<rparr>)"
proof -
  have "blit 0 (replicate TASK_CANARY_SIZE 0) (stack t) ! 0 = 0" by (simp add: blit_def nth_append)
  then show ?thesis using assms(2) by (auto simp: task_canary_ok_def list_all_iff intro!: bexI[of _ 0])
qed

lemma aborted_stuck: "cpu (g_mach h) = Aborted \<Longrightarrow> \<not> diag_step J h h'"
  by (auto elim!: diag_step_cases machine_step.cases)



text \<open>
  The state in which \<^verbatim>\<open>main\<close> enters the scheduler satisfies the conditions of the publisher, when the four
  allocations succeed at different addresses.
\<close>

lemma start_tasks_ok:
  assumes "\<And>n. length (J n) = n" "length (client_key (g_s h)) = 4"
    and "\<And>i. i < 4 \<Longrightarrow> calloc_result (envs i) \<noteq> 0 \<and> malloc_ok (envs i) \<and> getcontext_ok (envs i)"
    and "distinct (map (\<lambda>i. calloc_result (envs i)) [0, 1, 2, 3])"
  shows "diag_ok J (start_tasks cfg storage entries sched_ctx envs h)"
proof -
  have e: "calloc_result (envs 0) \<noteq> 0 \<and> malloc_ok (envs 0) \<and> getcontext_ok (envs 0)"
    "calloc_result (envs 1) \<noteq> 0 \<and> malloc_ok (envs 1) \<and> getcontext_ok (envs 1)"
    "calloc_result (envs 2) \<noteq> 0 \<and> malloc_ok (envs 2) \<and> getcontext_ok (envs 2)"
    "calloc_result (envs 3) \<noteq> 0 \<and> malloc_ok (envs 3) \<and> getcontext_ok (envs 3)"
    by (rule assms(3); simp)+
  define w where "w = (\<lambda>nm a env prio nx. snd (the (fst (task_create (Some nm) a 0 prio 0 sched_ctx env nx))))"
  have s: "task_spawn (Some nm) a 0 prio sched_ctx env k =
      (calloc_result env, scheduler_add_task (calloc_result env)
        (k\<lparr>g_next_task_id := g_next_task_id k + 1, heap := (heap k)(calloc_result env \<mapsto> w nm a env prio (g_next_task_id k))\<rparr>))"
    if "calloc_result env \<noteq> 0 \<and> malloc_ok env \<and> getcontext_ok env" for nm a env prio k
    using that by (simp add: task_spawn_def task_create_def w_def Let_def)
  have r: "task_reportable (w nm a env prio nx)"
    if "calloc_result env \<noteq> 0 \<and> malloc_ok env \<and> getcontext_ok env" "- (2 ^ 31) \<le> prio" "prio < 2 ^ 31" for nm a env prio nx
    using that by (simp add: w_def task_create_def task_reportable_def name_buf_reportable Let_def)
  have hp: "heap (scheduler_add_task p k) = heap k" "g_next_task_id (scheduler_add_task p k) = g_next_task_id k" for p k
    by (simp_all add: scheduler_add_task_def)
  have en: "heap (scheduler_enable_preemption a b k) = heap k" for a b k
    by (simp add: scheduler_enable_preemption_def setitimer_def Let_def)
  show ?thesis
    using assms(1,2,4) r[OF e(1), of 20] r[OF e(2), of 10]
    by (simp add: diag_ok_def start_tasks_def s[OF e(1)] s[OF e(2)] s[OF e(3)] s[OF e(4)] deref_def hp en queue_init_def Let_def del: One_nat_def)
qed

end
