(* ===== verification/Priority_Demo.thy ===== *)
theory Priority_Demo
  imports Diagnostics
begin

text \<open>
  \<^verbatim>\<open>host/live_priority_demo.c\<close>: a poller task takes samples of two topics from the socket and hands them to a
  high- and a low-priority task through two queues of eight slots; the items live in two pools of eight.
  The poller also publishes the state of the three tasks.

  The globals of one topic are the record \<open>channel\<close>. An item travels as its address, \<open>pool_base + 16 i\<close>. The tasks go
  by their statements, with the program points of the queue operations; the round of a consumer is its
  counter, the sum and the maximum of the latencies.
\<close>

section \<open>State\<close>

abbreviation MESSAGES_PER_TOPIC :: nat where "MESSAGES_PER_TOPIC \<equiv> 15"
abbreviation POOL_SIZE :: nat where "POOL_SIZE \<equiv> 8"

record dispatch_item =
  item_value :: u32
  enqueued_us :: u64

record channel =
  pool :: "dispatch_item list"
  pool_base :: ptr
  pool_next :: nat
  chan_queue :: queue

datatype topic = High | Low

record prio_host = rtos_host +
  g_high :: channel
  g_low :: channel
  g_poller_task_handle :: ptr
  g_high_task_handle :: ptr
  g_low_task_handle :: ptr
  g_busy_sink :: u64

abbreviation high_reader :: object_id where "high_reader \<equiv> xrce_object_id 1 XRCE_OBJK_DATAREADER"
abbreviation low_reader :: object_id where "low_reader \<equiv> xrce_object_id 2 XRCE_OBJK_DATAREADER"
abbreviation diag_writer :: object_id where "diag_writer \<equiv> xrce_object_id 2 XRCE_OBJK_DATAWRITER"

definition chan :: "topic \<Rightarrow> 'a prio_host_scheme \<Rightarrow> channel" where
  "chan tp h = (case tp of High \<Rightarrow> g_high h | Low \<Rightarrow> g_low h)"

definition set_chan :: "topic \<Rightarrow> channel \<Rightarrow> 'a prio_host_scheme \<Rightarrow> 'a prio_host_scheme" where
  "set_chan tp c h = (case tp of High \<Rightarrow> h\<lparr>g_high := c\<rparr> | Low \<Rightarrow> h\<lparr>g_low := c\<rparr>)"

definition item_addr :: "channel \<Rightarrow> nat \<Rightarrow> ptr" where
  "item_addr c i = pool_base c + 16 * of_nat i"

definition item_at :: "channel \<Rightarrow> ptr \<Rightarrow> dispatch_item" where
  "item_at c p = pool c ! (unat (p - pool_base c) div 16)"

definition now_us :: "'a host_scheme \<Rightarrow> u64 \<times> 'a host_scheme" where
  "now_us h = (net_clock h (clock_reads h), h\<lparr>clock_reads := Suc (clock_reads h)\<rparr>)"

section \<open>Sending without a count\<close>

definition quiet_send_and_wait_ok ::
  "string \<Rightarrow> bytes \<Rightarrow> nat \<Rightarrow> (bytes \<Rightarrow> nat \<Rightarrow> bool) \<Rightarrow> 'a host_scheme \<Rightarrow> bool \<times> 'a host_scheme" where
  "quiet_send_and_wait_ok step_name msg len parse_reply h =
     (case sendto msg len h of
        (sent_ok, h) \<Rightarrow>
          if \<not> sent_ok then (False, h)
          else
            (case recv 256 h of
               (reply, h) \<Rightarrow>
                 if reply = [] then (False, h)
                 else
                   (let ok = parse_reply reply (length reply) in
                    (ok, put_line (pad_right 24 step_name @ '' -> '' @ (if ok then ''OK'' else ''FAILED'')) h))))"

section \<open>The poller\<close>

text \<open>The next item of the pool is filled; its address is what goes into the queue.\<close>

definition fill_slot :: "u32 \<Rightarrow> u64 \<Rightarrow> channel \<Rightarrow> ptr \<times> channel" where
  "fill_slot v now c =
     (item_addr c (pool_next c),
      c\<lparr>pool := (pool c)[pool_next c := \<lparr>item_value = v, enqueued_us = now\<rparr>], pool_next := (pool_next c + 1) mod POOL_SIZE\<rparr>)"

definition dispatch_sample :: "topic \<Rightarrow> u32 \<Rightarrow> 'a prio_host_scheme \<Rightarrow> ptr \<times> 'a prio_host_scheme" where
  "dispatch_sample tp v h = (case now_us h of (now, h) \<Rightarrow> case fill_slot v now (chan tp h) of (item, c) \<Rightarrow> (item, set_chan tp c h))"

text \<open>\<^verbatim>\<open>poll_once\<close> up to its call of \<^verbatim>\<open>queue_send\<close>: the queue and the item of the call, if it gets there.\<close>

definition poll_once :: "'a prio_host_scheme \<Rightarrow> (topic \<times> ptr) option \<times> 'a prio_host_scheme" where
  "poll_once h =
     (case recv 256 h of
        (d, h) \<Rightarrow>
          if d = [] then (None, h)
          else
            (case xrce_session_parse_data d (length d) \<lparr>oid = 0, okind = 0\<rparr> [] 0 of
               (ok, from_id, sample, sample_len) \<Rightarrow>
                 if \<not> ok \<or> sample_len < 4 then (None, h)
                 else
                   (let value = ucast (sample ! 0) OR push_bit 8 (ucast (sample ! 1)) OR
                          push_bit 16 (ucast (sample ! 2)) OR push_bit 24 (ucast (sample ! 3)) :: u32 in
                    if oid from_id = oid high_reader \<and> okind from_id = XRCE_OBJK_DATAREADER
                    then (case dispatch_sample High value h of (item, h) \<Rightarrow> (Some (High, item), h))
                    else if oid from_id = oid low_reader \<and> okind from_id = XRCE_OBJK_DATAREADER
                    then (case dispatch_sample Low value h of (item, h) \<Rightarrow> (Some (Low, item), h))
                    else (None, h))))"

definition add_short_task_status :: "task \<Rightarrow> diagnostic_msgs_DiagnosticArray \<Rightarrow> diagnostic_msgs_DiagnosticArray" where
  "add_short_task_status t = add_status (status_entry DIAGNOSTIC_STATUS_OK (''task/'' @ text_in (tname t)) (task_state_name (tstate t))
     [(''priority'', dec_string (priority t)),
      (''stack_high_water_mark_bytes'', dec_digits (task_stack_high_water_mark t))])"

definition prio_array :: "'a prio_host_scheme \<Rightarrow> diagnostic_msgs_DiagnosticArray" where
  "prio_array h =
     (let arr = zero_array;
          arr = add_short_task_status (deref (g_kern h) (g_poller_task_handle h)) arr;
          arr = add_short_task_status (deref (g_kern h) (g_high_task_handle h)) arr;
          arr = add_short_task_status (deref (g_kern h) (g_low_task_handle h)) arr
      in add_status (status_entry DIAGNOSTIC_STATUS_OK ''scheduler'' ''running''
           [(''context_switch_count'', dec_digits (unat (scheduler_switch_count (g_kern h))))]) arr)"

definition prio_publish_diagnostics :: "(nat \<Rightarrow> bytes) \<Rightarrow> 'a prio_host_scheme \<Rightarrow> 'a prio_host_scheme" where
  "prio_publish_diagnostics J h =
     (case diagnostic_msgs_DiagnosticArray_encode (prio_array h) (J 1024) 1024 0 of
        (ok, sample, sample_len) \<Rightarrow>
          if \<not> ok then h
          else
            (case xrce_session_build_write_data (g_s h) BEST_EFFORT_STREAM_0 diag_writer (drop 4 sample) (sample_len - 4) (J 1024) 1024 of
               (len, s, buf) \<Rightarrow> snd (sendto buf len (h\<lparr>g_s := s\<rparr>))))"

text \<open>One statement of a queue operation on the queue of a topic, as in theory \<open>Diagnostics\<close>.\<close>

definition chan_op ::
  "(queue_pc \<Rightarrow> queue \<Rightarrow> kernel \<Rightarrow> queue_pc \<times> queue \<times> kernel) \<Rightarrow> topic \<Rightarrow> queue_pc \<Rightarrow> 'a prio_host_scheme \<Rightarrow> queue_pc \<times> 'a prio_host_scheme" where
  "chan_op f tp pc h =
     (case f pc (chan_queue (chan tp h)) (g_kern h) of
        (pc, q, k) \<Rightarrow>
          (pc, (set_chan tp ((chan tp h)\<lparr>chan_queue := q\<rparr>) h)
                 \<lparr>g_mach := (if tstate (deref k (cur_ptr (g_kern h))) = TASK_BLOCKED then back_to_scheduler k (g_mach h)
                             else (g_mach h)\<lparr>kern := k\<rparr>)\<rparr>))"

datatype poller_pc = At_poll | At_send topic queue_pc | At_diagnostics

definition poller_stmt :: "(nat \<Rightarrow> bytes) \<Rightarrow> poller_pc \<times> u64 \<Rightarrow> 'a prio_host_scheme \<Rightarrow> (poller_pc \<times> u64) \<times> 'a prio_host_scheme" where
  "poller_stmt J st h =
     (case st of (pc, last_diag_us) \<Rightarrow>
      case pc of
        At_poll \<Rightarrow>
          (case poll_once h of
             (None, h) \<Rightarrow> ((At_diagnostics, last_diag_us), h)
           | (Some (tp, item), h) \<Rightarrow> ((At_send tp (Send_wait item), last_diag_us), h))
      | At_send tp at \<Rightarrow>
          (if at = Outside then ((At_diagnostics, last_diag_us), h)
           else (case chan_op queue_send tp at h of (at, h) \<Rightarrow> ((At_send tp at, last_diag_us), h)))
      | At_diagnostics \<Rightarrow>
          (case now_us h of
             (now, h) \<Rightarrow>
               (let (last_diag_us, h) =
                      (if now - last_diag_us > 200000 then now_us (prio_publish_diagnostics J h) else (last_diag_us, h))
                in ((At_poll, last_diag_us), pause 1 h))))"

section \<open>The consumers\<close>

text \<open>The loop of additions into the volatile sink.\<close>

definition simulate_slow_work :: "u64 \<Rightarrow> u64" where
  "simulate_slow_work sink = fold (\<lambda>i s. s + of_nat i) [0..<20000000] sink"

record round_state =
  round_i :: nat
  total_latency_us :: u64
  max_latency_us :: u64

definition round_start :: round_state where
  "round_start = \<lparr>round_i = 0, total_latency_us = 0, max_latency_us = 0\<rparr>"

definition item_line :: "topic \<Rightarrow> u32 \<Rightarrow> u64 \<Rightarrow> string" where
  "item_line tp v l =
     (case tp of
        High \<Rightarrow> ''[high] value='' @ dec_string (sint v) @ '' dispatch_latency='' @ dec_digits (unat l) @ ''us''
      | Low \<Rightarrow> ''[low]  value='' @ dec_string (sint v) @ '' dispatch_latency='' @ dec_digits (unat l) @ ''us (about to do slow work)'')"

definition round_line :: "topic \<Rightarrow> round_state \<Rightarrow> string" where
  "round_line tp r =
     (case tp of High \<Rightarrow> ''[high]'' | Low \<Rightarrow> ''[low] '') @ '' round done: mean='' @
       dec_digits (unat (total_latency_us r div of_nat MESSAGES_PER_TOPIC)) @ ''us max='' @ dec_digits (unat (max_latency_us r)) @ ''us''"

definition add_latency :: "u64 \<Rightarrow> round_state \<Rightarrow> round_state" where
  "add_latency l r = \<lparr>round_i = Suc (round_i r), total_latency_us = total_latency_us r + l,
     max_latency_us = (if l > max_latency_us r then l else max_latency_us r)\<rparr>"

text \<open>What a consumer does with a received item, and at the end of a round.\<close>

definition consume :: "topic \<Rightarrow> ptr \<Rightarrow> round_state \<Rightarrow> 'a prio_host_scheme \<Rightarrow> round_state \<times> 'a prio_host_scheme" where
  "consume tp p r h =
     (case now_us h of
        (now, h) \<Rightarrow>
          (let item = item_at (chan tp h) p;
               latency = now - enqueued_us item;
               r = add_latency latency r;
               h = put_line (item_line tp (item_value item) latency) h;
               h = (case tp of High \<Rightarrow> h | Low \<Rightarrow> h\<lparr>g_busy_sink := simulate_slow_work (g_busy_sink h)\<rparr>)
           in if round_i r < MESSAGES_PER_TOPIC then (r, h) else (round_start, put_line (round_line tp r) h)))"

definition consumer_task_stmt ::
  "topic \<Rightarrow> round_state \<times> queue_pc \<Rightarrow> 'a prio_host_scheme \<Rightarrow> (round_state \<times> queue_pc) \<times> 'a prio_host_scheme" where
  "consumer_task_stmt tp st h =
     (case st of (r, pc) \<Rightarrow>
      case pc of
        Received p \<Rightarrow> (case consume tp p r h of (r, h) \<Rightarrow> ((r, Recv_wait), h))
      | _ \<Rightarrow> (case chan_op queue_receive tp pc h of (pc, h) \<Rightarrow> ((r, pc), h)))"

section \<open>The program\<close>

text \<open>The XML of the topics is formatted into arrays of 256 and 384 characters, which it does not fill.\<close>

definition reader_steps :: "nat \<Rightarrow> string \<Rightarrow> setup_step list" where
  "reader_steps i name =
     [create_step (''CREATE topic '' @ dec_digits i) (Create_xml (xrce_object_id (of_nat (i + 1)) XRCE_OBJK_TOPIC) participant_1 (host_topic_xml (''rt/'' @ name) int32_type)),
      create_step (''CREATE datareader '' @ dec_digits i) (Create_xml (xrce_object_id (of_nat (i + 1)) XRCE_OBJK_DATAREADER) subscriber_1
        (host_endpoint_xml ''data_reader'' (''rt/'' @ name) int32_type)),
      (Read_data (xrce_object_id (of_nat (i + 1)) XRCE_OBJK_DATAREADER), Just_send)]"

definition prio_script :: "setup_step list" where
  "prio_script =
     [create_client_step,
      create_step ''CREATE participant'' (Create_participant participant_1 (participant_xml ''priority_demo'')),
      create_step ''CREATE subscriber'' (Create_xml subscriber_1 participant_1 '''')] @
     reader_steps 0 ''priority_high'' @ reader_steps 1 ''priority_low'' @
     [create_step ''CREATE diag publisher'' (Create_xml (xrce_object_id 2 XRCE_OBJK_PUBLISHER) participant_1 ''''),
      create_step ''CREATE diag topic'' (Create_xml (xrce_object_id 3 XRCE_OBJK_TOPIC) participant_1 (host_topic_xml ''rt/rtos/diagnostics'' diagnostics_type)),
      create_step ''CREATE diag datawriter'' (Create_xml diag_writer (xrce_object_id 2 XRCE_OBJK_PUBLISHER)
        (host_endpoint_xml ''data_writer'' ''rt/rtos/diagnostics'' diagnostics_type))]"

definition prio_start_tasks ::
  "(topic \<Rightarrow> ptr list) \<Rightarrow> (nat \<Rightarrow> ptr) \<Rightarrow> ptr \<Rightarrow> (nat \<Rightarrow> alloc_env) \<Rightarrow> 'a prio_host_scheme \<Rightarrow> 'a prio_host_scheme" where
  "prio_start_tasks storage entries sched_ctx envs h =
     (let k = g_kern h;
          (p, k) = task_spawn (Some ''poller'') (entries 0) 0 100 sched_ctx (envs 0) k;
          (hi, k) = task_spawn (Some ''high'') (entries 1) 0 50 sched_ctx (envs 1) k;
          (lo, k) = task_spawn (Some ''low'') (entries 2) 0 10 sched_ctx (envs 2) k;
          k = scheduler_enable_preemption 5 1 k
      in h\<lparr>g_high := (g_high h)\<lparr>chan_queue := queue_init (storage High) (int POOL_SIZE)\<rparr>,
           g_low := (g_low h)\<lparr>chan_queue := queue_init (storage Low) (int POOL_SIZE)\<rparr>,
           g_poller_task_handle := p, g_high_task_handle := hi, g_low_task_handle := lo,
           g_mach := (g_mach h)\<lparr>kern := k, cpu := In_scheduler\<rparr>\<rparr>)"

definition prio_main ::
  "(topic \<Rightarrow> ptr list) \<Rightarrow> (nat \<Rightarrow> ptr) \<Rightarrow> ptr \<Rightarrow> (nat \<Rightarrow> alloc_env) \<Rightarrow> nat \<Rightarrow> prio_host \<Rightarrow> prio_host outcome" where
  "prio_main storage entries sched_ctx envs argc h =
     (if argc \<noteq> 3 then Exited 2 h
      else
        (case run_by (setup_by quiet_send_and_wait_ok (\<lambda>b n h. snd (sendto b n h))) prio_script
                (h\<lparr>g_s := xrce_session_init 1 [0x7D, 0x7D, 0x7D, 0x7D] 512\<rparr>) of
           (ok, h) \<Rightarrow> if \<not> ok then Exited 1 h else Running (prio_start_tasks storage entries sched_ctx envs h)))"

section \<open>Lemmas\<close>

interpretation prio_style: setup_style quiet_send_and_wait_ok "\<lambda>b n h. snd (sendto b n h)"
  by unfold_locales
    (auto simp: quiet_send_and_wait_ok_def send_and_wait_ok_def sendto_def recv_def put_line_def core_eq_iff Let_def)

lemma prio_script_ok: "list_all request_ok (map fst prio_script)"
  by (simp add: prio_script_def reader_steps_def request_ok_def participant_xml_def host_topic_xml_def host_endpoint_xml_def)

lemma set_chan_chan: "chan tp (set_chan tp c h) = c" "tp' \<noteq> tp \<Longrightarrow> chan tp' (set_chan tp c h) = chan tp' h"
  by (cases tp; cases tp'; simp add: chan_def set_chan_def)+

text \<open>The diagnostics of this program: three tasks with two values each and one counter, in 1024-byte arrays.\<close>

definition short_report :: "task \<Rightarrow> status_report" where
  "short_report t = (DIAGNOSTIC_STATUS_OK, ''task/'' @ text_in (tname t), task_state_name (tstate t),
     [(''priority'', dec_string (priority t)), (''stack_high_water_mark_bytes'', dec_digits (task_stack_high_water_mark t))])"

definition prio_report :: "'a prio_host_scheme \<Rightarrow> status_report list" where
  "prio_report h =
     [short_report (deref (g_kern h) (g_poller_task_handle h)), short_report (deref (g_kern h) (g_high_task_handle h)),
      short_report (deref (g_kern h) (g_low_task_handle h)),
      (DIAGNOSTIC_STATUS_OK, ''scheduler'', ''running'', [(''context_switch_count'', dec_digits (unat (g_switch_count (g_kern h))))])]"

lemma short_report_fits:
  assumes "task_reportable t"
  shows "(case short_report t of (l, n, m, kvs) \<Rightarrow> entry_fits n m kvs)" "entry_size (short_report t) \<le> 256"
  using task_report_fits[OF assms] by (simp_all add: short_report_def task_report_def entry_fits_def entry_size_def)

lemma prio_published:
  assumes "\<And>n. length (J n) = n" "length (client_key (g_s h)) = 4"
    and "\<forall>p \<in> {g_poller_task_handle h, g_high_task_handle h, g_low_task_handle h}. task_reportable (deref (g_kern h) p)"
  shows "\<exists>payload. datagrams (prio_publish_diagnostics J h) = datagrams h @ [write_data_message (g_s h) diag_writer payload] \<and>
     g_s (prio_publish_diagnostics J h) = numbered (g_s h) \<and> reads_as payload (prio_report h)"
proof -
  note f = short_report_fits[OF bspec[OF assms(3), of "g_poller_task_handle h"], simplified]
    short_report_fits[OF bspec[OF assms(3), of "g_high_task_handle h"], simplified]
    short_report_fits[OF bspec[OF assms(3), of "g_low_task_handle h"], simplified]
  have u: "length (dec_digits (unat (g_switch_count (g_kern h)))) \<le> 20" by (rule length_dec_word)
  have s4: "entry_fits ''scheduler'' ''running'' [(''context_switch_count'', dec_digits (unat (g_switch_count (g_kern h))))]"
    using u dec_digits_no_nul by (simp add: entry_fits_def fits_64_def)
  have fits: "list_all (\<lambda>(l, n, m, kvs). entry_fits n m kvs) (prio_report h)"
    using f(1,3,5) s4 by (simp add: prio_report_def)
  have e: "entry_size (l, n, m, kvs) = 36 + length n + length m + (\<Sum>(k, v) \<leftarrow> kvs. 16 + length k + length v)" for l n m kvs
    by (simp add: entry_size_def)
  have n: "length (prio_report h) \<le> 16" "40 + sum_list (map entry_size (prio_report h)) \<le> 1024"
    using f u by (simp_all add: prio_report_def e)
  have a: "prio_array h = fold add_status (map entry_of (prio_report h)) zero_array"
    by (simp add: prio_array_def prio_report_def entry_of_def add_short_task_status_def short_report_def scheduler_switch_count_def Let_def)
  obtain p sm where p: "reads_as p (prio_report h)"
    "diagnostic_msgs_DiagnosticArray_encode (prio_array h) (J 1024) 1024 0 = (True, sm, 4 + length p)"
    "xrce_session_build_write_data (g_s h) BEST_EFFORT_STREAM_0 diag_writer (drop 4 sm) (length p) (J 1024) 1024 =
       (16 + length p, numbered (g_s h), write_data_message (g_s h) diag_writer p @ drop (16 + length p) (J 1024))"
    "length (write_data_message (g_s h) diag_writer p) = 16 + length p"
    by (rule report_written[OF n(1) fits a n(2) assms(1,1,2)])
  show ?thesis by (rule exI[of _ p]) (simp add: prio_publish_diagnostics_def p)
qed

text \<open>A round of a consumer: fifteen items, then the mean and the maximum of their latencies.\<close>

lemma add_latencies:
  "fold add_latency ls r = \<lparr>round_i = round_i r + length ls, total_latency_us = total_latency_us r + sum_list ls,
     max_latency_us = fold max ls (max_latency_us r)\<rparr>"
  by (induction ls arbitrary: r) (auto simp: add_latency_def max_def not_less)

fun consume_all :: "topic \<Rightarrow> ptr list \<Rightarrow> round_state \<times> 'a prio_host_scheme \<Rightarrow> round_state \<times> 'a prio_host_scheme" where
  "consume_all tp [] st = st"
| "consume_all tp (p # ps) st = consume_all tp ps (case st of (r, h) \<Rightarrow> consume tp p r h)"

text \<open>The latency of the i-th of the items, given the clock from state \<open>h\<close> on.\<close>

definition latency :: "topic \<Rightarrow> 'a prio_host_scheme \<Rightarrow> ptr list \<Rightarrow> nat \<Rightarrow> u64" where
  "latency tp h ps i = net_clock h (clock_reads h + i) - enqueued_us (item_at (chan tp h) (ps ! i))"

lemma consume_exact:
  assumes "round_i r < 15"
  shows "\<exists>h'. consume tp p r h = (if round_i r = 14 then round_start else add_latency (latency tp h [p] 0) r, h') \<and>
     stdout h' = stdout h @ [item_line tp (item_value (item_at (chan tp h) p)) (latency tp h [p] 0)] @
       (if round_i r = 14 then [round_line tp (add_latency (latency tp h [p] 0) r)] else []) \<and>
     clock_reads h' = Suc (clock_reads h) \<and> net_clock h' = net_clock h \<and> chan tp h' = chan tp h"
proof -
  have c: "chan tp (h\<lparr>clock_reads := n\<rparr>) = chan tp h" for n by (simp add: chan_def split: topic.splits)
  show ?thesis
    using assms by (cases tp) (auto simp: consume_def now_us_def c latency_def put_line_def chan_def add_latency_def Let_def)
qed

lemma consume_some:
  assumes "round_i r + length ps < 15"
  shows "\<exists>h'. consume_all tp ps (r, h) = (fold add_latency (map (latency tp h ps) [0..<length ps]) r, h') \<and>
     stdout h' = stdout h @ map (\<lambda>i. item_line tp (item_value (item_at (chan tp h) (ps ! i))) (latency tp h ps i)) [0..<length ps] \<and>
     clock_reads h' = clock_reads h + length ps \<and> net_clock h' = net_clock h \<and> chan tp h' = chan tp h"
  using assms
proof (induction ps arbitrary: r h)
  case (Cons p ps)
  obtain h1 where 1: "consume tp p r h = (add_latency (latency tp h [p] 0) r, h1)"
      "stdout h1 = stdout h @ [item_line tp (item_value (item_at (chan tp h) p)) (latency tp h [p] 0)]"
      "clock_reads h1 = Suc (clock_reads h)" "net_clock h1 = net_clock h" "chan tp h1 = chan tp h"
    using consume_exact[of r tp p h] Cons.prems by auto
  have l: "latency tp h1 ps = (\<lambda>i. latency tp h (p # ps) (Suc i))" using 1 by (simp add: latency_def fun_eq_iff)
  have l0: "latency tp h [p] 0 = latency tp h (p # ps) 0" by (simp add: latency_def)
  have "round_i (add_latency (latency tp h [p] 0) r) + length ps < 15" using Cons.prems by (simp add: add_latency_def)
  from Cons.IH[OF this, of h1] show ?case
    using 1 l l0 by (simp add: upt_conv_Cons map_Suc_upt[symmetric] o_def del: upt_Suc)
qed simp

lemma consume_round:
  assumes "length ps = 15"
  shows "\<exists>h'. consume_all tp ps (round_start, h) = (round_start, h') \<and>
     stdout h' = stdout h @ map (\<lambda>i. item_line tp (item_value (item_at (chan tp h) (ps ! i))) (latency tp h ps i)) [0..<15] @
       [round_line tp \<lparr>round_i = 15, total_latency_us = (\<Sum>i\<leftarrow>[0..<15]. latency tp h ps i),
          max_latency_us = fold max (map (latency tp h ps) [0..<15]) 0\<rparr>]"
proof -
  obtain qs p where ps: "ps = qs @ [p]" "length qs = 14" using assms by (cases ps rule: rev_cases) auto
  obtain h1 where 1: "consume_all tp qs (round_start, h) = (fold add_latency (map (latency tp h qs) [0..<14]) round_start, h1)"
      "stdout h1 = stdout h @ map (\<lambda>i. item_line tp (item_value (item_at (chan tp h) (qs ! i))) (latency tp h qs i)) [0..<14]"
      "clock_reads h1 = clock_reads h + 14" "net_clock h1 = net_clock h" "chan tp h1 = chan tp h"
    using consume_some[of round_start qs tp h] ps(2) by (auto simp: round_start_def)
  define r where "r = fold add_latency (map (latency tp h qs) [0..<14]) round_start"
  have r14: "round_i r = 14" by (simp add: r_def add_latencies round_start_def)
  obtain h2 where 2: "consume tp p r h1 = (round_start, h2)"
      "stdout h2 = stdout h1 @ [item_line tp (item_value (item_at (chan tp h) p)) (latency tp h1 [p] 0), round_line tp (add_latency (latency tp h1 [p] 0) r)]"
    using consume_exact[of r tp p h1] r14 1(5) by auto
  have l: "latency tp h qs i = latency tp h ps i" "qs ! i = ps ! i" if "i < 14" for i
    using that ps by (simp_all add: latency_def nth_append)
  have l14: "latency tp h1 [p] 0 = latency tp h ps 14" "ps ! 14 = p" using 1 ps by (simp_all add: latency_def nth_append)
  have u: "[0..<15] = [0..<14] @ [14]" by (simp add: eval_nat_numeral)
  have m: "map (latency tp h qs) [0..<14] = map (latency tp h ps) [0..<14]" using l by simp
  have all: "add_latency (latency tp h1 [p] 0) r = \<lparr>round_i = 15, total_latency_us = (\<Sum>i\<leftarrow>[0..<15]. latency tp h ps i),
      max_latency_us = fold max (map (latency tp h ps) [0..<15]) 0\<rparr>"
    unfolding r_def m l14 u by (auto simp: add_latencies add_latency_def round_start_def max_def not_less simp del: upt_Suc)
  have "consume_all tp (qs @ [p]) st = (case consume_all tp qs st of (r, h) \<Rightarrow> consume tp p r h)" for st :: "round_state \<times> 'a prio_host_scheme"
    by (induction qs arbitrary: st) simp_all
  then show ?thesis
    using 1(1,2) 2 all l l14 by (simp add: ps(1)[symmetric] r_def[symmetric] u del: upt_Suc)
qed

section \<open>Lemmas: the pool\<close>

text \<open>
  The items that have gone into the queue of a channel: the slots of the pool in turn, the next one being
  the one to be filled next. The poller is the only sender.
\<close>

definition in_turn :: "channel \<Rightarrow> ptr list \<Rightarrow> bool" where
  "in_turn c sent \<longleftrightarrow> length (pool c) = POOL_SIZE \<and> pool_next c = length sent mod POOL_SIZE \<and>
     (\<forall>i < length sent. sent ! i = item_addr c (i mod POOL_SIZE))"

lemma item_offset: "i < 8 \<Longrightarrow> unat (16 * of_nat i :: u64) = 16 * i"
proof -
  assume "i < 8"
  then have "unat (of_nat (16 * i) :: u64) = 16 * i" by (simp only: unat_of_nat) simp
  then show ?thesis by simp
qed

lemma item_addr_inj:
  assumes "i < 8" "j < 8" "item_addr c i = item_addr c j"
  shows "i = j"
proof -
  have "(16 * of_nat i :: u64) = 16 * of_nat j" using assms(3) by (simp add: item_addr_def)
  from arg_cong[OF this, of unat] show ?thesis by (simp add: item_offset[OF assms(1)] item_offset[OF assms(2)])
qed

lemma item_at_addr: "i < 8 \<Longrightarrow> item_at c (item_addr c i) = pool c ! i"
  by (simp add: item_at_def item_addr_def item_offset)

lemma set_drop_nth: "set (drop r xs) = (!) xs ` {r..<length xs}"
proof (cases "r \<le> length xs")
  case True
  have "set (drop r xs) = set (map ((!) xs) [r..<length xs])"
    by (rule arg_cong[of _ _ set], rule nth_equalityI) (use True in simp_all)
  then show ?thesis by simp
qed simp

text \<open>Filling a slot and sending it keeps the turn.\<close>

lemma fill_slot_in_turn:
  assumes "in_turn c sent" "fill_slot v now c = (item, c')"
  shows "in_turn c' (sent @ [item])" "item_addr c' = item_addr c"
proof -
  have e: "item = item_addr c (length sent mod 8)" "item_addr c' = item_addr c" "pool_next c' = Suc (length sent mod 8) mod 8"
    "length (pool c') = 8"
    using assms by (auto simp: fill_slot_def in_turn_def item_addr_def fun_eq_iff)
  then show "item_addr c' = item_addr c" by simp
  show "in_turn c' (sent @ [item])"
    using assms(1) e by (auto simp: in_turn_def nth_append mod_Suc_eq less_Suc_eq)
qed

lemma mod_8_eq:
  fixes a b :: nat
  assumes "b \<le> a" "a < b + 8"
  shows "a mod 8 = b mod 8 \<longleftrightarrow> a = b"
proof -
  have "a mod 8 = b mod 8 \<longleftrightarrow> 8 dvd (a - b)" using mod_eq_dvd_iff_nat[OF assms(1)] by blast
  also have "\<dots> \<longleftrightarrow> a = b" using assms by (auto dest: dvd_imp_le)
  finally show ?thesis .
qed

section \<open>Properties\<close>

text \<open>
  C23: When an item of the pool is overwritten while it is still queued. The pool has as many items as the queue has
  slots, and the poller fills the next item before \<^verbatim>\<open>queue_send\<close> waits for a slot. As long as the queue is
  not full, the item it fills is none of those in the queue, and they keep their values; when the queue
  is full, it overwrites the value and the time stamp of the oldest item in the queue.
\<close>

theorem pool_item_overwritten:
  assumes "queue_reach 8 s" "in_turn c (q_sent s)" "fill_slot v now c = (item, c')"
    and "pending = drop (length (q_rcvd s)) (q_sent s)"
  shows "(item \<in> set pending \<longleftrightarrow> length pending = 8) \<and>
     (length pending < 8 \<longrightarrow> (\<forall>p \<in> set pending. item_at c' p = item_at c p)) \<and>
     (length pending = 8 \<longrightarrow> item_at c' (hd pending) = \<lparr>item_value = v, enqueued_us = now\<rparr>)"
proof -
  let ?n = "length (q_sent s)" and ?r = "length (q_rcvd s)"
  from queue_reach_inv[OF assms(1)] have sl: "slots_inv 8 s" by (simp add: queue_inv_def)
  have b: "?r \<le> ?n" "?n \<le> ?r + 8" using pending_bounds(1,2)[OF sl] by linarith+
  have t: "length (pool c) = 8" "pool_next c = ?n mod 8" "\<And>i. i < ?n \<Longrightarrow> q_sent s ! i = item_addr c (i mod 8)"
    using assms(2) by (simp_all add: in_turn_def)
  have it: "item = item_addr c (?n mod 8)" "item_addr c' = item_addr c" "pool c' = (pool c)[?n mod 8 := \<lparr>item_value = v, enqueued_us = now\<rparr>]"
    using assms(3) t(2) by (auto simp: fill_slot_def item_addr_def fun_eq_iff)
  have p: "p \<in> set pending \<longleftrightarrow> (\<exists>i. ?r \<le> i \<and> i < ?n \<and> p = item_addr c (i mod 8))" for p
    using t(3) unfolding assms(4) set_drop_nth by (auto simp: image_iff)
  have lp: "length pending = ?n - ?r" by (simp add: assms(4))
  have slot: "item_at c' (item_addr c (i mod 8)) = (if i mod 8 = ?n mod 8 then \<lparr>item_value = v, enqueued_us = now\<rparr> else pool c ! (i mod 8))" for i
    using item_at_addr[of "i mod 8" c'] t(1) by (simp add: it(2,3) nth_list_update)
  have eq: "i mod 8 = ?n mod 8 \<longleftrightarrow> ?n = i + 8" if "?r \<le> i" "i < ?n" for i
  proof (cases "?n = i + 8")
    case False
    then have "i \<le> ?n" "?n < i + 8" using that b(2) by simp_all
    from mod_8_eq[OF this] that(2) show ?thesis by (metis False less_irrefl)
  qed simp
  have 1: "item \<in> set pending \<longleftrightarrow> length pending = 8"
  proof
    assume "item \<in> set pending"
    then obtain i where i: "?r \<le> i" "i < ?n" "item_addr c (?n mod 8) = item_addr c (i mod 8)" using p it(1) by auto
    then have "?n mod 8 = i mod 8" by (intro item_addr_inj[of _ _ c]) simp_all
    then show "length pending = 8" using eq[OF i(1,2)] i b lp by simp
  next
    assume l: "length pending = 8"
    then have "?n = ?r + 8" using lp b by simp
    then show "item \<in> set pending" using p[of item] it(1) by (intro iffD2[OF p] exI[of _ ?r]) simp
  qed
  have 2: "item_at c' q = item_at c q" if l: "length pending < 8" and m: "q \<in> set pending" for q
  proof -
    obtain i where i: "?r \<le> i" "i < ?n" "q = item_addr c (i mod 8)" using m p by auto
    then have "i mod 8 \<noteq> ?n mod 8" using eq[OF i(1,2)] l lp by simp
    then show ?thesis using slot[of i] item_at_addr[of "i mod 8" c] i(3) by simp
  qed
  have 3: "item_at c' (hd pending) = \<lparr>item_value = v, enqueued_us = now\<rparr>" if "length pending = 8"
  proof -
    have n: "?n = ?r + 8" using that lp b by simp
    then have "hd pending = item_addr c (?r mod 8)" using t(3)[of ?r] by (simp add: assms(4) hd_drop_conv_nth)
    then show ?thesis using slot[of ?r] n by simp
  qed
  show ?thesis using 1 2 3 by blast
qed

text \<open>A queue that one task has filled, with nobody receiving.\<close>

definition queue_idle :: "queue_sys \<Rightarrow> bool" where
  "queue_idle s \<longleftrightarrow> qpc s = (\<lambda>_. Outside) \<and> \<not> locked (qlock (qq s))"

definition send_alone :: "ptr \<Rightarrow> queue_sys \<Rightarrow> queue_sys" where
  "send_alone item s = (queue_stmt ^^ 6) (s\<lparr>qpc := (qpc s)(scheduler_current_task (qk s) := Send_wait item)\<rparr>)"

lemma send_alone_exact:
  assumes "queue_idle s" "0 < sem_count (slots_empty (qq s))"
  shows "queue_idle (send_alone item s)" "q_sent (send_alone item s) = q_sent s @ [item]" "q_rcvd (send_alone item s) = q_rcvd s"
    "sem_count (slots_empty (qq (send_alone item s))) = sem_count (slots_empty (qq s)) - 1"
  using assms by (simp_all add: send_alone_def queue_idle_def eval_nat_numeral stmt_eval scheduler_current_task_def cur_ptr_def fun_eq_iff)

lemma send_alone_reach:
  assumes "queue_reach n s" "queue_idle s"
  shows "queue_reach n (send_alone item s)"
proof -
  have "queue_step s (s\<lparr>qpc := (qpc s)(scheduler_current_task (qk s) := Send_wait item)\<rparr>)"
    using assms(2) by (intro queue_step.call_send[of _ 0]) (simp add: queue_idle_def)
  then have 0: "queue_reach n (s\<lparr>qpc := (qpc s)(scheduler_current_task (qk s) := Send_wait item)\<rparr>)" by (rule queue_reach.step[OF assms(1)])
  have "queue_reach n ((queue_stmt ^^ k) x)" if "queue_reach n x" for k x
    using that by (induction k) (auto intro: queue_reach.step queue_step.stmt)
  from this[OF 0] show ?thesis by (simp add: send_alone_def)
qed

definition eight_slots :: queue_sys where
  "eight_slots = queue_start (replicate 8 0) 8 (sample_kernel (sample_task 1 TASK_RUNNING) (sample_task 1 TASK_READY) (sample_task 1 TASK_READY) 0)"

lemma filled_queue:
  assumes "length items \<le> 8" "s = fold send_alone items eight_slots"
  shows "queue_reach 8 s" "q_sent s = items" "q_rcvd s = []"
proof -
  have "queue_reach 8 (fold send_alone items eight_slots) \<and> queue_idle (fold send_alone items eight_slots) \<and>
     q_sent (fold send_alone items eight_slots) = items \<and> q_rcvd (fold send_alone items eight_slots) = [] \<and>
     sem_count (slots_empty (qq (fold send_alone items eight_slots))) = 8 - int (length items)"
    using assms(1)
  proof (induction items rule: rev_induct)
    case Nil
    have "queue_reach 8 eight_slots"
      unfolding eight_slots_def by (rule queue_reach.start) (simp_all add: sample_kernel_simps)
    then show ?case by (simp add: eight_slots_def queue_start_def queue_idle_def queue_init_def mutex_init_def sem_init_def)
  next
    case (snoc item items)
    then show ?case using send_alone_exact[of "fold send_alone items eight_slots" item] send_alone_reach by simp
  qed
  then show "queue_reach 8 s" "q_sent s = items" "q_rcvd s = []" by (simp_all add: assms(2))
qed

definition sample_channel :: channel where
  "sample_channel = \<lparr>pool = replicate 8 \<lparr>item_value = 7, enqueued_us = 100\<rparr>, pool_base = 0x4000, pool_next = 0, chan_queue = queue_init (replicate 8 0) 8\<rparr>"

theorem pool_item_overwritten_witness:
  "let s = fold send_alone (map (item_addr sample_channel) [0..<8]) eight_slots in
   q_rcvd s = [] \<and> item_at sample_channel (hd (q_sent s)) = \<lparr>item_value = 7, enqueued_us = 100\<rparr> \<and>
   item_at (snd (fill_slot 9 500 sample_channel)) (hd (q_sent s)) = \<lparr>item_value = 9, enqueued_us = 500\<rparr>"
proof -
  define s where "s = fold send_alone (map (item_addr sample_channel) [0..<8]) eight_slots"
  have f: "queue_reach 8 s" "q_sent s = map (item_addr sample_channel) [0..<8]" "q_rcvd s = []"
    using filled_queue[of "map (item_addr sample_channel) [0..<8]" s] by (simp_all add: s_def)
  have t: "in_turn sample_channel (q_sent s)" by (simp add: in_turn_def f(2) sample_channel_def)
  have h: "hd (q_sent s) = item_addr sample_channel 0" by (simp add: f(2) hd_map upt_conv_Cons)
  obtain item c' where c: "fill_slot 9 500 sample_channel = (item, c')" by fastforce
  from pool_item_overwritten[OF f(1) t c refl] have "item_at c' (hd (q_sent s)) = \<lparr>item_value = 9, enqueued_us = 500\<rparr>"
    by (simp add: f(2,3))
  moreover have "item_at sample_channel (hd (q_sent s)) = \<lparr>item_value = 7, enqueued_us = 100\<rparr>"
    unfolding h by (subst item_at_addr) (simp_all add: sample_channel_def)
  ultimately show ?thesis using f(3) c unfolding Let_def s_def[symmetric] by simp
qed

end
