(* ===== verification/Bench_Qos.thy ===== *)
theory Bench_Qos
  imports Host_Demos Reliable
begin

text \<open>
  \<^verbatim>\<open>host/bench_qos.c\<close>: the same samples published on a best-effort and on a reliable stream, through a lossy link.
  Requests are built anew for every attempt; the samples of the reliable stream are tracked, and rounds of
  HEARTBEAT, ACKNACK and retransmission follow, at most twelve.

  The program has two sockets with a session each, so its state is two hosts; each has its own view of
  the network and of the clock, and each keeps the lines printed while it is in use. The waiting loop of a
  round ends by the clock: it is a partial function, \<open>None\<close> when it never ends. \<open>J n\<close> is what a local array
  of \<open>n\<close> bytes holds before it is written.
\<close>

section \<open>Setting up over a lossy link\<close>

abbreviation XRCE_STATUS_ERR_ALREADY_EXISTS :: u8 where "XRCE_STATUS_ERR_ALREADY_EXISTS \<equiv> 0x82"

definition create_reply_ok_or_exists :: "bytes \<Rightarrow> nat \<Rightarrow> bool" where
  "create_reply_ok_or_exists buf len =
     (if xrce_session_parse_create_reply buf len then True
      else len \<ge> 18 \<and> buf ! 8 = 5 \<and> buf ! 16 = XRCE_STATUS_ERR_ALREADY_EXISTS)"

text \<open>The loop over the attempts; \<open>left\<close> of them remain.\<close>

fun retry_send ::
  "(nat \<Rightarrow> bytes) \<Rightarrow> string \<Rightarrow> client_request \<Rightarrow> (bytes \<Rightarrow> nat \<Rightarrow> bool) \<Rightarrow> nat \<Rightarrow> nat \<Rightarrow> 'a host_scheme \<Rightarrow> bool \<times> 'a host_scheme" where
  "retry_send J step_name req parse_reply 0 attempt h = (False, h)"
| "retry_send J step_name req parse_reply (Suc left) attempt h =
     (case build_client_request req (g_s h) (J 512) of
        (len, s, msg) \<Rightarrow>
          (case sendto msg len (h\<lparr>g_s := s\<rparr>) of
             (sent_ok, h) \<Rightarrow>
               if \<not> sent_ok then (False, h)
               else
                 (case recv 256 h of
                    (reply, h) \<Rightarrow>
                      if reply = [] then retry_send J step_name req parse_reply left (attempt + 1) h
                      else if \<not> parse_reply reply (length reply) then retry_send J step_name req parse_reply left (attempt + 1) h
                      else (True, put_line (pad_right 24 step_name @ '' -> OK (attempt '' @ dec_digits (attempt + 1) @ '')'') h))))"

definition qos_send_and_wait_ok ::
  "(nat \<Rightarrow> bytes) \<Rightarrow> string \<Rightarrow> client_request \<Rightarrow> (bytes \<Rightarrow> nat \<Rightarrow> bool) \<Rightarrow> 'a host_scheme \<Rightarrow> bool \<times> 'a host_scheme" where
  "qos_send_and_wait_ok J step_name req parse_reply = retry_send J step_name req parse_reply 30 0"

definition build_datawriter_xml :: "string \<Rightarrow> string \<Rightarrow> nat \<Rightarrow> string" where
  "build_datawriter_xml topic_name reliability_kind history_depth =
     ''<dds><data_writer><topic><kind>NO_KEY</kind><name>rt/'' @ topic_name @ ''</name><dataType>std_msgs::msg::dds_::Int32_</dataType>'' @
     ''<historyQos><kind>KEEP_LAST</kind><depth>'' @ dec_digits history_depth @ ''</depth></historyQos></topic>'' @
     ''<qos><reliability><kind>'' @ reliability_kind @ ''</kind></reliability></qos></data_writer></dds>''"

fun retry_all ::
  "(nat \<Rightarrow> bytes) \<Rightarrow> (string \<times> client_request \<times> (bytes \<Rightarrow> nat \<Rightarrow> bool)) list \<Rightarrow> 'a host_scheme \<Rightarrow> bool \<times> 'a host_scheme" where
  "retry_all J [] h = (True, h)"
| "retry_all J ((step_name, req, parse_reply) # rest) h =
     (case qos_send_and_wait_ok J step_name req parse_reply h of (ok, h) \<Rightarrow> if \<not> ok then (False, h) else retry_all J rest h)"

definition qos_script :: "string \<Rightarrow> string \<Rightarrow> nat \<Rightarrow> (string \<times> client_request \<times> (bytes \<Rightarrow> nat \<Rightarrow> bool)) list" where
  "qos_script topic_name reliability_kind history_depth =
     [(''CREATE_CLIENT'', Create_client, xrce_session_parse_create_client_reply),
      (''CREATE participant'', Create_participant participant_1 (participant_xml ''qos_demo''), create_reply_ok_or_exists),
      (''CREATE topic'', Create_xml topic_1 participant_1 (host_topic_xml (''rt/'' @ topic_name) int32_type), create_reply_ok_or_exists),
      (''CREATE publisher'', Create_xml publisher_1 participant_1 '''', create_reply_ok_or_exists),
      (''CREATE datawriter'', Create_xml datawriter_1 publisher_1 (build_datawriter_xml topic_name reliability_kind history_depth), create_reply_ok_or_exists)]"

definition setup_session :: "(nat \<Rightarrow> bytes) \<Rightarrow> u8 \<Rightarrow> string \<Rightarrow> string \<Rightarrow> nat \<Rightarrow> 'a host_scheme \<Rightarrow> bool \<times> 'a host_scheme" where
  "setup_session J key_seed topic_name reliability_kind history_depth h =
     retry_all J (qos_script topic_name reliability_kind history_depth) (h\<lparr>g_s := xrce_session_init 1 (replicate 4 key_seed) 512\<rparr>)"

section \<open>Publishing\<close>

definition build_sample :: "(nat \<Rightarrow> bytes) \<Rightarrow> u32 \<Rightarrow> bytes \<Rightarrow> nat \<times> bytes" where
  "build_sample J value out =
     (case std_msgs_Int32_encode \<lparr>int32_data = value\<rparr> (J 16) 16 0 of
        (_, sample, sample_len) \<Rightarrow> (sample_len - 4, blit 0 (take (sample_len - 4) (drop 4 sample)) out))"

definition publish_best_effort :: "(nat \<Rightarrow> bytes) \<Rightarrow> nat \<Rightarrow> 'a host_scheme \<Rightarrow> 'a host_scheme" where
  "publish_best_effort J i h =
     (case build_sample J (of_nat i) (J 16) of
        (sample_len, sample) \<Rightarrow>
          (case xrce_session_build_write_data (g_s h) BEST_EFFORT_STREAM_0 datawriter_1 sample sample_len (J 128) 128 of
             (len, s, buf) \<Rightarrow> snd (sendto buf len (h\<lparr>g_s := s\<rparr>))))"

abbreviation reliable_stream_raw :: u8 where "reliable_stream_raw \<equiv> xrce_reliable_stream_raw_id 0"

text \<open>The result of \<^verbatim>\<open>xrce_reliable_out_track\<close> is not looked at.\<close>

definition publish_reliable :: "(nat \<Rightarrow> bytes) \<Rightarrow> nat \<Rightarrow> reliable_out \<times> 'a host_scheme \<Rightarrow> reliable_out \<times> 'a host_scheme" where
  "publish_reliable J i st =
     (case st of (ro, h) \<Rightarrow>
      case build_sample J (of_nat i) (J 16) of
        (sample_len, sample) \<Rightarrow>
          (let seq = out_seq_num (g_s h) in
           case xrce_session_build_write_data (g_s h) reliable_stream_raw datawriter_1 sample sample_len (J 128) 128 of
             (len, s, buf) \<Rightarrow>
               (let (_, ro) = xrce_reliable_out_track ro seq buf len in
                (ro, snd (sendto buf len (h\<lparr>g_s := s\<rparr>))))))"

text \<open>The tracker before the first sample: the session's counter is set to zero, the last acknowledged number before it.\<close>

definition start_reliable :: "'a host_scheme \<Rightarrow> reliable_out \<times> 'a host_scheme" where
  "start_reliable h = (xrce_reliable_out_init\<lparr>last_acknown := 0 - 1\<rparr>, h\<lparr>g_s := (g_s h)\<lparr>out_seq_num := 0\<rparr>\<rparr>)"

section \<open>The rounds\<close>

text \<open>The loop that takes datagrams for 150 ms; \<open>got\<close> is \<^verbatim>\<open>got_acknack\<close>.\<close>

partial_function (option) collect_acknacks ::
  "u64 \<Rightarrow> bool \<Rightarrow> reliable_out \<Rightarrow> host \<Rightarrow> (bool \<times> reliable_out \<times> host) option" where
  "collect_acknacks round_start got ro h =
     (case now_ms h of
        (now, h) \<Rightarrow>
          if now - round_start < 150
          then
            (case recv 256 h of
               (d, h) \<Rightarrow>
                 if d = [] then collect_acknacks round_start got ro h
                 else
                   (case xrce_session_parse_acknack d (length d) 0 0 of
                      (ok, first_unacked, bitmap) \<Rightarrow>
                        if ok then collect_acknacks round_start True (xrce_reliable_out_on_acknack ro first_unacked bitmap) h
                        else collect_acknacks round_start got ro h))
          else Some (got, ro, h))"

definition send_whole :: "bytes \<Rightarrow> 'a host_scheme \<Rightarrow> 'a host_scheme" where
  "send_whole m h = snd (sendto m (length m) h)"

text \<open>One round; the flag tells whether the loop is left by \<^verbatim>\<open>break\<close>.\<close>

definition qos_round :: "(nat \<Rightarrow> bytes) \<Rightarrow> nat \<Rightarrow> reliable_out \<Rightarrow> host \<Rightarrow> (bool \<times> reliable_out \<times> host) option" where
  "qos_round J count ro h =
     (case xrce_session_build_heartbeat (g_s h) reliable_stream_raw reliable_stream_raw (last_acknown ro + 1) (last_sent ro) (J 32) 32 of
        (hb_len, hb) \<Rightarrow>
          (let h = snd (sendto hb hb_len h) in
           case now_ms h of
             (round_start, h) \<Rightarrow>
               Option.bind (collect_acknacks round_start False ro h) (\<lambda>(got, ro, h).
                 if \<not> got then Some (False, ro, h)
                 else Option.bind (sweep ro) (\<lambda>(msgs, ro).
                   Some (last_acknown ro = of_nat count - 1, ro, fold send_whole msgs h)))))"

text \<open>The loop over the rounds; the number that it leaves in \<^verbatim>\<open>rounds\<close>.\<close>

fun qos_rounds :: "(nat \<Rightarrow> bytes) \<Rightarrow> nat \<Rightarrow> nat \<Rightarrow> nat \<Rightarrow> reliable_out \<Rightarrow> host \<Rightarrow> (nat \<times> reliable_out \<times> host) option" where
  "qos_rounds J count 0 rounds ro h = Some (rounds, ro, h)"
| "qos_rounds J count (Suc left) rounds ro h =
     Option.bind (qos_round J count ro h) (\<lambda>(stop, ro, h).
       if stop then Some (rounds, ro, h) else qos_rounds J count left (rounds + 1) ro h)"

abbreviation max_rounds :: nat where "max_rounds \<equiv> 12"

section \<open>The program\<close>

definition best_effort_part :: "(nat \<Rightarrow> bytes) \<Rightarrow> nat \<Rightarrow> host \<Rightarrow> host" where
  "best_effort_part J count h =
     (case now_ms h of
        (be_start, h) \<Rightarrow>
          (case now_ms (fold (publish_best_effort J) [0..<count] h) of
             (now, h) \<Rightarrow>
               put_line (''best-effort: sent '' @ dec_digits count @ '' samples in '' @ dec_digits (unat (now - be_start)) @
                 ''ms, no retries (none possible)'') h))"

definition reliable_part :: "(nat \<Rightarrow> bytes) \<Rightarrow> nat \<Rightarrow> host \<Rightarrow> host option" where
  "reliable_part J count h =
     (case start_reliable h of
        (ro, h) \<Rightarrow>
          (case now_ms h of
             (rel_start, h) \<Rightarrow>
               (case fold (publish_reliable J) [0..<count] (ro, h) of
                  (ro, h) \<Rightarrow>
                    Option.bind (qos_rounds J count max_rounds 0 ro h) (\<lambda>(rounds, ro, h).
                      (case now_ms h of
                         (now, h) \<Rightarrow>
                           Some (put_line (''reliable:    sent '' @ dec_digits count @ '' samples in '' @ dec_digits (unat (now - rel_start)) @
                             ''ms across '' @ dec_digits (rounds + 1) @ '' heartbeat round(s), '' @ dec_digits (unat (retransmit_count ro)) @
                             '' retransmitted byte-for-byte, last_acknown='' @ dec_digits (unat (last_acknown ro)) @
                             '' (fully acked once it reaches '' @ dec_digits (unat (of_nat count - 1 :: u16)) @ '')'') h))))))"

definition qos_main :: "(nat \<Rightarrow> bytes) \<Rightarrow> nat \<Rightarrow> nat \<Rightarrow> host \<times> host \<Rightarrow> (host \<times> host) outcome option" where
  "qos_main J count argc st =
     (case st of (be, rel) \<Rightarrow>
      if argc \<noteq> 6 then Some (Exited 2 (be, rel))
      else
        (case setup_session J 0xB0 ''qos_best_effort'' ''BEST_EFFORT'' 10 be of
           (ok, be) \<Rightarrow>
             if \<not> ok then Some (Exited 1 (be, rel))
             else
               (case setup_session J 0xB1 ''qos_reliable'' ''RELIABLE'' 30 rel of
                  (ok, rel) \<Rightarrow>
                    if \<not> ok then Some (Exited 1 (be, rel))
                    else
                      (let be = best_effort_part J count be in
                       Option.bind (reliable_part J count rel) (\<lambda>rel. Some (Exited 0 (be, rel)))))))"

section \<open>Lemmas: attempts\<close>

lemma qos_scripts_ok:
  "list_all (\<lambda>(_, req, _). request_ok req) (qos_script ''qos_best_effort'' ''BEST_EFFORT'' 10)"
  "list_all (\<lambda>(_, req, _). request_ok req) (qos_script ''qos_reliable'' ''RELIABLE'' 30)"
proof -
  have d: "dec_digits 10 = ''10''" "dec_digits 30 = ''30''" by code_simp+
  show "list_all (\<lambda>(_, req, _). request_ok req) (qos_script ''qos_best_effort'' ''BEST_EFFORT'' 10)"
    "list_all (\<lambda>(_, req, _). request_ok req) (qos_script ''qos_reliable'' ''RELIABLE'' 30)"
    by (simp_all add: qos_script_def request_ok_def participant_xml_def host_topic_xml_def build_datawriter_xml_def d)
qed

text \<open>The number of attempts without an accepted answer, among the next \<open>n\<close>.\<close>

definition misses :: "(bytes \<Rightarrow> nat \<Rightarrow> bool) \<Rightarrow> 'a host_scheme \<Rightarrow> nat \<Rightarrow> nat" where
  "misses p h n = length (takeWhile (\<lambda>i. \<not> answered p (net_in h (recvs h + i))) [0..<n])"

lemma misses_Suc:
  assumes "net_in h' = net_in h" "recvs h' = Suc (recvs h)"
  shows "misses p h (Suc n) = (if answered p (net_in h (recvs h)) then 0 else Suc (misses p h' n))"
proof -
  have "[0..<Suc n] = 0 # map Suc [0..<n]" by (simp add: upt_conv_Cons map_Suc_upt del: upt_Suc)
  then show ?thesis using assms by (simp add: misses_def takeWhile_map o_def)
qed

lemma misses_le: "misses p h n \<le> n"
  using length_takeWhile_le[of _ "[0..<n]"] by (simp add: misses_def)

definition attempts :: "client_request \<Rightarrow> session \<Rightarrow> nat \<Rightarrow> bytes list" where
  "attempts req s n = map (\<lambda>i. request_message ((after_request req ^^ i) s) req) [0..<n]"

lemma attempts_Suc: "attempts req s (Suc n) = request_message s req # attempts req (after_request req s) n"
proof -
  have "[0..<Suc n] = 0 # map Suc [0..<n]" by (simp add: upt_conv_Cons map_Suc_upt del: upt_Suc)
  then show ?thesis by (simp add: attempts_def o_def funpow_swap1)
qed

lemma retry_exact:
  assumes "length (J 512) = 512" "request_ok req" "length (client_key (g_s h)) = 4" "\<forall>i < left. net_ok h (sends h + i)"
  shows "\<exists>h'. retry_send J nm req p left a h = (misses p h left < left, h') \<and>
     datagrams h' = datagrams h @ attempts req (g_s h) (min left (Suc (misses p h left))) \<and>
     g_s h' = (after_request req ^^ min left (Suc (misses p h left))) (g_s h)"
  using assms(3,4)
proof (induction left arbitrary: h a)
  case 0
  then show ?case by (simp add: misses_def attempts_def)
next
  case (Suc left)
  let ?m = "request_message (g_s h) req"
  note ex = request_exact[OF assms(2) Suc.prems(1) assms(1)]
  let ?h1 = "h\<lparr>g_s := after_request req (g_s h), sends := Suc (sends h), datagrams := datagrams h @ [?m], recvs := Suc (recvs h)\<rparr>"
  have ok: "net_ok h (sends h)" using Suc.prems(2) by (metis add.right_neutral zero_less_Suc)
  define d where "d = take 256 (net_in h (recvs h))"
  have ans: "answered p (net_in h (recvs h)) \<longleftrightarrow> d \<noteq> [] \<and> p d (length d)" by (simp add: answered_def d_def min.commute)
  have dn: "d = [] \<longleftrightarrow> net_in h (recvs h) = []" by (simp add: d_def)
  have e: "retry_send J nm req p (Suc left) a h =
      (if answered p (net_in h (recvs h)) then (True, put_line (pad_right 24 nm @ '' -> OK (attempt '' @ dec_digits (a + 1) @ '')'') ?h1)
       else retry_send J nm req p left (a + 1) ?h1)"
    using ok by (simp add: ex sendto_def recv_def d_def[symmetric] ans dn)
  have ms: "misses p h (Suc left) = (if answered p (net_in h (recvs h)) then 0 else Suc (misses p ?h1 left))"
    by (rule misses_Suc) simp_all
  show ?case
  proof (cases "answered p (net_in h (recvs h))")
    case True
    then show ?thesis using e ms by (simp add: attempts_def put_line_def)
  next
    case False
    have "\<forall>i < left. net_ok ?h1 (sends ?h1 + i)" using Suc.prems(2) by (auto dest: spec[of _ "Suc _"])
    with Suc.IH[of ?h1 "a + 1"] Suc.prems(1) obtain h' where
      "retry_send J nm req p left (a + 1) ?h1 = (misses p ?h1 left < left, h')"
      "datagrams h' = datagrams ?h1 @ attempts req (g_s ?h1) (min left (Suc (misses p ?h1 left)))"
      "g_s h' = (after_request req ^^ min left (Suc (misses p ?h1 left))) (g_s ?h1)" by auto
    then show ?thesis using e ms False by (simp add: attempts_Suc funpow_swap1)
  qed
qed

section \<open>Lemmas: publishing on the reliable stream\<close>

definition stream_message :: "session \<Rightarrow> u8 \<Rightarrow> object_id \<Rightarrow> bytes \<Rightarrow> bytes" where
  "stream_message s stream x sample = message_bytes (session_id s) stream (out_seq_num s) (client_key s)
     XRCE_SUBMSG_WRITE_DATA (be_bytes 2 (next_request_id s) @ object_id_bytes x @ sample)"

lemma write_on_stream:
  assumes "length (client_key s) = 4" "length buf = cap" "n \<le> length sample" "16 + n \<le> cap"
  shows "xrce_session_build_write_data s stream x sample n buf cap =
      (16 + n, numbered s, stream_message s stream x (take n sample) @ drop (16 + n) buf)"
    "length (stream_message s stream x (take n sample)) = 16 + n"
proof -
  let ?f = "\<lambda>rid. [write_base_object_request rid x, xrce_cdr_write_bytes sample n]"
  let ?p = "be_bytes 2 (next_request_id s) @ object_id_bytes x @ take n sample"
  have w: "writes (all_of (?f (next_request_id s))) (wire_bytes ?p)"
    using writes_write_data[OF assms(3), of "next_request_id s" x] by simp
  have p: "?p = wire_bytes ?p 12" by (simp add: wire_bytes_def)
  have c: "cap \<le> length buf" using assms(2) by simp
  note e = build_request_exact(1)[of cap buf s ?f, OF c assms(1) w p refl]
  show l: "length (stream_message s stream x (take n sample)) = 16 + n"
    using assms by (simp add: stream_message_def length_message object_id_bytes_def)
  show "xrce_session_build_write_data s stream x sample n buf cap =
      (16 + n, numbered s, stream_message s stream x (take n sample) @ drop (16 + n) buf)"
    using e[of stream XRCE_SUBMSG_WRITE_DATA] l assms(4)
    unfolding xrce_session_build_write_data_def stream_message_def numbered_def by simp
qed

lemma build_sample_exact:
  assumes "\<And>n. length (J n) = n"
  shows "build_sample J v (J 16) = (4, le_bytes 4 v @ drop 4 (J 16))"
proof -
  have "std_msgs_Int32_encode \<lparr>int32_data = v\<rparr> (J 16) 16 0 = (True, cdr_header @ le_bytes 4 v @ drop 8 (J 16), 8)"
    by (rule encode_int32) (simp_all add: assms)
  then show ?thesis by (simp add: build_sample_def cdr_header_def blit_def)
qed

text \<open>The i-th sample on the reliable stream, for a session whose counter was set to zero.\<close>

definition sample_message :: "session \<Rightarrow> nat \<Rightarrow> bytes" where
  "sample_message s i = stream_message ((numbered ^^ i) s) reliable_stream_raw datawriter_1 (le_bytes 4 (of_nat i :: u32))"

lemma publish_reliable_exact:
  assumes "\<And>n. length (J n) = n" "length (client_key (g_s h)) = 4" "g_s h = (numbered ^^ i) s"
  shows "publish_reliable J i (ro, h) =
      (snd (xrce_reliable_out_track ro (out_seq_num (g_s h)) (sample_message s i @ drop 20 (J 128)) 20),
       h\<lparr>g_s := numbered (g_s h), sends := Suc (sends h), datagrams := datagrams h @ [sample_message s i]\<rparr>)"
    "length (sample_message s i) = 20"
proof -
  let ?b = "le_bytes 4 (of_nat i :: u32) @ drop 4 (J 16)"
  have l: "4 \<le> length ?b" "16 + 4 \<le> (128 :: nat)" "take 4 ?b = le_bytes 4 (of_nat i :: u32)" by simp_all
  note w = write_on_stream[OF assms(2) assms(1) l(1,2), of reliable_stream_raw datawriter_1, unfolded l(3)]
  show "length (sample_message s i) = 20" using w(2) by (simp add: sample_message_def assms(3))
  show "publish_reliable J i (ro, h) =
      (snd (xrce_reliable_out_track ro (out_seq_num (g_s h)) (sample_message s i @ drop 20 (J 128)) 20),
       h\<lparr>g_s := numbered (g_s h), sends := Suc (sends h), datagrams := datagrams h @ [sample_message s i]\<rparr>)"
    using w by (simp add: publish_reliable_def build_sample_exact[of J, OF assms(1)] sendto_def sample_message_def assms(3) split_beta)
qed

lemma track_prefix:
  "xrce_reliable_out_track ro seq (m @ x) (length m) = xrce_reliable_out_track ro seq m (length m)"
  by (simp add: xrce_reliable_out_track_def)

lemma numbered_seq: "out_seq_num ((numbered ^^ i) s) = out_seq_num s + of_nat i" "client_key ((numbered ^^ i) s) = client_key s"
  by (induction i) (simp_all add: numbered_def)

lemma first_tracked:
  assumes "length m \<le> 256"
  shows "\<exists>ro. xrce_reliable_out_track (xrce_reliable_out_init\<lparr>last_acknown := 0 - 1\<rparr>) 0 m (length m) = (True, ro) \<and> window ro (0 - 1) [m]"
proof -
  let ?i = "xrce_reliable_out_init\<lparr>last_acknown := 0 - 1\<rparr>"
  have a: "arrays_ok ?i" by (simp add: arrays_ok_def xrce_reliable_out_init_def)
  show ?thesis
    using assms arrays_ok_store[OF a assms slot_lt[of 0], of True 0] holds_msg_store[OF a assms refl, where seq = 0 and x = 0 and y = True]
    by (simp add: xrce_reliable_out_track_def Let_def window_def xrce_reliable_out_init_def)
qed

lemma samples_tracked:
  assumes "\<And>n. length (J n) = n" "length (client_key s) = 4" "out_seq_num s = 0" "g_s h = s" "0 < n" "n \<le> 65535"
  shows "\<exists>ro h'. fold (publish_reliable J) [0..<n] (xrce_reliable_out_init\<lparr>last_acknown := 0 - 1\<rparr>, h) = (ro, h') \<and>
     window ro (0 - 1) (take 32 (map (sample_message s) [0..<n])) \<and>
     datagrams h' = datagrams h @ map (sample_message s) [0..<n] \<and> g_s h' = (numbered ^^ n) s"
  using assms(5,6)
proof (induction n)
  case (Suc n)
  show ?case
  proof (cases "n = 0")
    case True
    have k: "length (client_key (g_s h)) = 4" "g_s h = (numbered ^^ 0) s" using assms(2,4) by simp_all
    note p = publish_reliable_exact[of J, OF assms(1) k]
    have l: "length (sample_message s 0) \<le> 256" using p(2) by simp
    obtain ro where "xrce_reliable_out_track (xrce_reliable_out_init\<lparr>last_acknown := 0 - 1\<rparr>) 0 (sample_message s 0) (length (sample_message s 0)) = (True, ro)"
        "window ro (0 - 1) [sample_message s 0]"
      using first_tracked[OF l] by blast
    then show ?thesis
      using True p(1) track_prefix[of _ 0 "sample_message s 0" "drop 20 (J 128)"] assms(3,4) by (simp add: p(2))
  next
    case False
    then obtain ro h1 where 1: "fold (publish_reliable J) [0..<n] (xrce_reliable_out_init\<lparr>last_acknown := 0 - 1\<rparr>, h) = (ro, h1)"
        "window ro (0 - 1) (take 32 (map (sample_message s) [0..<n]))" "datagrams h1 = datagrams h @ map (sample_message s) [0..<n]"
        "g_s h1 = (numbered ^^ n) s"
      using Suc by auto
    let ?ms = "take 32 (map (sample_message s) [0..<n])"
    have k: "length (client_key (g_s h1)) = 4" using 1(4) assms(2) by (simp add: numbered_seq)
    note p = publish_reliable_exact[of J, OF assms(1) k 1(4)]
    have sq: "out_seq_num (g_s h1) = of_nat n" using 1(4) assms(3) by (simp add: numbered_seq)
    let ?t = "xrce_reliable_out_track ro (of_nat n) (sample_message s n) (length (sample_message s n))"
    have t: "xrce_reliable_out_track ro (of_nat n) (sample_message s n @ drop 20 (J 128)) 20 = ?t"
      using track_prefix[of ro "of_nat n" "sample_message s n" "drop 20 (J 128)"] p(2) by simp
    have "window (snd ?t) (0 - 1) (take 32 (map (sample_message s) [0..<Suc n]))"
    proof (cases "n < 32")
      case True
      have sq: "of_nat n = (0 - 1 :: u16) + of_nat (Suc (length ?ms))" using True by simp
      have l: "length (sample_message s n) \<le> 256" "length ?ms < 32" using True p(2) by simp_all
      have e: "take 32 (map (sample_message s) [0..<Suc n]) = ?ms @ [sample_message s n]" using True by simp
      obtain ro' where "?t = (True, ro')" "window ro' (0 - 1) (?ms @ [sample_message s n])"
        using track_window(1)[OF 1(2) l(1) sq l(2)] by blast
      then show ?thesis unfolding e by simp
    next
      case False
      have "of_nat n - last_acknown ro = of_nat (Suc n)" using 1(2) by (simp add: window_def)
      moreover have "unat (of_nat (Suc n) :: u16) = Suc n" by (simp only: unat_of_nat) (use Suc.prems in simp)
      ultimately have u: "unat (of_nat n - last_acknown ro) = Suc n" by (simp only:)
      have "?t = (False, ro)" using u False 1(2) by (simp add: xrce_reliable_out_track_def window_def)
      then show ?thesis using False 1(2) by simp
    qed
    then show ?thesis using 1 p(1) t sq by simp
  qed
qed simp

section \<open>Lemmas: a round\<close>

definition heartbeat_message :: "session \<Rightarrow> u16 \<Rightarrow> u16 \<Rightarrow> bytes" where
  "heartbeat_message s first_unacked newest = message_bytes (session_id s) 0 0 (client_key s) XRCE_SUBMSG_HEARTBEAT
     (le_bytes 2 first_unacked @ le_bytes 2 newest @ [reliable_stream_raw])"

lemma heartbeat_exact:
  assumes "length (client_key s) = 4" "length buf = 32"
  shows "xrce_session_build_heartbeat s reliable_stream_raw reliable_stream_raw fu ls buf 32 = (17, heartbeat_message s fu ls @ drop 17 buf)"
    "length (heartbeat_message s fu ls) = 17"
proof -
  let ?h = "[session_id s, 0] @ le_bytes 2 (0 :: u16) @ client_key s"
  let ?w = "\<lparr>wbuf = blit 0 ?h buf, wcap = 32, wpos = 8, walign_base = 0\<rparr>"
  let ?wr = "wire_all [wire_i16 fu, wire_i16 ls, wire_u8 reliable_stream_raw]"
  have h: "write_message_header (session_id s) 0 0 (client_key s) (xrce_cdr_writer_init buf 32) = (True, ?w)"
    using header_exact(1)[of 32 buf "client_key s" ?h "session_id s" 0 0] assms by simp
  have wf: "wf_writer ?w" using assms by (simp add: wf_writer_def)
  have w: "writes (all_of [write_u16 fu, write_u16 ls, xrce_cdr_write_u8 reliable_stream_raw]) ?wr"
    by (intro writes_all_of) (simp add: writes_u8 writes_u16)
  define p where "p = ?wr 12"
  have p: "p = le_bytes 2 fu @ le_bytes 2 ls @ [reliable_stream_raw]" "length p = 5"
    by (simp_all add: p_def wire_seq_def wire_u8_def wire_i16_def padded_def)
  show "length (heartbeat_message s fu ls) = 17" using assms(1) by (simp add: heartbeat_message_def length_message)
  show "xrce_session_build_heartbeat s reliable_stream_raw reliable_stream_raw fu ls buf 32 = (17, heartbeat_message s fu ls @ drop 17 buf)"
    using assms h finish_exact(1)[OF wf _ _ w p_def, of XRCE_SUBMSG_HEARTBEAT s id] p
    by (simp add: xrce_session_build_heartbeat_def heartbeat_message_def message_bytes_def blit_def)
qed

text \<open>The acknowledgements among received datagrams, in order.\<close>

definition ack_of :: "bytes \<Rightarrow> (u16 \<times> u16) option" where
  "ack_of d = (if d = [] then None else
     case xrce_session_parse_acknack (take 256 d) (min (length d) 256) 0 0 of (ok, fu, bm) \<Rightarrow> if ok then Some (fu, bm) else None)"

definition acks_in :: "'a host_scheme \<Rightarrow> nat \<Rightarrow> (u16 \<times> u16) list" where
  "acks_in h n = List.map_filter (\<lambda>i. ack_of (net_in h (recvs h + i))) [0..<n]"

definition apply_acks :: "(u16 \<times> u16) list \<Rightarrow> reliable_out \<Rightarrow> reliable_out" where
  "apply_acks acks = fold (\<lambda>(fu, bm) ro. xrce_reliable_out_on_acknack ro fu bm) acks"

lemma acks_in_Suc:
  assumes "net_in h' = net_in h" "recvs h' = Suc (recvs h)"
  shows "acks_in h (Suc n) = (case ack_of (net_in h (recvs h)) of None \<Rightarrow> acks_in h' n | Some a \<Rightarrow> a # acks_in h' n)"
proof -
  have "[0..<Suc n] = 0 # map Suc [0..<n]" by (simp add: upt_conv_Cons map_Suc_upt del: upt_Suc)
  then show ?thesis using assms by (simp add: acks_in_def map_filter_simps(1) split: option.splits)
    (simp add: map_filter_def filter_map o_def)
qed

text \<open>The waiting loop makes \<open>n\<close> turns, one datagram each, when the clock says so.\<close>

lemma collect_exact:
  assumes "\<forall>i < n. net_clock h (clock_reads h + i) - start < 150" "\<not> net_clock h (clock_reads h + n) - start < 150"
  shows "collect_acknacks start got ro h =
     Some (got \<or> acks_in h n \<noteq> [], apply_acks (acks_in h n) ro, h\<lparr>recvs := recvs h + n, clock_reads := clock_reads h + Suc n\<rparr>)"
  using assms
proof (induction n arbitrary: h got ro)
  case 0
  then show ?case by (subst collect_acknacks.simps) (simp add: now_ms_def acks_in_def apply_acks_def map_filter_def)
next
  case (Suc n)
  let ?h = "h\<lparr>clock_reads := Suc (clock_reads h), recvs := Suc (recvs h)\<rparr>"
  have c: "net_clock h (clock_reads h) - start < 150" using Suc.prems(1) by (metis add.right_neutral zero_less_Suc)
  have p: "\<forall>i < n. net_clock ?h (clock_reads ?h + i) - start < 150" "\<not> net_clock ?h (clock_reads ?h + n) - start < 150"
    using Suc.prems by (auto dest: spec[of _ "Suc _"])
  note IH = Suc.IH[OF p]
  have fin: "?h\<lparr>recvs := recvs ?h + n, clock_reads := clock_reads ?h + Suc n\<rparr> = h\<lparr>recvs := recvs h + Suc n, clock_reads := clock_reads h + Suc (Suc n)\<rparr>"
    by simp
  note A = acks_in_Suc[of ?h h n, simplified]
  show ?case
  proof (cases "ack_of (net_in h (recvs h))")
    case None
    then have "collect_acknacks start got ro h = collect_acknacks start got ro ?h"
      using c by (subst collect_acknacks.simps) (auto simp: now_ms_def recv_def ack_of_def min.commute split: if_splits prod.splits)
    then show ?thesis using IH[of got ro] fin None A by simp
  next
    case (Some a)
    then have "collect_acknacks start got ro h = collect_acknacks start True (xrce_reliable_out_on_acknack ro (fst a) (snd a)) ?h"
      using c by (subst collect_acknacks.simps) (auto simp: now_ms_def recv_def ack_of_def min.commute split: if_splits prod.splits)
    then show ?thesis
      using IH[of True "xrce_reliable_out_on_acknack ro (fst a) (snd a)"] fin Some A by (simp add: apply_acks_def split_beta)
  qed
qed

text \<open>Acknowledgements of more and more of the outstanding messages.\<close>

definition in_order :: "nat \<Rightarrow> (nat \<times> u16) list \<Rightarrow> bool" where
  "in_order n ks \<longleftrightarrow> sorted (map fst ks) \<and> (\<forall>(k, b) \<in> set ks. k \<le> n)"

lemma apply_acks_window:
  assumes "window ro a ms" "length ms \<le> 31" "in_order (length ms) ks" "ks \<noteq> []" "last ks = (k, b)"
    and "ro' = apply_acks (map (\<lambda>(k, b). (a + of_nat (Suc k), b)) ks) ro"
  shows "window ro' (a + of_nat k) (drop k ms) \<and> retransmit_cursor ro' = a + of_nat k \<and> (send_lost ro' \<longleftrightarrow> b \<noteq> 0)"
  using assms
proof (induction ks arbitrary: ro' k b rule: rev_induct)
  case (snoc kb ks)
  have kb: "kb = (k, b)" using snoc.prems(5) by simp
  have kl: "k \<le> length ms" using snoc.prems(3) kb by (simp add: in_order_def)
  let ?f = "\<lambda>(k, b). (a + of_nat (Suc k), b :: u16)"
  define r where "r = apply_acks (map ?f ks) ro"
  have ro': "ro' = xrce_reliable_out_on_acknack r (a + of_nat (Suc k)) b"
    using snoc.prems(6) by (simp add: r_def apply_acks_def kb)
  show ?case
  proof (cases "ks = []")
    case True
    then have "r = ro" by (simp add: r_def apply_acks_def)
    then show ?thesis
      using acknack_window[OF snoc.prems(1) kl snoc.prems(2) ro'[unfolded \<open>r = ro\<close>]] acknack_state(2,3)[OF snoc.prems(1) kl ro'[unfolded \<open>r = ro\<close>]] by simp
  next
    case False
    obtain j c where jc: "last ks = (j, c)" by fastforce
    have ord: "in_order (length ms) ks" "j \<le> k"
      using snoc.prems(3) False jc kb last_in_set[OF False] by (auto simp: in_order_def sorted_append)
    have w: "window r (a + of_nat j) (drop j ms)"
      using snoc.IH[OF snoc.prems(1,2) ord(1) False jc r_def] by simp
    have e: "a + of_nat (Suc k) = (a + of_nat j) + of_nat (Suc (k - j))" using ord(2) by (simp flip: of_nat_add)
    have kj: "k - j \<le> length (drop j ms)" "length (drop j ms) \<le> 31" using kl snoc.prems(2) by simp_all
    note ro2 = ro'[unfolded e]
    have kk: "(a + of_nat j) + of_nat (k - j) = a + of_nat k" "drop (k - j) (drop j ms) = drop k ms" using ord(2) by (simp_all flip: of_nat_add)
    show ?thesis using acknack_window[OF w kj ro2] acknack_state(2,3)[OF w kj(1) ro2] kk by simp
  qed
qed simp

text \<open>The sweep over a window whose cursor is at its start resends the whole window, and keeps it.\<close>

lemma sweep_window:
  assumes "window ro a ms" "retransmit_cursor ro = a"
  shows "\<exists>ro'. sweep ro = Some (if send_lost ro then ms else [], ro') \<and> window ro' a ms"
proof (cases "send_lost ro")
  case False
  then have "sweep ro = Some ([], ro)" by (subst sweep.simps) (simp add: xrce_reliable_out_next_retransmit_def)
  then show ?thesis using False assms(1) by simp
next
  case True
  have l: "length ms \<le> 32" "last_sent ro = a + of_nat (length ms)" using assms(1) by (simp_all add: window_def)
  have "sweep ro = Some (ms, ro\<lparr>retransmit_cursor := last_sent ro, send_lost := False,
       retransmit_count := retransmit_count ro + of_nat (length ms)\<rparr>)"
  proof (rule sweep_held[OF True assms(2)])
    show "\<forall>i < length ms. a + of_nat i \<noteq> last_sent ro" using seq_distinct[of _ "length ms" a] l by auto
    show "\<forall>i < length ms. holds_msg ro (a + of_nat (Suc i)) (ms ! i)" using assms(1) by (simp add: window_def)
    show "next_occupied ro (a + of_nat (length ms)) = (False, last_sent ro)" using l(2) by (subst next_occupied.simps) simp
  qed (use l in simp)
  then show ?thesis using True assms(1) by (auto simp: window_def arrays_ok_def holds_msg_def)
qed

lemma send_whole_simps [simp]:
  "datagrams (fold send_whole ms h) = datagrams h @ ms" "g_s (fold send_whole ms h) = g_s h" "net_clock (fold send_whole ms h) = net_clock h"
  "net_in (fold send_whole ms h) = net_in h" "clock_reads (fold send_whole ms h) = clock_reads h" "recvs (fold send_whole ms h) = recvs h"
  by (induction ms arbitrary: h) (simp_all add: send_whole_def)

text \<open>
  One round, when its waiting loop takes \<open>n\<close> datagrams and the acknowledgements among them are in order: the
  HEARTBEAT names what is outstanding, and what is still outstanding at the last acknowledgement is resent.
\<close>

lemma qos_round_exact:
  assumes "\<And>n. length (J n) = n" "length (client_key (g_s h)) = 4" "window ro a ms" "length ms \<le> 31"
    and "\<forall>i < n. net_clock h (clock_reads h + Suc i) - net_clock h (clock_reads h) < 150"
    and "\<not> net_clock h (clock_reads h + Suc n) - net_clock h (clock_reads h) < 150"
    and "acks_in h n = map (\<lambda>(k, b). (a + of_nat (Suc k), b)) ks" "in_order (length ms) ks"
    and "(k, b) = (if ks = [] then (0, 0) else last ks)"
  shows "\<exists>stop ro' h'. qos_round J count ro h = Some (stop, ro', h') \<and> window ro' (a + of_nat k) (drop k ms) \<and>
     datagrams h' = datagrams h @ [heartbeat_message (g_s h) (a + 1) (a + of_nat (length ms))] @ (if b \<noteq> 0 then drop k ms else []) \<and>
     (stop \<longleftrightarrow> ks \<noteq> [] \<and> a + of_nat k = of_nat count - 1) \<and> g_s h' = g_s h"
proof -
  have w: "last_acknown ro = a" "last_sent ro = a + of_nat (length ms)" using assms(3) by (simp_all add: window_def)
  note hb = heartbeat_exact[OF assms(2) assms(1), of "a + 1" "a + of_nat (length ms)"]
  let ?m = "heartbeat_message (g_s h) (a + 1) (a + of_nat (length ms))"
  define h1 where "h1 = h\<lparr>sends := Suc (sends h), datagrams := datagrams h @ [?m], clock_reads := Suc (clock_reads h)\<rparr>"
  have c: "\<forall>i < n. net_clock h1 (clock_reads h1 + i) - net_clock h (clock_reads h) < 150"
    "\<not> net_clock h1 (clock_reads h1 + n) - net_clock h (clock_reads h) < 150"
    using assms(5,6) by (simp_all add: h1_def)
  have a1: "acks_in h1 n = acks_in h n" by (simp add: acks_in_def h1_def)
  define r1 where "r1 = apply_acks (acks_in h n) ro"
  let ?h2 = "h1\<lparr>recvs := recvs h1 + n, clock_reads := clock_reads h1 + Suc n\<rparr>"
  have r: "qos_round J count ro h =
      (if acks_in h n = [] then Some (False, r1, ?h2)
       else Option.bind (sweep r1) (\<lambda>(msgs, ro). Some (last_acknown ro = of_nat count - 1, ro, fold send_whole msgs ?h2)))"
    using hb collect_exact[OF c, of False ro] by (simp add: qos_round_def w now_ms_def sendto_def h1_def[symmetric] a1 r1_def)
  show ?thesis
  proof (cases "ks = []")
    case True
    then show ?thesis using r assms(3,7,9) by (auto simp: r1_def apply_acks_def h1_def)
  next
    case False
    then have kb: "last ks = (k, b)" using assms(9) by simp
    note aw = apply_acks_window[OF assms(3,4,8) False kb r1_def[unfolded assms(7)]]
    obtain ro' where s: "sweep r1 = Some (if send_lost r1 then drop k ms else [], ro')" "window ro' (a + of_nat k) (drop k ms)"
      using sweep_window aw by blast
    have "last_acknown ro' = a + of_nat k" using s(2) by (simp add: window_def)
    then show ?thesis using r s aw False assms(7) by (simp add: h1_def)
  qed
qed

section \<open>Lemmas: the rounds end\<close>

text \<open>From every reading on, the clock eventually shows 150 ms more.\<close>

definition clock_runs :: "'a host_scheme \<Rightarrow> bool" where
  "clock_runs h \<longleftrightarrow> (\<forall>i. \<exists>j > i. 150 \<le> net_clock h j - net_clock h i)"

lemma next_occupied_closer: "next_occupied ro c = (True, c') \<Longrightarrow> unat (last_sent ro - c') < unat (last_sent ro - c)"
proof (induction ro c rule: next_occupied.induct)
  case (1 ro c)
  have d: "unat (last_sent ro - (c + 1)) < unat (last_sent ro - c)" if "c \<noteq> last_sent ro"
  proof -
    have "last_sent ro - c \<noteq> 0" using that by simp
    then have "unat (last_sent ro - c - 1) < unat (last_sent ro - c)" by (simp add: unat_minus_one) (simp add: unat_gt_0)
    then show ?thesis by (simp add: diff_diff_eq)
  qed
  show ?case
  proof (cases "c \<noteq> last_sent ro \<and> \<not> occupied ro ! slot_for (c + 1)")
    case True
    then have "next_occupied ro (c + 1) = (True, c')" using "1.prems" by (subst (asm) next_occupied.simps) simp
    then show ?thesis using "1.IH" True d by fastforce
  next
    case False
    then show ?thesis using "1.prems" d by (subst (asm) next_occupied.simps) (auto split: if_splits)
  qed
qed

lemma sweep_returns: "\<exists>ms ro'. sweep ro = Some (ms, ro')"
proof (induction "unat (last_sent ro - retransmit_cursor ro)" arbitrary: ro rule: less_induct)
  case less
  obtain found ro1 msg len where n: "xrce_reliable_out_next_retransmit ro [] 0 = (found, ro1, msg, len)" by (metis prod_cases4)
  show ?case
  proof (cases found)
    case False
    then show ?thesis using n by (subst sweep.simps) simp
  next
    case True
    obtain c where c: "next_occupied ro (retransmit_cursor ro) = (True, c)" "retransmit_cursor ro1 = c" "last_sent ro1 = last_sent ro"
      using n True by (auto simp: xrce_reliable_out_next_retransmit_def Let_def split: if_splits prod.splits)
    have "unat (last_sent ro1 - retransmit_cursor ro1) < unat (last_sent ro - retransmit_cursor ro)"
      using next_occupied_closer[OF c(1)] c(2,3) by simp
    from less[OF this] show ?thesis using n True by (subst sweep.simps) auto
  qed
qed

lemma qos_round_returns:
  assumes "clock_runs h"
  shows "\<exists>stop ro' h'. qos_round J count ro h = Some (stop, ro', h') \<and> clock_runs h' \<and> net_in h' = net_in h \<and>
     ((\<forall>i. net_in h i = []) \<longrightarrow> \<not> stop)"
proof -
  obtain len hb where hb: "xrce_session_build_heartbeat (g_s h) reliable_stream_raw reliable_stream_raw (last_acknown ro + 1) (last_sent ro) (J 32) 32 = (len, hb)"
    by fastforce
  let ?i = "clock_reads h" and ?late = "\<lambda>n. 150 \<le> net_clock h (clock_reads h + Suc n) - net_clock h (clock_reads h)"
  define h1 where "h1 = (snd (sendto hb len h))\<lparr>clock_reads := Suc ?i\<rparr>"
  have "\<exists>n. ?late n" using assms unfolding clock_runs_def by (metis less_iff_Suc_add add_Suc_right)
  then obtain n where n: "?late n" "\<forall>i < n. \<not> ?late i" using exists_least_iff[of ?late] by blast
  have c: "\<forall>i < n. net_clock h1 (clock_reads h1 + i) - net_clock h ?i < 150" "\<not> net_clock h1 (clock_reads h1 + n) - net_clock h ?i < 150"
    using n by (simp_all add: h1_def not_le not_less)
  let ?h2 = "h1\<lparr>recvs := recvs h1 + n, clock_reads := clock_reads h1 + Suc n\<rparr>"
  obtain msgs ro2 where s: "sweep (apply_acks (acks_in h1 n) ro) = Some (msgs, ro2)" using sweep_returns by blast
  have nm: "now_ms (snd (sendto hb len h)) = (net_clock h ?i, h1)" by (simp add: now_ms_def h1_def)
  have cr: "clock_runs ?h2" "clock_runs (fold send_whole msgs ?h2)" "net_in h1 = net_in h" using assms by (simp_all add: clock_runs_def h1_def)
  have q: "acks_in h1 n = []" if "\<forall>i. net_in h i = []" using that by (simp add: acks_in_def cr(3) ack_of_def map_filter_def)
  show ?thesis
    using collect_exact[OF c, of False ro] hb nm s cr q
    by (cases "acks_in h1 n = []") (auto simp: qos_round_def)
qed

lemma qos_rounds_return:
  assumes "clock_runs h"
  shows "\<exists>rounds ro' h'. qos_rounds J count left r ro h = Some (rounds, ro', h') \<and> rounds \<le> r + left \<and> ((\<forall>i. net_in h i = []) \<longrightarrow> rounds = r + left)"
  using assms
proof (induction left arbitrary: r ro h)
  case (Suc left)
  obtain stop ro1 h1 where 1: "qos_round J count ro h = Some (stop, ro1, h1)" "clock_runs h1" "net_in h1 = net_in h"
      "(\<forall>i. net_in h i = []) \<longrightarrow> \<not> stop"
    using qos_round_returns[OF Suc.prems] by blast
  obtain rounds ro' h' where 2: "qos_rounds J count left (r + 1) ro1 h1 = Some (rounds, ro', h')" "rounds \<le> r + 1 + left"
      "(\<forall>i. net_in h1 i = []) \<longrightarrow> rounds = r + 1 + left"
    using Suc.IH[OF 1(2), of "r + 1" ro1] by auto
  show ?case using 1 2 by (cases stop) auto
qed simp

lemma publish_frame:
  "net_clock (snd (fold (publish_reliable J) is st)) = net_clock (snd st) \<and> net_in (snd (fold (publish_reliable J) is st)) = net_in (snd st)"
  by (induction "is" arbitrary: st) (simp_all add: publish_reliable_def split_beta Let_def)

section \<open>Properties\<close>

text \<open>
  Setting up over a lossy link. A request is sent again, at most thirty times, until an answer is accepted; every
  attempt is a new message, with the next sequence number and request id (the first request of a session
  apart, which is not numbered). The step succeeds exactly when one of the thirty answers is accepted, and
  no datagram follows the accepted one.
\<close>

theorem qos_retry_exact:
  assumes "length (J 512) = 512" "request_ok req" "length (client_key (g_s h)) = 4" "\<forall>i < 30. net_ok h (sends h + i)"
    and "n = length (takeWhile (\<lambda>i. \<not> answered p (net_in h (recvs h + i))) [0..<30])"
  shows "\<exists>h'. qos_send_and_wait_ok J nm req p h = (n < 30, h') \<and>
     datagrams h' = datagrams h @ map (\<lambda>i. request_message ((after_request req ^^ i) (g_s h)) req) [0..<min 30 (Suc n)]"
  using retry_exact[where J = J and left = 30 and a = 0 and nm = nm and p = p, OF assms(1-4)] unfolding assms(5) misses_def[symmetric] attempts_def qos_send_and_wait_ok_def by blast

text \<open>An agent whose first two answers are lost.\<close>

definition late_agent :: "nat \<Rightarrow> bytes" where
  "late_agent i = (if i < 2 then [] else good_agent 1)"

theorem qos_retry_exact_witness:
  "let h = sample_host late_agent; req = Create_xml publisher_1 participant_1 '''' in
   map length (datagrams (snd (qos_send_and_wait_ok (\<lambda>n. replicate n 0) ''CREATE publisher'' req create_reply_ok_or_exists h))) = [27, 27, 27]"
proof -
  let ?h = "sample_host late_agent" and ?req = "Create_xml publisher_1 participant_1 ''''"
  let ?acc = "\<lambda>i. answered create_reply_ok_or_exists (net_in ?h (recvs ?h + i))"
  have g: "g_s ?h = xrce_session_init 1 [0xCA, 0xFE, 0xF0, 0x0D] 512" by (simp add: sample_host_def)
  have "answered create_reply_ok_or_exists (good_agent 1)"
    using good_agent_accepts(2)[of 0] by (simp add: answered_def create_reply_ok_or_exists_def)
  then have a: "\<not> ?acc 0" "\<not> ?acc 1" "?acc 2" by (simp_all add: sample_host_def late_agent_def answered_def)
  have "takeWhile (\<lambda>i. \<not> ?acc i) [0..<30] = [0, 1]"
    using a by (simp add: upt_conv_Cons numeral_2_eq_2 del: upt_Suc)
  then have n: "length (takeWhile (\<lambda>i. \<not> ?acc i) [0..<30]) = 2" by simp
  have ok: "length ((\<lambda>n. replicate n 0) 512 :: bytes) = 512" "request_ok ?req" "length (client_key (g_s ?h)) = 4" "\<forall>i < 30. net_ok ?h (sends ?h + i)"
    by (simp_all add: request_ok_def g xrce_session_init_def) (simp add: sample_host_def)
  have l: "length (request_message s ?req) = 27" if "length (client_key s) = 4" for s
    using that by (simp add: request_message_def length_message request_wire_def base_wire_def wire_seq_def wire_bytes_def wire_u8_def
        wire_string_def wire_u32_def padded_def object_id_bytes_def c_string_def cstr_def)
  have k: "client_key ((after_request ?req ^^ i) s) = client_key s" for i s by (induction i) simp_all
  obtain h' where "qos_send_and_wait_ok (\<lambda>n. replicate n 0) ''CREATE publisher'' ?req create_reply_ok_or_exists ?h = (2 < (30 :: nat), h')"
      "datagrams h' = datagrams ?h @ map (\<lambda>i. request_message ((after_request ?req ^^ i) (g_s ?h)) ?req) [0..<min 30 (Suc 2)]"
    using qos_retry_exact[where J = "\<lambda>n. replicate n 0" and nm = "''CREATE publisher''", OF ok n[symmetric]] by blast
  then show ?thesis
    using l k g by (simp add: sample_host_def eval_nat_numeral xrce_session_init_def)
qed

text \<open>
  C36: Which samples are retransmittable. The program sends every sample once, under the numbers 0, 1, 2, \<open>\<dots>\<close> of the
  reliable stream, but the tracker holds the first 32 of them only: every later sample is refused by
  \<^verbatim>\<open>xrce_reliable_out_track\<close>, whose result is not looked at, and goes out untracked like a best-effort one.
\<close>

theorem reliable_samples_tracked:
  assumes "\<And>n. length (J n) = n" "length (client_key (g_s h)) = 4" "0 < count" "count \<le> 65535"
    and "s = (g_s h)\<lparr>out_seq_num := 0\<rparr>" "fold (publish_reliable J) [0..<count] (start_reliable h) = (ro, h')"
  shows "datagrams h' = datagrams h @ map (sample_message s) [0..<count] \<and>
     window ro (0 - 1) (take 32 (map (sample_message s) [0..<count]))"
proof -
  let ?h = "h\<lparr>g_s := s\<rparr>"
  have k: "length (client_key s) = 4" "out_seq_num s = 0" "g_s ?h = s" using assms(2,5) by simp_all
  have "start_reliable h = (xrce_reliable_out_init\<lparr>last_acknown := 0 - 1\<rparr>, ?h)" by (simp add: start_reliable_def assms(5))
  then show ?thesis using samples_tracked[of J s ?h count, OF assms(1) k assms(3,4)] assms(6) by auto
qed

theorem reliable_samples_tracked_witness:
  "\<exists>ro h'. fold (publish_reliable (\<lambda>n. replicate n 0)) [0..<40] (start_reliable (sample_host good_agent)) = (ro, h') \<and>
     length (datagrams h') = 40 \<and> last_sent ro = 31"
proof -
  let ?h = "sample_host good_agent"
  obtain ro h' where r: "fold (publish_reliable (\<lambda>n. replicate n 0)) [0..<40] (start_reliable ?h) = (ro, h')" by fastforce
  have "length (client_key (g_s ?h)) = 4" by (simp add: sample_host_def xrce_session_init_def)
  from reliable_samples_tracked[OF _ this _ _ refl r]
  have "datagrams h' = datagrams ?h @ map (sample_message ((g_s ?h)\<lparr>out_seq_num := 0\<rparr>)) [0..<40]"
    "window ro (0 - 1) (take 32 (map (sample_message ((g_s ?h)\<lparr>out_seq_num := 0\<rparr>)) [0..<40]))" by simp_all
  then show ?thesis using r by (simp add: sample_host_def window_def)
qed

text \<open>
  C24: A round of the reliable stream. With at most 31 samples outstanding after the number \<open>a\<close>, a round sends the
  HEARTBEAT that names them and takes the datagrams that come within 150 ms. If the acknowledgements among
  them ask for the same or later samples one after the other, then exactly the samples that the last one does
  not acknowledge stay outstanding; they are resent, byte for byte and in order, when it reports a
  loss; and the loop over the rounds is left when that acknowledgement covers the last sample.
\<close>

theorem qos_round_resends:
  assumes "\<And>n. length (J n) = n" "length (client_key (g_s h)) = 4" "window ro a ms" "length ms \<le> 31"
    and "\<forall>i < n. net_clock h (clock_reads h + Suc i) - net_clock h (clock_reads h) < 150"
    and "150 \<le> net_clock h (clock_reads h + Suc n) - net_clock h (clock_reads h)"
    and "acks_in h n = map (\<lambda>(k, b). (a + of_nat (Suc k), b)) ks" "ks \<noteq> []" "last ks = (k, b)"
    and "sorted (map fst ks)" "\<forall>(k, b) \<in> set ks. k \<le> length ms"
  shows "\<exists>ro' h'. qos_round J count ro h = Some (a + of_nat k = of_nat count - 1, ro', h') \<and> window ro' (a + of_nat k) (drop k ms) \<and>
     datagrams h' = datagrams h @ heartbeat_message (g_s h) (a + 1) (a + of_nat (length ms)) # (if b \<noteq> 0 then drop k ms else [])"
proof -
  have io: "in_order (length ms) ks" using assms(10,11) by (simp add: in_order_def)
  have late: "\<not> net_clock h (clock_reads h + Suc n) - net_clock h (clock_reads h) < 150" using assms(6) by (simp add: not_less)
  have kb: "(k, b) = (if ks = [] then (0, 0) else last ks)" using assms(8,9) by simp
  from qos_round_exact[of J, OF assms(1-5) late assms(7) io kb, of count] assms(8) show ?thesis by auto
qed

text \<open>
  The benchmark always comes to its report. Whatever the agent sends, if the clock runs then the reliable
  part makes at most twelve rounds, each of which ends, and prints its line. The number of rounds it prints
  is one too high when it has given up: an agent that never answers gets twelve rounds, and thirteen are reported.
\<close>

theorem qos_reports:
  assumes "clock_runs h"
  shows "\<exists>h' r elapsed rest. reliable_part J count h = Some h' \<and> r \<le> 12 \<and> ((\<forall>i. net_in h i = []) \<longrightarrow> r = 12) \<and>
     last (stdout h') = ''reliable:    sent '' @ dec_digits count @ '' samples in '' @ elapsed @
       ''ms across '' @ dec_digits (r + 1) @ '' heartbeat round(s), '' @ rest"
proof -
  obtain ro h1 where s: "start_reliable h = (ro, h1)" by fastforce
  obtain t h2 where t: "now_ms h1 = (t, h2)" by fastforce
  obtain ro2 h3 where p: "fold (publish_reliable J) [0..<count] (ro, h2) = (ro2, h3)" by fastforce
  have e: "net_clock h3 = net_clock h" "net_in h3 = net_in h"
    using s t p publish_frame[of J "[0..<count]" "(ro, h2)"] by (auto simp: start_reliable_def now_ms_def)
  then have "clock_runs h3" using assms by (simp add: clock_runs_def)
  from qos_rounds_return[OF this, of J count 12 0 ro2]
  obtain r ro3 h4 where r: "qos_rounds J count 12 0 ro2 h3 = Some (r, ro3, h4)" "r \<le> 12" "(\<forall>i. net_in h i = []) \<longrightarrow> r = 12"
    using e(2) by auto
  show ?thesis
    using s t p r
    by (intro exI[of _ "put_line _ (snd (now_ms h4))"] exI[of _ r]) (auto simp: reliable_part_def now_ms_def put_line_def)
qed

theorem qos_reports_witness:
  "\<exists>h' elapsed rest. reliable_part (\<lambda>n. replicate n 0) 3 (sample_host (\<lambda>_. [])) = Some h' \<and>
     last (stdout h') = ''reliable:    sent 3 samples in '' @ elapsed @ ''ms across 13 heartbeat round(s), '' @ rest"
proof -
  let ?h = "sample_host (\<lambda>_. [])"
  have d: "net_clock ?h (Suc i) - net_clock ?h i = 1000" for i by (simp add: sample_host_def algebra_simps)
  have "(150 :: u64) \<le> 1000" by code_simp
  then have "150 \<le> net_clock ?h (Suc i) - net_clock ?h i" for i unfolding d .
  then have "clock_runs ?h" unfolding clock_runs_def by blast
  moreover have "\<forall>i. net_in ?h i = []" by (simp add: sample_host_def)
  moreover have "dec_digits 3 = ''3''" "dec_digits (12 + 1) = ''13''" by code_simp+
  ultimately show ?thesis using qos_reports[of ?h "\<lambda>n. replicate n 0" 3] by (auto simp del: One_nat_def)
qed

text \<open>An agent that has seen the first of three samples, asks for the next and reports a loss.\<close>

definition asking_agent :: "nat \<Rightarrow> bytes" where
  "asking_agent i = [0x81, 0, 0, 0, XRCE_SUBMSG_ACKNACK, 1, 5, 0, 2, 0, 1, 0, 128]"

theorem qos_round_resends_witness:
  "\<exists>ro ro' h'. track_all xrce_reliable_out_init 1 [[5], [6, 7], [8]] = Some ro \<and>
     qos_round (\<lambda>n. replicate n 0) 3 ro ((sample_host asking_agent)\<lparr>net_clock := \<lambda>i. of_nat (100 * i)\<rparr>) = Some (False, ro', h') \<and>
     drop 1 (datagrams h') = [[6, 7], [8]]"
proof -
  let ?h = "(sample_host asking_agent)\<lparr>net_clock := \<lambda>i. of_nat (100 * i)\<rparr>"
  obtain ro where r: "track_all xrce_reliable_out_init 1 [[5], [6, 7], [8]] = Some ro" "window ro 0 [[5], [6, 7], [8]]"
    using track_all_init[of "[[5], [6, 7], [8]]"] by auto
  have a: "ack_of (asking_agent i) = Some (2, 1)" for i unfolding asking_agent_def by code_simp
  have acks: "acks_in ?h 1 = map (\<lambda>(k, b). (0 + of_nat (Suc k), b)) [(1, 1)]"
    by (simp add: acks_in_def sample_host_def map_filter_def a)
  have k: "length (client_key (g_s ?h)) = 4" by (simp add: sample_host_def xrce_session_init_def)
  have c: "\<forall>i < 1. net_clock ?h (clock_reads ?h + Suc i) - net_clock ?h (clock_reads ?h) < 150"
    "150 \<le> net_clock ?h (clock_reads ?h + Suc 1) - net_clock ?h (clock_reads ?h)"
  proof -
    have n: "(100 :: u64) < 150" "(150 :: u64) \<le> 200" by code_simp+
    have "net_clock ?h (clock_reads ?h + Suc 0) - net_clock ?h (clock_reads ?h) = 100" "net_clock ?h (clock_reads ?h + Suc 1) - net_clock ?h (clock_reads ?h) = 200"
      by (simp_all add: sample_host_def)
    then show "\<forall>i < 1. net_clock ?h (clock_reads ?h + Suc i) - net_clock ?h (clock_reads ?h) < 150"
      "150 \<le> net_clock ?h (clock_reads ?h + Suc 1) - net_clock ?h (clock_reads ?h)" using n by (simp_all only: less_one) simp
  qed
  have "\<exists>ro' h'. qos_round (\<lambda>n. replicate n 0) 3 ro ?h = Some ((0 :: u16) + of_nat 1 = of_nat 3 - 1, ro', h') \<and>
     window ro' (0 + of_nat 1) (drop 1 [[5], [6, 7], [8]]) \<and>
     datagrams h' = datagrams ?h @ heartbeat_message (g_s ?h) (0 + 1) (0 + of_nat (length [[5], [6, 7], [8 :: u8]])) # (if (1 :: u16) \<noteq> 0 then drop 1 [[5], [6, 7], [8]] else [])"
    by (rule qos_round_resends[OF _ k r(2) _ c acks]) simp_all
  then show ?thesis using r(1) by (auto simp: sample_host_def)
qed

end
