(* ===== verification/Bench_Latency.thy ===== *)
theory Bench_Latency
  imports Complex_Main Bench_Qos
begin

text \<open>
  \<^verbatim>\<open>host/bench_latency.c\<close>: round trips through the firmware. A ping is an incrementing number on \<^verbatim>\<open>rt/setpoint\<close>, its echo
  the same number on \<^verbatim>\<open>rt/pong\<close>. In the sequential mode each ping waits for its own echo and the latencies are
  summed up at the end; in burst mode all pings go out at once and the distinct echoes are counted.

  Times are milliseconds as rational numbers: the program computes them as doubles, whose rounding the model leaves
  out. The i-th reading of the clock is \<open>lat_clock i\<close>. Both waiting loops end by the clock and are partial
  functions, \<open>None\<close> when they never end. An access outside a local array is the value \<open>Inl (Out_of_bounds i)\<close>,
  where C leaves the behaviour undefined. What the program prints about its measurements is kept as the
  values of the \<^verbatim>\<open>printf\<close> calls. \<open>J n\<close> is what a local array of \<open>n\<close> bytes holds before it is written.
\<close>

section \<open>Data\<close>

abbreviation PER_SAMPLE_TIMEOUT_MS :: rat where "PER_SAMPLE_TIMEOUT_MS \<equiv> 3000"
abbreviation DEFAULT_COUNT :: int where "DEFAULT_COUNT \<equiv> 20"

text \<open>
  The lines about the measurements: pings sent and time; distinct echoes, pings, time and loss in percent (\<open>None\<close>
  for the division by zero pings); a ping and its latency; a ping without echo; completed, tried and timed out
  round trips; minimum, median, mean, 95th percentile and maximum.
\<close>

datatype bench_line =
    Pings_sent int rat
  | Echoes int int rat "rat option"
  | Ping_ok int rat
  | Ping_timed_out int
  | Round_trips nat int nat
  | Summary rat rat rat rat rat

record lat_host = host +
  lat_clock :: "nat \<Rightarrow> rat"
  bench_out :: "bench_line list"

datatype array_fault = Out_of_bounds int

record lat_stats =
  latencies_ms :: "rat list"
  received :: nat
  timed_out :: nat

definition lat_now_ms :: "'a lat_host_scheme \<Rightarrow> rat \<times> 'a lat_host_scheme" where
  "lat_now_ms h = (lat_clock h (clock_reads h), h\<lparr>clock_reads := Suc (clock_reads h)\<rparr>)"

definition bench_put :: "bench_line \<Rightarrow> 'a lat_host_scheme \<Rightarrow> 'a lat_host_scheme" where
  "bench_put l h = h\<lparr>bench_out := bench_out h @ [l]\<rparr>"

text \<open>\<^verbatim>\<open>atoi\<close>, for numbers that an \<^verbatim>\<open>int\<close> can hold.\<close>

definition is_space :: "char \<Rightarrow> bool" where
  "is_space c \<longleftrightarrow> c = CHR '' '' \<or> 9 \<le> (of_char c :: nat) \<and> (of_char c :: nat) \<le> 13"

definition is_digit :: "char \<Rightarrow> bool" where
  "is_digit c \<longleftrightarrow> 48 \<le> (of_char c :: nat) \<and> (of_char c :: nat) \<le> 57"

definition digits_value :: "string \<Rightarrow> int" where
  "digits_value s = foldl (\<lambda>n c. 10 * n + (of_char c - 48)) 0 (takeWhile is_digit s)"

definition atoi :: "string \<Rightarrow> int" where
  "atoi s = (case dropWhile is_space s of
       [] \<Rightarrow> 0
     | c # r \<Rightarrow> if c = CHR ''-'' then - digits_value r else if c = CHR ''+'' then digits_value r else digits_value (c # r))"

definition burst_mode :: "string list \<Rightarrow> bool" where
  "burst_mode argv \<longleftrightarrow> length argv \<ge> 4 \<and> argv ! 3 = ''burst''"

definition bench_count :: "string list \<Rightarrow> int" where
  "bench_count argv =
     (if burst_mode argv then (if length argv \<ge> 5 then atoi (argv ! 4) else DEFAULT_COUNT)
      else if length argv \<ge> 4 then atoi (argv ! 3) else DEFAULT_COUNT)"

section \<open>Pings and echoes\<close>

definition send_ping :: "(nat \<Rightarrow> bytes) \<Rightarrow> int \<Rightarrow> 'a host_scheme \<Rightarrow> bool \<times> 'a host_scheme" where
  "send_ping J i h =
     (case std_msgs_Int32_encode \<lparr>int32_data = word_of_int i\<rparr> (J 16) 16 0 of
        (_, sample, sample_len) \<Rightarrow>
          (case xrce_session_build_write_data (g_s h) BEST_EFFORT_STREAM_0 datawriter_1 (drop 4 sample) (sample_len - 4) (msg_buf h) 512 of
             (len, s, buf) \<Rightarrow> sendto buf len (h\<lparr>g_s := s, msg_buf := buf\<rparr>)))"

text \<open>The number in a received datagram; \<open>None\<close> is \<^verbatim>\<open>continue\<close>.\<close>

definition echo_value :: "bytes \<Rightarrow> int option" where
  "echo_value d =
     (if d = [] then None
      else
        (case xrce_session_parse_data d (length d) \<lparr>oid = 0, okind = 0\<rparr> [] 0 of
           (ok, from_id, echoed, echoed_len) \<Rightarrow>
             if \<not> ok \<or> echoed_len < 4 then None
             else Some (sint (ucast (echoed ! 0) OR push_bit 8 (ucast (echoed ! 1)) OR
                    push_bit 16 (ucast (echoed ! 2)) OR push_bit 24 (ucast (echoed ! 3)) :: u32))))"

section \<open>Burst mode\<close>

text \<open>The test of \<^verbatim>\<open>seen[value]\<close> and what follows it.\<close>

definition mark_echo :: "int \<Rightarrow> int \<Rightarrow> bool list \<Rightarrow> int \<Rightarrow> array_fault + bool list \<times> int" where
  "mark_echo count value seen distinct_received =
     (if value \<ge> 1 \<and> value \<le> count
      then
        if nat value \<ge> length seen then Inl (Out_of_bounds value)
        else if \<not> seen ! nat value then Inr (seen[nat value := True], distinct_received + 1)
        else Inr (seen, distinct_received)
      else Inr (seen, distinct_received))"

partial_function (option) collect_echoes ::
  "rat \<Rightarrow> int \<Rightarrow> bool list \<Rightarrow> int \<Rightarrow> lat_host \<Rightarrow> (array_fault + bool list \<times> int \<times> lat_host) option" where
  "collect_echoes deadline count seen distinct_received h =
     (case lat_now_ms h of
        (now, h) \<Rightarrow>
          if now < deadline
          then
            (case recv 256 h of
               (d, h) \<Rightarrow>
                 (case echo_value d of
                    None \<Rightarrow> collect_echoes deadline count seen distinct_received h
                  | Some value \<Rightarrow>
                      (case mark_echo count value seen distinct_received of
                         Inl e \<Rightarrow> Some (Inl e)
                       | Inr r \<Rightarrow>
                           if snd r = count then Some (Inr (fst r, snd r, h))
                           else collect_echoes deadline count (fst r) (snd r) h)))
          else Some (Inr (seen, distinct_received, h)))"

definition burst_report :: "int \<Rightarrow> rat \<Rightarrow> array_fault + bool list \<times> int \<times> lat_host \<Rightarrow> (array_fault + lat_host) option" where
  "burst_report count t_sent r =
     (case r of
        Inl e \<Rightarrow> Some (Inl e)
      | Inr (seen, distinct_received, h) \<Rightarrow>
          (case lat_now_ms h of
             (t_done, h) \<Rightarrow>
               Some (Inr (bench_put (Echoes distinct_received count (t_done - t_sent)
                 (if count = 0 then None else Some (100 * of_int (count - distinct_received) / of_int count))) h))))"

definition burst_part :: "(nat \<Rightarrow> bytes) \<Rightarrow> int \<Rightarrow> lat_host \<Rightarrow> (array_fault + lat_host) option" where
  "burst_part J count h =
     (case lat_now_ms h of
        (t_start, h) \<Rightarrow>
          (case lat_now_ms (fold (\<lambda>i h. snd (send_ping J i h)) [1..count] h) of
             (t_sent, h) \<Rightarrow>
               (case lat_now_ms (bench_put (Pings_sent count (t_sent - t_start)) h) of
                  (now, h) \<Rightarrow>
                    Option.bind (collect_echoes (now + PER_SAMPLE_TIMEOUT_MS) count (replicate 4096 False) 0 h) (burst_report count t_sent))))"

section \<open>Sequential mode\<close>

partial_function (option) await_echo :: "rat \<Rightarrow> int \<Rightarrow> lat_host \<Rightarrow> (bool \<times> lat_host) option" where
  "await_echo deadline i h =
     (case lat_now_ms h of
        (now, h) \<Rightarrow>
          if now < deadline
          then
            (case recv 256 h of
               (d, h) \<Rightarrow>
                 (case echo_value d of
                    None \<Rightarrow> await_echo deadline i h
                  | Some value \<Rightarrow> if value \<noteq> i then await_echo deadline i h else Some (True, h)))
          else Some (False, h))"

definition ping_once :: "(nat \<Rightarrow> bytes) \<Rightarrow> int \<Rightarrow> lat_stats \<Rightarrow> lat_host \<Rightarrow> (array_fault + lat_stats \<times> lat_host) option" where
  "ping_once J i st h =
     (case lat_now_ms h of
        (t0, h) \<Rightarrow>
          (case send_ping J i h of
             (sent_ok, h) \<Rightarrow>
               if \<not> sent_ok then Some (Inr (st, h))
               else
                 Option.bind (await_echo (t0 + PER_SAMPLE_TIMEOUT_MS) i h) (\<lambda>(got_it, h).
                   if got_it
                   then
                     (case lat_now_ms h of
                        (t1, h) \<Rightarrow>
                          if received st \<ge> length (latencies_ms st) then Some (Inl (Out_of_bounds (int (received st))))
                          else
                            (let st = st\<lparr>latencies_ms := (latencies_ms st)[received st := t1 - t0], received := received st + 1\<rparr> in
                             Some (Inr (st, bench_put (Ping_ok i (latencies_ms st ! (received st - 1))) h))))
                   else Some (Inr (st\<lparr>timed_out := timed_out st + 1\<rparr>, bench_put (Ping_timed_out i) h)))))"

fun ping_all :: "(nat \<Rightarrow> bytes) \<Rightarrow> int list \<Rightarrow> lat_stats \<Rightarrow> lat_host \<Rightarrow> (array_fault + lat_stats \<times> lat_host) option" where
  "ping_all J [] st h = Some (Inr (st, h))"
| "ping_all J (i # is) st h =
     Option.bind (ping_once J i st h) (\<lambda>r. case r of Inl e \<Rightarrow> Some (Inl e) | Inr (st, h) \<Rightarrow> ping_all J is st h)"

text \<open>\<^verbatim>\<open>qsort\<close> with \<^verbatim>\<open>cmp_double\<close> on the first \<open>n\<close> elements.\<close>

definition qsort :: "nat \<Rightarrow> rat list \<Rightarrow> rat list" where
  "qsort n a = sort (take n a) @ drop n a"

definition p95_index :: "nat \<Rightarrow> nat" where
  "p95_index n = (if n * 95 div 100 < n then n * 95 div 100 else n - 1)"

definition summary_line :: "rat list \<Rightarrow> nat \<Rightarrow> bench_line" where
  "summary_line a n =
     (let a = qsort n a;
          sum = fold (\<lambda>i s. s + a ! i) [0..<n] 0
      in Summary (a ! 0) (a ! (n div 2)) (sum / of_nat n) (a ! p95_index n) (a ! (n - 1)))"

definition to_run :: "int \<Rightarrow> int" where
  "to_run count = (if count < 4096 then count else 4096)"

text \<open>\<open>a\<close> is what the local array \<^verbatim>\<open>latencies_ms\<close> of 4096 doubles holds before it is written.\<close>

definition sequential_part :: "(nat \<Rightarrow> bytes) \<Rightarrow> rat list \<Rightarrow> int \<Rightarrow> lat_host \<Rightarrow> (array_fault + lat_host) option" where
  "sequential_part J a count h =
     Option.bind (ping_all J [1..to_run count] \<lparr>latencies_ms = a, received = 0, timed_out = 0\<rparr> h) (\<lambda>r.
       case r of
         Inl e \<Rightarrow> Some (Inl e)
       | Inr (st, h) \<Rightarrow>
           (let h = bench_put (Round_trips (received st) (to_run count) (timed_out st)) h in
            Some (Inr (if received st > 0 then bench_put (summary_line (latencies_ms st) (received st)) h else h))))"

section \<open>The program\<close>

abbreviation topic_2 :: object_id where "topic_2 \<equiv> xrce_object_id 2 XRCE_OBJK_TOPIC"

definition latency_script :: "setup_step list" where
  "latency_script =
     [create_client_step,
      create_step ''CREATE participant'' (Create_participant participant_1 (participant_xml ''rtos_bench'')),
      create_step ''CREATE topic (ping)'' (Create_xml topic_1 participant_1 (host_topic_xml ''rt/setpoint'' int32_type)),
      create_step ''CREATE publisher'' (Create_xml publisher_1 participant_1 ''''),
      create_step ''CREATE datawriter (ping)'' (Create_xml datawriter_1 publisher_1 (host_endpoint_xml ''data_writer'' ''rt/setpoint'' int32_type)),
      create_step ''CREATE topic (pong)'' (Create_xml topic_2 participant_1 (host_topic_xml ''rt/pong'' int32_type)),
      create_step ''CREATE subscriber'' (Create_xml subscriber_1 participant_1 ''''),
      create_step ''CREATE datareader (pong)'' (Create_xml datareader_1 subscriber_1 (host_endpoint_xml ''data_reader'' ''rt/pong'' int32_type)),
      (Read_data datareader_1, Must_send)]"

text \<open>The client key holds the low bytes of the process id.\<close>

definition bench_key :: "u32 \<Rightarrow> bytes" where
  "bench_key pid = [0x42, 0x45, ucast (drop_bit 8 pid), ucast pid]"

definition latency_main ::
  "(nat \<Rightarrow> bytes) \<Rightarrow> rat list \<Rightarrow> u32 \<Rightarrow> string list \<Rightarrow> lat_host \<Rightarrow> (array_fault + lat_host outcome) option" where
  "latency_main J a pid argv h =
     (if length argv < 3 then Some (Inr (Exited 2 h))
      else
        (case run_setup latency_script (h\<lparr>g_s := xrce_session_init 2 (bench_key pid) 512\<rparr>) of
           (ok, h) \<Rightarrow>
             if \<not> ok then Some (Inr (Exited 1 h))
             else
               (let h = put_line ''READ_DATA sent -- pinging rt/setpoint, waiting for rt/pong echoes'' h in
                Option.bind (if burst_mode argv then burst_part J (bench_count argv) h else sequential_part J a (bench_count argv) h) (\<lambda>r.
                  case r of Inl e \<Rightarrow> Some (Inl e) | Inr h \<Rightarrow> Some (Inr (Exited 0 h))))))"

section \<open>Lemmas: pings and the clock\<close>

definition ping_message :: "session \<Rightarrow> int \<Rightarrow> bytes" where
  "ping_message s i = stream_message s BEST_EFFORT_STREAM_0 datawriter_1 (le_bytes 4 (word_of_int i :: u32))"

text \<open>The pings of a list of numbers, from a session on.\<close>

fun ping_messages :: "session \<Rightarrow> int list \<Rightarrow> bytes list" where
  "ping_messages s [] = []"
| "ping_messages s (i # is) = ping_message s i # ping_messages (numbered s) is"

lemma send_ping_exact:
  assumes "\<And>n. length (J n) = n" "client_ok h"
  shows "\<exists>buf. send_ping J i h = (net_ok h (sends h), h\<lparr>g_s := numbered (g_s h), msg_buf := buf, sends := Suc (sends h),
      datagrams := datagrams h @ [ping_message (g_s h) i]\<rparr>) \<and> length buf = 512"
proof -
  have e: "std_msgs_Int32_encode \<lparr>int32_data = v\<rparr> (J 16) 16 0 = (True, cdr_header @ le_bytes 4 v @ drop 8 (J 16), 8)" for v :: u32
    by (rule encode_int32) (simp_all add: assms)
  have k: "length (client_key (g_s h)) = 4" "length (msg_buf h) = 512" using assms(2) by (simp_all add: client_ok_def)
  let ?b = "le_bytes 4 (word_of_int i :: u32) @ drop 8 (J 16)"
  have l: "4 \<le> length ?b" "16 + 4 \<le> (512 :: nat)" "take 4 ?b = le_bytes 4 (word_of_int i :: u32)" by simp_all
  note w = write_on_stream[OF k l(1,2), of BEST_EFFORT_STREAM_0 datawriter_1, unfolded l(3)]
  have "send_ping J i h = (net_ok h (sends h), h\<lparr>g_s := numbered (g_s h), msg_buf := ping_message (g_s h) i @ drop 20 (msg_buf h),
      sends := Suc (sends h), datagrams := datagrams h @ [ping_message (g_s h) i]\<rparr>)"
    using w by (simp add: send_ping_def e cdr_header_def sendto_def ping_message_def)
  moreover have "length (ping_message (g_s h) i @ drop 20 (msg_buf h)) = 512" using w(2) k by (simp add: ping_message_def)
  ultimately show ?thesis by blast
qed

text \<open>The clock eventually passes every time.\<close>

definition lat_runs :: "'a lat_host_scheme \<Rightarrow> bool" where
  "lat_runs h \<longleftrightarrow> (\<forall>t i. \<exists>j > i. t \<le> lat_clock h j)"

lemma lat_runsD: "lat_runs h \<Longrightarrow> \<exists>n. t \<le> lat_clock h (clock_reads h + n)"
  unfolding lat_runs_def by (metis less_imp_add_positive)

text \<open>The number in the datagram that the k-th next \<^verbatim>\<open>recv\<close> finds.\<close>

definition echo_at :: "'a host_scheme \<Rightarrow> nat \<Rightarrow> int option" where
  "echo_at h k = echo_value (take 256 (net_in h (recvs h + k)))"

lemma await_echo_returns:
  assumes "deadline \<le> lat_clock h (clock_reads h + n)"
  shows "\<exists>m c. await_echo deadline i h = Some (\<exists>k < m. echo_at h k = Some i, h\<lparr>recvs := recvs h + m, clock_reads := c\<rparr>)"
  using assms
proof (induction n arbitrary: h)
  case 0
  then have "await_echo deadline i h = Some (\<exists>k < 0. echo_at h k = Some i, h\<lparr>recvs := recvs h + 0, clock_reads := Suc (clock_reads h)\<rparr>)"
    by (subst await_echo.simps) (simp add: lat_now_ms_def)
  then show ?case by blast
next
  case (Suc n)
  let ?h = "h\<lparr>clock_reads := Suc (clock_reads h), recvs := Suc (recvs h)\<rparr>"
  have sh: "echo_at ?h k = echo_at h (Suc k)" for k by (simp add: echo_at_def)
  obtain m c where IH: "await_echo deadline i ?h = Some (\<exists>k < m. echo_at ?h k = Some i, ?h\<lparr>recvs := recvs ?h + m, clock_reads := c\<rparr>)"
    using Suc.IH[of ?h] Suc.prems by auto
  consider (late) "\<not> lat_clock h (clock_reads h) < deadline" | (hit) "lat_clock h (clock_reads h) < deadline" "echo_at h 0 = Some i"
    | (miss) "lat_clock h (clock_reads h) < deadline" "echo_at h 0 \<noteq> Some i" by blast
  then show ?case
  proof cases
    case late
    then have "await_echo deadline i h = Some (\<exists>k < 0. echo_at h k = Some i, h\<lparr>recvs := recvs h + 0, clock_reads := Suc (clock_reads h)\<rparr>)"
      by (subst await_echo.simps) (simp add: lat_now_ms_def)
    then show ?thesis by blast
  next
    case hit
    then have "await_echo deadline i h = Some (\<exists>k < 1. echo_at h k = Some i, h\<lparr>recvs := recvs h + 1, clock_reads := Suc (clock_reads h)\<rparr>)"
      by (subst await_echo.simps) (simp add: lat_now_ms_def recv_def echo_at_def)
    then show ?thesis by blast
  next
    case miss
    then have "await_echo deadline i h = await_echo deadline i ?h"
      by (subst await_echo.simps) (auto simp: lat_now_ms_def recv_def echo_at_def split: option.split)
    moreover have "(\<exists>k < m. echo_at ?h k = Some i) \<longleftrightarrow> (\<exists>k < Suc m. echo_at h k = Some i)"
      using miss(2) unfolding sh by (auto simp: less_Suc_eq_0_disj)
    ultimately have "await_echo deadline i h = Some (\<exists>k < Suc m. echo_at h k = Some i, h\<lparr>recvs := recvs h + Suc m, clock_reads := c\<rparr>)"
      using IH by simp
    then show ?thesis by blast
  qed
qed

section \<open>Lemmas: order statistics\<close>

lemma insort_facts:
  "length (filter P (insort x xs)) = length (filter P (x # xs))" "sum_list (insort (y :: rat) ys) = y + sum_list ys"
proof -
  show "length (filter P (insort x xs)) = length (filter P (x # xs))" by (induction xs) simp_all
  show "sum_list (insort y ys) = y + sum_list ys" by (induction ys) simp_all
qed

lemma length_filter_sort: "length (filter P (sort xs)) = length (filter P xs)"
  by (induction xs) (simp_all add: insort_facts)

lemma sum_list_sort: "sum_list (sort xs) = sum_list xs" for xs :: "rat list"
  by (induction xs) (simp_all add: insort_facts)

lemma filter_all_prefix: "(\<And>x. x \<in> set xs \<Longrightarrow> P x) \<Longrightarrow> length xs \<le> length (filter P (xs @ ys))"
  by simp

lemma rank_below:
  assumes "i < length xs"
  shows "i + 1 \<le> length (filter (\<lambda>x. x \<le> sort xs ! i) xs)"
proof -
  let ?ys = "sort xs"
  have "x \<le> ?ys ! i" if "x \<in> set (take (i + 1) ?ys)" for x
    using that assms by (auto simp: in_set_conv_nth intro!: sorted_nth_mono)
  then have "length (take (i + 1) ?ys) \<le> length (filter (\<lambda>x. x \<le> ?ys ! i) (take (i + 1) ?ys @ drop (i + 1) ?ys))"
    by (rule filter_all_prefix)
  then show ?thesis using assms by (simp add: length_filter_sort del: filter_append)
qed

lemma rank_above:
  assumes "i < length xs"
  shows "length xs - i \<le> length (filter (\<lambda>x. sort xs ! i \<le> x) xs)"
proof -
  let ?ys = "sort xs"
  have "?ys ! i \<le> x" if "x \<in> set (drop i ?ys)" for x
    using that assms by (auto simp: in_set_conv_nth intro!: sorted_nth_mono)
  then have "length (drop i ?ys) \<le> length (filter (\<lambda>x. ?ys ! i \<le> x) (drop i ?ys @ take i ?ys))"
    by (rule filter_all_prefix)
  also have "\<dots> = length (filter (\<lambda>x. ?ys ! i \<le> x) (take i ?ys @ drop i ?ys))" by (simp only: filter_append length_append add.commute)
  finally have "length (drop i ?ys) \<le> length (filter (\<lambda>x. ?ys ! i \<le> x) (take i ?ys @ drop i ?ys))" .
  then show ?thesis using assms by (simp add: length_filter_sort del: filter_append)
qed

lemma sum_of_elements: "fold (\<lambda>i s. s + a ! i) [0..<n] z = z + sum_list (map ((!) a) [0..<n])" for a :: "rat list"
  by (induction n) simp_all

text \<open>What the summary of the latencies \<open>xs\<close> is meant to say.\<close>

definition summarises :: "bench_line \<Rightarrow> rat list \<Rightarrow> bool" where
  "summarises l xs \<longleftrightarrow> (case l of
       Summary mn p50 mean p95 mx \<Rightarrow>
         mn = Min (set xs) \<and> mx = Max (set xs) \<and> mean = sum_list xs / of_nat (length xs) \<and>
         mn \<le> p50 \<and> p50 \<le> p95 \<and> p95 \<le> mx \<and> {p50, p95} \<subseteq> set xs \<and>
         length xs < 2 * length (filter (\<lambda>x. x \<le> p50) xs) \<and> length xs \<le> 2 * length (filter (\<lambda>x. p50 \<le> x) xs) \<and>
         95 * length xs < 100 * length (filter (\<lambda>x. x \<le> p95) xs)
     | _ \<Rightarrow> False)"

lemma summary_line_exact:
  assumes "0 < n" "n \<le> length a"
  shows "summarises (summary_line a n) (take n a)"
proof -
  let ?xs = "take n a" and ?ys = "sort (take n a)"
  have l: "length ?xs = n" "length ?ys = n" using assms(2) by simp_all
  have q: "qsort n a ! i = ?ys ! i" if "i < n" for i using that l by (simp add: qsort_def nth_append)
  have i: "p95_index n = n * 95 div 100" "n * 95 div 100 < n" "n div 2 < n" "n - 1 < n" using assms(1) by (auto simp: p95_index_def)
  have mono: "?ys ! j \<le> ?ys ! k" if "j \<le> k" "k < n" for j k using that l by (simp add: sorted_nth_mono)
  have ends: "?ys ! 0 \<le> x" "x \<le> ?ys ! (n - 1)" if "x \<in> set ?xs" for x
  proof -
    have "x \<in> set ?ys" using that by (simp only: set_sort)
    then obtain j where "j < n" "x = ?ys ! j" unfolding in_set_conv_nth l(2) by blast
    then show "?ys ! 0 \<le> x" "x \<le> ?ys ! (n - 1)" using mono[of 0 j] mono[of j "n - 1"] by simp_all
  qed
  have mem: "?ys ! j \<in> set ?xs" if "j < n" for j
    using nth_mem[of j ?ys] that unfolding l(2) set_sort by blast
  have s: "sum_list (map ((!) (qsort n a)) [0..<n]) = sum_list ?xs"
  proof -
    have "map ((!) (qsort n a)) [0..<n] = ?ys" using q l(2) by (intro nth_equalityI) simp_all
    then show ?thesis by (simp add: sum_list_sort)
  qed
  have mm: "?ys ! 0 = Min (set ?xs)" "?ys ! (n - 1) = Max (set ?xs)"
    by (rule Min_eqI[symmetric], rule finite_set, erule ends(1), rule mem[OF assms(1)])
      (rule Max_eqI[symmetric], rule finite_set, erule ends(2), rule mem[OF i(4)])
  have o: "?ys ! 0 \<le> ?ys ! (n div 2)" "?ys ! (n div 2) \<le> ?ys ! (n * 95 div 100)" "?ys ! (n * 95 div 100) \<le> ?ys ! (n - 1)"
    using i by (auto intro!: mono)
  have r: "n < 2 * length (filter (\<lambda>x. x \<le> ?ys ! (n div 2)) ?xs)" "n \<le> 2 * length (filter (\<lambda>x. ?ys ! (n div 2) \<le> x) ?xs)"
    "95 * n < 100 * length (filter (\<lambda>x. x \<le> ?ys ! (n * 95 div 100)) ?xs)"
  proof -
    have ar: "n div 2 + 1 \<le> k \<Longrightarrow> n < 2 * k" "n - n div 2 \<le> k \<Longrightarrow> n \<le> 2 * k" "n * 95 div 100 + 1 \<le> k \<Longrightarrow> 95 * n < 100 * k" for k by arith+
    show "n < 2 * length (filter (\<lambda>x. x \<le> ?ys ! (n div 2)) ?xs)" "n \<le> 2 * length (filter (\<lambda>x. ?ys ! (n div 2) \<le> x) ?xs)"
      "95 * n < 100 * length (filter (\<lambda>x. x \<le> ?ys ! (n * 95 div 100)) ?xs)"
      by (rule ar, rule rank_below[of _ ?xs, unfolded l(1)], rule i)
        (rule ar, rule rank_above[of _ ?xs, unfolded l(1)], rule i, rule ar, rule rank_below[of _ ?xs, unfolded l(1)], rule i)
  qed
  show ?thesis
    using s mm o r mem[OF i(2)] mem[OF i(3)] assms(1) l
    by (simp add: summarises_def summary_line_def Let_def sum_of_elements i q)
qed

section \<open>Lemmas: the sequential mode\<close>

definition ok_latencies :: "bench_line list \<Rightarrow> rat list" where
  "ok_latencies ls = List.map_filter (\<lambda>l. case l of Ping_ok _ x \<Rightarrow> Some x | _ \<Rightarrow> None) ls"

definition timeouts :: "bench_line list \<Rightarrow> nat" where
  "timeouts ls = length (filter (\<lambda>l. case l of Ping_timed_out _ \<Rightarrow> True | _ \<Rightarrow> False) ls)"

lemma line_counts [simp]:
  "ok_latencies [] = []" "timeouts [] = 0" "ok_latencies (Ping_ok i x # ls) = x # ok_latencies ls"
  "ok_latencies (Ping_timed_out i # ls) = ok_latencies ls" "timeouts (Ping_ok i x # ls) = timeouts ls"
  "timeouts (Ping_timed_out i # ls) = Suc (timeouts ls)"
  by (simp_all add: ok_latencies_def timeouts_def map_filter_def)

text \<open>What every operation on the host keeps.\<close>

definition lat_same :: "lat_host \<Rightarrow> lat_host \<Rightarrow> bool" where
  "lat_same h h' \<longleftrightarrow> net_in h' = net_in h \<and> net_ok h' = net_ok h \<and> lat_clock h' = lat_clock h \<and> recvs h \<le> recvs h' \<and>
     (client_ok h \<longrightarrow> client_ok h')"

lemma lat_same_trans: "lat_same h h1 \<Longrightarrow> lat_same h1 h2 \<Longrightarrow> lat_same h h2"
  by (auto simp: lat_same_def)

lemma lat_same_runs: "lat_same h h' \<Longrightarrow> lat_runs h \<Longrightarrow> lat_runs h'"
  by (simp add: lat_same_def lat_runs_def)

text \<open>The outcomes of one ping: not sent, answered, or timed out.\<close>

inductive ping_outcome :: "lat_host \<Rightarrow> nat \<Rightarrow> int \<Rightarrow> lat_stats \<Rightarrow> lat_stats \<Rightarrow> bench_line list \<Rightarrow> bool" for h r i st where
  not_sent: "\<not> net_ok h (sends h) \<Longrightarrow> ping_outcome h r i st st []"
| answered: "net_ok h (sends h) \<Longrightarrow> recvs h \<le> k \<Longrightarrow> k < r \<Longrightarrow> echo_value (take 256 (net_in h k)) = Some i \<Longrightarrow>
    ping_outcome h r i st (st\<lparr>latencies_ms := (latencies_ms st)[received st := x], received := received st + 1\<rparr>) [Ping_ok i x]"
| timed: "net_ok h (sends h) \<Longrightarrow> ping_outcome h r i st (st\<lparr>timed_out := timed_out st + 1\<rparr>) [Ping_timed_out i]"

lemma ping_once_exact:
  assumes "\<And>n. length (J n) = n" "client_ok h" "lat_runs h" "received st < length (latencies_ms st)"
  shows "\<exists>st' h' ls. ping_once J i st h = Some (Inr (st', h')) \<and> lat_same h h' \<and> ping_outcome h (recvs h') i st st' ls \<and>
     datagrams h' = datagrams h @ [ping_message (g_s h) i] \<and> g_s h' = numbered (g_s h) \<and> sends h' = Suc (sends h) \<and>
     bench_out h' = bench_out h @ ls"
proof -
  let ?t0 = "lat_clock h (clock_reads h)"
  have c0: "client_ok (h\<lparr>clock_reads := Suc (clock_reads h)\<rparr>)" using assms(2) by (simp add: client_ok_def)
  obtain buf where b: "send_ping J i (h\<lparr>clock_reads := Suc (clock_reads h)\<rparr>) = (net_ok h (sends h), h\<lparr>clock_reads := Suc (clock_reads h),
      g_s := numbered (g_s h), msg_buf := buf, sends := Suc (sends h), datagrams := datagrams h @ [ping_message (g_s h) i]\<rparr>)" "length buf = 512"
    using send_ping_exact[of J, OF assms(1) c0, of i] by auto
  define h1 where "h1 = h\<lparr>clock_reads := Suc (clock_reads h), g_s := numbered (g_s h), msg_buf := buf, sends := Suc (sends h),
      datagrams := datagrams h @ [ping_message (g_s h) i]\<rparr>"
  have s1: "lat_same h (h1\<lparr>recvs := recvs h1 + m, clock_reads := c, bench_out := ls\<rparr>)" for m c ls
    using b(2) by (simp add: lat_same_def h1_def client_ok_def numbered_def)
  show ?thesis
  proof (cases "net_ok h (sends h)")
    case False
    then have "ping_once J i st h = Some (Inr (st, h1))" using b(1) by (simp add: ping_once_def lat_now_ms_def h1_def)
    moreover have "lat_same h h1" using s1[where m = 0 and c = "clock_reads h1" and ls = "bench_out h1"] by simp
    ultimately show ?thesis using not_sent[OF False] by (auto simp: h1_def)
  next
    case True
    have "lat_runs h1" using assms(3) by (simp add: lat_runs_def h1_def)
    then obtain n where "?t0 + 3000 \<le> lat_clock h1 (clock_reads h1 + n)" using lat_runsD by blast
    from await_echo_returns[OF this] obtain m c where
      a: "await_echo (?t0 + 3000) i h1 = Some (\<exists>k < m. echo_at h1 k = Some i, h1\<lparr>recvs := recvs h1 + m, clock_reads := c\<rparr>)" by blast
    show ?thesis
    proof (cases "\<exists>k < m. echo_at h1 k = Some i")
      case hit: True
      then have ah: "await_echo (?t0 + 3000) i h1 = Some (True, h1\<lparr>recvs := recvs h1 + m, clock_reads := c\<rparr>)" using a by simp
      from hit obtain k where k: "k < m" "echo_value (take 256 (net_in h (recvs h + k))) = Some i" by (auto simp: echo_at_def h1_def)
      let ?x = "lat_clock h c - ?t0"
      let ?h' = "h1\<lparr>recvs := recvs h1 + m, clock_reads := Suc c, bench_out := bench_out h1 @ [Ping_ok i ?x]\<rparr>"
      let ?st = "st\<lparr>latencies_ms := (latencies_ms st)[received st := ?x], received := received st + 1\<rparr>"
      have "ping_once J i st h = Some (Inr (?st, ?h'))"
        using b(1) ah True assms(4) by (simp add: ping_once_def lat_now_ms_def bench_put_def h1_def Let_def)
      moreover have "ping_outcome h (recvs ?h') i st ?st [Ping_ok i ?x]"
        by (rule answered[OF True, of "recvs h + k"]) (use k in \<open>simp_all add: h1_def\<close>)
      ultimately show ?thesis using s1[where m = m and c = "Suc c" and ls = "bench_out h1 @ [Ping_ok i ?x]"] by (intro exI conjI) (assumption | simp add: h1_def)+
    next
      case miss: False
      then have am: "await_echo (?t0 + 3000) i h1 = Some (False, h1\<lparr>recvs := recvs h1 + m, clock_reads := c\<rparr>)" using a by simp
      let ?h' = "h1\<lparr>recvs := recvs h1 + m, clock_reads := c, bench_out := bench_out h1 @ [Ping_timed_out i]\<rparr>"
      have "ping_once J i st h = Some (Inr (st\<lparr>timed_out := timed_out st + 1\<rparr>, ?h'))"
        using b(1) am True by (simp add: ping_once_def lat_now_ms_def bench_put_def h1_def)
      then show ?thesis
        using s1[where m = m and c = c and ls = "bench_out h1 @ [Ping_timed_out i]"] timed[OF True, of "recvs ?h'" i st]
        by (intro exI conjI) (assumption | simp add: h1_def)+
    qed
  qed
qed

lemma ping_outcome_counts:
  assumes "ping_outcome h r i st st' ls" "received st < length (latencies_ms st)"
  shows "length (latencies_ms st') = length (latencies_ms st)" "received st' = received st + length (ok_latencies ls)"
    "take (received st') (latencies_ms st') = take (received st) (latencies_ms st) @ ok_latencies ls"
    "timed_out st' = timed_out st + timeouts ls" "length ls = (if net_ok h (sends h) then 1 else 0)"
    "length ls = length (ok_latencies ls) + timeouts ls"
    "Ping_ok j x \<in> set ls \<Longrightarrow> j = i \<and> (\<exists>k. recvs h \<le> k \<and> k < r \<and> echo_value (take 256 (net_in h k)) = Some i)"
  using assms by (induction rule: ping_outcome.induct) (auto simp: take_Suc_conv_app_nth)

lemma ping_all_exact:
  assumes "\<And>n. length (J n) = n" "client_ok h" "lat_runs h" "received st + length is \<le> length (latencies_ms st)"
  shows "\<exists>st' h' ls. ping_all J is st h = Some (Inr (st', h')) \<and> lat_same h h' \<and>
     datagrams h' = datagrams h @ ping_messages (g_s h) is \<and> bench_out h' = bench_out h @ ls \<and>
     length (latencies_ms st') = length (latencies_ms st) \<and> received st' = received st + length (ok_latencies ls) \<and>
     take (received st') (latencies_ms st') = take (received st) (latencies_ms st) @ ok_latencies ls \<and>
     timed_out st' = timed_out st + timeouts ls \<and>
     length (ok_latencies ls) + timeouts ls + length (filter (\<lambda>j. \<not> net_ok h j) [sends h..<sends h + length is]) = length is \<and>
     (\<forall>i x. Ping_ok i x \<in> set ls \<longrightarrow> i \<in> set is \<and> (\<exists>k. recvs h \<le> k \<and> k < recvs h' \<and> echo_value (take 256 (net_in h k)) = Some i))"
  using assms(2-4)
proof (induction "is" arbitrary: st h)
  case Nil
  have "lat_same h h" by (simp add: lat_same_def)
  then show ?case by (intro exI[of _ st] exI[of _ h] exI[of _ "[]"]) simp
next
  case (Cons i "is")
  have lt: "received st < length (latencies_ms st)" using Cons.prems(3) by simp
  obtain st1 h1 l1 where 1: "ping_once J i st h = Some (Inr (st1, h1))" "lat_same h h1" "ping_outcome h (recvs h1) i st st1 l1"
      "datagrams h1 = datagrams h @ [ping_message (g_s h) i]" "g_s h1 = numbered (g_s h)" "sends h1 = Suc (sends h)"
      "bench_out h1 = bench_out h @ l1"
    using ping_once_exact[of J, OF assms(1) Cons.prems(1,2) lt, of i] by blast
  note c1 = ping_outcome_counts[OF 1(3) lt]
  have p1: "client_ok h1" "lat_runs h1" "net_ok h1 = net_ok h" "net_in h1 = net_in h" "recvs h \<le> recvs h1"
    using 1(2) Cons.prems(1) lat_same_runs[OF 1(2) Cons.prems(2)] by (simp_all add: lat_same_def)
  have le1: "received st1 + length is \<le> length (latencies_ms st1)" using c1 Cons.prems(3) by (auto split: if_splits)
  obtain st' h' ls where 2: "ping_all J is st1 h1 = Some (Inr (st', h'))" "lat_same h1 h'"
      "datagrams h' = datagrams h1 @ ping_messages (g_s h1) is" "bench_out h' = bench_out h1 @ ls"
      "length (latencies_ms st') = length (latencies_ms st1)" "received st' = received st1 + length (ok_latencies ls)"
      "take (received st') (latencies_ms st') = take (received st1) (latencies_ms st1) @ ok_latencies ls"
      "timed_out st' = timed_out st1 + timeouts ls"
      "length (ok_latencies ls) + timeouts ls + length (filter (\<lambda>j. \<not> net_ok h1 j) [sends h1..<sends h1 + length is]) = length is"
      "\<forall>i x. Ping_ok i x \<in> set ls \<longrightarrow> i \<in> set is \<and> (\<exists>k. recvs h1 \<le> k \<and> k < recvs h' \<and> echo_value (take 256 (net_in h1 k)) = Some i)"
    using Cons.IH[OF p1(1,2) le1] by blast
  have r: "recvs h1 \<le> recvs h'" using 2(2) by (simp add: lat_same_def)
  have app: "ok_latencies (l1 @ ls) = ok_latencies l1 @ ok_latencies ls" "timeouts (l1 @ ls) = timeouts l1 + timeouts ls"
    by (simp_all add: ok_latencies_def timeouts_def map_filter_def)
  have sn: "[sends h..<sends h + length (i # is)] = sends h # [sends h1..<sends h1 + length is]" using 1(6) upt_conv_Cons[of "sends h" "Suc (sends h + length is)"] by (simp del: upt_Suc)
  have ev: "j \<in> set (i # is) \<and> (\<exists>k. recvs h \<le> k \<and> k < recvs h' \<and> echo_value (take 256 (net_in h k)) = Some j)"
    if lj: "Ping_ok j x \<in> set (l1 @ ls)" for j x
  proof (cases "Ping_ok j x \<in> set l1")
    case True
    then show ?thesis using c1(7)[of j x] r by (auto dest: order_less_le_trans)
  next
    case False
    then obtain k where "j \<in> set is" "recvs h1 \<le> k" "k < recvs h'" "echo_value (take 256 (net_in h k)) = Some j"
      using lj 2(10) p1(4) by auto
    then show ?thesis using p1(5) by (auto intro!: exI[of _ k])
  qed
  have "ping_all J (i # is) st h = Some (Inr (st', h'))" using 1(1) 2(1) by simp
  moreover have "length (ok_latencies (l1 @ ls)) + timeouts (l1 @ ls) + length (filter (\<lambda>j. \<not> net_ok h j) [sends h..<sends h + length (i # is)]) = length (i # is)"
    unfolding sn app using c1(5,6) 2(9) p1(3) by (auto split: if_splits)
  ultimately show ?case
    using lat_same_trans[OF 1(2) 2(2)] 1 2 c1 app ev by (intro exI[of _ st'] exI[of _ h'] exI[of _ "l1 @ ls"]) simp
qed

section \<open>Lemmas: burst mode\<close>

lemma pings_sent:
  assumes "\<And>n. length (J n) = n" "client_ok h" "h' = fold (\<lambda>i h. snd (send_ping J i h)) is h"
  shows "datagrams h' = datagrams h @ ping_messages (g_s h) is \<and> lat_clock h' = lat_clock h \<and> clock_reads h' = clock_reads h \<and>
     net_in h' = net_in h \<and> recvs h' = recvs h \<and> bench_out h' = bench_out h"
  using assms(2,3)
proof (induction "is" arbitrary: h)
  case (Cons i "is")
  obtain buf where b: "send_ping J i h = (net_ok h (sends h), h\<lparr>g_s := numbered (g_s h), msg_buf := buf, sends := Suc (sends h),
      datagrams := datagrams h @ [ping_message (g_s h) i]\<rparr>)" "length buf = 512"
    using send_ping_exact[of J, OF assms(1) Cons.prems(1)] by blast
  let ?h = "h\<lparr>g_s := numbered (g_s h), msg_buf := buf, sends := Suc (sends h), datagrams := datagrams h @ [ping_message (g_s h) i]\<rparr>"
  have "client_ok ?h" using Cons.prems(1) b(2) by (simp add: client_ok_def numbered_def)
  from Cons.IH[OF this] show ?case using Cons.prems(2) b(1) by simp
qed simp

text \<open>The array \<^verbatim>\<open>seen\<close> and the counter, when the numbers of \<open>S\<close> have been echoed.\<close>

definition marks :: "int \<Rightarrow> int set \<Rightarrow> bool list \<Rightarrow> int \<Rightarrow> bool" where
  "marks count S seen d \<longleftrightarrow> length seen = 4096 \<and> S \<subseteq> {1..count} \<and> (\<forall>v \<in> {1..count}. seen ! nat v \<longleftrightarrow> v \<in> S) \<and> d = int (card S)"

lemma mark_echo_exact:
  assumes "marks count S seen d" "count < 4096"
  shows "\<exists>seen' d'. mark_echo count v seen d = Inr (seen', d') \<and> marks count (S \<union> ({v} \<inter> {1..count})) seen' d'"
proof (cases "v \<in> {1..count} \<and> v \<notin> S")
  case True
  have m: "length seen = 4096" "S \<subseteq> {1..count}" "\<forall>v \<in> {1..count}. seen ! nat v \<longleftrightarrow> v \<in> S" "d = int (card S)"
    using assms(1) by (simp_all add: marks_def)
  have f: "finite S" using m(2) finite_subset by blast
  have b: "nat v < 4096" using True assms(2) by auto
  have "mark_echo count v seen d = Inr (seen[nat v := True], d + 1)" using True m b by (simp add: mark_echo_def)
  moreover have "marks count (insert v S) (seen[nat v := True]) (d + 1)"
    using True m b f by (auto simp: marks_def nth_list_update)
  ultimately show ?thesis using True by (intro exI conjI) (assumption | simp)+
next
  case False
  then have "mark_echo count v seen d = Inr (seen, d)" using assms by (auto simp: mark_echo_def marks_def)
  moreover have "S \<union> ({v} \<inter> {1..count}) = S" using False by auto
  ultimately show ?thesis using assms(1) by simp
qed

text \<open>The numbers echoed by the next \<open>m\<close> datagrams.\<close>

definition echoed :: "int \<Rightarrow> 'a host_scheme \<Rightarrow> nat \<Rightarrow> int set" where
  "echoed count h m = {v \<in> {1..count}. \<exists>k < m. echo_at h k = Some v}"

lemma collect_echoes_exact:
  assumes "deadline \<le> lat_clock h (clock_reads h + n)" "marks count S seen d" "count < 4096"
  shows "\<exists>m c seen' d'. collect_echoes deadline count seen d h = Some (Inr (seen', d', h\<lparr>recvs := recvs h + m, clock_reads := c\<rparr>)) \<and>
     marks count (S \<union> echoed count h m) seen' d' \<and> (d' = count \<or> deadline \<le> lat_clock h (clock_reads h + m))"
  using assms(1,2)
proof (induction n arbitrary: h S seen d)
  case 0
  then have "collect_echoes deadline count seen d h = Some (Inr (seen, d, h\<lparr>recvs := recvs h + 0, clock_reads := Suc (clock_reads h)\<rparr>))"
    by (subst collect_echoes.simps) (simp add: lat_now_ms_def)
  moreover have "S \<union> echoed count h 0 = S" by (simp add: echoed_def)
  ultimately show ?case using 0 by (intro exI[of _ 0] exI conjI) (assumption | simp)+
next
  case (Suc n)
  show ?case
  proof (cases "lat_clock h (clock_reads h) < deadline")
    case False
    then have "collect_echoes deadline count seen d h = Some (Inr (seen, d, h\<lparr>recvs := recvs h + 0, clock_reads := Suc (clock_reads h)\<rparr>))"
      by (subst collect_echoes.simps) (simp add: lat_now_ms_def)
    moreover have "S \<union> echoed count h 0 = S" by (simp add: echoed_def)
    ultimately show ?thesis using Suc.prems(2) False by (intro exI[of _ 0] exI conjI) (assumption | simp)+
  next
    case True
    let ?h = "h\<lparr>clock_reads := Suc (clock_reads h), recvs := Suc (recvs h)\<rparr>"
    have sh: "echo_at ?h k = echo_at h (Suc k)" for k by (simp add: echo_at_def)
    define new where "new = (case echo_at h 0 of None \<Rightarrow> {} | Some v \<Rightarrow> {v} \<inter> {1..count})"
    have e: "echoed count h (Suc m) = new \<union> echoed count ?h m" for m
      unfolding echoed_def sh new_def by (auto simp: less_Suc_eq_0_disj split: option.splits)
    have next_pass: ?thesis if eq: "collect_echoes deadline count seen d h = collect_echoes deadline count seen1 d1 ?h"
      and mk: "marks count (S \<union> new) seen1 d1" for seen1 d1
    proof -
      obtain m c seen' d' where "collect_echoes deadline count seen1 d1 ?h = Some (Inr (seen', d', ?h\<lparr>recvs := recvs ?h + m, clock_reads := c\<rparr>))"
          "marks count (S \<union> new \<union> echoed count ?h m) seen' d'" "d' = count \<or> deadline \<le> lat_clock ?h (clock_reads ?h + m)"
        using Suc.IH[of ?h, OF _ mk] Suc.prems(1) by auto
      then show ?thesis using eq e[of m] by (intro exI[of _ "Suc m"] exI[of _ c] exI[of _ seen'] exI[of _ d']) (simp add: Un_assoc)
    qed
    show ?thesis
    proof (cases "echo_at h 0")
      case None
      then have "collect_echoes deadline count seen d h = collect_echoes deadline count seen d ?h"
        using True by (subst collect_echoes.simps) (simp add: lat_now_ms_def recv_def echo_at_def)
      then show ?thesis by (rule next_pass) (simp add: new_def None Suc.prems(2))
    next
      case (Some v)
      obtain seen1 d1 where m1: "mark_echo count v seen d = Inr (seen1, d1)" "marks count (S \<union> new) seen1 d1"
        using mark_echo_exact[OF Suc.prems(2) assms(3), of v] by (auto simp: new_def Some)
      have step: "collect_echoes deadline count seen d h =
          (if d1 = count then Some (Inr (seen1, d1, ?h)) else collect_echoes deadline count seen1 d1 ?h)"
        using True Some m1(1) by (subst collect_echoes.simps) (simp add: lat_now_ms_def recv_def echo_at_def)
      show ?thesis
      proof (cases "d1 = count")
        case True
        have "echoed count h 1 = new" using e[of 0] by (simp add: echoed_def)
        then show ?thesis
          using step True m1(2) by (intro exI[of _ 1] exI[of _ "Suc (clock_reads h)"] exI[of _ seen1] exI[of _ d1]) simp
      qed (use step m1(2) next_pass in simp)
    qed
  qed
qed

text \<open>Burst mode up to the loop that takes the echoes.\<close>

lemma burst_opening:
  assumes "\<And>i. length (J i) = i" "client_ok h"
  obtains h2 where "lat_clock h2 = lat_clock h" "clock_reads h2 = clock_reads h + 3" "net_in h2 = net_in h" "recvs h2 = recvs h"
    "datagrams h2 = datagrams h @ ping_messages (g_s h) [1..n]"
    "bench_out h2 = bench_out h @ [Pings_sent n (lat_clock h (clock_reads h + 1) - lat_clock h (clock_reads h))]"
    "burst_part J n h = Option.bind (collect_echoes (lat_clock h (clock_reads h + 2) + 3000) n (replicate 4096 False) 0 h2)
       (burst_report n (lat_clock h (clock_reads h + 1)))"
proof -
  let ?t = "lat_clock h (clock_reads h)" and ?t' = "lat_clock h (clock_reads h + 1)" and ?now = "lat_clock h (clock_reads h + 2)"
  define h0 where "h0 = h\<lparr>clock_reads := Suc (clock_reads h)\<rparr>"
  define h1 where "h1 = fold (\<lambda>i h. snd (send_ping J i h)) [1..n] h0"
  define h1' where "h1' = h1\<lparr>clock_reads := clock_reads h + 2\<rparr>"
  define h2 where "h2 = h1'\<lparr>clock_reads := clock_reads h + 3, bench_out := bench_out h1 @ [Pings_sent n (?t' - ?t)]\<rparr>"
  have c0: "client_ok h0" using assms(2) by (simp add: client_ok_def h0_def)
  have p: "lat_clock h1 = lat_clock h" "clock_reads h1 = clock_reads h + 1" "net_in h1 = net_in h" "recvs h1 = recvs h"
    "datagrams h1 = datagrams h @ ping_messages (g_s h) [1..n]" "bench_out h1 = bench_out h"
    using pings_sent[of J, OF assms(1) c0 h1_def] by (simp_all add: h0_def)
  have l: "lat_now_ms h = (?t, h0)" "lat_now_ms h1 = (?t', h1')" "lat_now_ms (bench_put (Pings_sent n (?t' - ?t)) h1') = (?now, h2)"
    using p by (simp_all add: lat_now_ms_def h0_def h1'_def h2_def bench_put_def numeral_3_eq_3)
  show thesis
    by (rule that[of h2])
      (simp_all only: burst_part_def l prod.case h1_def[symmetric], simp_all add: h2_def h1'_def p)
qed

section \<open>Lemmas: the program\<close>

lemma latency_script_ok: "list_all request_ok (map fst latency_script)"
  by (simp add: latency_script_def request_ok_def participant_xml_def host_topic_xml_def host_endpoint_xml_def)

lemma digit_char:
  assumes "d < 10"
  shows "of_char (char_of (48 + d :: nat) :: char) = (of_nat (48 + d) :: int)" "is_digit (char_of (48 + d))" "\<not> is_space (char_of (48 + d))"
    "char_of (48 + d) \<noteq> CHR ''-''" "char_of (48 + d) \<noteq> CHR ''+''"
proof -
  have o: "of_char (char_of (48 + d :: nat) :: char) = (48 + d :: nat)" using assms by (simp add: of_char_of)
  then show "of_char (char_of (48 + d :: nat) :: char) = (of_nat (48 + d) :: int)" by (metis of_nat_of_char)
  show "is_digit (char_of (48 + d))" using o assms by (simp add: is_digit_def)
  have n: "char_of (48 + d) \<noteq> c" if "(of_char c :: nat) < 48" for c :: char using o that by (metis not_add_less1)
  show "\<not> is_space (char_of (48 + d))" using o n[of "CHR '' ''"] by (simp add: is_space_def)
  show "char_of (48 + d) \<noteq> CHR ''-''" "char_of (48 + d) \<noteq> CHR ''+''" by (rule n; simp)+
qed

lemma dec_digits_shape:
  "list_all is_digit (dec_digits n)" "digits_value (dec_digits n) = int n"
  "\<exists>d r. d < (10 :: nat) \<and> dec_digits n = char_of (48 + d) # r"
proof -
  have tw: "takeWhile is_digit xs = xs" if "list_all is_digit xs" for xs using that by (induction xs) simp_all
  have "list_all is_digit (dec_digits n) \<and> foldl (\<lambda>n c. 10 * n + (of_char c - 48)) 0 (dec_digits n) = int n \<and>
      (\<exists>d r. d < (10 :: nat) \<and> dec_digits n = char_of (48 + d) # r)"
  proof (induction n rule: dec_digits.induct)
    case (1 n)
    show ?case
    proof (cases "n < 10")
      case True
      then show ?thesis using digit_char(1,2)[OF True] by (subst (1 2 3) dec_digits.simps) auto
    next
      case False
      have m: "n mod 10 < 10" by simp
      have e: "dec_digits n = dec_digits (n div 10) @ [char_of (48 + n mod 10)]" using False by (subst dec_digits.simps) simp
      have "10 * int (n div 10) + int (n mod 10) = int n" by presburger
      then show ?thesis using 1[OF False] digit_char(1,2)[OF m] unfolding e by auto
    qed
  qed
  then show "list_all is_digit (dec_digits n)" "digits_value (dec_digits n) = int n" "\<exists>d r. d < (10 :: nat) \<and> dec_digits n = char_of (48 + d) # r"
    by (simp_all add: digits_value_def tw)
qed

text \<open>A printed number is read back.\<close>

lemma atoi_dec_digits: "atoi (dec_digits n) = int n"
proof -
  obtain d :: nat and r where d: "d < 10" "dec_digits n = char_of (48 + d) # r" using dec_digits_shape(3) by blast
  show ?thesis using dec_digits_shape(2)[of n] digit_char(3-5)[OF d(1)] unfolding d(2) by (simp add: atoi_def)
qed

lemma parts_return:
  assumes "\<And>i. length (J i) = i" "client_ok h" "lat_runs h"
  shows "length a = 4096 \<Longrightarrow> \<exists>h'. sequential_part J a n h = Some (Inr h')" "n < 4096 \<Longrightarrow> \<exists>h'. burst_part J n h = Some (Inr h')"
proof -
  let ?st = "\<lparr>latencies_ms = a, received = 0, timed_out = 0\<rparr>"
  show "\<exists>h'. sequential_part J a n h = Some (Inr h')" if "length a = 4096"
  proof -
    have "received ?st + length [1..to_run n] \<le> length (latencies_ms ?st)" using that by (auto simp: to_run_def)
    from ping_all_exact[of J, OF assms this] show ?thesis by (auto simp: sequential_part_def Let_def)
  qed
  show "\<exists>h'. burst_part J n h = Some (Inr h')" if "n < 4096"
  proof -
    obtain h2 where h2: "lat_clock h2 = lat_clock h"
      "burst_part J n h = Option.bind (collect_echoes (lat_clock h (clock_reads h + 2) + 3000) n (replicate 4096 False) 0 h2)
         (burst_report n (lat_clock h (clock_reads h + 1)))"
      using burst_opening[of J, OF assms(1,2), of n] by metis
    have "lat_runs h2" using assms(3) h2(1) by (simp add: lat_runs_def)
    then obtain k where "lat_clock h (clock_reads h + 2) + 3000 \<le> lat_clock h2 (clock_reads h2 + k)" using lat_runsD by blast
    moreover have "marks n {} (replicate 4096 False) 0" using that by (auto simp: marks_def)
    ultimately show ?thesis using collect_echoes_exact[OF _ _ that] h2(2) by (fastforce simp: burst_report_def lat_now_ms_def)
  qed
qed

lemma lat_clock_same_world: "same_world h h' \<Longrightarrow> lat_clock h' = lat_clock h" for h :: "'a lat_host_scheme"
  by (cases h; cases h') (simp add: same_world_def)

section \<open>Properties\<close>


text \<open>A firmware that echoes \<open>v\<close> at once and then is silent.\<close>

definition echo_once :: "u8 list \<Rightarrow> nat \<Rightarrow> bytes" where
  "echo_once v i = (if i = 0 then [0x81, 0, 0, 0, XRCE_SUBMSG_DATA, 1, 8, 0, 0, 1, 0, 0x16] @ v else [])"

definition sample_bench :: "u8 list \<Rightarrow> lat_host" where
  "sample_bench v = host.extend (sample_host (echo_once v)) (lat_host.fields (\<lambda>i. of_nat (100 * i)) [])"

lemma sample_bench_ok:
  "client_ok (sample_bench v)" "lat_runs (sample_bench v)" "net_ok (sample_bench v) = (\<lambda>_. True)" "net_in (sample_bench v) = echo_once v"
  "recvs (sample_bench v) = 0" "clock_reads (sample_bench v) = 0" "sends (sample_bench v) = 0" "datagrams (sample_bench v) = []"
  "lat_clock (sample_bench v) i = of_nat (100 * i)" "bench_out (sample_bench v) = []"
proof -
  show "client_ok (sample_bench v)" "net_ok (sample_bench v) = (\<lambda>_. True)" "net_in (sample_bench v) = echo_once v"
    "recvs (sample_bench v) = 0" "clock_reads (sample_bench v) = 0" "sends (sample_bench v) = 0" "datagrams (sample_bench v) = []"
    "lat_clock (sample_bench v) i = of_nat (100 * i)" "bench_out (sample_bench v) = []"
    by (simp_all add: sample_bench_def sample_host_def client_ok_def xrce_session_init_def host.defs lat_host.defs)
  have "\<exists>j > i. t \<le> of_nat (100 * j)" for t :: rat and i
  proof -
    obtain k where "t \<le> of_nat k" using real_arch_simple[of t] by blast
    then have "t \<le> of_nat (100 * (k + Suc i))" by (rule order_trans) (simp del: of_nat_mult of_nat_Suc of_nat_add)
    then show ?thesis by (intro exI[of _ "k + Suc i"]) simp
  qed
  then show "lat_runs (sample_bench v)" by (simp add: lat_runs_def sample_bench_def host.defs lat_host.defs sample_host_def)
qed

lemma echo_once_values: "echo_value (take 256 (echo_once [1, 0, 0, 0] 0)) = Some 1" "echo_value (take 256 (echo_once [0, 16, 0, 0] 0)) = Some 4096"
  by code_simp+


text \<open>
  Burst mode with fewer than 4096 pings. If the clock goes on, the run ends without leaving the array of
  flags. It sends the pings 1 to n in order, and the reported number is that of the distinct pings echoed by
  the datagrams it took; it stops taking them before the deadline only when every ping was echoed.
\<close>

theorem burst_counts_distinct_echoes:
  assumes "\<And>i. length (J i) = i" "client_ok h" "lat_runs h" "n < 4096"
  shows "\<exists>h' m t1 t2. burst_part J n h = Some (Inr h') \<and> recvs h' = recvs h + m \<and>
     datagrams h' = datagrams h @ ping_messages (g_s h) [1..n] \<and>
     bench_out h' = bench_out h @ [Pings_sent n t1,
       Echoes (int (card (echoed n h m))) n t2 (if n = 0 then None else Some (100 * of_int (n - int (card (echoed n h m))) / of_int n))] \<and>
     (int (card (echoed n h m)) = n \<or>
       lat_clock h (clock_reads h + 2) + PER_SAMPLE_TIMEOUT_MS \<le> lat_clock h (clock_reads h + 3 + m))"
proof -
  let ?t' = "lat_clock h (clock_reads h + 1)" and ?now = "lat_clock h (clock_reads h + 2)"
  obtain h2 where h2: "lat_clock h2 = lat_clock h" "clock_reads h2 = clock_reads h + 3" "net_in h2 = net_in h" "recvs h2 = recvs h"
      "datagrams h2 = datagrams h @ ping_messages (g_s h) [1..n]"
      "bench_out h2 = bench_out h @ [Pings_sent n (?t' - lat_clock h (clock_reads h))]"
    and bp: "burst_part J n h = Option.bind (collect_echoes (?now + 3000) n (replicate 4096 False) 0 h2) (burst_report n ?t')"
    using burst_opening[of J, OF assms(1,2)] by metis
  have "lat_runs h2" using assms(3) h2(1) by (simp add: lat_runs_def)
  then obtain k where k: "?now + 3000 \<le> lat_clock h2 (clock_reads h2 + k)" using lat_runsD by blast
  have m0: "marks n {} (replicate 4096 False) 0" using assms(4) by (auto simp: marks_def)
  obtain m c seen d where col: "collect_echoes (?now + 3000) n (replicate 4096 False) 0 h2 = Some (Inr (seen, d, h2\<lparr>recvs := recvs h2 + m, clock_reads := c\<rparr>))"
      "marks n ({} \<union> echoed n h2 m) seen d" "d = n \<or> ?now + 3000 \<le> lat_clock h2 (clock_reads h2 + m)"
    using collect_echoes_exact[OF k m0 assms(4)] by blast
  have d: "d = int (card (echoed n h m))" using col(2) h2(3,4) by (simp add: marks_def echoed_def echo_at_def)
  have "burst_part J n h = Some (Inr (h2\<lparr>recvs := recvs h + m, clock_reads := Suc c, bench_out := bench_out h2 @
      [Echoes d n (lat_clock h c - ?t') (if n = 0 then None else Some (100 * of_int (n - d) / of_int n))]\<rparr>))"
    using bp col(1) h2(1,4) by (simp add: burst_report_def lat_now_ms_def bench_put_def)
  then show ?thesis using h2 col(3) d by (intro exI conjI) (assumption | simp add: add.assoc)+
qed

theorem burst_counts_distinct_echoes_witness:
  "\<exists>h'. burst_part (\<lambda>n. replicate n 0) 2 (sample_bench [1, 0, 0, 0]) = Some (Inr h') \<and> length (datagrams h') = 2"
proof -
  have t: "[1..2] = [1, 2 :: int]" by code_simp
  have J: "length (replicate n (0 :: u8)) = n" for n by simp
  show ?thesis
    using burst_counts_distinct_echoes[OF J sample_bench_ok(1)[of "[1, 0, 0, 0]"] sample_bench_ok(2), of 2]
    by (fastforce simp: t sample_bench_ok)
qed

text \<open>
  C35: Burst mode with 4096 pings or more leaves the array of flags: a single echo of a ping from 4096 on, before
  the deadline, makes the program write behind the end of \<^verbatim>\<open>seen\<close>.
\<close>

theorem burst_overruns_seen:
  assumes "\<And>i. length (J i) = i" "client_ok h" "4096 \<le> v" "v \<le> n" "echo_value (take 256 (net_in h (recvs h))) = Some v"
    and "lat_clock h (clock_reads h + 3) < lat_clock h (clock_reads h + 2) + PER_SAMPLE_TIMEOUT_MS"
  shows "burst_part J n h = Some (Inl (Out_of_bounds v))"
proof -
  obtain h2 where h2: "lat_clock h2 = lat_clock h" "clock_reads h2 = clock_reads h + 3" "net_in h2 = net_in h" "recvs h2 = recvs h"
    and bp: "burst_part J n h = Option.bind (collect_echoes (lat_clock h (clock_reads h + 2) + 3000) n (replicate 4096 False) 0 h2)
       (burst_report n (lat_clock h (clock_reads h + 1)))"
    using burst_opening[of J, OF assms(1,2), of n] by metis
  have v: "4096 \<le> nat v" "1 \<le> v" using assms(3) by simp_all
  have "collect_echoes (lat_clock h (clock_reads h + 2) + 3000) n (replicate 4096 False) 0 h2 = Some (Inl (Out_of_bounds v))"
    using assms(4-6) h2 v by (subst collect_echoes.simps) (simp add: lat_now_ms_def recv_def mark_echo_def)
  then show ?thesis using bp by (simp add: burst_report_def)
qed

theorem burst_overruns_seen_witness:
  "burst_part (\<lambda>n. replicate n 0) 5000 (sample_bench [0, 16, 0, 0]) = Some (Inl (Out_of_bounds 4096))"
proof -
  have J: "length (replicate n (0 :: u8)) = n" for n by simp
  show ?thesis
    by (rule burst_overruns_seen[OF J sample_bench_ok(1)]) (simp_all add: sample_bench_ok echo_once_values)
qed

text \<open>
  The program returns. With fewer than 4096 pings in burst mode, any number of them otherwise, and a clock that
  goes on, \<^verbatim>\<open>main\<close> returns whatever arrives: 2 without an address and a port, 1 when a step of the set-up
  fails, 0 otherwise.
\<close>

theorem latency_main_returns:
  assumes "\<And>i. length (J i) = i" "length (msg_buf h) = 512" "lat_runs h" "length a = 4096" "burst_mode argv \<Longrightarrow> bench_count argv < 4096"
  shows "\<exists>h'. latency_main J a pid argv h = Some (Inr (Exited
      (if length argv < 3 then 2
       else if \<forall>i < length latency_script. step_passes (h\<lparr>g_s := xrce_session_init 2 (bench_key pid) 512\<rparr>) latency_script i then 0 else 1) h'))"
proof (cases "length argv < 3")
  case False
  let ?h = "h\<lparr>g_s := xrce_session_init 2 (bench_key pid) 512\<rparr>" and ?n = "bench_count argv"
  have c: "client_ok ?h" using assms(2) by (simp add: client_ok_def xrce_session_init_def bench_key_def)
  obtain k h1 where r: "k \<le> length latency_script" "\<forall>i < k. step_passes ?h latency_script i" "k < length latency_script \<longrightarrow> \<not> step_passes ?h latency_script k"
      "run_setup latency_script ?h = (k = length latency_script, h1)" "client_ok h1" "same_world ?h h1"
    using run_setup_exact[OF latency_script_ok c] by blast
  show ?thesis
  proof (cases "k = length latency_script")
    case True
    let ?h2 = "put_line ''READ_DATA sent -- pinging rt/setpoint, waiting for rt/pong echoes'' h1"
    have "lat_clock ?h2 = lat_clock h" using lat_clock_same_world[OF r(6)] by (simp add: put_line_def)
    then have p: "client_ok ?h2" "lat_runs ?h2" using r(5) assms(3) by (simp_all add: client_ok_def lat_runs_def)
    have "\<exists>h'. (if burst_mode argv then burst_part J ?n ?h2 else sequential_part J a ?n ?h2) = Some (Inr h')"
      using parts_return[of J, OF assms(1) p] assms(4,5) by simp
    then show ?thesis using False True r(2,4) by (auto simp: latency_main_def Let_def)
  next
    case not_all: False
    then have "\<not> (\<forall>i < length latency_script. step_passes ?h latency_script i)" using r(1,3) by (meson le_neq_implies_less)
    moreover have "latency_main J a pid argv h = Some (Inr (Exited 1 h1))" using False not_all r(4) by (simp add: latency_main_def)
    ultimately show ?thesis using False by auto
  qed
qed (simp add: latency_main_def)

theorem latency_main_returns_witness:
  "\<exists>code h'. latency_main (\<lambda>n. replicate n 0) (replicate 4096 0) 7 [''bench'', ''127.0.0.1'', ''8888'', ''burst'', ''100''] (sample_bench [1, 0, 0, 0]) =
     Some (Inr (Exited code h')) \<and> code \<noteq> 2"
proof -
  let ?argv = "[''bench'', ''127.0.0.1'', ''8888'', ''burst'', ''100'']"
  have J: "length (replicate n (0 :: u8)) = n" "length (replicate 4096 (0 :: rat)) = 4096" for n by simp_all
  have m: "length (msg_buf (sample_bench [1, 0, 0, 0])) = 512" using sample_bench_ok(1) by (simp add: client_ok_def)
  have n: "bench_count ?argv < 4096" by code_simp
  show ?thesis
    using latency_main_returns[OF J(1) m sample_bench_ok(2) J(2) n, of 7] by auto
qed

end
