(* ===== verification/Libc_Shim.thy ===== *)
theory Libc_Shim
  imports Cdr
begin

text \<open>
  \<^verbatim>\<open>rtos/arm/libc_shim.c\<close>: the three functions of the C library that the firmware brings itself, loop by
  loop, and that they compute what the other theories take \<^verbatim>\<open>memcpy\<close>, \<^verbatim>\<open>memset\<close> and \<^verbatim>\<open>strlen\<close> to be. Source and
  destination of a copy are different buffers.
\<close>

section \<open>Operations\<close>

definition shim_memcpy :: "bytes \<Rightarrow> bytes \<Rightarrow> nat \<Rightarrow> bytes" where
  "shim_memcpy dst src n = fold (\<lambda>i d. d[i := src ! i]) [0..<n] dst"

definition shim_memset :: "bytes \<Rightarrow> int \<Rightarrow> nat \<Rightarrow> bytes" where
  "shim_memset dst v n = fold (\<lambda>i d. d[i := word_of_int v]) [0..<n] dst"

text \<open>Reading behind the end of the array is \<open>None\<close>.\<close>

function strlen_from :: "bytes \<Rightarrow> nat \<Rightarrow> nat option" where
  "strlen_from s n = (if n < length s then if s ! n \<noteq> 0 then strlen_from s (n + 1) else Some n else None)"
  by pat_completeness auto
termination by (relation "measure (\<lambda>(s, n). length s - n)") auto

declare strlen_from.simps [simp del]

definition shim_strlen :: "bytes \<Rightarrow> nat option" where
  "shim_strlen s = strlen_from s 0"

section \<open>Lemmas\<close>

lemma fold_update_blit:
  "n \<le> length d \<Longrightarrow> fold (\<lambda>i d. d[i := f i]) [0..<n] d = blit 0 (map f [0..<n]) d"
proof (induction n)
  case (Suc n)
  then have "blit 0 (map f [0..<n]) d = map f [0..<n] @ d ! n # drop (Suc n) d"
    by (simp add: blit_def Cons_nth_drop_Suc)
  then show ?case using Suc by (simp add: blit_def list_update_append)
qed (simp add: blit_def)

lemma strlen_from_drop: "0 \<in> set (drop n s) \<Longrightarrow> strlen_from s n = Some (n + strlen (drop n s))"
proof (induction s n rule: strlen_from.induct)
  case (1 s n)
  then have n: "n < length s" by (cases "n < length s") auto
  then have d: "drop n s = s ! n # drop (Suc n) s" by (simp add: Cons_nth_drop_Suc)
  show ?case
    using 1 n by (subst strlen_from.simps) (auto simp: d strlen_def)
qed

section \<open>Properties\<close>

text \<open>
  The functions of the shim are those of the C library: copying and filling replace exactly the first
  \<open>n\<close> bytes of the destination, and the length loop ends at the first terminator.
\<close>

theorem libc_shim_exact:
  assumes "n \<le> length dst" "n \<le> length src" "0 \<in> set str"
  shows "shim_memcpy dst src n = blit 0 (take n src) dst \<and>
     shim_memset dst v n = blit 0 (replicate n (word_of_int v)) dst \<and>
     shim_strlen str = Some (strlen str)"
proof -
  have "map ((!) src) [0..<n] = take n src" using assms(2) by (intro nth_equalityI) simp_all
  then show ?thesis
    using assms fold_update_blit[of n dst "(!) src"] fold_update_blit[of n dst "\<lambda>_. word_of_int v"] strlen_from_drop[of 0 str]
    by (simp add: shim_memcpy_def shim_memset_def shim_strlen_def map_replicate_const)
qed

end
