(* ===== verification/Arm_Kernel.thy ===== *)
theory Arm_Kernel
  imports Prelude
begin

text \<open>
  \<^verbatim>\<open>rtos/arm/kernel_arm.c\<close> and the handler of \<^verbatim>\<open>rtos/arm/context_switch.s\<close>: the two-task kernel on the
  Cortex-M4.

  A pointer into a task's stack is the stack and a word index; the stacks grow down. The processor's
  registers are kept in the two groups the switch treats apart: \<open>callee\<close> is r4 to r11, saved by the handler,
  and \<open>hw_frame\<close> is r0 to r3, r12, lr, pc and xpsr, which the hardware pushes when the exception is taken and
  pops when it returns. An access outside a stack is \<open>None\<close>.
\<close>

section \<open>State\<close>

abbreviation NUM_TASKS :: nat where "NUM_TASKS \<equiv> 2"
abbreviation STACK_WORDS :: nat where "STACK_WORDS \<equiv> 256"
abbreviation FRAME_WORDS :: nat where "FRAME_WORDS \<equiv> 16"
abbreviation BOOT_SCRATCH_WORDS :: nat where "BOOT_SCRATCH_WORDS \<equiv> 64"

datatype stack_ptr = Null | Task_stack nat nat | Boot_scratch nat

record arm_kernel =
  task_stacks :: "u32 list list"
  task_sp :: "stack_ptr list"
  current_task_idx :: int
  boot_scratch_stack :: "u32 list"
  syst_rvr :: u32
  syst_cvr :: u32
  syst_csr :: u32
  icsr :: u32
  psp :: stack_ptr
  control :: u32
  callee :: "u32 list"
  hw_frame :: "u32 list"

section \<open>The kernel\<close>

definition task_stack_init :: "u32 \<Rightarrow> nat \<Rightarrow> u32 \<Rightarrow> arm_kernel \<Rightarrow> arm_kernel" where
  "task_stack_init task_return_trap idx entry k =
     (let sp = STACK_WORDS - FRAME_WORDS;
          m = task_stacks k ! idx;
          m = fold (\<lambda>i m. m[sp + i := 0]) [0..<8] m;
          m = m[sp + 8 := 0, sp + 9 := 0, sp + 10 := 0, sp + 11 := 0, sp + 12 := 0, sp + 13 := task_return_trap,
                sp + 14 := entry, sp + 15 := 0x01000000]
      in k\<lparr>task_stacks := (task_stacks k)[idx := m], task_sp := (task_sp k)[idx := Task_stack idx sp]\<rparr>)"

definition scheduler_switch_context :: "stack_ptr \<Rightarrow> arm_kernel \<Rightarrow> stack_ptr \<times> arm_kernel" where
  "scheduler_switch_context current_sp k =
     (let k = (if current_task_idx k \<ge> 0
               then k\<lparr>task_sp := (task_sp k)[nat (current_task_idx k) := current_sp]\<rparr> else k);
          k = k\<lparr>current_task_idx := (current_task_idx k + 1) mod int NUM_TASKS\<rparr>
      in (task_sp k ! nat (current_task_idx k), k))"

definition prime_psp_for_first_switch :: "arm_kernel \<Rightarrow> arm_kernel" where
  "prime_psp_for_first_switch k = k\<lparr>psp := Boot_scratch BOOT_SCRATCH_WORDS, control := 2\<rparr>"

definition systick_init :: "u32 \<Rightarrow> arm_kernel \<Rightarrow> arm_kernel" where
  "systick_init reload k =
     k\<lparr>syst_rvr := reload - 1, syst_cvr := 0, syst_csr := push_bit 0 1 OR push_bit 1 1 OR push_bit 2 1\<rparr>"

definition SysTick_Handler :: "arm_kernel \<Rightarrow> arm_kernel" where
  "SysTick_Handler k = k\<lparr>icsr := push_bit 28 1\<rparr>"

section \<open>The switch\<close>

definition push_words :: "stack_ptr \<Rightarrow> u32 list \<Rightarrow> arm_kernel \<Rightarrow> (stack_ptr \<times> arm_kernel) option" where
  "push_words p ws k =
     (case p of
        Task_stack i n \<Rightarrow>
          if i < length (task_stacks k) \<and> length ws \<le> n \<and> n \<le> length (task_stacks k ! i)
          then Some (Task_stack i (n - length ws),
                 k\<lparr>task_stacks := (task_stacks k)[i := blit (n - length ws) ws (task_stacks k ! i)]\<rparr>)
          else None
      | Boot_scratch n \<Rightarrow>
          if length ws \<le> n \<and> n \<le> length (boot_scratch_stack k)
          then Some (Boot_scratch (n - length ws),
                 k\<lparr>boot_scratch_stack := blit (n - length ws) ws (boot_scratch_stack k)\<rparr>)
          else None
      | Null \<Rightarrow> None)"

definition pop_words :: "stack_ptr \<Rightarrow> nat \<Rightarrow> arm_kernel \<Rightarrow> (stack_ptr \<times> u32 list) option" where
  "pop_words p c k =
     (case p of
        Task_stack i n \<Rightarrow>
          if i < length (task_stacks k) \<and> n + c \<le> length (task_stacks k ! i)
          then Some (Task_stack i (n + c), slice n c (task_stacks k ! i)) else None
      | Boot_scratch n \<Rightarrow>
          if n + c \<le> length (boot_scratch_stack k) then Some (Boot_scratch (n + c), slice n c (boot_scratch_stack k)) else None
      | Null \<Rightarrow> None)"

text \<open>
  Exception entry, \<^verbatim>\<open>PendSV_Handler\<close>, exception return. \<^verbatim>\<open>PENDSVSET\<close> is cleared by taking the exception.
\<close>

definition pend_sv :: "arm_kernel \<Rightarrow> arm_kernel option" where
  "pend_sv k =
     Option.bind (push_words (psp k) (hw_frame k) (k\<lparr>icsr := 0\<rparr>)) (\<lambda>(sp, k).
     Option.bind (push_words sp (callee k) k) (\<lambda>(sp, k).
     case scheduler_switch_context sp k of
       (sp, k) \<Rightarrow>
         Option.bind (pop_words sp 8 k) (\<lambda>(sp, regs).
         Option.bind (pop_words sp 8 k) (\<lambda>(sp, frame).
           Some (k\<lparr>callee := regs, hw_frame := frame, psp := sp\<rparr>)))))"

section \<open>Lemmas\<close>

text \<open>The running task: its stack pointer leaves room for a context. What it may do until the next switch.\<close>

definition arm_ok :: "arm_kernel \<Rightarrow> bool" where
  "arm_ok k \<longleftrightarrow> length (task_stacks k) = NUM_TASKS \<and> (\<forall>i < NUM_TASKS. length (task_stacks k ! i) = STACK_WORDS) \<and>
     length (task_sp k) = NUM_TASKS \<and> length (callee k) = 8 \<and> length (hw_frame k) = 8"

definition running :: "nat \<Rightarrow> nat \<Rightarrow> arm_kernel \<Rightarrow> bool" where
  "running i n k \<longleftrightarrow> arm_ok k \<and> i < NUM_TASKS \<and> current_task_idx k = int i \<and> psp k = Task_stack i n \<and>
     FRAME_WORDS \<le> n \<and> n \<le> STACK_WORDS"

definition task_work :: "nat \<Rightarrow> arm_kernel \<Rightarrow> arm_kernel \<Rightarrow> bool" where
  "task_work i k k' \<longleftrightarrow> arm_ok k' \<and> task_sp k' = task_sp k \<and> current_task_idx k' = current_task_idx k \<and>
     (\<forall>j < NUM_TASKS. j \<noteq> i \<longrightarrow> task_stacks k' ! j = task_stacks k ! j) \<and>
     (\<exists>n. psp k' = Task_stack i n \<and> FRAME_WORDS \<le> n \<and> n \<le> STACK_WORDS)"

text \<open>A context saved at word \<open>n\<close> of a stack.\<close>

definition saved :: "nat \<Rightarrow> nat \<Rightarrow> u32 list \<Rightarrow> u32 list \<Rightarrow> arm_kernel \<Rightarrow> bool" where
  "saved i n regs frame k \<longleftrightarrow> task_sp k ! i = Task_stack i n \<and> n + FRAME_WORDS \<le> STACK_WORDS \<and>
     slice n 8 (task_stacks k ! i) = regs \<and> slice (n + 8) 8 (task_stacks k ! i) = frame"

lemma slice_blit_same: "n + length ws \<le> length m \<Longrightarrow> slice n (length ws) (blit n ws m) = ws"
  by (simp add: slice_def blit_def)

lemma slice_blit_above: "n + length ws \<le> q \<Longrightarrow> q \<le> length m \<Longrightarrow> slice q c (blit n ws m) = slice q c m"
  by (simp add: slice_def blit_def drop_append)

lemma pend_sv_switches:
  assumes "running i n k" "j < NUM_TASKS" "j \<noteq> i" "saved j q regs frame k"
  obtains k' where "pend_sv k = Some k'" "running j (q + FRAME_WORDS) k'" "callee k' = regs" "hw_frame k' = frame"
    "saved i (n - FRAME_WORDS) (callee k) (hw_frame k) k'" "task_stacks k' ! j = task_stacks k ! j"
proof -
  let ?m = "task_stacks k ! i"
  let ?m2 = "blit (n - 16) (callee k) (blit (n - 8) (hw_frame k) ?m)"
  let ?k = "k\<lparr>icsr := 0, task_stacks := (task_stacks k)[i := ?m2], task_sp := (task_sp k)[i := Task_stack i (n - 16)],
      current_task_idx := int j\<rparr>"
  have r: "arm_ok k" "i < 2" "current_task_idx k = int i" "psp k = Task_stack i n" "16 \<le> n" "n \<le> 256"
    using assms(1) by (simp_all add: running_def)
  have l: "length (task_stacks k) = 2" "length ?m = 256" "length (task_stacks k ! j) = 256" "length (task_sp k) = 2"
    "length (callee k) = 8" "length (hw_frame k) = 8"
    using r(1,2) assms(2) by (simp_all add: arm_ok_def)
  have lm: "length ?m2 = 256" using l r(5,6) by simp
  have j: "(int i + 1) mod 2 = int j" using r(2) assms(2,3) by (cases i; cases j) auto
  have q: "q + 16 \<le> 256" "task_sp k ! j = Task_stack j q" "slice q 8 (task_stacks k ! j) = regs"
    "slice (q + 8) 8 (task_stacks k ! j) = frame" using assms(4) by (simp_all add: saved_def)
  let ?k' = "?k\<lparr>callee := regs, hw_frame := frame, psp := Task_stack j (q + 16)\<rparr>"
  have n: "8 \<le> n - 8" "n - 8 \<le> 256" "n - 8 - 8 = n - 16" using r(5,6) by simp_all
  have step: "pend_sv k = Some ?k'"
    using r l lm q j n assms(2,3)
    by (simp add: pend_sv_def push_words_def pop_words_def scheduler_switch_context_def Let_def)
  have "slice (n - 16) 8 ?m2 = callee k"
    using slice_blit_same[of "n - 16" "callee k" "blit (n - 8) (hw_frame k) ?m"] l r(5,6) by simp
  moreover have "slice (n - 8) 8 ?m2 = hw_frame k"
    using slice_blit_above[of "n - 16" "callee k" "n - 8" "blit (n - 8) (hw_frame k) ?m" 8]
      slice_blit_same[of "n - 8" "hw_frame k" ?m] l r(5,6) by simp
  moreover have "n - 16 + 8 = n - 8" using r(5) by simp
  ultimately have "saved i (n - 16) (callee k) (hw_frame k) ?k'"
    using l r(2,5,6) by (simp add: saved_def)
  moreover have "arm_ok ?k'"
    using l lm q r(1,2) assms(2,3) by (auto simp: arm_ok_def nth_list_update slice_def)
  ultimately show ?thesis
    using that[OF step] q(1) assms(2,3) by (simp add: running_def)
qed

lemma task_work_running: "running i n k \<Longrightarrow> task_work i k k' \<Longrightarrow> \<exists>n'. running i n' k'"
  by (auto simp: running_def task_work_def)

lemma saved_task_work:
  "saved j q regs frame k \<Longrightarrow> task_work i k k' \<Longrightarrow> j < NUM_TASKS \<Longrightarrow> j \<noteq> i \<Longrightarrow> saved j q regs frame k'"
  by (simp add: saved_def task_work_def)

section \<open>Properties\<close>


text \<open>Both tasks freshly initialised, as \<^verbatim>\<open>main\<close> does it.\<close>

definition request_context_switch :: "arm_kernel \<Rightarrow> arm_kernel" where
  "request_context_switch k = k\<lparr>icsr := push_bit 28 1\<rparr>"

text \<open>The kernel calls of \<^verbatim>\<open>main\<close>, in order; its prints do not touch the kernel's state.\<close>

definition arm_boot :: "u32 \<Rightarrow> u32 \<Rightarrow> u32 \<Rightarrow> arm_kernel \<Rightarrow> arm_kernel" where
  "arm_boot trap task_a task_b k =
     request_context_switch (prime_psp_for_first_switch (systick_init 8000000
       (task_stack_init trap 1 task_b (task_stack_init trap 0 task_a k))))"

definition arm_reset :: "u32 list \<Rightarrow> u32 list \<Rightarrow> arm_kernel" where
  "arm_reset regs frame =
     \<lparr>task_stacks = replicate 2 (replicate 256 0), task_sp = [Null, Null], current_task_idx = -1,
      boot_scratch_stack = replicate 64 0, syst_rvr = 0, syst_cvr = 0, syst_csr = 0, icsr = 0, psp = Null, control = 0,
      callee = regs, hw_frame = frame\<rparr>"

definition initial_stack :: "u32 \<Rightarrow> u32 \<Rightarrow> u32 list" where
  "initial_stack trap entry = replicate 253 0 @ [trap, entry, 0x01000000]"

lemma replicate_update: "(replicate n x)[i := x] = replicate n x"
  by (cases "i < n") (auto simp: nth_list_update intro: nth_equalityI)

lemma task_stack_init_exact:
  "task_stack_init trap idx entry (k\<lparr>task_stacks := ms\<rparr>) =
     k\<lparr>task_stacks := ms[idx := initial_stack trap entry], task_sp := (task_sp k)[idx := Task_stack idx 240]\<rparr>"
  if "ms ! idx = replicate 256 0"
proof -
  have "fold (\<lambda>i m. m[240 + i := 0]) xs (replicate 256 (0 :: u32)) = replicate 256 0" for xs
    by (induction xs) (simp_all add: replicate_update)
  moreover have "(replicate 256 (0 :: u32))[253 := trap, 254 := entry, 255 := 0x01000000] = initial_stack trap entry"
    by (rule nth_equalityI) (auto simp: initial_stack_def nth_append nth_list_update nth_Cons' less_Suc_eq_le)
  ultimately show ?thesis using that by (simp add: task_stack_init_def Let_def replicate_update)
qed

definition initial_frame :: "u32 \<Rightarrow> u32 \<Rightarrow> u32 list" where
  "initial_frame trap entry = [0, 0, 0, 0, 0, trap, entry, 0x01000000]"

lemma initial_stack_slices:
  "length (initial_stack trap entry) = 256" "slice 240 8 (initial_stack trap entry) = replicate 8 0"
  "slice 248 8 (initial_stack trap entry) = initial_frame trap entry"
  by (simp_all add: initial_stack_def initial_frame_def slice_def numeral_eq_Suc)

lemma first_switch:
  assumes "length regs = 8" "length frame = 8"
  obtains k where "pend_sv (arm_boot trap task_a task_b (arm_reset regs frame)) = Some k" "running 0 256 k"
    "callee k = replicate 8 0" "hw_frame k = initial_frame trap task_a" "saved 1 240 (replicate 8 0) (initial_frame trap task_b) k"
proof -
  let ?k = "arm_reset regs frame"
  let ?b = "arm_boot trap task_a task_b ?k"
  have ts: "task_stack_init trap 0 task_a ?k =
      ?k\<lparr>task_stacks := [initial_stack trap task_a, replicate 256 0], task_sp := [Task_stack 0 240, Null]\<rparr>"
    using task_stack_init_exact[of "replicate 2 (replicate 256 0)" 0 trap task_a ?k]
    by (simp add: arm_reset_def numeral_2_eq_2)
  have ts2: "task_stack_init trap 1 task_b (task_stack_init trap 0 task_a ?k) =
      ?k\<lparr>task_stacks := [initial_stack trap task_a, initial_stack trap task_b], task_sp := [Task_stack 0 240, Task_stack 1 240]\<rparr>"
    using task_stack_init_exact[of "[initial_stack trap task_a, replicate 256 0]" 1 trap task_b "?k\<lparr>task_sp := [Task_stack 0 240, Null]\<rparr>"]
    unfolding ts by (simp add: arm_reset_def)
  have b: "task_stacks ?b = [initial_stack trap task_a, initial_stack trap task_b]" "task_sp ?b = [Task_stack 0 240, Task_stack 1 240]"
    "psp ?b = Boot_scratch 64" "current_task_idx ?b = -1" "boot_scratch_stack ?b = replicate 64 0" "callee ?b = regs" "hw_frame ?b = frame"
    unfolding arm_boot_def ts2
    by (simp_all add: request_context_switch_def prime_psp_for_first_switch_def systick_init_def arm_reset_def)
  let ?k1 = "?b\<lparr>icsr := 0, boot_scratch_stack := blit 48 regs (blit 56 frame (replicate 64 0)), current_task_idx := 0,
      callee := replicate 8 0, hw_frame := initial_frame trap task_a, psp := Task_stack 0 256\<rparr>"
  have "pend_sv ?b = Some ?k1"
    using b assms initial_stack_slices
    by (simp add: pend_sv_def push_words_def pop_words_def scheduler_switch_context_def Let_def)
  then show ?thesis
    using that b initial_stack_slices
    by (auto simp: running_def arm_ok_def saved_def less_2_cases_iff initial_frame_def)
qed


text \<open>
  The first switch starts task A: with every register zero except the return trap, the entry point and the
  Thumb bit, on an empty stack, and with task B's context ready in the same form.
\<close>

theorem arm_first_dispatch:
  assumes "length regs = 8" "length frame = 8"
  shows "\<exists>k. pend_sv (arm_boot trap task_a task_b (arm_reset regs frame)) = Some k \<and> running 0 256 k \<and>
     callee k = replicate 8 0 \<and> hw_frame k = initial_frame trap task_a \<and>
     saved 1 240 (replicate 8 0) (initial_frame trap task_b) k"
  using first_switch[OF assms] by metis

end
