(* ===== verification/Arm_Demo.thy ===== *)
theory Arm_Demo
  imports Arm_Kernel Uart "HOL-Library.Sublist"
begin

text \<open>
  \<^verbatim>\<open>rtos/arm/main.c\<close>: the two-task demo on the Cortex-M kernel. Each task prints its line over the shared UART and
  waits, for ever; the timer switches between them at any point, also in the middle of a line. A task is
  modelled access by access: a read of the status register and a write of the data register are steps of their
  own, so a switch can come between the test of \<^verbatim>\<open>TXE\<close> and the write. What the code of a task does to its
  registers and its stack in a step is arbitrary within \<open>task_work\<close>. The code after the request for the first
  switch is not modelled: the processor takes the pending exception before it.
\<close>

section \<open>The tasks\<close>

definition task_line :: "nat \<Rightarrow> bytes" where
  "task_line i = map of_char (if i = 0 then ''[task A] tick'' else ''[task B] tick'') @ [13, 10]"

definition boot_banner :: bytes where
  "boot_banner = map of_char ''RTOS Phase 8: Cortex-M port booting'' @ [13, 10]"

text \<open>Where a task is: before the test for the first byte of the rest of its line, before the write of that byte, waiting.\<close>

datatype task_pc = Test bytes | Put bytes | Busy

definition task_stmt :: "bytes \<Rightarrow> task_pc \<Rightarrow> uart \<Rightarrow> task_pc \<times> uart" where
  "task_stmt line pc u =
     (case pc of
        Test [] \<Rightarrow> (Busy, u)
      | Test (c # s) \<Rightarrow> (case read_sr u of (sr, u) \<Rightarrow> (if sr AND USART_SR_TXE = 0 then Test (c # s) else Put (c # s), u))
      | Put [] \<Rightarrow> (Test [], u)
      | Put (c # s) \<Rightarrow> (Test s, u\<lparr>dr_writes := dr_writes u @ [ucast c]\<rparr>)
      | Busy \<Rightarrow> (Test line, u))"

record arm_demo =
  ak :: arm_kernel
  au :: uart
  apc :: "task_pc list"

text \<open>\<^verbatim>\<open>main\<close> up to the request for the first switch; \<open>trap\<close>, \<open>task_a\<close> and \<open>task_b\<close> are the addresses of the functions.\<close>

definition arm_main :: "u32 \<Rightarrow> u32 \<Rightarrow> u32 \<Rightarrow> uart \<Rightarrow> arm_kernel \<Rightarrow> arm_demo option" where
  "arm_main trap task_a task_b u k =
     Option.bind (uart_puts (boot_banner @ [0]) (uart_init u)) (\<lambda>u.
       Some \<lparr>ak = arm_boot trap task_a task_b k, au = u, apc = [Test (task_line 0), Test (task_line 1)]\<rparr>)"

inductive demo_step :: "arm_demo \<Rightarrow> arm_demo \<Rightarrow> bool" where
  statement: "running i n (ak d) \<Longrightarrow> task_work i (ak d) k \<Longrightarrow> task_stmt (task_line i) (apc d ! i) (au d) = (pc, u) \<Longrightarrow>
    demo_step d (d\<lparr>ak := k, au := u, apc := (apc d)[i := pc]\<rparr>)"
| timer: "pend_sv (SysTick_Handler (ak d)) = Some k \<Longrightarrow> demo_step d (d\<lparr>ak := k\<rparr>)"

inductive demo_reach :: "arm_demo \<Rightarrow> bool" where
  first: "arm_main trap task_a task_b u (arm_reset regs frame) = Some d \<Longrightarrow> length regs = 8 \<Longrightarrow> length frame = 8 \<Longrightarrow>
    dr_writes u = [] \<Longrightarrow> tx_ready u \<Longrightarrow> pend_sv (ak d) = Some k \<Longrightarrow> demo_reach (d\<lparr>ak := k\<rparr>)"
| further: "demo_reach d \<Longrightarrow> demo_step d d' \<Longrightarrow> demo_reach d'"

section \<open>Lemmas: the kernel can always switch\<close>

definition switchable :: "arm_kernel \<Rightarrow> bool" where
  "switchable k \<longleftrightarrow> (\<exists>i n j q regs frame. running i n k \<and> j < NUM_TASKS \<and> j \<noteq> i \<and> saved j q regs frame k)"

lemma switchable_switch:
  assumes "switchable k"
  shows "\<exists>k'. pend_sv (SysTick_Handler k) = Some k' \<and> switchable k'"
proof -
  obtain i n j q regs frame where k: "running i n k" "j < NUM_TASKS" "j \<noteq> i" "saved j q regs frame k"
    using assms by (auto simp: switchable_def)
  have "running i n (SysTick_Handler k)" "saved j q regs frame (SysTick_Handler k)"
    using k by (simp_all add: running_def saved_def arm_ok_def SysTick_Handler_def)
  then obtain k' where "pend_sv (SysTick_Handler k) = Some k'" "running j (q + FRAME_WORDS) k'"
      "saved i (n - FRAME_WORDS) (callee (SysTick_Handler k)) (hw_frame (SysTick_Handler k)) k'"
    using pend_sv_switches[OF _ k(2,3)] by metis
  moreover have "i < NUM_TASKS" using k(1) by (simp add: running_def)
  ultimately show ?thesis using k(3) unfolding switchable_def by metis
qed

lemma switchable_work: "switchable k \<Longrightarrow> running i n k \<Longrightarrow> task_work i k k' \<Longrightarrow> switchable k'"
  using task_work_running saved_task_work unfolding switchable_def
  by (metis (no_types, lifting) running_def of_nat_eq_iff)

section \<open>Lemmas: what is printed\<close>

lemma shuffles_snoc: "zs \<in> shuffles xs ys \<Longrightarrow> zs @ [c] \<in> shuffles (xs @ [c]) ys"
proof (induction xs ys arbitrary: zs rule: shuffles.induct)
  case (1 ys)
  then have "zs = ys" by simp
  then show ?case by (induction ys arbitrary: zs) auto
next
  case (2 xs)
  then show ?case by simp
next
  case (3 x xs y ys)
  from "3.prems" consider (l) z where "zs = x # z" "z \<in> shuffles xs (y # ys)" | (r) z where "zs = y # z" "z \<in> shuffles (x # xs) ys" by auto
  then show ?case
  proof cases
    case l
    then show ?thesis using "3.IH"(1) by simp
  next
    case r
    then show ?thesis using "3.IH"(2) by simp
  qed
qed

text \<open>What task \<open>i\<close> has printed is a part of its line printed over and over, up to what it still has to print.\<close>

fun left_over :: "task_pc \<Rightarrow> bytes" where
  "left_over (Test s) = s"
| "left_over (Put s) = s"
| "left_over Busy = []"

definition printed :: "nat \<Rightarrow> task_pc \<Rightarrow> bytes \<Rightarrow> bool" where
  "printed i pc xs \<longleftrightarrow> (\<exists>m. xs @ left_over pc = concat (replicate m (task_line i)))"

lemma task_stmt_prints:
  assumes "task_stmt (task_line i) pc u = (pc', u')" "printed i pc xs"
  obtains "dr_writes u' = dr_writes u" "printed i pc' xs"
  | c where "dr_writes u' = dr_writes u @ [ucast c]" "printed i pc' (xs @ [c])"
proof (cases pc)
  case (Test s)
  then have "dr_writes u' = dr_writes u" "left_over pc' = left_over pc"
    using assms(1) by (auto simp: task_stmt_def read_sr_def split: list.splits if_splits)
  then show ?thesis using that(1) assms(2) by (simp add: printed_def)
next
  case (Put s)
  show ?thesis
  proof (cases s)
    case Nil
    then have "dr_writes u' = dr_writes u" "left_over pc' = left_over pc" using Put assms(1) by (auto simp: task_stmt_def)
    then show ?thesis using that(1) assms(2) by (simp add: printed_def)
  next
    case (Cons c s')
    then have "dr_writes u' = dr_writes u @ [ucast c]" "left_over pc = c # left_over pc'" using Put assms(1) by (auto simp: task_stmt_def)
    then show ?thesis using that(2) assms(2) by (simp add: printed_def)
  qed
next
  case Busy
  obtain m where "xs = concat (replicate m (task_line i))" using assms(2) Busy by (auto simp: printed_def)
  then have "xs @ task_line i = concat (replicate (Suc m) (task_line i))" by (simp flip: replicate_append_same)
  then have "printed i (Test (task_line i)) xs" unfolding printed_def left_over.simps by (rule exI[of _ "Suc m"])
  then show ?thesis using assms(1) Busy that(1) by (simp add: task_stmt_def)
qed

definition demo_inv :: "arm_demo \<Rightarrow> bool" where
  "demo_inv d \<longleftrightarrow> switchable (ak d) \<and> length (apc d) = NUM_TASKS \<and>
     (\<exists>xs ys zs. dr_writes (au d) = map ucast boot_banner @ zs \<and> zs \<in> shuffles (map ucast xs) (map ucast ys) \<and>
        printed 0 (apc d ! 0) xs \<and> printed 1 (apc d ! 1) ys)"

lemma demo_invI:
  assumes "switchable (ak d)" "length (apc d) = 2" "dr_writes (au d) = map ucast boot_banner @ zs" "zs \<in> shuffles (map ucast xs) (map ucast ys)"
    and "printed 0 (apc d ! 0) xs" "printed 1 (apc d ! 1) ys"
  shows "demo_inv d"
  unfolding demo_inv_def using assms by blast

lemma demo_inv_statement:
  assumes "demo_inv d" "running i n (ak d)" "task_work i (ak d) k" "task_stmt (task_line i) (apc d ! i) (au d) = (pc, u)"
  shows "demo_inv (d\<lparr>ak := k, au := u, apc := (apc d)[i := pc]\<rparr>)"
proof -
  obtain xs ys zs where p: "dr_writes (au d) = map ucast boot_banner @ zs" "zs \<in> shuffles (map ucast xs) (map ucast ys)"
      "printed 0 (apc d ! 0) xs" "printed 1 (apc d ! 1) ys"
    using assms(1) by (auto simp: demo_inv_def)
  have s: "switchable k" "length (apc d) = 2" using switchable_work[OF _ assms(2,3)] assms(1) by (simp_all add: demo_inv_def)
  have i: "i = 0 \<or> i = 1" using assms(2) by (auto simp: running_def)
  have pi: "printed i (apc d ! i) (if i = 0 then xs else ys)" using p(3,4) i by auto
  from task_stmt_prints[OF assms(4) pi] show ?thesis
  proof cases
    case 1
    then have "printed 0 ((apc d)[i := pc] ! 0) xs" "printed 1 ((apc d)[i := pc] ! 1) ys" using i s(2) p(3,4) by auto
    then show ?thesis by (intro demo_invI[where xs = xs and ys = ys and zs = zs]) (use 1 s p(1,2) in simp_all)
  next
    case (2 c)
    let ?z = "zs @ [ucast c]"
    show ?thesis
    proof (cases "i = 0")
      case True
      have "?z \<in> shuffles (map ucast (xs @ [c])) (map ucast ys)" using shuffles_snoc[OF p(2)] by simp
      moreover have "printed 0 ((apc d)[i := pc] ! 0) (xs @ [c])" "printed 1 ((apc d)[i := pc] ! 1) ys" using True s(2) p(4) 2(2) by simp_all
      moreover have "dr_writes u = map ucast boot_banner @ ?z" using 2(1) p(1) by simp
      ultimately show ?thesis by (intro demo_invI[where xs = "xs @ [c]" and ys = ys and zs = ?z]) (use s in simp_all)
    next
      case False
      have "?z \<in> shuffles (map ucast xs) (map ucast (ys @ [c]))"
        using shuffles_snoc[of zs "map ucast ys" "map ucast xs" "ucast c"] p(2) by (simp add: shuffles_commutes)
      moreover have "printed 0 ((apc d)[i := pc] ! 0) xs" "printed 1 ((apc d)[i := pc] ! 1) (ys @ [c])" using False i s(2) p(3) 2(2) by simp_all
      moreover have "dr_writes u = map ucast boot_banner @ ?z" using 2(1) p(1) by simp
      ultimately show ?thesis by (intro demo_invI[where xs = xs and ys = "ys @ [c]" and zs = ?z]) (use s in simp_all)
    qed
  qed
qed

lemma banner_nonzero: "0 \<notin> set boot_banner"
  by (simp add: boot_banner_def)

lemma demo_reach_inv: "demo_reach d \<Longrightarrow> demo_inv d"
proof (induction rule: demo_reach.induct)
  case (first trap task_a task_b u regs frame d k)
  have "tx_ready (uart_init u)" using first(5) by (simp add: tx_ready_def uart_init_def Let_def)
  then obtain u' where u': "uart_puts (boot_banner @ [0]) (uart_init u) = Some u'" "transmits (uart_init u) boot_banner u'"
    using uart_write_returns[of "uart_init u" boot_banner] uart_puts_write[OF banner_nonzero] by auto
  have d: "d = \<lparr>ak = arm_boot trap task_a task_b (arm_reset regs frame), au = u', apc = [Test (task_line 0), Test (task_line 1)]\<rparr>"
    using first(1) u'(1) by (simp add: arm_main_def)
  obtain k1 where "pend_sv (ak d) = Some k1" "running 0 256 k1" "saved 1 240 (replicate 8 0) (Arm_Kernel.initial_frame trap task_b) k1"
    using first_switch[OF first(2,3)] d by (metis arm_demo.select_convs(1))
  then have "switchable k" using first(6) unfolding switchable_def by (intro exI[of _ 0] exI exI[of _ 1]) auto
  moreover have "dr_writes u' = map ucast boot_banner"
    using transmits_writes[OF u'(2)] first(4) by (simp add: uart_init_def Let_def)
  moreover have "printed i (Test (task_line i)) []" for i by (auto simp: printed_def intro: exI[of _ 1])
  ultimately show ?case using d by (auto simp: demo_inv_def intro!: exI[of _ "[]"])
next
  case (further d d')
  from further.hyps(2) show ?case
  proof (cases rule: demo_step.cases)
    case (statement i n k pc u)
    then show ?thesis using demo_inv_statement[OF further.IH] by simp
  next
    case (timer k)
    then show ?thesis using switchable_switch[of "ak d"] further.IH by (auto simp: demo_inv_def)
  qed
qed

section \<open>Properties\<close>


text \<open>A run to start from: the board is ready to transmit at every moment.\<close>

lemma sample_run:
  obtains d where "demo_reach d" "running 0 256 (ak d)" "saved 1 240 (replicate 8 0) (Arm_Kernel.initial_frame 0x80 0x200) (ak d)"
    "apc d = [Test (task_line 0), Test (task_line 1)]" "usart1_sr (au d) = (\<lambda>t. 0xA0)"
proof -
  let ?u = "sample_uart (\<lambda>t. 0xA0)" and ?k = "arm_reset (replicate 8 1) (replicate 8 2)"
  have r: "tx_ready ?u" "tx_ready (uart_init ?u)" by (auto simp: tx_ready_def sample_uart_def uart_init_def Let_def)
  obtain u where u: "uart_puts (boot_banner @ [0]) (uart_init ?u) = Some u" "transmits (uart_init ?u) boot_banner u"
    using uart_write_returns[OF r(2), of boot_banner] uart_puts_write[OF banner_nonzero] by auto
  define d where "d = \<lparr>ak = arm_boot 0x80 0x100 0x200 ?k, au = u, apc = [Test (task_line 0), Test (task_line 1)]\<rparr>"
  have m: "arm_main 0x80 0x100 0x200 ?u ?k = Some d" using u(1) by (simp add: arm_main_def d_def)
  obtain k where k: "pend_sv (ak d) = Some k" "running 0 256 k" "saved 1 240 (replicate 8 0) (Arm_Kernel.initial_frame 0x80 0x200) k"
    using first_switch[of "replicate 8 1" "replicate 8 2" "0x80" "0x100" "0x200"] by (auto simp: d_def)
  have "demo_reach (d\<lparr>ak := k\<rparr>)"
    by (rule demo_reach.first[OF m _ _ _ r(1) k(1)]) (simp_all add: sample_uart_def)
  moreover have "usart1_sr u = (\<lambda>t. 0xA0)" using u(2) by (auto simp: transmits_def uart_init_def sample_uart_def Let_def)
  ultimately show thesis using that[of "d\<lparr>ak := k\<rparr>"] k by (simp add: d_def)
qed


lemma own_statement: "running i n (ak d) \<Longrightarrow> task_stmt (task_line i) (apc d ! i) (au d) = (pc, u) \<Longrightarrow> demo_step d (d\<lparr>au := u, apc := (apc d)[i := pc]\<rparr>)"
  using statement[of i n d "ak d" pc u] by (auto simp: running_def task_work_def)

lemma own_timer:
  assumes "running i n (ak d)" "j < NUM_TASKS" "j \<noteq> i" "saved j q regs frame (ak d)"
  obtains k regs' frame' where "demo_step d (d\<lparr>ak := k\<rparr>)" "running j (q + FRAME_WORDS) k" "saved i (n - FRAME_WORDS) regs' frame' k"
proof -
  have "running i n (SysTick_Handler (ak d))" "saved j q regs frame (SysTick_Handler (ak d))"
    using assms by (simp_all add: running_def saved_def arm_ok_def SysTick_Handler_def)
  then show thesis using that demo_step.timer pend_sv_switches[OF _ assms(2,3)] by metis
qed

text \<open>
  The test and the write are not one step. A switch between them lets both tasks pass the test before either
  writes, and then both bytes go into the data register without the transmitter having been looked at in between.
\<close>

theorem arm_demo_unpolled_write:
  "\<exists>d d' a b. demo_reach d \<and> demo_step\<^sup>*\<^sup>* d d' \<and> sr_reads (au d') = sr_reads (au d) \<and> dr_writes (au d') = dr_writes (au d) @ [a, b]"
proof -
  obtain d0 where d0: "demo_reach d0" "running 0 256 (ak d0)" "saved 1 240 (replicate 8 0) (Arm_Kernel.initial_frame 0x80 0x200) (ak d0)"
      "apc d0 = [Test (task_line 0), Test (task_line 1)]" "usart1_sr (au d0) = (\<lambda>t. 0xA0)" by (rule sample_run)
  have sr: "\<not> (0xA0 AND USART_SR_TXE = (0 :: u32))" by code_simp
  obtain c0 s0 c1 s1 where l: "task_line 0 = c0 # s0" "task_line 1 = c1 # s1" by (simp add: task_line_def)
  define u1 where "u1 = (au d0)\<lparr>sr_reads := Suc (sr_reads (au d0))\<rparr>"
  define u2 where "u2 = u1\<lparr>sr_reads := Suc (sr_reads u1)\<rparr>"
  define u3 where "u3 = u2\<lparr>dr_writes := dr_writes u2 @ [ucast c1]\<rparr>"
  define u4 where "u4 = u3\<lparr>dr_writes := dr_writes u3 @ [ucast c0]\<rparr>"
  define d1 where "d1 = d0\<lparr>au := u1, apc := [Put (c0 # s0), Test (c1 # s1)]\<rparr>"
  have 1: "demo_step d0 d1"
    using own_statement[OF d0(2), of "Put (c0 # s0)" u1] d0(4,5) sr by (simp add: task_stmt_def read_sr_def u1_def d1_def l del: One_nat_def)
  have r1: "running 0 256 (ak d1)" "saved 1 240 (replicate 8 0) (Arm_Kernel.initial_frame 0x80 0x200) (ak d1)" using d0(2,3) by (simp_all add: d1_def)
  obtain k2 regs frame where 2: "demo_step d1 (d1\<lparr>ak := k2\<rparr>)" "running 1 256 k2" "saved 0 240 regs frame k2"
    using own_timer[OF r1(1) _ _ r1(2)] by (auto simp: numeral_eq_Suc)
  define d3 where "d3 = d1\<lparr>ak := k2, au := u2, apc := [Put (c0 # s0), Put (c1 # s1)]\<rparr>"
  have 3: "demo_step (d1\<lparr>ak := k2\<rparr>) d3"
    using own_statement[of 1 256 "d1\<lparr>ak := k2\<rparr>" "Put (c1 # s1)" u2] 2(2) d0(5) sr
    by (simp add: task_stmt_def read_sr_def u1_def u2_def d1_def d3_def)
  define d4 where "d4 = d3\<lparr>au := u3, apc := [Put (c0 # s0), Test s1]\<rparr>"
  have 4: "demo_step d3 d4"
    using own_statement[of 1 256 d3 "Test s1" u3] 2(2) by (simp add: task_stmt_def u3_def d3_def d4_def)
  have r4: "running 1 256 (ak d4)" "saved 0 240 regs frame (ak d4)" using 2 by (simp_all add: d3_def d4_def)
  obtain k5 where 5: "demo_step d4 (d4\<lparr>ak := k5\<rparr>)" "running 0 256 k5"
    using own_timer[OF r4(1) _ _ r4(2)] by (auto simp: numeral_eq_Suc)
  define d6 where "d6 = d4\<lparr>ak := k5, au := u4, apc := [Test s0, Test s1]\<rparr>"
  have 6: "demo_step (d4\<lparr>ak := k5\<rparr>) d6"
    using own_statement[of 0 256 "d4\<lparr>ak := k5\<rparr>" "Test s0" u4] 5(2) by (simp add: task_stmt_def u4_def d4_def d6_def)
  have "demo_reach d3" using d0(1) 1 2(1) 3 by (meson demo_reach.further)
  moreover have "demo_step\<^sup>*\<^sup>* d3 d6" using 4 5(1) 6 by (meson converse_rtranclp_into_rtranclp rtranclp.rtrancl_refl)
  moreover have "sr_reads (au d6) = sr_reads (au d3)" "dr_writes (au d6) = dr_writes (au d3) @ [ucast c1, ucast c0]"
    by (simp_all add: d6_def d4_def d3_def u4_def u3_def)
  ultimately show ?thesis by blast
qed

end
