(* ===== verification/Spec2Isabelle.thy ===== *)
theory Spec2Isabelle
  imports Prelude Task Scheduler Kernel Sync Queue_System Cdr Msgs Serial
    Sha256 Hmac Secure Session Reliable Gateway Gateway_Loop Uart Requests Board Ros2_Demo Gazebo_Demo Host_Client
    Host_Demos Action_Server Diagnostics Priority_Demo Bench_Qos Bench_Latency Libc_Shim Arm_Kernel Arm_Demo
begin

text \<open>
  A verification library for the RTOS kernel of \<^verbatim>\<open>rtos\<close>, the Micro XRCE-DDS client of \<^verbatim>\<open>xrce\<close>, and the host
  programs of \<^verbatim>\<open>host\<close>.

  \<^bold>\<open>The program.\<close> \<^verbatim>\<open>rtos/src\<close> is a preemptive priority kernel on POSIX contexts and a timer signal: tasks with
  guarded stacks, a round-robin scheduler, mutexes with priority inheritance, semaphores and a bounded queue.
  \<^verbatim>\<open>rtos/arm\<close> is its small Cortex-M port and the firmware that talks to a ROS 2 agent over a UART. \<^verbatim>\<open>xrce\<close> is the
  protocol stack: CDR encoding, message codecs, session messages, a reliable output stream, serial framing, and an
  authenticated envelope over SHA-256 and HMAC. \<^verbatim>\<open>host/secure_gateway.c\<close> is the other end of the authenticated link;
  the other programs of \<^verbatim>\<open>host\<close> are clients of an agent over UDP, three of them with kernel tasks inside.

  \<^bold>\<open>The theories\<close>, in the order they build on each other:
  \<^item> \<open>Prelude\<close>: machine words, short-circuit chains of calls, buffers, byte packing.
  \<^item> \<open>Task\<close> (\<^verbatim>\<open>task.c\<close>, \<^verbatim>\<open>task.h\<close>): control blocks, stack poison and canary, \<^verbatim>\<open>task_create\<close> with every failure,
    pointer packing, high-water mark. Shown: a fresh task, exactness of the mark, what the canary guards.
  \<^item> \<open>Scheduler\<close> (\<^verbatim>\<open>scheduler.c\<close>): the globals as the record \<open>kernel\<close>, selection, yield, tick, preemption, sleep.
    Shown: the selected task is the next ready one of highest priority; behaviour of a bad tick period.
  \<^item> \<open>Kernel\<close> (\<^verbatim>\<open>kernel.c\<close> and the control flow of \<^verbatim>\<open>scheduler.c\<close>): who executes, as the step relation \<open>machine_step\<close>.
    Shown by rule induction: at most one running task; also fairness, timely wake-up, overflow detection.
  \<^item> \<open>Sync\<close>, \<open>Queue_System\<close> (\<^verbatim>\<open>sync.c\<close>): the operations, and their interleavings statement by statement. Shown: mutual
    exclusion and no lost wake-up without preemption, counterexamples with it, priority inheritance, and that the
    queue refines a bounded first-in first-out list.
  \<^item> \<open>Cdr\<close>, \<open>Msgs\<close> (\<^verbatim>\<open>cdr.c\<close>, \<^verbatim>\<open>msgs.c\<close>): readers and writers with cursor and capacity, and every message over the
    locales \<open>cdr_codec\<close> and \<open>cdr_message\<close>. Shown: exact layouts, round trips, rejection of truncated input, memory safety.
  \<^item> \<open>Serial\<close> (\<^verbatim>\<open>serial_transport.c\<close>): CRC, stuffing, encoder, reader automaton. Shown: round trip, error detection, safety.
  \<^item> \<open>Sha256\<close>, \<open>Hmac\<close> (\<^verbatim>\<open>sha256.c\<close>, \<^verbatim>\<open>hmac.c\<close>): equality with FIPS 180-4 and RFC 2104 for every split of the input and
    every key length. The table of round constants is derived from the cube roots of the primes.
  \<^item> \<open>Secure\<close> (\<^verbatim>\<open>secure_transport.c\<close>): what is accepted on every branch, no replay, the link as a lossy channel.
  \<^item> \<open>Session\<close>, \<open>Reliable\<close> (\<^verbatim>\<open>session.c\<close>, \<^verbatim>\<open>reliable_stream.c\<close>): all builders and parsers; the send window refines the
    list of unacknowledged messages below its limit, and loses the newest one at the limit.
  \<^item> \<open>Gateway\<close>, \<open>Gateway_Loop\<close> (\<^verbatim>\<open>secure_gateway.c\<close>): both relay directions byte by byte, the key, the event loop and \<^verbatim>\<open>main\<close>.
    The locale \<open>relay_side\<close> is what the loop relies on in a direction. Shown: the directions do not interfere, only
    authentic frames reach the agent, and every frame of the agent is wrapped.
  \<^item> \<open>Uart\<close> (\<^verbatim>\<open>uart.c\<close>): the driver over volatile registers.
  \<^item> \<open>Requests\<close>, \<open>Board\<close>: the exact result of the session's request builders, and what both firmware images share (build
    options, authenticated sending); the locale \<open>board_invariant\<close> is the contract with an image.
  \<^item> \<open>Ros2_Demo\<close>, \<open>Gazebo_Demo\<close> (\<^verbatim>\<open>ros2_demo.c\<close>, \<^verbatim>\<open>gazebo_demo.c\<close>): the two images. Shown: they never hang, the announcements
    fit, setpoints are echoed, the drive commands go through their phases.
  \<^item> \<open>Host_Client\<close>, \<open>Host_Demos\<close> (the \<^verbatim>\<open>live_*.c\<close> programs): the socket, the clock and the output as a record, sending a
    request and waiting for its answer, and the small clients. Shown: the exact requests of a set-up up to the first
    failure, and what each loop does with a datagram.
  \<^item> \<open>Action_Server\<close> (\<^verbatim>\<open>live_action_demo.c\<close>): goals, cancellation, results and feedback. Shown: it refines an abstract
    goal machine, and an accepted goal succeeds with the Fibonacci numbers.
  \<^item> \<open>Diagnostics\<close>, \<open>Priority_Demo\<close> (\<^verbatim>\<open>live_diagnostics_demo.c\<close>, \<^verbatim>\<open>live_fault_demo.c\<close>, \<^verbatim>\<open>live_priority_demo.c\<close>): kernel tasks,
    the queue and the session in one program. Shown: what is published is what the kernel holds, the byte counter is
    exact, the fault demo fails safe, and when a queued item is overwritten. The locale \<open>setup_style\<close> relates their
    ways of sending to the one of \<open>Host_Client\<close>.
  \<^item> \<open>Bench_Qos\<close>, \<open>Bench_Latency\<close> (\<^verbatim>\<open>bench_qos.c\<close>, \<^verbatim>\<open>bench_latency.c\<close>): the measuring programs. Shown: retries, what a round of the
    reliable stream resends, that the runs end, that the reported statistics are right, and an array overrun.
  \<^item> \<open>Libc_Shim\<close>, \<open>Arm_Kernel\<close>, \<open>Arm_Demo\<close> (\<^verbatim>\<open>libc_shim.c\<close>, \<^verbatim>\<open>kernel_arm.c\<close>, \<^verbatim>\<open>context_switch.s\<close>, \<^verbatim>\<open>main.c\<close>): the library functions the
    other theories assume, that a preempted task resumes with its registers, stack pointer and stack, and that the
    two-task demo prints an interleaving of its tasks' lines.
  \<^item> This theory composes firmware, serial line, gateway and agent into the authenticated link from end to end.

  \<^bold>\<open>Loops.\<close> No model uses fuel. Counted loops are structural or have a measure. Loops whose exit the types do not
  guarantee are partial functions: the zero padding of SHA-256, the retransmit sweep, the wait for the UART's
  transmitter, and the loops of the benchmarks that end by the clock; lemmas show that they return, the last two when
  the transmitter always becomes free again and when the clock goes on. Endless loops are modelled for every
  number of iterations, or as step relations.

  \<^bold>\<open>Parameters.\<close> Results of the operating system (allocation, \<^verbatim>\<open>getcontext\<close>, \<^verbatim>\<open>poll\<close> and \<^verbatim>\<open>read\<close>, what a socket receives and
  whether it takes a datagram, the clock), the contents of uninitialised local arrays and the values read from device
  registers are arguments of the definitions or fields of the state, and arbitrary in the theorems, within the
  stated sizes. Numbers on the command line of \<^verbatim>\<open>bench_qos\<close> are natural numbers.

  \<^bold>\<open>Granularity.\<close> The kernel's own operations are interleaved at every point where the processor can be lost. In the
  diagnostics and priority demos the steps are the calls of the queue and the passes of the publishing
  tasks; a preemption inside a message builder is not among them.

  \<^bold>\<open>Not modelled.\<close> Opening sockets and terminals, banner lines and texts on the error stream; rounding of doubles in
  \<^verbatim>\<open>bench_latency\<close>; the vector table, the linker script, the Python and shell tooling; the timing of real hardware.
\<close>

section \<open>The authenticated link from end to end\<close>

text \<open>A sequence of messages through \<^verbatim>\<open>send_frame\<close> of the firmware.\<close>

primrec send_each ::
  "string \<Rightarrow> 'j board_stack_scheme \<Rightarrow> demo_cfg \<Rightarrow> bytes list \<Rightarrow> 'a board_scheme \<Rightarrow> 'a board_scheme option" where
  "send_each err J cfg [] fw = Some fw"
| "send_each err J cfg (p # ps) fw = Option.bind (send_payload err J cfg p (length p) fw) (send_each err J cfg ps)"

lemma send_each_exact:
  assumes "stack_arrays_ok J" "board_ok fw" "SECURE_LINK cfg" "\<forall>p \<in> set ps. length p \<le> 256"
  shows "\<exists>fw'. send_each err J cfg ps fw = Some fw' \<and>
     transmits (dev fw) (concat (map plain_frame (envelopes_from (key_of (g_uplink_ctx fw)) (send_counter (g_uplink_ctx fw)) ps))) (dev fw')"
  using assms(2,4)
proof (induction ps arbitrary: fw)
  case (Cons p ps)
  let ?ctx = "g_uplink_ctx fw"
  obtain u where u: "send_payload err J cfg p (length p) fw = Some (sent cfg (fw\<lparr>dev := u\<rparr>))" "transmits (dev fw) (link_frame cfg ?ctx (take (length p) p)) u"
    using send_payload_exact[OF assms(1) Cons.prems(1) order_refl] Cons.prems(2) by (metis list.set_intros(1))
  let ?fw = "sent cfg (fw\<lparr>dev := u\<rparr>)"
  have ok: "board_ok ?fw" using board_ok_dev[OF Cons.prems(1) u(2)] by simp
  obtain fw' where f: "send_each err J cfg ps ?fw = Some fw'"
      "transmits u (concat (map plain_frame (envelopes_from (key_of ?ctx) (send_counter ?ctx + 1) ps))) (dev fw')"
    using Cons.IH[OF ok] Cons.prems(2) assms(3) by (auto simp: sent_def)
  then show ?case
    using u transmits_trans[OF u(2) f(2)] assms(3) by (simp add: link_frame_def)
qed simp

lemma link_keys: "take 16 g_secure_key = g_secure_key" "DEFAULT_KEY = g_secure_key" "gateway_key None key_buf = Some (g_secure_key, 16)"
  "16 \<le> length g_secure_key"
  by (simp_all add: g_secure_key_def DEFAULT_KEY_def gateway_key_def)

lemma gateway_init_ready:
  "reader_ready 524 (board_reader (gateway_init key n))" "reader_ready 512 (agent_reader (gateway_init key n))"
  by (simp_all add: reader_ready_def gateway_init_def reader_init_ok) (simp_all add: xrce_serial_reader_init_def)

text \<open>Up: whichever envelopes of a sender with the gateway's key arrive, their payloads are what the agent gets.\<close>

lemma uplink_delivers:
  assumes "stack_ok st" "length out = XRCE_SERIAL_MAX_ENCODED_LEN MAX_PAYLOAD" "\<forall>p \<in> set ps. length p \<le> 256" "length ps \<le> 2 ^ 32"
    and "bytes_through (board_byte st out) (concat (map plain_frame (nths (envelopes_from g_secure_key 0 ps) I))) (gateway_init g_secure_key 16) = Some g"
  shows "to_agent g = concat (map plain_frame (nths ps I))"
proof -
  let ?key = g_secure_key and ?g0 = "gateway_init g_secure_key 16"
  have gw: "gateway_ok ?key ?g0" using gateway_init_ok[OF link_keys(4)] link_keys(1) by simp
  have rd: "\<not> have_escape (board_reader ?g0)" "local_addr (board_reader ?g0) = ADDR" "payload_cap (board_reader ?g0) = 524"
    using gateway_init_ready(1)[of ?key 16] by (simp_all add: reader_ready_def)
  have init: "\<not> have_received (uplink_ctx ?g0)" "to_agent ?g0 = []" by (simp_all add: gateway_init_def xrce_secure_init_def)
  obtain cps where c: "nths (envelopes_from ?key 0 ps) I = map (\<lambda>(c, p). envelope ?key c p) cps" "map snd cps = nths ps I" "sorted_wrt (<) (map fst cps)"
    using envelopes_nths[OF assms(4)] by blast
  have "length (snd x) \<le> 256" if "x \<in> set cps" for x
    using that assms(3) set_nths_subset[of ps I] unfolding c(2)[symmetric] by auto
  then have cl: "\<forall>(c, p) \<in> set cps. length p \<le> 316" by fastforce
  have m: "map plain_frame (map (\<lambda>(c, p). envelope ?key c p) cps) = map (\<lambda>(c, p). plain_frame (envelope ?key c p)) cps"
    "map (\<lambda>(c, p). plain_frame p) cps = map plain_frame (nths ps I)"
    unfolding c(2)[symmetric] by (simp_all add: o_def split_beta)
  show ?thesis
    using authentic_frames[OF assms(1) gw assms(2) rd cl c(3)] init assms(5) unfolding c(1) m board_bytes_through by auto
qed

text \<open>Down: the gateway wraps every message of the agent, and the firmware accepts those that arrive.\<close>

lemma downlink_wraps:
  assumes "down_ok st wrapped out2 (down_half (gateway_init g_secure_key 16))" "\<forall>q \<in> set qs. length q \<le> 256"
    and "bytes_through (agent_byte st wrapped out2) (concat (map plain_frame qs)) (gateway_init g_secure_key 16) = Some g"
  shows "to_board g = concat (map plain_frame (envelopes_from g_secure_key 0 qs))"
proof -
  let ?g0 = "gateway_init g_secure_key 16"
  have "frames_in (agent_reader ?g0) (concat (map plain_frame qs)) = qs"
    by (rule frames_in_frames[OF gateway_init_ready(2)]) (use assms(2) in fastforce)
  moreover have "filter (\<lambda>p. length p \<le> 316) qs = qs" using assms(2) by (fastforce simp: filter_id_conv)
  moreover have "to_board ?g0 = []" "key_of (downlink_ctx ?g0) = g_secure_key" "send_counter (downlink_ctx ?g0) = 0"
    using link_keys(1) by (simp_all add: gateway_init_def xrce_secure_init_def key_of_def)
  ultimately show ?thesis using downlink_exact[OF assms(1,3)] by simp
qed

lemma firmware_accepts:
  assumes "stack_ok st" "reader_ready 268 rx" "\<forall>q \<in> set qs. length q \<le> 256" "length qs \<le> 2 ^ 32"
  shows "recv_all st (xrce_secure_init g_secure_key 16) (frames_in rx (concat (map plain_frame (nths (envelopes_from g_secure_key 0 qs) kept)))) =
    Some (map (Pair XRCE_SECURE_OK) (nths qs kept))"
proof -
  let ?key = g_secure_key and ?c = "xrce_secure_init g_secure_key 16"
  obtain cps where d: "nths (envelopes_from ?key 0 qs) kept = map (\<lambda>(c, p). envelope ?key c p) cps" "map snd cps = nths qs kept" "sorted_wrt (<) (map fst cps)"
    using envelopes_nths[OF assms(4)] by blast
  have dl: "\<forall>p \<in> set (map snd cps). length p \<le> 256" using assms(3) set_nths_subset[of qs kept] unfolding d(2) by auto
  have f: "frames_in rx (concat (map plain_frame (map (\<lambda>(c, p). envelope ?key c p) cps))) = map (\<lambda>(c, p). envelope ?key c p) cps"
    by (rule frames_in_frames[OF assms(2)]) (use dl in \<open>auto simp: length_envelope\<close>)
  have k: "key_ok ?c" "key_of ?c = ?key" "\<not> have_received ?c" using link_keys(1,4) by (simp_all add: key_ok_def key_of_def xrce_secure_init_def)
  have m: "map (\<lambda>(c, p). (XRCE_SECURE_OK, p)) cps = map (Pair XRCE_SECURE_OK) (nths qs kept)" unfolding d(2)[symmetric] by (simp add: o_def split_beta)
  have "\<forall>p \<in> set (map snd cps). length p \<le> 316" using dl by fastforce
  from recv_all_fresh[OF assms(1) k(1) this d(3)] k(3) show ?thesis unfolding d(1) f k(2) m by simp
qed

text \<open>
  C11: The authenticated link from the firmware through the gateway to the agent, and back. The firmware, built with
  \<^verbatim>\<open>SECURE_LINK\<close>, sends any messages of at most 256 bytes; any of its frames may be lost on the line, which carries nothing
  but frames, and the rest reach the gateway, run without a key argument, mixed in any way with traffic of the other direction.
  Then the agent gets exactly the messages whose frames arrived, in order. In the other direction, when the
  agent sends any messages of at most 256 bytes, and any of the frames that the gateway makes of them are
  lost, the firmware's reader and its check accept exactly the messages whose frames arrived, in order.
\<close>

theorem secure_link_end_to_end:
  assumes "stack_arrays_ok J" "board_ok fw" "SECURE_LINK cfg" "g_uplink_ctx fw = xrce_secure_init g_secure_key 16"
    and "stack_ok st" "length out = XRCE_SERIAL_MAX_ENCODED_LEN MAX_PAYLOAD" "length wrapped = MAX_PAYLOAD + XRCE_SECURE_OVERHEAD"
    and "length out2 = XRCE_SERIAL_MAX_ENCODED_LEN (MAX_PAYLOAD + XRCE_SECURE_OVERHEAD)"
    and "\<forall>p \<in> set ps \<union> set qs. length p \<le> 256" "length ps \<le> 2 ^ 32" "length qs \<le> 2 ^ 32"
    and "reader_ready 512 agent_rx" "reader_ready 268 board_rx"
  shows "\<exists>fw' ws. send_each err J cfg ps fw = Some fw' \<and> transmits (dev fw) (concat (map plain_frame ws)) (dev fw') \<and>
     (\<forall>I K evs go. reads evs = (concat (map plain_frame (nths ws I)), concat (map plain_frame qs), go) \<longrightarrow>
       (\<exists>g vs. gateway_main st out wrapped out2 key_buf True True [name, path] evs = Some (if go then Gw_running g else Gw_done 0 g) \<and>
          frames_in agent_rx (to_agent g) = nths ps I \<and>
          to_board g = concat (map plain_frame vs) \<and>
          recv_all (mac_stack J) (xrce_secure_init g_secure_key 16) (frames_in board_rx (concat (map plain_frame (nths vs K)))) =
            Some (map (Pair XRCE_SECURE_OK) (nths qs K))))"
proof -
  let ?g0 = "gateway_init g_secure_key 16"
  define ws where "ws = envelopes_from g_secure_key 0 ps"
  have short: "\<forall>p \<in> set ps. length p \<le> 256" "\<forall>q \<in> set qs. length q \<le> 256" using assms(9) by auto
  have ctx: "key_of (g_uplink_ctx fw) = g_secure_key" "send_counter (g_uplink_ctx fw) = 0"
    using assms(4) link_keys(1) by (simp_all add: xrce_secure_init_def key_of_def)
  obtain fw' where fw': "send_each err J cfg ps fw = Some fw'" "transmits (dev fw) (concat (map plain_frame ws)) (dev fw')"
    using send_each_exact[OF assms(1-3) short(1), of err] ctx by (auto simp: ws_def)
  note ok = gateway_init_halves[OF assms(5) link_keys(4) assms(6-8)]
  have sj: "stack_ok (mac_stack J)" using assms(1) by (simp add: stack_arrays_ok_def)
  have "\<exists>g vs. gateway_main st out wrapped out2 key_buf True True [name, path] evs = Some (if go then Gw_running g else Gw_done 0 g) \<and>
      frames_in agent_rx (to_agent g) = nths ps I \<and> to_board g = concat (map plain_frame vs) \<and>
      recv_all (mac_stack J) (xrce_secure_init g_secure_key 16) (frames_in board_rx (concat (map plain_frame (nths vs K)))) =
        Some (map (Pair XRCE_SECURE_OK) (nths qs K))"
    if r: "reads evs = (concat (map plain_frame (nths ws I)), concat (map plain_frame qs), go)" for I K evs go
  proof -
    obtain g gu gd where l: "gateway_loop st out wrapped out2 evs ?g0 = Some (go, g)"
        "bytes_through (board_byte st out) (concat (map plain_frame (nths ws I))) ?g0 = Some gu" "up_half gu = up_half g"
        "bytes_through (agent_byte st wrapped out2) (concat (map plain_frame qs)) ?g0 = Some gd" "down_half gd = down_half g"
      using loop_halves[OF ok r] by blast
    have ta: "to_agent g = concat (map plain_frame (nths ps I))"
      using uplink_delivers[OF assms(5,6) short(1) assms(10) l(2)[unfolded ws_def]] l(3) by (simp add: up_half_def)
    have tb: "to_board g = concat (map plain_frame (envelopes_from g_secure_key 0 qs))"
      using downlink_wraps[OF ok(2) short(2) l(4)] l(5) by (simp add: down_half_def)
    have "frames_in agent_rx (to_agent g) = nths ps I"
      unfolding ta by (rule frames_in_frames[OF assms(12)]) (use short(1) set_nths_subset[of ps I] in fastforce)
    moreover have "gateway_main st out wrapped out2 key_buf True True [name, path] evs = Some (if go then Gw_running g else Gw_done 0 g)"
      using l(1) by (simp add: gateway_main_def link_keys(3))
    ultimately show ?thesis using tb firmware_accepts[OF sj assms(13) short(2) assms(11)] by blast
  qed
  then show ?thesis using fw' by blast
qed

lemma reads_board_only: "reads (map (\<lambda>b. Poll_ready (Some (Byte b)) None) bs) = (bs, [], True)"
  by (induction bs) (simp_all add: byte_of_def)

theorem secure_link_end_to_end_witness:
  "let cfg = \<lparr>SECURE_LINK = True, NODE_ID = 0\<rparr>; fw = firmware_init cfg (uart_init (sample_uart (\<lambda>t. 0xA0))) in
   \<exists>fw' evs g. send_each '''' sample_stack cfg [[1, 2], [3]] fw = Some fw' \<and>
     gateway_main zero_stack (replicate 1037 0) (replicate 524 0) (replicate 1061 0) (replicate 64 0) True True [[0x67], [0x70]] evs = Some (Gw_running g) \<and>
     frames_in (agent_reader (gateway_init DEFAULT_KEY 16)) (to_agent g) = [[3]]"
proof -
  let ?cfg = "\<lparr>SECURE_LINK = True, NODE_ID = 0\<rparr>"
  let ?fw = "firmware_init ?cfg (uart_init (sample_uart (\<lambda>t. 0xA0)))"
  have J: "stack_arrays_ok sample_stack" using sample_stack_ok by (simp add: demo_ok_def)
  have ok: "board_ok ?fw" using firmware_init_ok[OF sample_uart_ready, of ?cfg] by (simp add: fw_ok_def)
  have fw: "g_uplink_ctx ?fw = xrce_secure_init g_secure_key 16" by (simp add: firmware_init_def Let_def)
  have "g_rx_reader ?fw = xrce_serial_reader_init 0 (replicate 268 0) 268" by (simp add: firmware_init_def Let_def)
  then have rx: "reader_ready 268 (g_rx_reader ?fw)" by (simp add: reader_ready_def reader_init_ok) (simp add: xrce_serial_reader_init_def)
  have l: "length (replicate 1037 (0 :: u8)) = XRCE_SERIAL_MAX_ENCODED_LEN MAX_PAYLOAD" "length (replicate 524 (0 :: u8)) = MAX_PAYLOAD + XRCE_SECURE_OVERHEAD"
    "length (replicate 1061 (0 :: u8)) = XRCE_SERIAL_MAX_ENCODED_LEN (MAX_PAYLOAD + XRCE_SECURE_OVERHEAD)"
    by (simp_all add: XRCE_SERIAL_MAX_ENCODED_LEN_def)
  have p: "\<forall>p \<in> set [[1, 2 :: u8], [3]] \<union> set []. length p \<le> 256" "length [[1, 2 :: u8], [3]] \<le> 2 ^ 32" "length ([] :: bytes list) \<le> 2 ^ 32" by simp_all
  obtain fw' ws where e: "send_each '''' sample_stack ?cfg [[1, 2], [3]] ?fw = Some fw'"
    and gwy: "\<And>I K evs go. reads evs = (concat (map plain_frame (nths ws I)), concat (map plain_frame []), go) \<Longrightarrow>
       \<exists>g vs. gateway_main zero_stack (replicate 1037 0) (replicate 524 0) (replicate 1061 0) (replicate 64 0) True True [[0x67], [0x70]] evs =
          Some (if go then Gw_running g else Gw_done 0 g) \<and>
          frames_in (agent_reader (gateway_init DEFAULT_KEY 16)) (to_agent g) = nths [[1, 2], [3]] I"
    using secure_link_end_to_end[OF J ok _ fw zero_stack_ok l p gateway_init_ready(2) rx, of ?cfg "''''" "replicate 64 0" "[0x67]" "[0x70]" DEFAULT_KEY 16]
    by fastforce
  have n: "nths [[1, 2], [3 :: u8]] {1} = [[3]]" by (simp add: nths_Cons)
  show ?thesis
    using e gwy[of "map (\<lambda>b. Poll_ready (Some (Byte b)) None) (concat (map plain_frame (nths ws {1})))" "{1}" True] reads_board_only n
    by (fastforce simp: Let_def)
qed

end
